(* ===== verification/Prelude.thy ===== *)
theory Prelude
  imports Main "HOL-Library.Word" "HOL-Library.Finite_Map"
begin

text \<open>
  Shared vocabulary of the development: the outcome of a Rust computation (a value, an
  \<open>Err\<close> or a panic), stateful computations over it with the combinators that the \<open>?\<close>
  operator, \<open>map_err\<close> and \<open>expect\<close> stand for, checked machine arithmetic, and the
  collections of rules and the list and map lemmas the components share.
\<close>

named_theorems comp_simps \<open>how the combinators of stateful computations evaluate\<close>
named_theorems state_simps \<open>how the state database operations act on lookups\<close>

section \<open>Outcomes\<close>

text \<open>
  A Rust function of type \<open>Result<A, E>\<close> returns \<open>Ok\<close> or \<open>Err\<close>, or does not return because
  it panics; the panic message is kept so that two panics can be told apart.
\<close>

datatype ('a, 'e) rs = Ok 'a | Err 'e | Panic string

text \<open>A closure that returns no \<open>Result\<close> can still panic: the left summand is the message.\<close>

type_synonym 'a panicking = "string + 'a"

fun is_Ok :: "('a, 'e) rs \<Rightarrow> bool" where
  "is_Ok (Ok _) = True"
| "is_Ok (Err _) = False"
| "is_Ok (Panic _) = False"

fun is_Panic :: "('a, 'e) rs \<Rightarrow> bool" where
  "is_Panic (Ok _) = False"
| "is_Panic (Err _) = False"
| "is_Panic (Panic _) = True"

text \<open>\<open>Result::unwrap_or_default\<close>.\<close>

fun unwrap_or :: "'a \<Rightarrow> ('a, 'e) rs \<Rightarrow> 'a panicking" where
  "unwrap_or d (Ok a) = Inr a"
| "unwrap_or d (Err _) = Inr d"
| "unwrap_or d (Panic p) = Inl p"

section \<open>Stateful computations\<close>

text \<open>
  \<open>('s, 'a, 'e) comp\<close> is code that may read and change a state \<open>'s\<close>. The state reached is
  returned in every case: an \<open>Err\<close> or a panic does not undo what was written before it.
\<close>

type_synonym ('s, 'a, 'e) comp = "'s \<Rightarrow> ('a, 'e) rs \<times> 's"

definition ret :: "'a \<Rightarrow> ('s, 'a, 'e) comp" where
  "ret a s = (Ok a, s)"

definition throw :: "'e \<Rightarrow> ('s, 'a, 'e) comp" where
  "throw e s = (Err e, s)"

definition panic :: "string \<Rightarrow> ('s, 'a, 'e) comp" where
  "panic msg s = (Panic msg, s)"

text \<open>\<open>m?; f\<close>: go on with the value, return early with the error.\<close>

definition bindC :: "('s, 'a, 'e) comp \<Rightarrow> ('a \<Rightarrow> ('s, 'b, 'e) comp) \<Rightarrow> ('s, 'b, 'e) comp" where
  "bindC m f s = (case m s of
     (Ok a, s') \<Rightarrow> f a s'
   | (Err e, s') \<Rightarrow> (Err e, s')
   | (Panic p, s') \<Rightarrow> (Panic p, s'))"

definition map_err :: "('e \<Rightarrow> 'f) \<Rightarrow> ('s, 'a, 'e) comp \<Rightarrow> ('s, 'a, 'f) comp" where
  "map_err g m s = (case m s of
     (Ok a, s') \<Rightarrow> (Ok a, s')
   | (Err e, s') \<Rightarrow> (Err (g e), s')
   | (Panic p, s') \<Rightarrow> (Panic p, s'))"

text \<open>\<open>Result::expect\<close>: an error becomes a panic.\<close>

definition expectC :: "string \<Rightarrow> ('s, 'a, 'e) comp \<Rightarrow> ('s, 'a, 'f) comp" where
  "expectC msg m s = (case m s of
     (Ok a, s') \<Rightarrow> (Ok a, s')
   | (Err e, s') \<Rightarrow> (Panic msg, s')
   | (Panic p, s') \<Rightarrow> (Panic p, s'))"

text \<open>Code that neither reads nor writes the state, and a closure that may panic.\<close>

definition liftR :: "('a, 'e) rs \<Rightarrow> ('s, 'a, 'e) comp" where
  "liftR r s = (r, s)"

definition liftP :: "'a panicking \<Rightarrow> ('s, 'a, 'e) comp" where
  "liftP x s = (case x of Inl p \<Rightarrow> (Panic p, s) | Inr a \<Rightarrow> (Ok a, s))"

fun mapC :: "('x \<Rightarrow> ('s, unit, 'e) comp) \<Rightarrow> 'x list \<Rightarrow> ('s, unit, 'e) comp" where
  "mapC f [] = ret ()"
| "mapC f (x # xs) = bindC (f x) (\<lambda>_. mapC f xs)"

lemma bindC_Ok_iff:
  "bindC m f s = (Ok b, s'') \<longleftrightarrow> (\<exists>a s'. m s = (Ok a, s') \<and> f a s' = (Ok b, s''))"
  by (auto simp: bindC_def split: prod.splits rs.splits)

lemma bindC_Err_iff:
  "bindC m f s = (Err e, s'') \<longleftrightarrow>
     m s = (Err e, s'') \<or> (\<exists>a s'. m s = (Ok a, s') \<and> f a s' = (Err e, s''))"
  by (auto simp: bindC_def split: prod.splits rs.splits)

lemma bindC_Panic_iff:
  "bindC m f s = (Panic p, s'') \<longleftrightarrow>
     m s = (Panic p, s'') \<or> (\<exists>a s'. m s = (Ok a, s') \<and> f a s' = (Panic p, s''))"
  by (auto simp: bindC_def split: prod.splits rs.splits)

lemma map_err_Ok_iff: "map_err g m s = (Ok a, s') \<longleftrightarrow> m s = (Ok a, s')"
  by (auto simp: map_err_def split: prod.splits rs.splits)

lemma map_err_Err_iff:
  "map_err g m s = (Err f, s') \<longleftrightarrow> (\<exists>e. m s = (Err e, s') \<and> f = g e)"
  by (auto simp: map_err_def split: prod.splits rs.splits)

lemma map_err_Panic_iff: "map_err g m s = (Panic p, s') \<longleftrightarrow> m s = (Panic p, s')"
  by (auto simp: map_err_def split: prod.splits rs.splits)

lemma expectC_Ok_iff: "expectC msg m s = (Ok a, s') \<longleftrightarrow> m s = (Ok a, s')"
  by (auto simp: expectC_def split: prod.splits rs.splits)

lemma expectC_Err_iff: "expectC msg m s = (Err e, s') \<longleftrightarrow> False"
  by (auto simp: expectC_def split: prod.splits rs.splits)

lemma expectC_Panic_iff:
  "expectC msg m s = (Panic p, s') \<longleftrightarrow>
     m s = (Panic p, s') \<or> (\<exists>e. m s = (Err e, s') \<and> p = msg)"
  by (auto simp: expectC_def split: prod.splits rs.splits)

lemma liftP_Ok_iff: "liftP x s = (Ok a, s') \<longleftrightarrow> x = Inr a \<and> s' = s"
  by (auto simp: liftP_def split: sum.splits)

lemma liftP_Err_iff: "liftP x s = (Err e, s') \<longleftrightarrow> False"
  by (auto simp: liftP_def split: sum.splits)

lemma liftP_Panic_iff: "liftP x s = (Panic p, s') \<longleftrightarrow> x = Inl p \<and> s' = s"
  by (auto simp: liftP_def split: sum.splits)

lemmas liftP_iffs = liftP_Ok_iff liftP_Err_iff liftP_Panic_iff

lemmas comp_iffs =
  bindC_Ok_iff bindC_Err_iff bindC_Panic_iff map_err_Ok_iff map_err_Err_iff map_err_Panic_iff
  expectC_Ok_iff expectC_Err_iff expectC_Panic_iff liftP_iffs

lemma bindC_evals [comp_simps]:
  "m s = (Ok a, s') \<Longrightarrow> bindC m f s = f a s'"
  "m s = (Err e, s') \<Longrightarrow> bindC m f s = (Err e, s')"
  "m s = (Panic p, s') \<Longrightarrow> bindC m f s = (Panic p, s')"
  by (simp_all add: bindC_def)

lemma map_err_evals [comp_simps]:
  "m s = (Ok a, s') \<Longrightarrow> map_err g m s = (Ok a, s')"
  "m s = (Err e, s') \<Longrightarrow> map_err g m s = (Err (g e), s')"
  "m s = (Panic p, s') \<Longrightarrow> map_err g m s = (Panic p, s')"
  by (simp_all add: map_err_def)

lemma expectC_evals [comp_simps]:
  "m s = (Ok a, s') \<Longrightarrow> expectC msg m s = (Ok a, s')"
  "m s = (Err e, s') \<Longrightarrow> expectC msg m s = (Panic msg, s')"
  "m s = (Panic p, s') \<Longrightarrow> expectC msg m s = (Panic p, s')"
  by (simp_all add: expectC_def)

lemma pure_evals [comp_simps, simp]:
  "ret a s = (Ok a, s)"
  "throw e s = (Err e, s)"
  "panic p s = (Panic p, s)"
  "liftR r s = (r, s)"
  "liftP (Inl p) s = (Panic p, s)"
  "liftP (Inr a) s = (Ok a, s)"
  by (simp_all add: ret_def throw_def panic_def liftR_def liftP_def)

lemma bindC_assoc: "bindC (bindC m f) g = bindC m (\<lambda>a. bindC (f a) g)"
  by (auto simp: bindC_def fun_eq_iff split: prod.splits rs.splits)

section \<open>Machine arithmetic\<close>

type_synonym u8 = "8 word"
type_synonym u32 = "32 word"
type_synonym u64 = "64 word"
type_synonym u128 = "128 word"

text \<open>
  Rust's \<open>+\<close>: with overflow checks (the debug profile) an overflow panics, without them
  (the release profile) it wraps. \<open>checked_sub\<close> gives \<open>None\<close> below zero.
\<close>

definition u128_add :: "bool \<Rightarrow> u128 \<Rightarrow> u128 \<Rightarrow> u128 panicking" where
  "u128_add checks a b =
     (if checks \<and> 2 ^ 128 \<le> unat a + unat b then Inl ''attempt to add with overflow''
      else Inr (a + b))"

definition checked_sub :: "u128 \<Rightarrow> u128 \<Rightarrow> u128 option" where
  "checked_sub a b = (if b \<le> a then Some (a - b) else None)"

lemma unat_u128: "unat (a :: u128) < 2 ^ 128"
  by (rule order.strict_trans2[OF unsigned_less]) simp

lemma unat_add_no_overflow: "unat a + unat b < 2 ^ 128 \<Longrightarrow> unat (a + b :: u128) = unat a + unat b"
  by (simp add: unat_word_ariths)

lemma unat_sub_no_underflow: "b \<le> a \<Longrightarrow> unat (a - b :: u128) = unat a - unat b"
  by (simp add: unat_sub)

lemma u128_add_Inr_checked:
  "u128_add True a b = Inr c \<Longrightarrow> c = a + b \<and> unat c = unat a + unat b"
  by (auto simp: u128_add_def unat_add_no_overflow split: if_splits)

lemma u128_add_Inr: "u128_add chk a b = Inr c \<Longrightarrow> c = a + b"
  by (auto simp: u128_add_def split: if_splits)

lemma u128_add_fits: "unat a + unat b < 2 ^ 128 \<Longrightarrow> u128_add chk a b = Inr (a + b)"
  by (simp add: u128_add_def)

lemma checked_sub_Some: "checked_sub a b = Some c \<Longrightarrow> b \<le> a \<and> c = a - b \<and> unat c = unat a - unat b"
  by (auto simp: checked_sub_def unat_sub_no_underflow split: if_splits)

section \<open>Maps with an unspecified iteration order\<close>

text \<open>
  A \<open>HashMap\<close> is a finite map. Rust iterates over it in an unspecified order; the model
  iterates in the order of the keys, and \<open>fold_insert_any_order\<close> shows that any other
  enumeration of the same entries inserts the same map.
\<close>

abbreviation entries :: "('k::linorder, 'v) fmap \<Rightarrow> ('k \<times> 'v) list" where
  "entries \<equiv> sorted_list_of_fmap"

lemma distinct_entries: "distinct (map fst (entries m))"
  by (simp add: sorted_list_of_fmap_def comp_def sorted_list_of_fset.rep_eq)

lemma fold_fmupd_lookup:
  "fmlookup (fold (\<lambda>(k, v). fmupd k (f v)) xs m) k =
     (case map_of (rev xs) k of Some v \<Rightarrow> Some (f v) | None \<Rightarrow> fmlookup m k)"
  by (induction xs arbitrary: m) (auto simp: map_add_def split: option.splits)

lemma map_of_rev_distinct: "distinct (map fst xs) \<Longrightarrow> map_of (rev xs) = map_of xs"
proof (induction xs)
  case Nil
  then show ?case by simp
next
  case (Cons x xs)
  then have "map_of xs (fst x) = None"
    by (simp add: map_of_eq_None_iff)
  with Cons show ?case
    by (auto simp: fun_eq_iff map_add_def split: option.splits)
qed

lemma fold_insert_any_order:
  assumes "distinct (map fst xs)" "distinct (map fst ys)" "map_of xs = map_of ys"
  shows "fold (\<lambda>(k, v). fmupd k (f v)) xs m = fold (\<lambda>(k, v). fmupd k (f v)) ys m"
  using assms by (intro fmap_ext) (simp add: fold_fmupd_lookup map_of_rev_distinct)

lemma fold_entries_lookup [state_simps]:
  "fmlookup (fold (\<lambda>(k, v). fmupd k (f v)) (entries n) m) k =
     (case fmlookup n k of Some v \<Rightarrow> Some (f v) | None \<Rightarrow> fmlookup m k)"
  by (simp add: fold_fmupd_lookup map_of_rev_distinct distinct_entries)

end
