(* ===== verification/Primitives.thy ===== *)
theory Primitives
  imports Prelude "HOL-Library.List_Lexorder"
begin

text \<open>
  The crate \<open>primitives\<close>: keys and values of the storage, identifiers, the debug printers of
  byte slices, and \<open>Public\<close>, the account identifier. The ed25519 crate is not part of the
  repository: what the code uses of it (the bytes of a public key, the partial inverse of that,
  and the public key of the default key pair) is the record \<open>edc_env\<close>, a parameter of every
  definition that needs it; \<open>edc_ok\<close> states its documented behaviour.
\<close>

section \<open>Identifiers, keys and values\<close>

type_synonym bytes = "u8 list"
type_synonym thread_id = u64
type_synonym transaction_id = u32
type_synonym balance = u128

datatype state_key = StateKey (key_bytes: bytes)
datatype state_value = StateValue (value_bytes: bytes)

definition default_value :: state_value where
  "default_value = StateValue []"

text \<open>\<open>derive(Ord)\<close>: a key is compared by its bytes, lexicographically.\<close>

instantiation state_key :: linorder
begin

definition less_eq_state_key :: "state_key \<Rightarrow> state_key \<Rightarrow> bool" where
  "less_eq_state_key a b \<longleftrightarrow> key_bytes a \<le> key_bytes b"

definition less_state_key :: "state_key \<Rightarrow> state_key \<Rightarrow> bool" where
  "less_state_key a b \<longleftrightarrow> key_bytes a < key_bytes b"

instance
  by standard (auto simp: less_eq_state_key_def less_state_key_def state_key.expand)

end

section \<open>Debug output of byte slices\<close>

definition hex_digit :: "nat \<Rightarrow> char" where
  "hex_digit n = (if n < 10 then char_of (48 + n) else char_of (87 + n))"

text \<open>\<open>{}\<close> of a byte.\<close>

definition dec_byte :: "u8 \<Rightarrow> string" where
  "dec_byte w = (let n = unat w in
     (if n < 100 then [] else [hex_digit (n div 100)])
   @ (if n < 10 then [] else [hex_digit (n div 10 mod 10)]) @ [hex_digit (n mod 10)])"

fun dec_list :: "bytes \<Rightarrow> string" where
  "dec_list [] = []"
| "dec_list [b] = dec_byte b"
| "dec_list (b # bs) = dec_byte b @ '', '' @ dec_list bs"

text \<open>
  \<open>Slice\<close> prints a long slice by six of its bytes. The last index the code prints is
  \<open>len - 2\<close>, twice.
\<close>

definition slice_fmt :: "bytes \<Rightarrow> string" where
  "slice_fmt b =
     (if length b > 6
      then ''['' @ dec_list [b ! 0, b ! 1, b ! 2] @ '' .. ''
         @ dec_list [b ! (length b - 3), b ! (length b - 2), b ! (length b - 2)] @ '']''
      else ''['' @ dec_list b @ '']'')"

text \<open>\<open>{:x}\<close> of a byte: no leading zero.\<close>

definition hex_byte :: "u8 \<Rightarrow> string" where
  "hex_byte w = (let n = unat w in
     if n < 16 then [hex_digit n] else [hex_digit (n div 16), hex_digit (n mod 16)])"

fun hex_bytes :: "bytes \<Rightarrow> string" where
  "hex_bytes [] = []"
| "hex_bytes (b # bs) = hex_byte b @ hex_bytes bs"

definition hex_slice_fmt :: "bytes \<Rightarrow> string" where
  "hex_slice_fmt bs = ''0x'' @ hex_bytes bs"

definition state_key_fmt :: "state_key \<Rightarrow> string" where
  "state_key_fmt k = ''Key ['' @ hex_slice_fmt (key_bytes k) @ '']''"

definition state_value_fmt :: "state_value \<Rightarrow> string" where
  "state_value_fmt v = ''Value ['' @ hex_slice_fmt (value_bytes v) @ '']''"

section \<open>Account identifiers\<close>

record 'p edc_env =
  debug_build :: bool
  pk_as_ref :: "'p \<Rightarrow> bytes"
  pk_from_bytes :: "bytes \<Rightarrow> 'p option"
  default_pk :: 'p

definition edc_ok :: "('p, 'z) edc_env_scheme \<Rightarrow> bool" where
  "edc_ok E \<longleftrightarrow>
     (\<forall>p. length (pk_as_ref E p) = 32 \<and> pk_from_bytes E (pk_as_ref E p) = Some p)"

text \<open>
  \<open>Encode\<close> and \<open>Decode\<close> of \<open>Public\<close>. Decoding takes its input from a byte slice and hands the
  rest back; an empty input gives the default account, an input shorter than a key panics.
\<close>

definition public_encode :: "('p, 'z) edc_env_scheme \<Rightarrow> 'p \<Rightarrow> bytes" where
  "public_encode E p = pk_as_ref E p"

definition public_decode :: "('p, 'z) edc_env_scheme \<Rightarrow> bytes \<Rightarrow> ('p \<times> bytes, string) rs" where
  "public_decode E inp =
     (if length inp = 0 then Ok (default_pk E, inp)
      else if length inp < 32 then Panic ''Encoded public mut be exactly `PUBLIC_KEY_LENGTH`''
      else (case pk_from_bytes E (take 32 inp) of
              Some p \<Rightarrow> Ok (p, drop 32 inp)
            | None \<Rightarrow> Err ''Failed to build public from bytes''))"

lemma public_encode_length: "edc_ok E \<Longrightarrow> length (public_encode E p) = 32"
  by (simp add: edc_ok_def public_encode_def)

lemma public_decode_encode:
  "edc_ok E \<Longrightarrow> public_decode E (public_encode E p @ rest) = Ok (p, rest)"
  by (simp add: edc_ok_def public_encode_def public_decode_def)

lemma public_encode_inj: "edc_ok E \<Longrightarrow> public_encode E p = public_encode E q \<longleftrightarrow> p = q"
  by (metis edc_ok_def option.inject public_encode_def)

lemma public_decode_empty: "public_decode E [] = Ok (default_pk E, [])"
  by (simp add: public_decode_def)

end
