(* ===== verification/Taint_State.thy ===== *)
theory Taint_State
  imports Prelude
begin

text \<open>
  The crate \<open>state\<close>: \<open>TaintState\<close>, a map from keys to values that carry the identifier of the
  thread that owns them (\<open>state/src/lib.rs\<close>). \<open>read\<close> and \<open>write\<close> are written as the two critical
  sections they consist of: one under the read lock (\<open>_shared\<close>) and, when the key has no owner
  yet, one under the write lock (\<open>_excl\<close>). \<open>ts_read\<close> and \<open>ts_write\<close> run both without
  interference; what happens when other threads get in between is in \<open>Taint_Interleaving\<close>.
  The contract of \<open>GenericState\<close> is the locale \<open>generic_state\<close>. \<open>V: Default\<close> is the argument \<open>d\<close>.
  The sleeps that simulate a slow disk and the log lines are not modelled.
\<close>

section \<open>Values with a taint\<close>

record ('v, 't) tainted =
  sv_data :: 'v
  sv_taint :: "'t option"

definition sv_new :: "'v \<Rightarrow> 't \<Rightarrow> ('v, 't) tainted" where
  "sv_new value taint = \<lparr>sv_data = value, sv_taint = Some taint\<rparr>"

definition sv_new_taint :: "'v \<Rightarrow> 't \<Rightarrow> ('v, 't) tainted" where
  "sv_new_taint d taint = \<lparr>sv_data = d, sv_taint = Some taint\<rparr>"

definition sv_new_data :: "'v \<Rightarrow> ('v, 't) tainted" where
  "sv_new_data value = \<lparr>sv_data = value, sv_taint = None\<rparr>"

text \<open>\<open>PartialEq\<close> compares the data and ignores the taint.\<close>

definition sv_eq :: "('v, 't) tainted \<Rightarrow> ('v, 't) tainted \<Rightarrow> bool" where
  "sv_eq a b \<longleftrightarrow> sv_data a = sv_data b"

lemma sv_new_sel [simp]:
  "sv_data (sv_new v t) = v" "sv_taint (sv_new v t) = Some t"
  "sv_data (sv_new_taint v t) = v" "sv_taint (sv_new_taint v t) = Some t"
  "sv_data (sv_new_data v) = v" "sv_taint (sv_new_data v) = None"
  by (simp_all add: sv_new_def sv_new_taint_def sv_new_data_def)

lemma tainted_updates:
  fixes e :: "('v, 't) tainted"
  shows "e\<lparr>sv_data := v\<rparr> = \<lparr>sv_data = v, sv_taint = sv_taint e\<rparr>"
    and "e\<lparr>sv_taint := t\<rparr> = \<lparr>sv_data = sv_data e, sv_taint = t\<rparr>"
    and "e\<lparr>sv_data := v, sv_taint := t\<rparr> = \<lparr>sv_data = v, sv_taint = t\<rparr>"
  by (cases e; simp)+

section \<open>Operations that ignore the taint\<close>

type_synonym ('k, 'v, 't) state_map = "('k, ('v, 't) tainted) fmap"

definition ts_new :: "('k, 'v, 't) state_map" where
  "ts_new = fmempty"

definition unsafe_insert ::
  "'k \<Rightarrow> ('v, 't) tainted \<Rightarrow> ('k, 'v, 't) state_map \<Rightarrow> ('k, 'v, 't) state_map" where
  "unsafe_insert at value m = fmupd at value m"

definition unsafe_taint ::
  "'v \<Rightarrow> 'k \<Rightarrow> 't \<Rightarrow> ('k, 'v, 't) state_map \<Rightarrow> ('k, 'v, 't) state_map" where
  "unsafe_taint d at taint m = fmupd at (sv_new_taint d taint) m"

definition unsafe_insert_genesis_value ::
  "'k \<Rightarrow> 'v \<Rightarrow> ('k, 'v, 't) state_map \<Rightarrow> ('k, 'v, 't) state_map" where
  "unsafe_insert_genesis_value at value m = fmupd at (sv_new_data value) m"

definition dump :: "('k, 'v, 't) state_map \<Rightarrow> ('k, 'v, 't) state_map" where
  "dump m = m"

definition unsafe_duplicate ::
  "('k::linorder, 'v, 't) state_map \<Rightarrow> ('k, 'v, 't) state_map \<Rightarrow> ('k, 'v, 't) state_map" where
  "unsafe_duplicate initial m = fold (\<lambda>(k, v). unsafe_insert k v) (entries (dump initial)) m"

definition unsafe_clean :: "('k, 'v, 't) state_map \<Rightarrow> ('k, 'v, 't) state_map" where
  "unsafe_clean m = fmempty"

definition unsafe_len :: "('k, 'v, 't) state_map \<Rightarrow> nat" where
  "unsafe_len m = fcard (fmdom m)"

definition unsafe_read :: "'k \<Rightarrow> ('k, 'v, 't) state_map \<Rightarrow> ('v, 't) tainted option" where
  "unsafe_read k m = fmlookup m k"

definition unsafe_read_value :: "'k \<Rightarrow> ('k, 'v, 't) state_map \<Rightarrow> 'v option" where
  "unsafe_read_value k m = map_option sv_data (unsafe_read k m)"

definition unsafe_read_taint :: "'k \<Rightarrow> ('k, 'v, 't) state_map \<Rightarrow> 't option" where
  "unsafe_read_taint k m = Option.bind (unsafe_read k m) sv_taint"

definition state_eq :: "('k, 'v, 't) state_map \<Rightarrow> ('k, 'v, 't) state_map \<Rightarrow> bool" where
  "state_eq self other \<longleftrightarrow>
     fmpred (\<lambda>k v. case fmlookup other k of Some vv \<Rightarrow> sv_data v = sv_data vv | None \<Rightarrow> False) self
     \<and> fcard (fmdom self) = fcard (fmdom other)"

section \<open>Tainting reads and writes\<close>

text \<open>Which branch a thread goes to take the write lock for, once it dropped the read lock.\<close>

datatype lock_path = Untainted | Missing

definition ts_read_shared ::
  "'k \<Rightarrow> 't \<Rightarrow> ('k, 'v, 't) state_map \<Rightarrow> ('v, 't) rs + lock_path" where
  "ts_read_shared key current m = (case fmlookup m key of
     Some entry \<Rightarrow>
       (case sv_taint entry of
          Some owner \<Rightarrow> Inl (if owner = current then Ok (sv_data entry) else Err owner)
        | None \<Rightarrow> Inr Untainted)
   | None \<Rightarrow> Inr Missing)"

definition ts_read_excl ::
  "'v \<Rightarrow> lock_path \<Rightarrow> 'k \<Rightarrow> 't \<Rightarrow> (('k, 'v, 't) state_map, 'v, 't) comp" where
  "ts_read_excl d path key current m = (case path of
     Untainted \<Rightarrow> (case fmlookup m key of
         None \<Rightarrow> (Panic ''Entry has been already checked to exist.'', m)
       | Some entry \<Rightarrow> (case sv_taint entry of
           Some owner \<Rightarrow>
             (if owner = current then (Panic ''Current thread cannot be the owner.'', m)
              else (Err owner, m))
         | None \<Rightarrow> (Ok (sv_data entry), fmupd key (entry\<lparr>sv_taint := Some current\<rparr>) m)))
   | Missing \<Rightarrow> (case fmlookup m key of
         Some entry \<Rightarrow> (case sv_taint entry of
           None \<Rightarrow> (Panic ''Newly created entry at runtime MUST have a taint.'', m)
         | Some owner \<Rightarrow>
             (if owner = current then (Panic ''Current thread cannot be the owner.'', m)
              else (Err owner, m)))
       | None \<Rightarrow> (Ok d, fmupd key (sv_new_taint d current) m)))"

definition ts_read :: "'v \<Rightarrow> 'k \<Rightarrow> 't \<Rightarrow> (('k, 'v, 't) state_map, 'v, 't) comp" where
  "ts_read d key current m = (case ts_read_shared key current m of
     Inl outcome \<Rightarrow> (outcome, m)
   | Inr path \<Rightarrow> ts_read_excl d path key current m)"

text \<open>The owner writes through the \<open>RefCell\<close> while it holds only the read lock.\<close>

definition ts_write_shared ::
  "'k \<Rightarrow> 'v \<Rightarrow> 't \<Rightarrow> ('k, 'v, 't) state_map
     \<Rightarrow> (unit, 't) rs \<times> ('k, 'v, 't) state_map + lock_path" where
  "ts_write_shared key value current m = (case fmlookup m key of
     Some entry \<Rightarrow>
       (case sv_taint entry of
          Some owner \<Rightarrow>
            Inl (if owner = current then (Ok (), fmupd key (entry\<lparr>sv_data := value\<rparr>) m)
                 else (Err owner, m))
        | None \<Rightarrow> Inr Untainted)
   | None \<Rightarrow> Inr Missing)"

definition ts_write_excl ::
  "lock_path \<Rightarrow> 'k \<Rightarrow> 'v \<Rightarrow> 't \<Rightarrow> (('k, 'v, 't) state_map, unit, 't) comp" where
  "ts_write_excl path key value current m = (case path of
     Untainted \<Rightarrow> (case fmlookup m key of
         None \<Rightarrow> (Panic ''Entry has been already checked to exist.'', m)
       | Some entry \<Rightarrow> (case sv_taint entry of
           Some owner \<Rightarrow>
             (if owner = current then (Panic ''Current thread cannot be the owner.'', m)
              else (Err owner, m))
         | None \<Rightarrow>
             (Ok (), fmupd key (entry\<lparr>sv_data := value, sv_taint := Some current\<rparr>) m)))
   | Missing \<Rightarrow> (case fmlookup m key of
         Some entry \<Rightarrow> (case sv_taint entry of
           None \<Rightarrow> (Panic ''Newly created entry at runtime MUST have a taint.'', m)
         | Some owner \<Rightarrow>
             (if owner = current then (Panic ''Current thread cannot be the owner.'', m)
              else (Err owner, m)))
       | None \<Rightarrow> (Ok (), fmupd key (sv_new value current) m)))"

definition ts_write :: "'k \<Rightarrow> 'v \<Rightarrow> 't \<Rightarrow> (('k, 'v, 't) state_map, unit, 't) comp" where
  "ts_write key value current m = (case ts_write_shared key value current m of
     Inl outcome \<Rightarrow> outcome
   | Inr path \<Rightarrow> ts_write_excl path key value current m)"

text \<open>The default method of the trait: a read, the update of the value, a write.\<close>

definition gs_mutate ::
  "('k \<Rightarrow> 't \<Rightarrow> ('m, 'v, 't) comp) \<Rightarrow> ('k \<Rightarrow> 'v \<Rightarrow> 't \<Rightarrow> ('m, unit, 't) comp)
     \<Rightarrow> 'k \<Rightarrow> ('v \<Rightarrow> 'v panicking) \<Rightarrow> 't \<Rightarrow> ('m, unit, 't) comp" where
  "gs_mutate rd wr key update current =
     bindC (rd key current) (\<lambda>val.
     bindC (liftP (update val)) (\<lambda>val'.
     wr key val' current))"

section \<open>The contract of a state database\<close>

text \<open>
  What the client sees of a database: the value of every key (the default where the key is
  absent) and its owner.
\<close>

definition ts_view :: "'v \<Rightarrow> ('k, 'v, 't) state_map \<Rightarrow> 'k \<Rightarrow> 'v" where
  "ts_view d m k = (case fmlookup m k of Some e \<Rightarrow> sv_data e | None \<Rightarrow> d)"

definition ts_owner :: "('k, 'v, 't) state_map \<Rightarrow> 'k \<Rightarrow> 't option" where
  "ts_owner m k = Option.bind (fmlookup m k) sv_taint"

lemma ts_view_simps [state_simps]:
  "ts_view d fmempty k = d"
  "ts_view d (fmupd k' e m) k = (if k = k' then sv_data e else ts_view d m k)"
  by (simp_all add: ts_view_def)

lemma ts_owner_simps [state_simps]:
  "ts_owner fmempty k = None"
  "ts_owner (fmupd k' e m) k = (if k = k' then sv_taint e else ts_owner m k)"
  by (simp_all add: ts_owner_def)

text \<open>
  \<open>GenericState\<close>: an access to a key that nobody else owns is granted and makes the caller its
  owner; an access to a key of somebody else is refused with the owner's name and changes
  nothing.
\<close>

locale generic_state =
  fixes rd :: "'k \<Rightarrow> 't \<Rightarrow> ('m, 'v, 't) comp"
    and wr :: "'k \<Rightarrow> 'v \<Rightarrow> 't \<Rightarrow> ('m, unit, 't) comp"
    and view :: "'m \<Rightarrow> 'k \<Rightarrow> 'v"
    and owner :: "'m \<Rightarrow> 'k \<Rightarrow> 't option"
  assumes read_granted: "owner m k = None \<or> owner m k = Some t \<Longrightarrow>
      \<exists>m'. rd k t m = (Ok (view m k), m') \<and> view m' = view m \<and> owner m' = (owner m)(k := Some t)"
    and read_denied: "owner m k = Some u \<Longrightarrow> u \<noteq> t \<Longrightarrow> rd k t m = (Err u, m)"
    and write_granted: "owner m k = None \<or> owner m k = Some t \<Longrightarrow>
      \<exists>m'. wr k v t m = (Ok (), m') \<and> view m' = (view m)(k := v)
         \<and> owner m' = (owner m)(k := Some t)"
    and write_denied: "owner m k = Some u \<Longrightarrow> u \<noteq> t \<Longrightarrow> wr k v t m = (Err u, m)"
begin

lemma accessible_cases:
  obtains (granted) "owner m k = None \<or> owner m k = Some t"
  | (denied) u where "owner m k = Some u" "u \<noteq> t"
  by (cases "owner m k") auto

lemma read_Ok_iff:
  "(\<exists>v m'. rd k t m = (Ok v, m')) \<longleftrightarrow> owner m k = None \<or> owner m k = Some t"
proof (cases rule: accessible_cases[of m k t])
  case granted
  then show ?thesis using read_granted[of m k t] by auto
next
  case (denied u)
  then show ?thesis by (simp add: read_denied)
qed

lemma read_OkD:
  assumes "rd k t m = (Ok v, m')"
  shows "v = view m k" "view m' = view m" "owner m' = (owner m)(k := Some t)"
    "owner m k = None \<or> owner m k = Some t"
proof -
  show own: "owner m k = None \<or> owner m k = Some t"
    using assms read_Ok_iff by blast
  show "v = view m k" "view m' = view m" "owner m' = (owner m)(k := Some t)"
    using read_granted[OF own] assms by auto
qed

lemma read_ErrD:
  assumes "rd k t m = (Err u, m')"
  shows "m' = m \<and> owner m k = Some u \<and> u \<noteq> t"
proof (cases rule: accessible_cases[of m k t])
  case granted
  then show ?thesis using assms read_granted[of m k t] by auto
next
  case (denied w)
  then show ?thesis using assms by (simp add: read_denied)
qed

lemma no_read_panic: "rd k t m \<noteq> (Panic p, m')"
proof (cases rule: accessible_cases[of m k t])
  case granted
  then show ?thesis using read_granted[of m k t] by auto
next
  case (denied u)
  then show ?thesis by (simp add: read_denied)
qed

lemma no_write_panic: "wr k v t m \<noteq> (Panic p, m')"
proof (cases rule: accessible_cases[of m k t])
  case granted
  then show ?thesis using write_granted[of m k t v] by auto
next
  case (denied u)
  then show ?thesis by (simp add: write_denied)
qed

lemma mutate_granted:
  assumes "owner m k = None \<or> owner m k = Some t" and upd: "update (view m k) = Inr v"
  shows "\<exists>m'. gs_mutate rd wr k update t m = (Ok (), m') \<and> view m' = (view m)(k := v)
            \<and> owner m' = (owner m)(k := Some t)"
proof -
  obtain m1 where r: "rd k t m = (Ok (view m k), m1)" "view m1 = view m"
      "owner m1 = (owner m)(k := Some t)"
    using read_granted[OF assms(1)] by blast
  obtain m2 where "wr k v t m1 = (Ok (), m2)" "view m2 = (view m1)(k := v)"
      "owner m2 = (owner m1)(k := Some t)"
    using write_granted[of m1 k t v] r by auto
  with r upd show ?thesis
    by (simp add: gs_mutate_def comp_simps)
qed

lemma mutate_denied:
  "owner m k = Some u \<Longrightarrow> u \<noteq> t \<Longrightarrow> gs_mutate rd wr k update t m = (Err u, m)"
  by (simp add: gs_mutate_def comp_simps read_denied)

lemma mutate_panic:
  assumes "owner m k = None \<or> owner m k = Some t" and "update (view m k) = Inl p"
  shows "\<exists>m'. gs_mutate rd wr k update t m = (Panic p, m') \<and> view m' = view m"
  using read_granted[OF assms(1)] assms(2) by (auto simp: gs_mutate_def comp_simps)

end

lemmas ts_access_defs =
  ts_read_def ts_read_shared_def ts_read_excl_def
  ts_write_def ts_write_shared_def ts_write_excl_def

lemma ts_read_eq:
  "ts_read d k t m = (case fmlookup m k of
     None \<Rightarrow> (Ok d, fmupd k (sv_new_taint d t) m)
   | Some e \<Rightarrow> (case sv_taint e of
       None \<Rightarrow> (Ok (sv_data e), fmupd k (e\<lparr>sv_taint := Some t\<rparr>) m)
     | Some u \<Rightarrow> (if u = t then Ok (sv_data e) else Err u, m)))"
  by (simp add: ts_access_defs split: option.splits)

lemma ts_write_eq:
  "ts_write k v t m = (case fmlookup m k of
     None \<Rightarrow> (Ok (), fmupd k (sv_new v t) m)
   | Some e \<Rightarrow> (case sv_taint e of
       None \<Rightarrow> (Ok (), fmupd k (e\<lparr>sv_data := v, sv_taint := Some t\<rparr>) m)
     | Some u \<Rightarrow> if u = t then (Ok (), fmupd k (e\<lparr>sv_data := v\<rparr>) m) else (Err u, m)))"
  by (simp add: ts_access_defs split: option.splits)

interpretation ts: generic_state "ts_read d" ts_write "ts_view d" ts_owner for d
  by unfold_locales
    (auto simp: ts_read_eq ts_write_eq ts_view_def ts_owner_def fun_eq_iff
       split: option.splits bind_splits)

section \<open>Properties\<close>

text \<open>C34. A read of the database has exactly two outcomes: a key nobody else owns yields its
  value and becomes the caller's, a foreign key yields the owner's name; no read changes the value
  of any key or takes a key from its owner.\<close>

theorem ts_read_spec:
  "fst (ts_read d k t m) = (case ts_owner m k of
       Some u \<Rightarrow> if u = t then Ok (ts_view d m k) else Err u
     | None \<Rightarrow> Ok (ts_view d m k))
   \<and> ts_view d (snd (ts_read d k t m)) = ts_view d m
   \<and> ts_owner (snd (ts_read d k t m)) =
       (if ts_owner m k = None then (ts_owner m)(k := Some t) else ts_owner m)"
proof (cases rule: ts.accessible_cases[of m k t])
  case granted
  with ts.read_granted[OF granted, of d] show ?thesis
    by (auto simp: fun_upd_idem)
next
  case (denied u)
  then show ?thesis by (simp add: ts.read_denied)
qed

text \<open>A write of the database is granted exactly when a read would be; it then sets the one
  key and makes the caller its owner, and otherwise it changes nothing and names the owner.\<close>

theorem ts_write_spec:
  "ts_write k v t m = (case ts_owner m k of
       Some u \<Rightarrow> if u = t then (Ok (), fmupd k (sv_new v t) m) else (Err u, m)
     | None \<Rightarrow> (Ok (), fmupd k (sv_new v t) m))"
  by (auto simp: ts_write_eq ts_owner_def sv_new_def tainted_updates split: option.splits)

lemma state_eq_data: "state_eq m n \<longleftrightarrow> fmmap sv_data m = fmmap sv_data n"
proof
  assume eq: "state_eq m n"
  have agree: "\<exists>f. fmlookup n k = Some f \<and> sv_data e = sv_data f" if "fmlookup m k = Some e" for k e
  proof -
    have "case fmlookup n k of Some f \<Rightarrow> sv_data e = sv_data f | None \<Rightarrow> False"
      using eq that by (simp add: state_eq_def fmpred_iff)
    then show ?thesis by (simp split: option.splits)
  qed
  then have sub: "fmdom m |\<subseteq>| fmdom n"
    by (metis fmlookup_dom_iff fsubsetI)
  have card: "fcard (fmdom n) \<le> fcard (fmdom m)"
    using eq unfolding state_eq_def by (simp only: order_refl)
  have dom: "fmdom m = fmdom n"
    by (rule fcard_seteq [OF sub card])
  show "fmmap sv_data m = fmmap sv_data n"
  proof (rule fmap_ext)
    fix k
    show "fmlookup (fmmap sv_data m) k = fmlookup (fmmap sv_data n) k"
    proof (cases "fmlookup m k")
      case None
      then have "fmlookup n k = None"
        using dom fmdom_notI by fastforce
      with None show ?thesis by simp
    next
      case (Some e)
      with agree show ?thesis by fastforce
    qed
  qed
next
  assume eq: "fmmap sv_data m = fmmap sv_data n"
  then have dom: "fmdom m = fmdom n"
    by (metis fmdom_map)
  have lookups: "map_option sv_data (fmlookup m k) = map_option sv_data (fmlookup n k)" for k
    using eq by (metis fmlookup_map)
  have "case fmlookup n k of Some f \<Rightarrow> sv_data e = sv_data f | None \<Rightarrow> False"
    if "fmlookup m k = Some e" for k e
    using lookups[of k] that by (cases "fmlookup n k") auto
  then show "state_eq m n"
    by (simp add: state_eq_def fmpred_iff dom)
qed

text \<open>The equality test of two dumps compares exactly the data of all keys: it holds if and
  only if the two maps are the same once the taints are dropped.\<close>

theorem state_eq_iff: "state_eq m n \<longleftrightarrow> fmmap sv_data m = fmmap sv_data n"
  by (rule state_eq_data)

lemma duplicate_any_order:
  fixes initial m :: "('k::linorder, 'v, 't) state_map"
  assumes "distinct (map fst xs)" and "map_of xs = fmlookup initial"
  shows "fold (\<lambda>(k, v). unsafe_insert k v) xs m = fmadd m initial
       \<and> unsafe_duplicate initial m = fmadd m initial"
proof -
  have ins: "(\<lambda>(k, v). unsafe_insert k v) = (\<lambda>(k, v). fmupd k (id v))"
    by (simp add: unsafe_insert_def fun_eq_iff)
  have "fold (\<lambda>(k, v). fmupd k (id v)) (entries initial) m = fmadd m initial"
    by (rule fmap_ext) (auto simp: fold_entries_lookup fmlookup_dom_iff split: option.splits)
  moreover have "fold (\<lambda>(k, v). fmupd k (id v)) xs m = fold (\<lambda>(k, v). fmupd k (id v)) (entries initial) m"
    using assms by (intro fold_insert_any_order) (simp_all add: distinct_entries)
  ultimately show ?thesis
    by (simp only: unsafe_duplicate_def dump_def ins)
qed

text \<open>C35. Copying a state into another one by inserting its entries one by one, in whatever
  order the hash map yields them, overrides the target with the source.\<close>

theorem unsafe_duplicate_any_order:
  fixes initial m :: "('k::linorder, 'v, 't) state_map"
  assumes "distinct (map fst xs)" and "map_of xs = fmlookup initial"
  shows "fold (\<lambda>(k, v). unsafe_insert k v) xs m = fmadd m initial
       \<and> unsafe_duplicate initial m = fmadd m initial"
  by (rule duplicate_any_order[OF assms])

theorem unsafe_duplicate_any_order_witness:
  "fold (\<lambda>(k, v). unsafe_insert k v) [(2::nat, sv_new (7::nat) (1::nat)), (1, sv_new_data 5)] ts_new
     = fmadd ts_new (fmap_of_list [(2, sv_new 7 1), (1, sv_new_data 5)])"
  by (rule unsafe_duplicate_any_order [THEN conjunct1]) (simp_all add: fun_eq_iff)

end
