(* ===== verification/Runtime.thy ===== *)
theory Runtime
  imports Primitives Taint_State
begin

text \<open>
  The crate \<open>runtime\<close>, its core: the results of a dispatch, the interface \<open>ModuleRuntime\<close> that
  the modules are written against, and its two implementations. \<open>ConcurrentRuntime\<close> goes through
  the tainting accesses of the database and keeps its writes in a cache until the call has
  succeeded; \<open>SequentialRuntime\<close> ignores the taints and writes through. A generic function over
  \<open>R: ModuleRuntime\<close> takes the record of the interface's methods as an argument; the laws both
  implementations satisfy are the locale \<open>module_runtime_laws\<close>.
\<close>

section \<open>Results of a dispatch\<close>

type_synonym runtime_state = "(state_key, state_value, thread_id) state_map"

datatype dispatch_error = Tainted thread_id bool | LogicError string

type_synonym dispatch_result = "(unit, dispatch_error) rs"

datatype runtime_dispatch_success = RtOk | RtLogicError string
datatype runtime_dispatch_error = RtTainted thread_id bool

type_synonym runtime_dispatch_result = "(runtime_dispatch_success, runtime_dispatch_error) rs"

fun to_runtime_dispatch_result :: "dispatch_result \<Rightarrow> runtime_dispatch_result" where
  "to_runtime_dispatch_result (Ok _) = Ok RtOk"
| "to_runtime_dispatch_result (Err (LogicError why)) = Ok (RtLogicError why)"
| "to_runtime_dispatch_result (Err (Tainted whom orphan)) = Err (RtTainted whom orphan)"
| "to_runtime_dispatch_result (Panic p) = Panic p"

definition or_forward :: "('s, 'a, thread_id) comp \<Rightarrow> ('s, 'a, dispatch_error) comp" where
  "or_forward = map_err (\<lambda>t. Tainted t False)"

definition or_orphan :: "('s, 'a, thread_id) comp \<Rightarrow> ('s, 'a, dispatch_error) comp" where
  "or_orphan = map_err (\<lambda>t. Tainted t True)"

text \<open>The methods \<open>derive(CountOf)\<close> generates for a vector of outcomes.\<close>

definition ok_count :: "runtime_dispatch_success list \<Rightarrow> nat" where
  "ok_count xs = length (filter (\<lambda>x. case x of RtOk \<Rightarrow> True | _ \<Rightarrow> False) xs)"

definition logic_error_count :: "runtime_dispatch_success list \<Rightarrow> nat" where
  "logic_error_count xs = length (filter (\<lambda>x. case x of RtLogicError _ \<Rightarrow> True | _ \<Rightarrow> False) xs)"

lemma count_of_total: "ok_count xs + logic_error_count xs = length xs"
  by (induction xs) (auto simp: ok_count_def logic_error_count_def split: runtime_dispatch_success.split)

section \<open>The interface of a runtime\<close>

record 's module_runtime =
  mr_limited :: bool
  mr_thread_id :: "'s \<Rightarrow> thread_id"
  mr_read :: "state_key \<Rightarrow> ('s, state_value, thread_id) comp"
  mr_write :: "state_key \<Rightarrow> state_value \<Rightarrow> ('s, unit, thread_id) comp"
  mr_mutate :: "state_key \<Rightarrow> (state_value \<Rightarrow> state_value panicking) \<Rightarrow> ('s, unit, thread_id) comp"

section \<open>The concurrent runtime\<close>

record concurrent_runtime =
  cr_state :: runtime_state
  cr_cache :: "(state_key, state_value) fmap"
  cr_id :: thread_id

definition cr_new :: "runtime_state \<Rightarrow> thread_id \<Rightarrow> concurrent_runtime" where
  "cr_new state tid = \<lparr>cr_state = state, cr_cache = fmempty, cr_id = tid\<rparr>"

definition cr_read :: "state_key \<Rightarrow> (concurrent_runtime, state_value, thread_id) comp" where
  "cr_read key s = (case fmlookup (cr_cache s) key of
     Some value \<Rightarrow> (Ok value, s)
   | None \<Rightarrow> (case ts_read default_value key (cr_id s) (cr_state s) of
       (r, m) \<Rightarrow> (r, s\<lparr>cr_state := m\<rparr>)))"

definition cache_insert :: "state_key \<Rightarrow> state_value \<Rightarrow> (concurrent_runtime, unit, 'e) comp" where
  "cache_insert key value s = (Ok (), s\<lparr>cr_cache := fmupd key value (cr_cache s)\<rparr>)"

definition cr_write :: "state_key \<Rightarrow> state_value \<Rightarrow> (concurrent_runtime, unit, thread_id) comp" where
  "cr_write key value = bindC (cr_read key) (\<lambda>_. cache_insert key value)"

definition cr_mutate ::
  "state_key \<Rightarrow> (state_value \<Rightarrow> state_value panicking) \<Rightarrow> (concurrent_runtime, unit, thread_id) comp"
  where
  "cr_mutate key update =
     bindC (cr_read key) (\<lambda>old. bindC (liftP (update old)) (cache_insert key))"

definition CR :: "concurrent_runtime module_runtime" where
  "CR = \<lparr>mr_limited = True, mr_thread_id = cr_id,
         mr_read = cr_read, mr_write = cr_write, mr_mutate = cr_mutate\<rparr>"

text \<open>Committing: every cached write goes to the state, tainted with the thread's id.\<close>

definition commit_entry ::
  "bool \<Rightarrow> state_key \<times> state_value \<Rightarrow> (concurrent_runtime, unit, dispatch_error) comp" where
  "commit_entry dbg kv s = (case kv of (k, v) \<Rightarrow>
     if dbg \<and> unsafe_read_taint k (cr_state s) = None
     then (Panic ''called `Option::unwrap()` on a `None` value'', s)
     else if dbg \<and> unsafe_read_taint k (cr_state s) \<noteq> Some (cr_id s)
     then (Panic ''assertion failed: `(left == right)`'', s)
     else (Ok (), s\<lparr>cr_state := unsafe_insert k (sv_new v (cr_id s)) (cr_state s)\<rparr>))"

definition commit_cache :: "bool \<Rightarrow> (concurrent_runtime, unit, dispatch_error) comp" where
  "commit_cache dbg s = mapC (commit_entry dbg) (entries (cr_cache s)) s"

text \<open>
  \<open>dispatch\<close>, for the code \<open>prog\<close> of the call: the cache must be empty, it is committed only
  if the call returned \<open>Ok\<close>, and it is emptied in any case.
\<close>

definition cr_dispatch ::
  "bool \<Rightarrow> (concurrent_runtime, unit, dispatch_error) comp
     \<Rightarrow> (concurrent_runtime, runtime_dispatch_success, runtime_dispatch_error) comp" where
  "cr_dispatch dbg prog s =
     (if dbg \<and> fcard (fmdom (cr_cache s)) \<noteq> 0
      then (Panic ''assertion failed: `(left == right)`'', s)
      else (case prog s of
        (Panic p, s1) \<Rightarrow> (Panic p, s1)
      | (result, s1) \<Rightarrow>
          (case (case result of Ok _ \<Rightarrow> commit_cache dbg s1 | _ \<Rightarrow> (Ok (), s1)) of
             (Panic p, s2) \<Rightarrow> (Panic p, s2)
           | (_, s2) \<Rightarrow> (to_runtime_dispatch_result result, s2\<lparr>cr_cache := fmempty\<rparr>))))"

section \<open>The sequential runtime\<close>

record sequential_runtime =
  sr_state :: runtime_state
  sr_id :: thread_id

definition sr_new :: "runtime_state \<Rightarrow> thread_id \<Rightarrow> sequential_runtime" where
  "sr_new state tid = \<lparr>sr_state = state, sr_id = tid\<rparr>"

definition sr_read :: "state_key \<Rightarrow> (sequential_runtime, state_value, thread_id) comp" where
  "sr_read key s =
     (Ok (case unsafe_read_value key (sr_state s) of Some v \<Rightarrow> v | None \<Rightarrow> default_value), s)"

definition sr_write :: "state_key \<Rightarrow> state_value \<Rightarrow> (sequential_runtime, unit, thread_id) comp" where
  "sr_write key value s = (Ok (), s\<lparr>sr_state := unsafe_insert_genesis_value key value (sr_state s)\<rparr>)"

definition sr_mutate ::
  "state_key \<Rightarrow> (state_value \<Rightarrow> state_value panicking) \<Rightarrow> (sequential_runtime, unit, thread_id) comp"
  where
  "sr_mutate key update =
     bindC (expectC ''Self::read cannot fail'' (sr_read key)) (\<lambda>old.
     bindC (liftP (update old)) (\<lambda>new.
     expectC ''Self::write cannot fail'' (sr_write key new)))"

definition SR :: "sequential_runtime module_runtime" where
  "SR = \<lparr>mr_limited = False, mr_thread_id = sr_id,
         mr_read = sr_read, mr_write = sr_write, mr_mutate = sr_mutate\<rparr>"

definition sr_dispatch ::
  "(sequential_runtime, unit, dispatch_error) comp
     \<Rightarrow> (sequential_runtime, runtime_dispatch_success, runtime_dispatch_error) comp" where
  "sr_dispatch prog s = (case prog s of (r, s') \<Rightarrow> (to_runtime_dispatch_result r, s'))"

lemma CR_sel [simp]:
  "mr_read CR = cr_read" "mr_write CR = cr_write" "mr_mutate CR = cr_mutate"
  "mr_thread_id CR = cr_id" "mr_limited CR = True"
  by (simp_all add: CR_def)

lemma SR_sel [simp]:
  "mr_read SR = sr_read" "mr_write SR = sr_write" "mr_mutate SR = sr_mutate"
  "mr_thread_id SR = sr_id" "mr_limited SR = False"
  by (simp_all add: SR_def)

section \<open>The laws of a runtime\<close>

text \<open>
  What a module may rely on, whichever runtime it runs on: \<open>view s k\<close> is the value the running
  call sees at \<open>k\<close>, \<open>mine s k\<close> says that \<open>k\<close> can be accessed from now on without failing.
\<close>

locale module_runtime_laws =
  fixes R :: "'s module_runtime"
    and view :: "'s \<Rightarrow> state_key \<Rightarrow> state_value"
    and mine :: "'s \<Rightarrow> state_key \<Rightarrow> bool"
    and inv :: "'s \<Rightarrow> bool"
  assumes read_Ok: "inv s \<Longrightarrow> mr_read R k s = (Ok v, s') \<Longrightarrow>
      v = view s k \<and> view s' = view s \<and> inv s' \<and> mine s' = (mine s)(k := True)"
    and read_Err: "inv s \<Longrightarrow> mr_read R k s = (Err t, s') \<Longrightarrow> s' = s"
    and read_no_panic: "inv s \<Longrightarrow> mr_read R k s \<noteq> (Panic p, s')"
    and read_mine: "inv s \<Longrightarrow> mine s k \<Longrightarrow> mr_read R k s = (Ok (view s k), s)"
    and write_after_read: "inv s \<Longrightarrow> mine s k \<Longrightarrow>
      \<exists>s'. mr_write R k v s = (Ok (), s') \<and> view s' = (view s)(k := v) \<and> inv s' \<and> mine s' = mine s"
    and write_reads: "inv s \<Longrightarrow>
      mr_write R k v s = bindC (mr_read R k) (\<lambda>_. mr_write R k v) s"
    and mutate_reads: "inv s \<Longrightarrow>
      mr_mutate R k f s = bindC (mr_read R k) (\<lambda>old. bindC (liftP (f old)) (mr_write R k)) s"
begin

lemma write_Ok:
  assumes "inv s" "mr_write R k v s = (Ok (), s')"
  shows "view s' = (view s)(k := v) \<and> inv s' \<and> mine s' = (mine s)(k := True)"
proof -
  obtain old s1 where r: "mr_read R k s = (Ok old, s1)" and w: "mr_write R k v s1 = (Ok (), s')"
    using assms write_reads[of s k v] by (auto simp: comp_iffs)
  then show ?thesis
    using read_Ok[OF assms(1) r] write_after_read[of s1 k v] by auto
qed

lemma write_cases:
  assumes "inv s"
  obtains (granted) s' where "mr_write R k v s = (Ok (), s')"
    "view s' = (view s)(k := v)" "inv s'" "mine s' = (mine s)(k := True)"
  | (denied) t where "mr_write R k v s = (Err t, s)" "mr_read R k s = (Err t, s)" "\<not> mine s k"
proof (cases "mr_read R k s")
  case (Pair r s1)
  show ?thesis
  proof (cases r)
    case (Ok old)
    then obtain s' where "mr_write R k v s1 = (Ok (), s')"
      using read_Ok[OF assms] write_after_read[of s1 k v] Pair by auto
    then have "mr_write R k v s = (Ok (), s')"
      using write_reads[OF assms, of k v] Pair Ok by (simp add: comp_simps)
    then show ?thesis using write_Ok[OF assms] granted by blast
  next
    case (Err t)
    then have "s1 = s" using read_Err[OF assms] Pair by blast
    then show ?thesis
      using write_reads[OF assms, of k v] read_mine[OF assms, of k] Pair Err
      by (intro denied[of t]) (auto simp: comp_simps)
  next
    case (Panic p)
    then show ?thesis using read_no_panic[OF assms] Pair by blast
  qed
qed

lemma read_cases:
  assumes "inv s"
  obtains (granted) s' where "mr_read R k s = (Ok (view s k), s')"
    "view s' = view s" "inv s'" "mine s' = (mine s)(k := True)"
  | (denied) t where "mr_read R k s = (Err t, s)" "\<not> mine s k"
proof (cases "mr_read R k s")
  case (Pair r s1)
  show ?thesis
  proof (cases r)
    case (Ok old)
    then show ?thesis using read_Ok[OF assms] Pair granted by auto
  next
    case (Err t)
    then show ?thesis using read_Err[OF assms] read_mine[OF assms, of k] Pair denied[of t] by auto
  next
    case (Panic p)
    then show ?thesis using read_no_panic[OF assms] Pair by blast
  qed
qed

lemma write_mine:
  "inv s \<Longrightarrow> mine s k \<Longrightarrow> \<exists>s'. mr_write R k v s = (Ok (), s')"
  using write_after_read by blast

lemma write_Err: "inv s \<Longrightarrow> mr_write R k v s = (Err t, s') \<Longrightarrow> s' = s"
  by (erule write_cases[of s k v]) auto

lemma write_no_panic: "inv s \<Longrightarrow> mr_write R k v s \<noteq> (Panic p, s')"
  by (erule write_cases[of s k v]) auto

end

subsection \<open>The sequential runtime satisfies them\<close>

definition sr_view :: "sequential_runtime \<Rightarrow> state_key \<Rightarrow> state_value" where
  "sr_view s = ts_view default_value (sr_state s)"

lemma sr_read_eq: "sr_read k s = (Ok (sr_view s k), s)"
  by (simp add: sr_read_def sr_view_def ts_view_def unsafe_read_value_def unsafe_read_def
      split: option.split)

lemma sr_view_write: "sr_view (snd (sr_write k v s)) = (sr_view s)(k := v)"
  by (simp add: sr_write_def sr_view_def unsafe_insert_genesis_value_def ts_view_def fun_eq_iff)

interpretation seq: module_runtime_laws SR sr_view "\<lambda>_ _. True" "\<lambda>_. True"
proof unfold_locales
  fix s k v
  show "\<exists>s'. mr_write SR k v s = (Ok (), s') \<and> sr_view s' = (sr_view s)(k := v) \<and> True
      \<and> (\<lambda>_. True) = (\<lambda>_. True)"
    using sr_view_write[of k v s] by (simp add: sr_write_def)
next
  fix s k f
  show "mr_mutate SR k f s = bindC (mr_read SR k) (\<lambda>old. bindC (liftP (f old)) (mr_write SR k)) s"
    by (auto simp: sr_mutate_def sr_read_eq bindC_def expectC_def liftP_def sr_write_def
        split: sum.splits)
qed (auto simp: sr_read_eq comp_simps)

subsection \<open>So does the concurrent runtime\<close>

definition cr_view :: "concurrent_runtime \<Rightarrow> state_key \<Rightarrow> state_value" where
  "cr_view s k = (case fmlookup (cr_cache s) k of
     Some v \<Rightarrow> v | None \<Rightarrow> ts_view default_value (cr_state s) k)"

definition cr_mine :: "concurrent_runtime \<Rightarrow> state_key \<Rightarrow> bool" where
  "cr_mine s k \<longleftrightarrow> ts_owner (cr_state s) k = Some (cr_id s)"

text \<open>Whatever is cached belongs to the thread.\<close>

definition cr_inv :: "concurrent_runtime \<Rightarrow> bool" where
  "cr_inv s \<longleftrightarrow> fmpred (\<lambda>k _. ts_owner (cr_state s) k = Some (cr_id s)) (cr_cache s)"

lemma cr_inv_cached: "cr_inv s \<Longrightarrow> fmlookup (cr_cache s) k = Some v \<Longrightarrow> cr_mine s k"
  by (auto simp: cr_inv_def cr_mine_def)

lemma cr_inv_iff: "cr_inv s \<longleftrightarrow> (\<forall>k v. fmlookup (cr_cache s) k = Some v \<longrightarrow> cr_mine s k)"
  by (auto simp: cr_inv_def cr_mine_def fmpred_iff)

lemma cr_read_cases:
  assumes "cr_inv s"
  obtains (granted) m where "cr_read k s = (Ok (cr_view s k), s\<lparr>cr_state := m\<rparr>)"
    "ts_view default_value m = ts_view default_value (cr_state s)"
    "ts_owner m = (ts_owner (cr_state s))(k := Some (cr_id s))"
    "ts_owner (cr_state s) k = None \<or> ts_owner (cr_state s) k = Some (cr_id s)"
  | (denied) t where "cr_read k s = (Err t, s)" "ts_owner (cr_state s) k = Some t" "t \<noteq> cr_id s"
proof (cases "fmlookup (cr_cache s) k")
  case (Some v)
  then have "ts_owner (cr_state s) k = Some (cr_id s)"
    using cr_inv_cached[OF assms] by (simp add: cr_mine_def)
  with Some show ?thesis
    by (intro granted[of "cr_state s"]) (simp_all add: cr_read_def cr_view_def fun_upd_idem)
next
  case None
  show ?thesis
  proof (cases rule: ts.accessible_cases[of "cr_state s" k "cr_id s"])
    case granted': granted
    obtain m where "ts_read default_value k (cr_id s) (cr_state s) =
        (Ok (ts_view default_value (cr_state s) k), m)"
      "ts_view default_value m = ts_view default_value (cr_state s)"
      "ts_owner m = (ts_owner (cr_state s))(k := Some (cr_id s))"
      using ts.read_granted[OF granted'] by blast
    with None granted' show ?thesis
      by (intro granted[of m]) (simp_all add: cr_read_def cr_view_def)
  next
    case (denied u)
    with None show ?thesis
      by (intro that(2)[of u]) (simp_all add: cr_read_def ts.read_denied)
  qed
qed

lemma cr_read_mine: "cr_inv s \<Longrightarrow> cr_mine s k \<Longrightarrow> cr_read k s = (Ok (cr_view s k), s)"
  by (auto simp: cr_read_def cr_view_def cr_mine_def ts_read_eq ts_view_def ts_owner_def
      split: option.splits)

lemma cr_view_state: "ts_view default_value m = ts_view default_value (cr_state s) \<Longrightarrow>
    cr_view (s\<lparr>cr_state := m\<rparr>) = cr_view s"
  by (simp add: cr_view_def fun_eq_iff split: option.split)

lemma cr_mine_state: "ts_owner m = (ts_owner (cr_state s))(k := Some (cr_id s)) \<Longrightarrow>
    cr_mine (s\<lparr>cr_state := m\<rparr>) = (cr_mine s)(k := True)"
  by (simp add: cr_mine_def fun_eq_iff)

lemma cr_inv_state: "cr_inv s \<Longrightarrow> ts_owner m = (ts_owner (cr_state s))(k := Some (cr_id s)) \<Longrightarrow>
    cr_inv (s\<lparr>cr_state := m\<rparr>)"
  by (simp add: cr_inv_iff cr_mine_state)

lemma cache_insert_laws:
  assumes "cr_inv s" "cr_mine s k"
  shows "cr_view (s\<lparr>cr_cache := fmupd k v (cr_cache s)\<rparr>) = (cr_view s)(k := v)"
    "cr_inv (s\<lparr>cr_cache := fmupd k v (cr_cache s)\<rparr>)"
    "cr_mine (s\<lparr>cr_cache := fmupd k v (cr_cache s)\<rparr>) = cr_mine s"
  using assms by (auto simp: cr_view_def cr_inv_iff cr_mine_def fun_eq_iff split: option.splits)

interpretation conc: module_runtime_laws CR cr_view cr_mine cr_inv
proof unfold_locales
  fix s k v t s' p f
  assume inv: "cr_inv s"
  show "mr_read CR k s = (Ok v, s') \<Longrightarrow>
      v = cr_view s k \<and> cr_view s' = cr_view s \<and> cr_inv s' \<and> cr_mine s' = (cr_mine s)(k := True)"
    using inv by (cases rule: cr_read_cases[OF inv, of k])
      (auto simp: cr_view_state cr_mine_state cr_inv_state)
  show "mr_read CR k s = (Err t, s') \<Longrightarrow> s' = s" and "mr_read CR k s \<noteq> (Panic p, s')"
    by (cases rule: cr_read_cases[OF inv, of k]; simp)+
  show read_mine: "cr_mine s k \<Longrightarrow> mr_read CR k s = (Ok (cr_view s k), s)"
    using inv by (simp add: cr_read_mine)
  show "cr_mine s k \<Longrightarrow> \<exists>s'. mr_write CR k v s = (Ok (), s') \<and> cr_view s' = (cr_view s)(k := v)
      \<and> cr_inv s' \<and> cr_mine s' = cr_mine s"
    using inv by (simp add: cr_write_def comp_simps cr_read_mine cache_insert_def cache_insert_laws)
  have read_again: "cr_read k (s\<lparr>cr_state := m\<rparr>) = (Ok (cr_view s k), s\<lparr>cr_state := m\<rparr>)"
    if "ts_view default_value m = ts_view default_value (cr_state s)"
      "ts_owner m = (ts_owner (cr_state s))(k := Some (cr_id s))" for m
    using that inv cr_read_mine[OF cr_inv_state[OF inv that(2)], of k]
    by (simp add: cr_view_state cr_mine_state)
  show "mr_write CR k v s = bindC (mr_read CR k) (\<lambda>_. mr_write CR k v) s"
    by (cases rule: cr_read_cases[OF inv, of k]) (simp_all add: cr_write_def comp_simps read_again)
  show "mr_mutate CR k f s = bindC (mr_read CR k) (\<lambda>old. bindC (liftP (f old)) (mr_write CR k)) s"
    by (cases rule: cr_read_cases[OF inv, of k])
      (auto simp: cr_mutate_def cr_write_def comp_simps read_again bindC_def liftP_def
        split: sum.splits)
qed

end
