(* ===== verification/Storage.thy ===== *)
theory Storage
  imports Runtime
begin

text \<open>
  The storage macros of \<open>runtime/src/macros.rs\<close>. \<open>decl_storage_map!\<close> is a record of what the
  macro is given (module, name, key type, value type) with the codec of the two types, and its
  methods are functions of that record and of a runtime. The SCALE codec is not part of the
  repository: \<open>sm_enc\<close> and \<open>sm_dec\<close> are parameters, and \<open>sm_ok\<close> states what is relied on: decoding
  an encoded value gives it back, and no bytes decode to nothing or to the default.
\<close>

section \<open>Storage maps and values\<close>

record ('k, 'v) storage_map =
  sm_module :: string
  sm_name :: string
  sm_enc_key :: "'k \<Rightarrow> bytes"
  sm_enc :: "'v \<Rightarrow> bytes"
  sm_dec :: "bytes \<Rightarrow> ('v, string) rs"
  sm_default :: 'v

definition str_bytes :: "string \<Rightarrow> bytes" where
  "str_bytes = map of_char"

definition storage_name :: "('k, 'v, 'z) storage_map_scheme \<Rightarrow> string" where
  "storage_name M = sm_module M @ '':'' @ sm_name M"

definition key_for :: "('k, 'v, 'z) storage_map_scheme \<Rightarrow> 'k \<Rightarrow> state_key" where
  "key_for M key = StateKey (str_bytes (storage_name M) @ sm_enc_key M key)"

definition map_write ::
  "'s module_runtime \<Rightarrow> ('k, 'v, 'z) storage_map_scheme \<Rightarrow> 'k \<Rightarrow> 'v \<Rightarrow> ('s, unit, thread_id) comp" where
  "map_write R M key val = mr_write R (key_for M key) (StateValue (sm_enc M val))"

definition map_read ::
  "'s module_runtime \<Rightarrow> ('k, 'v, 'z) storage_map_scheme \<Rightarrow> 'k \<Rightarrow> ('s, 'v, thread_id) comp" where
  "map_read R M key =
     bindC (mr_read R (key_for M key)) (\<lambda>encoded.
     liftP (unwrap_or (sm_default M) (sm_dec M (value_bytes encoded))))"

definition map_mutate ::
  "'s module_runtime \<Rightarrow> ('k, 'v, 'z) storage_map_scheme \<Rightarrow> 'k \<Rightarrow> ('v \<Rightarrow> 'v panicking)
     \<Rightarrow> ('s, unit, thread_id) comp" where
  "map_mutate R M key update =
     bindC (map_read R M key) (\<lambda>old.
     bindC (liftP (update old)) (\<lambda>new.
     map_write R M key new))"

definition map_clear ::
  "'s module_runtime \<Rightarrow> ('k, 'v, 'z) storage_map_scheme \<Rightarrow> 'k \<Rightarrow> ('s, unit, thread_id) comp" where
  "map_clear R M key = map_write R M key (sm_default M)"

definition map_exists ::
  "'s module_runtime \<Rightarrow> ('k, 'v, 'z) storage_map_scheme \<Rightarrow> 'k \<Rightarrow> ('s, bool, thread_id) comp" where
  "map_exists R M key = bindC (map_read R M key) (\<lambda>val. ret (val \<noteq> sm_default M))"

text \<open>\<open>decl_storage_value!\<close>: the same with one fixed key.\<close>

record 'v storage_value =
  sval_module :: string
  sval_name :: string
  sval_enc :: "'v \<Rightarrow> bytes"
  sval_dec :: "bytes \<Rightarrow> ('v, string) rs"
  sval_default :: 'v

definition value_key :: "('v, 'z) storage_value_scheme \<Rightarrow> state_key" where
  "value_key V = StateKey (str_bytes (sval_module V @ '':'' @ sval_name V))"

definition value_write ::
  "'s module_runtime \<Rightarrow> ('v, 'z) storage_value_scheme \<Rightarrow> 'v \<Rightarrow> ('s, unit, thread_id) comp" where
  "value_write R V val = mr_write R (value_key V) (StateValue (sval_enc V val))"

definition value_read ::
  "'s module_runtime \<Rightarrow> ('v, 'z) storage_value_scheme \<Rightarrow> ('s, 'v, thread_id) comp" where
  "value_read R V =
     bindC (mr_read R (value_key V)) (\<lambda>encoded.
     liftP (unwrap_or (sval_default V) (sval_dec V (value_bytes encoded))))"

definition value_mutate ::
  "'s module_runtime \<Rightarrow> ('v, 'z) storage_value_scheme \<Rightarrow> ('v \<Rightarrow> 'v panicking)
     \<Rightarrow> ('s, unit, thread_id) comp" where
  "value_mutate R V update =
     bindC (value_read R V) (\<lambda>old.
     bindC (liftP (update old)) (\<lambda>new.
     value_write R V new))"

definition value_clear ::
  "'s module_runtime \<Rightarrow> ('v, 'z) storage_value_scheme \<Rightarrow> ('s, unit, thread_id) comp" where
  "value_clear R V = value_write R V (sval_default V)"

section \<open>Keys of different entries are different\<close>

lemma unat_of_char: "unat (of_char c :: u8) = of_char c"
proof -
  have "(of_char c :: u8) = of_nat (of_char c)"
    by (rule of_nat_of_char [symmetric])
  then have "unat (of_char c :: u8) = take_bit 8 (of_char c)"
    by (simp only: unat_of_nat) (simp add: take_bit_eq_mod)
  then show ?thesis
    by (simp add: take_bit_eq_mod)
qed

lemma str_bytes_inj: "str_bytes a = str_bytes b \<longleftrightarrow> a = b"
proof -
  have "inj (of_char :: char \<Rightarrow> u8)"
    by (rule injI) (metis of_char_eq_iff unat_of_char)
  then show ?thesis
    by (simp add: str_bytes_def inj_map_eq_map)
qed

lemma key_for_eq_iff:
  assumes "length (sm_enc_key M a) = length (sm_enc_key N b)"
  shows "key_for M a = key_for N b
    \<longleftrightarrow> storage_name M = storage_name N \<and> sm_enc_key M a = sm_enc_key N b"
  using assms by (simp add: key_for_def str_bytes_inj)

section \<open>The typed view of a storage map\<close>

definition decoded ::
  "('k, 'v, 'z) storage_map_scheme \<Rightarrow> (state_key \<Rightarrow> state_value) \<Rightarrow> 'k \<Rightarrow> 'v panicking" where
  "decoded M vw key = unwrap_or (sm_default M) (sm_dec M (value_bytes (vw (key_for M key))))"

definition typed ::
  "('k, 'v, 'z) storage_map_scheme \<Rightarrow> (state_key \<Rightarrow> state_value) \<Rightarrow> 'k \<Rightarrow> 'v" where
  "typed M vw key = (case decoded M vw key of Inr v \<Rightarrow> v | Inl _ \<Rightarrow> sm_default M)"

definition sm_ok :: "('k, 'v, 'z) storage_map_scheme \<Rightarrow> bool" where
  "sm_ok M \<longleftrightarrow> (\<forall>v. sm_dec M (sm_enc M v) = Ok v)
     \<and> ((\<exists>e. sm_dec M [] = Err e) \<or> sm_dec M [] = Ok (sm_default M))
     \<and> (\<forall>a b. sm_enc_key M a = sm_enc_key M b \<longrightarrow> a = b)
     \<and> (\<forall>a. length (sm_enc_key M a) = 32)"

text \<open>Every value under the map decodes without a panic.\<close>

definition readable :: "('k, 'v, 'z) storage_map_scheme \<Rightarrow> (state_key \<Rightarrow> state_value) \<Rightarrow> bool" where
  "readable M vw \<longleftrightarrow> (\<forall>k. \<exists>v. decoded M vw k = Inr v)"

lemma typed_decoded: "decoded M vw k = Inr v \<Longrightarrow> typed M vw k = v"
  by (simp add: typed_def)

lemma readable_decoded: "readable M vw \<Longrightarrow> decoded M vw k = Inr (typed M vw k)"
  by (metis readable_def typed_decoded)

lemma decoded_write:
  assumes "sm_ok M"
  shows "decoded M (vw(key_for M k := StateValue (sm_enc M v))) k' =
    (if k' = k then Inr v else decoded M vw k')"
  using assms by (auto simp: decoded_def sm_ok_def key_for_def)

lemma decoded_other:
  assumes "sm_ok M" "sm_ok N" "storage_name M \<noteq> storage_name N"
  shows "decoded M (vw(key_for N k := x)) = decoded M vw"
proof -
  have "key_for M k' \<noteq> key_for N k" for k'
    using assms key_for_eq_iff[of M k' N k] by (simp add: sm_ok_def)
  then show ?thesis by (simp add: decoded_def fun_eq_iff)
qed

lemma typed_write:
  "sm_ok M \<Longrightarrow> typed M (vw(key_for M k := StateValue (sm_enc M v))) = (typed M vw)(k := v)"
  by (auto simp: typed_def decoded_write)

lemma typed_other:
  "sm_ok M \<Longrightarrow> sm_ok N \<Longrightarrow> storage_name M \<noteq> storage_name N
     \<Longrightarrow> typed M (vw(key_for N k := x)) = typed M vw"
  by (simp add: typed_def decoded_other fun_eq_iff)

lemma readable_write:
  "sm_ok M \<Longrightarrow> readable M vw \<Longrightarrow> readable M (vw(key_for M k := StateValue (sm_enc M v)))"
  by (simp add: readable_def decoded_write)

lemma readable_other:
  "sm_ok M \<Longrightarrow> sm_ok N \<Longrightarrow> storage_name M \<noteq> storage_name N
     \<Longrightarrow> readable M (vw(key_for N k := x)) = readable M vw"
  by (simp add: readable_def decoded_other)

lemma decoded_fresh: "sm_ok M \<Longrightarrow> vw (key_for M k) = default_value \<Longrightarrow> decoded M vw k = Inr (sm_default M)"
  by (auto simp: decoded_def default_value_def sm_ok_def)

end
