(* ===== verification/Simulation.thy ===== *)
theory Simulation
  imports Storage
begin

text \<open>
  One simulation for all calls of all modules. The specification runtime \<open>AR\<close> runs the generic
  code of a call directly on a function from keys to values. \<open>sim\<close> relates the code on a real
  runtime with the code on \<open>AR\<close>: unless the real run is refused a key, \<open>AR\<close> gives the same
  result and the same values, and it does so on every function that agrees with the real one on
  the keys the run came to own, leaving all others alone. The rules follow the combinators, so
  the simulation of a call is found by its syntax.
\<close>

section \<open>The specification runtime\<close>

type_synonym view = "state_key \<Rightarrow> state_value"

definition AR :: "view module_runtime" where
  "AR = \<lparr>mr_limited = False, mr_thread_id = (\<lambda>_. 0),
         mr_read = (\<lambda>k w. (Ok (w k), w)),
         mr_write = (\<lambda>k v w. (Ok (), w(k := v))),
         mr_mutate = (\<lambda>k f w. case f (w k) of
           Inl p \<Rightarrow> (Panic p, w) | Inr v \<Rightarrow> (Ok (), w(k := v)))\<rparr>"

lemma AR_sel [simp]:
  "mr_read AR k w = (Ok (w k), w)" "mr_write AR k v w = (Ok (), w(k := v))"
  "mr_mutate AR k f w = (case f (w k) of Inl p \<Rightarrow> (Panic p, w) | Inr v \<Rightarrow> (Ok (), w(k := v)))"
  by (simp_all add: AR_def)

interpretation spec: module_runtime_laws AR "\<lambda>w. w" "\<lambda>_ _. True" "\<lambda>_. True"
  by unfold_locales (auto simp: comp_simps bindC_def liftP_def fun_upd_def split: sum.splits)

lemma map_read_AR: "map_read AR M k w = liftP (decoded M w k) w"
  by (simp add: map_read_def decoded_def comp_simps)

lemma map_write_AR: "map_write AR M k v w = (Ok (), w(key_for M k := StateValue (sm_enc M v)))"
  by (simp add: map_write_def)

lemma map_mutate_AR:
  "map_mutate AR M k f w =
     bindC (liftP (decoded M w k)) (\<lambda>old. bindC (liftP (f old)) (\<lambda>v. map_write AR M k v)) w"
  by (simp add: map_mutate_def bindC_def map_read_AR)

lemma map_clear_AR: "map_clear AR M k w = map_write AR M k (sm_default M) w"
  by (simp add: map_clear_def)

lemma map_exists_AR:
  "map_exists AR M k w = bindC (liftP (decoded M w k)) (\<lambda>v. ret (v \<noteq> sm_default M)) w"
  by (simp add: map_exists_def bindC_def map_read_AR)

lemmas map_AR = map_read_AR map_write_AR map_mutate_AR map_clear_AR map_exists_AR

section \<open>The simulation relation\<close>

text \<open>
  \<open>T\<close> tells the errors that mean \<open>a key was refused\<close>; \<open>K\<close> are keys the state owns before,
  \<open>K'\<close> keys it owns in addition if the code returns \<open>Ok\<close>.
\<close>

definition follows ::
  "(state_key \<Rightarrow> bool) \<Rightarrow> view \<Rightarrow> view \<Rightarrow> (view, 'a, 'e) comp \<Rightarrow> ('a, 'e) rs \<Rightarrow> bool" where
  "follows own before after a r \<longleftrightarrow>
     (\<forall>w. (\<forall>k. own k \<longrightarrow> w k = before k) \<longrightarrow>
       (\<exists>w'. a w = (r, w') \<and> (\<forall>k. w' k = (if own k then after k else w k))))"

definition sim ::
  "('s \<Rightarrow> view) \<Rightarrow> ('s \<Rightarrow> state_key \<Rightarrow> bool) \<Rightarrow> ('s \<Rightarrow> bool) \<Rightarrow> ('e \<Rightarrow> bool) \<Rightarrow> state_key set
     \<Rightarrow> ('s, 'a, 'e) comp \<Rightarrow> (view, 'a, 'e) comp \<Rightarrow> state_key set \<Rightarrow> bool" where
  "sim view mine okay T K c a K' \<longleftrightarrow>
     (\<forall>s r s'. okay s \<longrightarrow> (\<forall>k\<in>K. mine s k) \<longrightarrow> c s = (r, s') \<longrightarrow> (\<forall>e. r = Err e \<longrightarrow> \<not> T e) \<longrightarrow>
        okay s' \<and> (\<forall>k. mine s k \<longrightarrow> mine s' k) \<and> (is_Ok r \<longrightarrow> (\<forall>k\<in>K'. mine s' k))
      \<and> (\<forall>k. \<not> mine s' k \<longrightarrow> view s' k = view s k)
      \<and> follows (mine s') (view s) (view s') a r)"

lemma simI:
  assumes "\<And>s r s'. okay s \<Longrightarrow> \<forall>k\<in>K. mine s k \<Longrightarrow> c s = (r, s') \<Longrightarrow> \<forall>e. r = Err e \<longrightarrow> \<not> T e \<Longrightarrow>
     okay s' \<and> (\<forall>k. mine s k \<longrightarrow> mine s' k) \<and> (is_Ok r \<longrightarrow> (\<forall>k\<in>K'. mine s' k))
      \<and> (\<forall>k. \<not> mine s' k \<longrightarrow> view s' k = view s k)
      \<and> follows (mine s') (view s) (view s') a r"
  shows "sim view mine okay T K c a K'"
  using assms unfolding sim_def by blast

lemma simD:
  assumes "sim view mine okay T K c a K'" "okay s" "\<forall>k\<in>K. mine s k" "c s = (r, s')"
    "\<forall>e. r = Err e \<longrightarrow> \<not> T e"
  shows "okay s'" "\<And>k. mine s k \<Longrightarrow> mine s' k" "\<And>k. is_Ok r \<Longrightarrow> k \<in> K' \<Longrightarrow> mine s' k"
    "\<And>k. \<not> mine s' k \<Longrightarrow> view s' k = view s k" "follows (mine s') (view s) (view s') a r"
  using assms unfolding sim_def by blast+

text \<open>Two runs in sequence, the second of which may come to own more keys than the first.\<close>

lemma follows_bind:
  assumes a: "follows own1 v0 v1 a (Ok x)" and g: "follows own2 v1 v2 (g x) r"
    and grow: "\<And>k. own1 k \<Longrightarrow> own2 k" and frame: "\<And>k. \<not> own1 k \<Longrightarrow> v1 k = v0 k"
  shows "follows own2 v0 v2 (bindC a g) r"
  unfolding follows_def
proof (intro allI impI)
  fix w :: view
  assume w: "\<forall>k. own2 k \<longrightarrow> w k = v0 k"
  then obtain w1 where w1: "a w = (Ok x, w1)" "\<And>k. w1 k = (if own1 k then v1 k else w k)"
    using a grow unfolding follows_def by blast
  have "\<forall>k. own2 k \<longrightarrow> w1 k = v1 k"
    using w w1(2) frame by simp
  then obtain w2 where w2: "g x w1 = (r, w2)" "\<And>k. w2 k = (if own2 k then v2 k else w1 k)"
    using g unfolding follows_def by blast
  show "\<exists>w'. bindC a g w = (r, w') \<and> (\<forall>k. w' k = (if own2 k then v2 k else w k))"
  proof (intro exI conjI allI)
    show "bindC a g w = (r, w2)"
      using w1(1) w2(1) by (simp add: comp_simps)
    show "w2 k = (if own2 k then v2 k else w k)" for k
      using w1(2)[of k] w2(2)[of k] grow[of k] by auto
  qed
qed

lemma follows_stop:
  assumes a: "follows own v0 v1 a r" and stop: "\<And>w w'. a w = (r, w') \<Longrightarrow> b w = (r', w')"
  shows "follows own v0 v1 b r'"
  unfolding follows_def
proof (intro allI impI)
  fix w :: view
  assume "\<forall>k. own k \<longrightarrow> w k = v0 k"
  then obtain w' where w': "a w = (r, w')" "\<forall>k. w' k = (if own k then v1 k else w k)"
    using a unfolding follows_def by blast
  show "\<exists>w'. b w = (r', w') \<and> (\<forall>k. w' k = (if own k then v1 k else w k))"
    using stop[OF w'(1)] w'(2) by blast
qed

section \<open>The rules\<close>

named_theorems sim_rules \<open>the simulation, combinator by combinator\<close>

lemma sim_ret [sim_rules]: "sim view mine okay T K (ret x) (ret x) {}"
  and sim_throw [sim_rules]: "sim view mine okay T K (throw e) (throw e) {}"
  and sim_panic [sim_rules]: "sim view mine okay T K (panic p) (panic p) {}"
  and sim_liftR [sim_rules]: "sim view mine okay T K (liftR r) (liftR r) {}"
  by (rule simI; auto simp: follows_def)+

lemma sim_liftP [sim_rules]: "sim view mine okay T K (liftP x) (liftP x) {}"
  by (rule simI) (cases x; auto simp: follows_def)

lemma sim_bind [sim_rules]:
  assumes c: "sim view mine okay T K c a K1"
    and f: "\<And>x. sim view mine okay T (K \<union> K1) (f x) (g x) K2"
  shows "sim view mine okay T K (bindC c f) (bindC a g) K2"
proof (rule simI, goal_cases)
  case (1 s r s')
  obtain q s1 where q: "c s = (q, s1)" by fastforce
  show ?case
  proof (cases q)
    case (Ok x)
    then have run: "f x s1 = (r, s')"
      using 1 q by (simp add: comp_simps)
    note d1 = simD[OF c 1(1,2) q]
    have own: "\<forall>k \<in> K \<union> K1. mine s1 k"
      using d1(2,3) 1(2) Ok by auto
    have inv1: "okay s1" using d1(1) Ok by simp
    note d2 = simD[OF f inv1 own run 1(4)]
    have "follows (mine s') (view s) (view s') (bindC a g) r"
    proof (rule follows_bind)
      show "follows (mine s1) (view s) (view s1) a (Ok x)"
        using d1(5) Ok by simp
      show "follows (mine s') (view s1) (view s') (g x) r"
        by (rule d2(5))
    qed (use d1(4) d2(2) Ok in auto)
    moreover have "\<not> mine s' k \<Longrightarrow> view s' k = view s k" for k
      using d1(2,4) d2(2,4) Ok by (metis rs.distinct(1))
    ultimately show ?thesis
      using d1(2) d2 Ok by auto
  next
    case (Err e)
    then have r: "r = Err e" "s1 = s'"
      using 1(3) q by (simp_all add: comp_simps)
    note d1 = simD[OF c 1(1,2) q]
    have "follows (mine s') (view s) (view s') (bindC a g) r"
      by (rule follows_stop[where a = a and r = q]) (use d1(5) r Err 1(4) in \<open>auto simp: comp_simps\<close>)
    then show ?thesis
      using d1 r Err 1(4) by auto
  next
    case (Panic p)
    then have r: "r = Panic p" "s1 = s'"
      using 1(3) q by (simp_all add: comp_simps)
    note d1 = simD[OF c 1(1,2) q]
    have "follows (mine s') (view s) (view s') (bindC a g) r"
      by (rule follows_stop[where a = a and r = q]) (use d1(5) r Panic in \<open>auto simp: comp_simps\<close>)
    then show ?thesis
      using d1 r Panic by auto
  qed
qed

lemma sim_if [sim_rules]:
  "(b \<Longrightarrow> sim view mine okay T K c1 a1 {}) \<Longrightarrow> (\<not> b \<Longrightarrow> sim view mine okay T K c2 a2 {}) \<Longrightarrow>
     sim view mine okay T K (if b then c1 else c2) (if b then a1 else a2) {}"
  by simp

lemma sim_case_option [sim_rules]:
  "sim view mine okay T K c0 a0 {} \<Longrightarrow> (\<And>x. sim view mine okay T K (c1 x) (a1 x) {}) \<Longrightarrow>
     sim view mine okay T K (case z of None \<Rightarrow> c0 | Some x \<Rightarrow> c1 x)
       (case z of None \<Rightarrow> a0 | Some x \<Rightarrow> a1 x) {}"
  by (cases z) auto

lemma sim_weaken:
  assumes "sim view mine okay T K c a K'"
  shows "sim view mine okay T K c a {}"
proof (rule simI, goal_cases)
  case (1 s r s')
  from simD[OF assms 1] show ?case by simp
qed


lemma sim_bind_keep:
  assumes c: "sim view mine okay T K c a K1"
    and f: "\<And>x. sim view mine okay T (K \<union> K1) (f x) (g x) K2"
  shows "sim view mine okay T K (bindC c f) (bindC a g) K1"
proof (rule simI, goal_cases)
  case (1 s r s')
  have all: "sim view mine okay T K (bindC c f) (bindC a g) K2"
    using c f by (rule sim_bind)
  have "\<forall>k\<in>K1. mine s' k" if ok: "is_Ok r"
  proof -
    obtain y where "r = Ok y" using ok by (cases r) auto
    then obtain x s1 where q: "c s = (Ok x, s1)" "f x s1 = (r, s')"
      using 1(3) by (auto simp: comp_iffs)
    note d1 = simD[OF c 1(1,2) q(1)]
    have "\<forall>k \<in> K \<union> K1. mine s1 k"
      using d1(2,3) 1(2) by auto
    then show ?thesis
      using simD(2)[OF f d1(1) _ q(2) 1(4)] by simp
  qed
  with simD[OF all 1] show ?case by simp
qed

lemma sim_map_err [sim_rules]:
  assumes c: "sim view mine okay T K c a K'" and g: "\<And>e. T e \<Longrightarrow> T' (g e)"
  shows "sim view mine okay T' K (map_err g c) (map_err g a) K'"
proof (rule simI, goal_cases)
  case (1 s r s')
  obtain q s1 where q: "c s = (q, s1)" by fastforce
  then have r: "s1 = s'" "map_err g c s = (r, s')" "is_Ok q = is_Ok r" "\<forall>e. q = Err e \<longrightarrow> \<not> T e"
    using 1(3,4) g by (cases q; auto simp: comp_simps)+
  note d = simD[OF c 1(1,2) q r(4)]
  have "follows (mine s') (view s) (view s') (map_err g a) r"
    by (rule follows_stop[where a = a and r = q])
      (use d(5) r q in \<open>cases q; auto simp: comp_simps\<close>)+
  with d r show ?case by simp
qed

lemma sim_logic: "sim view mine okay T K (map_err g (liftR r)) (map_err g (liftR r)) {}"
  by (rule sim_map_err[where T = "\<lambda>_. False", OF sim_liftR]) simp

lemma sim_expect:
  assumes c: "sim view mine okay T K c a K'"
    and owned: "\<And>s e s'. okay s \<Longrightarrow> \<forall>k\<in>K. mine s k \<Longrightarrow> c s \<noteq> (Err e, s')"
  shows "sim view mine okay T' K (expectC msg c) (expectC msg a) K'"
proof (rule simI, goal_cases)
  case (1 s r s')
  obtain q s1 where q: "c s = (q, s1)" by fastforce
  then have no: "\<forall>e. q \<noteq> Err e"
    using owned[OF 1(1,2)] by auto
  then have r: "s1 = s'" "is_Ok q = is_Ok r" "\<forall>e. q = Err e \<longrightarrow> \<not> T e"
    using 1(3) q by (cases q; auto simp: expectC_def)+
  note d = simD[OF c 1(1,2) q r(3)]
  have stop: "expectC msg a w = (r, w')" if "a w = (q, w')" for w w'
    using that no q 1(3) by (cases q) (auto simp: expectC_def)
  have "follows (mine s') (view s) (view s') (expectC msg a) r"
    using follows_stop[OF d(5) stop] r(1) by simp
  with d r show ?case by simp
qed

section \<open>The accesses of a runtime\<close>

definition is_taint :: "dispatch_error \<Rightarrow> bool" where
  "is_taint e = (case e of Tainted _ _ \<Rightarrow> True | LogicError _ \<Rightarrow> False)"

lemma is_taint_simps [simp]: "is_taint (Tainted t b)" "\<not> is_taint (LogicError w)"
  by (simp_all add: is_taint_def)

text \<open>
  Whether a runtime refuses keys at all; the error of a refusal, as a call reports it.
\<close>

definition refuses :: "('s \<Rightarrow> state_key \<Rightarrow> bool) \<Rightarrow> ('s \<Rightarrow> bool) \<Rightarrow> bool" where
  "refuses mine okay \<longleftrightarrow> (\<exists>s k. okay s \<and> \<not> mine s k)"

definition refusal :: "('s \<Rightarrow> state_key \<Rightarrow> bool) \<Rightarrow> ('s \<Rightarrow> bool) \<Rightarrow> dispatch_error \<Rightarrow> bool" where
  "refusal mine okay e \<longleftrightarrow> refuses mine okay \<and> is_taint e"

context module_runtime_laws
begin

lemma sim_read: "sim view mine inv (\<lambda>_. refuses mine inv) K (mr_read R k) (mr_read AR k) {k}"
proof (rule simI, goal_cases)
  case (1 s r s')
  then show ?case
    by (cases rule: read_cases[OF 1(1), of k]) (auto simp: follows_def refuses_def)
qed

lemma sim_write: "sim view mine inv (\<lambda>_. refuses mine inv) K (mr_write R k v) (mr_write AR k v) {k}"
proof (rule simI, goal_cases)
  case (1 s r s')
  then show ?case
    by (cases rule: write_cases[OF 1(1), of k v]) (auto simp: follows_def refuses_def)
qed

lemma sim_map_read: "sim view mine inv (\<lambda>_. refuses mine inv) K (map_read R M k) (map_read AR M k) {key_for M k}"
  unfolding map_read_def by (rule sim_bind_keep[OF sim_read]) (rule sim_liftP)

lemma sim_map_write:
  "sim view mine inv (\<lambda>_. refuses mine inv) K (map_write R M k v) (map_write AR M k v) {key_for M k}"
  unfolding map_write_def by (rule sim_write)

lemma sim_map_clear:
  "sim view mine inv (\<lambda>_. refuses mine inv) K (map_clear R M k) (map_clear AR M k) {key_for M k}"
  unfolding map_clear_def by (rule sim_map_write)

lemma sim_map_exists:
  "sim view mine inv (\<lambda>_. refuses mine inv) K (map_exists R M k) (map_exists AR M k) {key_for M k}"
  unfolding map_exists_def by (rule sim_bind_keep[OF sim_map_read]) (rule sim_ret)

lemma sim_map_mutate:
  "sim view mine inv (\<lambda>_. refuses mine inv) K (map_mutate R M k f) (map_mutate AR M k f) {key_for M k}"
  unfolding map_mutate_def
  by (rule sim_bind_keep[OF sim_map_read] sim_bind[OF sim_liftP] sim_map_write)+

lemmas sim_maps = sim_map_read sim_map_write sim_map_clear sim_map_exists sim_map_mutate

text \<open>An access whose refusal is reported to the caller.\<close>

lemma sim_reported:
  assumes "sim view mine inv (\<lambda>_. refuses mine inv) K c a K'"
  shows "sim view mine inv (refusal mine inv) K (or_forward c) (or_forward a) K'"
    and "sim view mine inv (refusal mine inv) K (or_orphan c) (or_orphan a) K'"
  unfolding or_forward_def or_orphan_def by (rule sim_map_err[OF assms]; simp add: refusal_def)+

text \<open>A write that must succeed, to a key the thread has accessed before.\<close>

lemma sim_expect_write:
  assumes "key_for M k \<in> K"
  shows "sim view mine inv T K (expectC msg (map_write R M k v)) (expectC msg (map_write AR M k v))
     {key_for M k}"
proof (rule sim_expect[OF sim_map_write], goal_cases)
  case (1 s e s')
  then show ?case
    using write_mine[of s "key_for M k" "StateValue (sm_enc M v)"] assms
    by (auto simp: map_write_def)
qed

lemmas sim_access = sim_maps[THEN sim_reported(1)] sim_maps[THEN sim_reported(2)]

lemmas sim_call = sim_logic sim_rules sim_access sim_access[THEN sim_weaken] sim_expect_write

text \<open>A run that was not refused computes what the specification runtime computes on its view.\<close>

lemma sim_runs:
  assumes "sim view mine inv T {} c a K'" "inv s" "c s = (r, s')" "\<And>e. r = Err e \<Longrightarrow> \<not> T e"
  shows "a (view s) = (r, view s')"
proof -
  have noT: "\<forall>e. r = Err e \<longrightarrow> \<not> T e"
    using assms(4) by blast
  note d = simD[OF assms(1,2) _ assms(3) noT]
  have "follows (mine s') (view s) (view s') a r"
    by (rule d(5)) simp
  then obtain w' where w': "a (view s) = (r, w')"
      "\<forall>k. w' k = (if mine s' k then view s' k else view s k)"
    unfolding follows_def by blast
  have "view s' k = view s k" if "\<not> mine s' k" for k
    by (rule d(4)[OF _ that]) simp
  then have "w' = view s'"
    using w'(2) by (auto simp: fun_eq_iff)
  with w' show ?thesis by simp
qed

end

lemma seq_refuses_nothing [simp]: "\<not> refuses (\<lambda>_ _. True) okay"
  by (simp add: refuses_def)

lemma seq_runs:
  assumes "sim sr_view (\<lambda>_ _. True) (\<lambda>_. True) (refusal (\<lambda>_ _. True) (\<lambda>_. True)) {} c a K'"
  shows "a (sr_view s) = (fst (c s), sr_view (snd (c s)))"
  by (rule seq.sim_runs[OF assms]) (auto simp: refusal_def)

end
