(* ===== verification/Balances.thy ===== *)
theory Balances
  imports Simulation
begin

text \<open>
  The module \<open>balances\<close> (\<open>runtime/src/balances.rs\<close>): accounts with a free and a reserved amount,
  and the one call of the module, \<open>transfer\<close>, written for any runtime. Its specification is a
  function on the map from accounts to balances, and the lemmas show that the call implements it
  on every runtime that satisfies the laws.
\<close>

section \<open>Account balances\<close>

record account_balance =
  ab_free :: balance
  ab_reserved :: balance

definition ab_default :: account_balance where
  "ab_default = \<lparr>ab_free = 0, ab_reserved = 0\<rparr>"

definition ab_new :: "balance \<Rightarrow> balance \<Rightarrow> account_balance" where
  "ab_new free reserved = \<lparr>ab_free = free, ab_reserved = reserved\<rparr>"

definition ab_new_free :: "balance \<Rightarrow> account_balance" where
  "ab_new_free free = \<lparr>ab_free = free, ab_reserved = 0\<rparr>"

text \<open>The conversions from a balance and from a pair.\<close>

definition ab_from :: "balance \<Rightarrow> account_balance" where
  "ab_from free = \<lparr>ab_free = free, ab_reserved = 0\<rparr>"

definition ab_from_pair :: "balance \<times> balance \<Rightarrow> account_balance" where
  "ab_from_pair pair = (case pair of (free, reserved) \<Rightarrow> \<lparr>ab_free = free, ab_reserved = reserved\<rparr>)"

lemma ab_from_new: "ab_from free = ab_new_free free" "ab_from_pair (free, reserved) = ab_new free reserved"
  by (simp_all add: ab_from_def ab_new_free_def ab_from_pair_def ab_new_def)

text \<open>\<open>self.free + self.reserved\<close>, with the overflow checks of the build profile.\<close>

definition ab_total :: "bool \<Rightarrow> account_balance \<Rightarrow> balance panicking" where
  "ab_total chk b = u128_add chk (ab_free b) (ab_reserved b)"

definition can_spend :: "balance \<Rightarrow> account_balance \<Rightarrow> bool" where
  "can_spend amount b \<longleftrightarrow> ab_free b \<ge> amount"

text \<open>
  \<open>reserve\<close> and \<open>unreserve\<close> change the balance in place and return a \<open>Result\<close>; the model
  returns the new balance under \<open>Ok\<close>. A refusal leaves the balance as it was.
\<close>

definition reserve :: "bool \<Rightarrow> balance \<Rightarrow> account_balance \<Rightarrow> (account_balance, string) rs" where
  "reserve chk amount b =
     (if can_spend amount b
      then (case u128_add chk (ab_reserved b) amount of
              Inl p \<Rightarrow> Panic p
            | Inr r \<Rightarrow> Ok (b\<lparr>ab_free := ab_free b - amount, ab_reserved := r\<rparr>))
      else Err ''Not enough funds.'')"

definition unreserve :: "bool \<Rightarrow> balance \<Rightarrow> account_balance \<Rightarrow> (account_balance, string) rs" where
  "unreserve chk amount b =
     (if ab_reserved b \<ge> amount
      then (case u128_add chk (ab_free b) amount of
              Inl p \<Rightarrow> Panic p
            | Inr f \<Rightarrow> Ok (b\<lparr>ab_reserved := ab_reserved b - amount, ab_free := f\<rparr>))
      else Err ''Not enough reserved.'')"

text \<open>The worth of an account as an unbounded number.\<close>

definition worth :: "account_balance \<Rightarrow> nat" where
  "worth b = unat (ab_free b) + unat (ab_reserved b)"

lemma reserve_OkD:
  assumes "reserve chk amount b = Ok b'"
  shows "amount \<le> ab_free b" "ab_free b' = ab_free b - amount"
    "ab_reserved b' = ab_reserved b + amount"
  using assms by (auto simp: reserve_def can_spend_def split: if_splits sum.splits dest: u128_add_Inr)

lemma unreserve_OkD:
  assumes "unreserve chk amount b = Ok b'"
  shows "amount \<le> ab_reserved b" "ab_free b' = ab_free b + amount"
    "ab_reserved b' = ab_reserved b - amount"
  using assms by (auto simp: unreserve_def split: if_splits sum.splits dest: u128_add_Inr)

lemma reserve_worth:
  assumes "reserve chk amount b = Ok b'" "worth b < 2 ^ 128"
  shows "worth b' = worth b \<and> unat (ab_reserved b') = unat (ab_reserved b) + unat amount"
proof -
  note r = reserve_OkD[OF assms(1)]
  have "unat (ab_free b - amount) = unat (ab_free b) - unat amount" "unat amount \<le> unat (ab_free b)"
    using r(1) by (simp_all add: unat_sub_no_underflow word_le_nat_alt)
  moreover from this have "unat (ab_reserved b + amount) = unat (ab_reserved b) + unat amount"
    using assms(2) by (intro unat_add_no_overflow) (simp add: worth_def)
  ultimately show ?thesis
    using r by (simp add: worth_def)
qed

lemma unreserve_worth:
  assumes "unreserve chk amount b = Ok b'" "worth b < 2 ^ 128"
  shows "worth b' = worth b \<and> unat (ab_reserved b') = unat (ab_reserved b) - unat amount"
proof -
  note r = unreserve_OkD[OF assms(1)]
  have "unat (ab_reserved b - amount) = unat (ab_reserved b) - unat amount"
    "unat amount \<le> unat (ab_reserved b)"
    using r(1) by (simp_all add: unat_sub_no_underflow word_le_nat_alt)
  moreover from this have "unat (ab_free b + amount) = unat (ab_free b) + unat amount"
    using assms(2) by (intro unat_add_no_overflow) (simp add: worth_def)
  ultimately show ?thesis
    using r by (simp add: worth_def)
qed

lemma reserve_no_panic: "worth b < 2 ^ 128 \<Longrightarrow> reserve chk amount b \<noteq> Panic p"
proof
  assume b: "worth b < 2 ^ 128" and p: "reserve chk amount b = Panic p"
  then have "unat amount \<le> unat (ab_free b)"
    by (auto simp: reserve_def can_spend_def word_le_nat_alt split: if_splits)
  with b have "unat (ab_reserved b) + unat amount < 2 ^ 128"
    by (simp add: worth_def)
  with p show False
    by (simp add: reserve_def u128_add_fits split: if_splits)
qed

lemma unreserve_no_panic: "worth b < 2 ^ 128 \<Longrightarrow> unreserve chk amount b \<noteq> Panic p"
proof
  assume b: "worth b < 2 ^ 128" and p: "unreserve chk amount b = Panic p"
  then have "unat amount \<le> unat (ab_reserved b)"
    by (auto simp: unreserve_def word_le_nat_alt split: if_splits)
  with b have "unat (ab_free b) + unat amount < 2 ^ 128"
    by (simp add: worth_def)
  with p show False
    by (simp add: unreserve_def u128_add_fits split: if_splits)
qed

section \<open>The storage of the module and its call\<close>

record 'p balances_env = "'p edc_env" +
  enc_account_balance :: "account_balance \<Rightarrow> bytes"
  dec_account_balance :: "bytes \<Rightarrow> (account_balance, string) rs"

definition BalanceOf :: "('p, 'z) balances_env_scheme \<Rightarrow> ('p, account_balance) storage_map" where
  "BalanceOf E =
     \<lparr>sm_module = ''balances'', sm_name = ''balance_of'', sm_enc_key = public_encode E,
      sm_enc = enc_account_balance E, sm_dec = dec_account_balance E, sm_default = ab_default\<rparr>"

datatype 'p balances_call = Transfer 'p balance

definition transfer ::
  "('p, 'z) balances_env_scheme \<Rightarrow> 's module_runtime \<Rightarrow> 'p \<Rightarrow> 'p \<Rightarrow> balance
     \<Rightarrow> ('s, unit, dispatch_error) comp" where
  "transfer E R origin dest val =
     bindC (or_forward (map_read R (BalanceOf E) origin)) (\<lambda>old_balance.
     (case checked_sub (ab_free old_balance) val of
        Some remaining \<Rightarrow>
          bindC (expectC ''Origin's balance key must be owned by the current thread.''
                   (map_write R (BalanceOf E) origin (old_balance\<lparr>ab_free := remaining\<rparr>))) (\<lambda>_.
          bindC (or_orphan (map_mutate R (BalanceOf E) dest
                   (\<lambda>old. case u128_add (debug_build E) (ab_free old) val of
                      Inl p \<Rightarrow> Inl p
                    | Inr free \<Rightarrow> Inr (old\<lparr>ab_free := free\<rparr>)))) (\<lambda>_.
          ret ()))
      | None \<Rightarrow> throw (LogicError ''Does not have enough funds.'')))"

fun balances_dispatch ::
  "('p, 'z) balances_env_scheme \<Rightarrow> 's module_runtime \<Rightarrow> 'p balances_call \<Rightarrow> 'p
     \<Rightarrow> ('s, unit, dispatch_error) comp" where
  "balances_dispatch E R (Transfer dest val) origin = transfer E R origin dest val"

text \<open>The access hints. With the feature \<open>no-access\<close> every call is validated to no key.\<close>

fun balances_access :: "('p, 'z) balances_env_scheme \<Rightarrow> 'p balances_call \<Rightarrow> 'p \<Rightarrow> state_key list" where
  "balances_access E (Transfer dest val) origin =
     [key_for (BalanceOf E) origin, key_for (BalanceOf E) dest]"

definition balances_validate ::
  "bool \<Rightarrow> ('p, 'z) balances_env_scheme \<Rightarrow> 'p balances_call \<Rightarrow> 'p \<Rightarrow> state_key list" where
  "balances_validate no_access E call origin =
     (if no_access then [] else balances_access E call origin)"

section \<open>The specification of a transfer\<close>

text \<open>
  On the map of all balances: what the call returns and the map it leaves. The second write
  reads the destination after the first one, so a transfer to oneself changes nothing.
\<close>

definition transfer_spec ::
  "bool \<Rightarrow> 'p \<Rightarrow> 'p \<Rightarrow> balance \<Rightarrow> ('p \<Rightarrow> account_balance) \<Rightarrow> dispatch_result \<times> ('p \<Rightarrow> account_balance)"
  where
  "transfer_spec chk origin dest val bal =
     (if val \<le> ab_free (bal origin)
      then (let paid = bal(origin := (bal origin)\<lparr>ab_free := ab_free (bal origin) - val\<rparr>)
            in (case u128_add chk (ab_free (paid dest)) val of
                  Inl p \<Rightarrow> (Panic p, paid)
                | Inr f \<Rightarrow> (Ok (), paid(dest := (paid dest)\<lparr>ab_free := f\<rparr>))))
      else (Err (LogicError ''Does not have enough funds.''), bal))"

definition balances_ok :: "('p, 'z) balances_env_scheme \<Rightarrow> bool" where
  "balances_ok E \<longleftrightarrow> edc_ok E
     \<and> (\<forall>b. dec_account_balance E (enc_account_balance E b) = Ok b)
     \<and> (\<exists>e. dec_account_balance E [] = Err e)"

lemma BalanceOf_sel [simp]:
  "sm_default (BalanceOf E) = ab_default"
  "storage_name (BalanceOf E) = ''balances:balance_of''"
  by (simp_all add: BalanceOf_def storage_name_def)

lemma BalanceOf_ok: "balances_ok E \<Longrightarrow> sm_ok (BalanceOf E)"
  by (auto simp: balances_ok_def sm_ok_def BalanceOf_def public_encode_inj public_encode_length)


section \<open>The call implements its specification on every runtime\<close>

context module_runtime_laws
begin

lemma sim_transfer:
  "sim view mine inv (refusal mine inv) {} (transfer E R origin dest val) (transfer E AR origin dest val) {}"
  unfolding transfer_def
  by (rule sim_call | simp)+

end

text \<open>On the specification runtime the call computes \<open>transfer_spec\<close> on the decoded map.\<close>

lemma transfer_AR:
  assumes "balances_ok E" "readable (BalanceOf E) w"
    "transfer_spec (debug_build E) origin dest val (typed (BalanceOf E) w) = (r, bal')"
  shows "\<exists>w'. transfer E AR origin dest val w = (r, w')
       \<and> typed (BalanceOf E) w' = bal' \<and> readable (BalanceOf E) w'"
proof -
  note ok = BalanceOf_ok[OF assms(1)]
  have sm: "sm_enc (BalanceOf E) = enc_account_balance E"
    by (simp add: BalanceOf_def)
  show ?thesis
    using assms(2,3)
    by (auto simp: transfer_def transfer_spec_def checked_sub_def or_forward_def or_orphan_def
        map_err_def expectC_def bindC_def map_AR liftP_def readable_decoded decoded_write[OF ok]
        typed_write[OF ok] readable_write[OF ok] Let_def split: if_splits sum.splits)
qed

section \<open>The total funds\<close>

text \<open>Everything the accounts of a set own, as an unbounded number.\<close>

definition funds :: "'p set \<Rightarrow> ('p \<Rightarrow> account_balance) \<Rightarrow> nat" where
  "funds A bal = (\<Sum>a\<in>A. worth (bal a))"

lemma funds_update:
  assumes "finite A" "x \<in> A"
  shows "funds A (bal(x := b)) + worth (bal x) = funds A bal + worth b"
proof -
  have "(\<Sum>a\<in>A - {x}. worth ((bal(x := b)) a)) = (\<Sum>a\<in>A - {x}. worth (bal a))"
    by (rule sum.cong) auto
  then show ?thesis
    using assms by (simp add: funds_def sum.remove[of A x])
qed

lemma worth_le_funds: "finite A \<Longrightarrow> x \<in> A \<Longrightarrow> worth (bal x) \<le> funds A bal"
  unfolding funds_def by (rule member_le_sum) auto

lemma funds_keep:
  "finite A \<Longrightarrow> x \<in> A \<Longrightarrow> worth b = worth (bal x) \<Longrightarrow> funds A (bal(x := b)) = funds A bal"
  using funds_update[of A x bal b] by simp

lemma worth_free_sub:
  "v \<le> ab_free b \<Longrightarrow> worth (b\<lparr>ab_free := ab_free b - v\<rparr>) + unat v = worth b"
  by (simp add: worth_def unat_sub_no_underflow word_le_nat_alt)

lemma worth_free_add:
  "worth b + unat v < 2 ^ 128 \<Longrightarrow> worth (b\<lparr>ab_free := ab_free b + v\<rparr>) = worth b + unat v"
  by (simp add: worth_def unat_add_no_overflow)

lemma transfer_spec_funds:
  assumes "finite A" "origin \<in> A" "dest \<in> A" "funds A bal < 2 ^ 128"
    and run: "transfer_spec chk origin dest val bal = (r, bal')"
  shows "funds A bal' = funds A bal \<and> \<not> is_Panic r
    \<and> (\<forall>a. ab_reserved (bal' a) = ab_reserved (bal a))"
proof (cases "val \<le> ab_free (bal origin)")
  case False
  with run show ?thesis by (auto simp: transfer_spec_def)
next
  case True
  define paid where "paid = bal(origin := (bal origin)\<lparr>ab_free := ab_free (bal origin) - val\<rparr>)"
  have "funds A paid + worth (bal origin)
      = funds A bal + worth ((bal origin)\<lparr>ab_free := ab_free (bal origin) - val\<rparr>)"
    unfolding paid_def by (rule funds_update[OF assms(1,2)])
  with worth_free_sub[OF True] have paid: "funds A paid + unat val = funds A bal"
    by linarith
  with worth_le_funds[OF assms(1,3), of paid] assms(4)
  have fits: "worth (paid dest) + unat val < 2 ^ 128"
    by linarith
  then have add: "u128_add chk (ab_free (paid dest)) val = Inr (ab_free (paid dest) + val)"
    by (intro u128_add_fits) (simp add: worth_def)
  have "bal' = paid(dest := (paid dest)\<lparr>ab_free := ab_free (paid dest) + val\<rparr>)" "r = Ok ()"
    using run True add by (auto simp: transfer_spec_def paid_def[symmetric] Let_def)
  with funds_update[OF assms(1,3), of paid "(paid dest)\<lparr>ab_free := ab_free (paid dest) + val\<rparr>"]
    worth_free_add[OF fits] paid show ?thesis
    by (auto simp: paid_def)
qed

text \<open>C32. A transfer on the concurrent runtime is either refused a key, or it returns and leaves
  exactly what the specification on the map of balances says: the amount moves from the free
  balance of the origin to that of the destination, or, if the origin cannot pay, nothing
  changes and the caller gets the logic error.\<close>

theorem transfer_concurrent:
  assumes "balances_ok E" "cr_inv s" "readable (BalanceOf E) (cr_view s)"
    and "transfer E CR origin dest val s = (r, s')"
  shows "(\<exists>t b. r = Err (Tainted t b))
    \<or> (r, typed (BalanceOf E) (cr_view s'))
        = transfer_spec (debug_build E) origin dest val (typed (BalanceOf E) (cr_view s))"
proof (cases "\<exists>t b. r = Err (Tainted t b)")
  case False
  then have "\<not> refusal cr_mine cr_inv e" if "r = Err e" for e
    using that by (cases e) (auto simp: refusal_def)
  from conc.sim_runs[OF conc.sim_transfer assms(2,4) this]
  have "transfer E AR origin dest val (cr_view s) = (r, cr_view s')" .
  moreover obtain q bal' where
    "transfer_spec (debug_build E) origin dest val (typed (BalanceOf E) (cr_view s)) = (q, bal')"
    by fastforce
  ultimately show ?thesis
    using transfer_AR[OF assms(1,3)] by fastforce
qed simp

text \<open>A transfer on the sequential runtime always returns and computes the same
  specification.\<close>

theorem transfer_sequential:
  assumes "balances_ok E" "readable (BalanceOf E) (sr_view s)"
  shows "(fst (transfer E SR origin dest val s),
          typed (BalanceOf E) (sr_view (snd (transfer E SR origin dest val s))))
    = transfer_spec (debug_build E) origin dest val (typed (BalanceOf E) (sr_view s))"
proof -
  obtain q bal' where q:
    "transfer_spec (debug_build E) origin dest val (typed (BalanceOf E) (sr_view s)) = (q, bal')"
    by fastforce
  from transfer_AR[OF assms q] seq_runs[OF seq.sim_transfer, of E origin dest val s] q
  show ?thesis by auto
qed

end
