(* ===== verification/Staking.thy ===== *)
theory Staking
  imports Balances
begin

text \<open>
  The module \<open>staking\<close> (\<open>runtime/src/staking.rs\<close>): stash accounts bond part of their balance
  under a controller account, which then chooses the role of the stash. The seven calls are
  written for any runtime, with every early return, \<open>expect\<close> and \<open>panic!\<close> of the code; their
  specification is on the decoded maps of the two modules, the record \<open>chain\<close>.
\<close>

section \<open>Data and storage\<close>

datatype staking_role = Validator | Nominator | Chilled

record 'p staking_ledger =
  sl_value :: balance
  sl_controller :: 'p
  sl_role :: staking_role

record 'p staking_env = "'p balances_env" +
  enc_ledger :: "'p staking_ledger \<Rightarrow> bytes"
  dec_ledger :: "bytes \<Rightarrow> ('p staking_ledger, string) rs"
  enc_accounts :: "'p list \<Rightarrow> bytes"
  dec_accounts :: "bytes \<Rightarrow> ('p list, string) rs"

definition ledger_default :: "('p, 'z) staking_env_scheme \<Rightarrow> 'p staking_ledger" where
  "ledger_default E = \<lparr>sl_value = 0, sl_controller = default_pk E, sl_role = Chilled\<rparr>"

definition Ledger :: "('p, 'z) staking_env_scheme \<Rightarrow> ('p, 'p staking_ledger) storage_map" where
  "Ledger E =
     \<lparr>sm_module = ''staking'', sm_name = ''ledger_of'', sm_enc_key = public_encode E,
      sm_enc = enc_ledger E, sm_dec = dec_ledger E, sm_default = ledger_default E\<rparr>"

text \<open>An account as a stored value: the rest of the input after the key is ignored.\<close>

definition dec_account :: "('p, 'z) edc_env_scheme \<Rightarrow> bytes \<Rightarrow> ('p, string) rs" where
  "dec_account E bs = (case public_decode E bs of
     Ok (p, rest) \<Rightarrow> Ok p | Err e \<Rightarrow> Err e | Panic msg \<Rightarrow> Panic msg)"

definition Bonded :: "('p, 'z) staking_env_scheme \<Rightarrow> ('p, 'p) storage_map" where
  "Bonded E =
     \<lparr>sm_module = ''staking'', sm_name = ''bonded'', sm_enc_key = public_encode E,
      sm_enc = public_encode E, sm_dec = dec_account E, sm_default = default_pk E\<rparr>"

definition Nominations :: "('p, 'z) staking_env_scheme \<Rightarrow> ('p, 'p list) storage_map" where
  "Nominations E =
     \<lparr>sm_module = ''staking'', sm_name = ''nominations'', sm_enc_key = public_encode E,
      sm_enc = enc_accounts E, sm_dec = dec_accounts E, sm_default = []\<rparr>"

definition staking_ok :: "('p, 'z) staking_env_scheme \<Rightarrow> bool" where
  "staking_ok E \<longleftrightarrow> balances_ok E
     \<and> (\<forall>l. dec_ledger E (enc_ledger E l) = Ok l) \<and> (\<exists>e. dec_ledger E [] = Err e)
     \<and> (\<forall>ps. dec_accounts E (enc_accounts E ps) = Ok ps) \<and> (\<exists>e. dec_accounts E [] = Err e)"

section \<open>The calls\<close>

datatype 'p staking_call =
    TxBond balance 'p
  | TxBondExtra balance
  | TxUnbond balance
  | TxSetController 'p
  | TxValidate
  | TxNominate "'p list"
  | TxChill

abbreviation owned_write ::
  "'s module_runtime \<Rightarrow> ('k, 'v) storage_map \<Rightarrow> 'k \<Rightarrow> 'v \<Rightarrow> ('s, unit, dispatch_error) comp" where
  "owned_write R M k v \<equiv> expectC ''Must be owned.'' (map_write R M k v)"

definition tx_bond ::
  "('p, 'z) staking_env_scheme \<Rightarrow> 's module_runtime \<Rightarrow> 'p \<Rightarrow> balance \<Rightarrow> 'p
     \<Rightarrow> ('s, unit, dispatch_error) comp" where
  "tx_bond E R stash amount controller =
     bindC (or_forward (map_exists R (Ledger E) stash)) (\<lambda>bonded.
     if bonded then throw (LogicError ''Already bonded.'') else
     bindC (or_orphan (map_read R (BalanceOf E) stash)) (\<lambda>stash_balance.
     bindC (map_err LogicError (liftR (reserve (debug_build E) amount stash_balance)))
       (\<lambda>stash_balance.
     bindC (owned_write R (BalanceOf E) stash stash_balance) (\<lambda>_.
     bindC (or_orphan (map_write R (Bonded E) controller stash)) (\<lambda>_.
     bindC (owned_write R (Ledger E) stash
              ((ledger_default E)\<lparr>sl_controller := controller, sl_value := amount\<rparr>)) (\<lambda>_.
     ret ()))))))"

definition tx_bond_extra ::
  "('p, 'z) staking_env_scheme \<Rightarrow> 's module_runtime \<Rightarrow> 'p \<Rightarrow> balance
     \<Rightarrow> ('s, unit, dispatch_error) comp" where
  "tx_bond_extra E R stash amount =
     bindC (or_forward (map_read R (Ledger E) stash)) (\<lambda>ledger.
     if ledger = ledger_default E then throw (LogicError ''Not bonded.'') else
     bindC (or_orphan (map_read R (BalanceOf E) stash)) (\<lambda>balance.
     bindC (map_err LogicError (liftR (reserve (debug_build E) amount balance))) (\<lambda>balance.
     bindC (owned_write R (BalanceOf E) stash balance) (\<lambda>_.
     bindC (liftP (u128_add (debug_build E) (sl_value ledger) amount)) (\<lambda>value.
     bindC (owned_write R (Ledger E) stash (ledger\<lparr>sl_value := value\<rparr>)) (\<lambda>_.
     ret ()))))))"

definition tx_unbond ::
  "('p, 'z) staking_env_scheme \<Rightarrow> 's module_runtime \<Rightarrow> 'p \<Rightarrow> balance
     \<Rightarrow> ('s, unit, dispatch_error) comp" where
  "tx_unbond E R stash amount =
     bindC (or_forward (map_read R (Ledger E) stash)) (\<lambda>ledger.
     if ledger = ledger_default E then throw (LogicError ''Not bonded.'')
     else if sl_value ledger < amount then throw (LogicError ''Too much unbonding.'') else
     bindC (case checked_sub (sl_value ledger) amount of
              Some value \<Rightarrow> ret value | None \<Rightarrow> panic ''Must have enough bonded.'') (\<lambda>value.
     bindC (owned_write R (Ledger E) stash (ledger\<lparr>sl_value := value\<rparr>)) (\<lambda>_.
     bindC (or_orphan (map_mutate R (BalanceOf E) stash
              (\<lambda>old. case unreserve (debug_build E) amount old of
                 Ok new \<Rightarrow> Inr new
               | Err e \<Rightarrow> Inl ''Must have enough reserved''
               | Panic p \<Rightarrow> Inl p))) (\<lambda>_.
     ret ()))))"

definition tx_set_controller ::
  "('p, 'z) staking_env_scheme \<Rightarrow> 's module_runtime \<Rightarrow> 'p \<Rightarrow> 'p
     \<Rightarrow> ('s, unit, dispatch_error) comp" where
  "tx_set_controller E R stash ctrl =
     bindC (or_forward (map_read R (Ledger E) stash)) (\<lambda>ledger.
     if ledger = ledger_default E then throw (LogicError ''Not bonded.'')
     else if sl_controller ledger = ctrl then ret () else
     bindC (or_forward (map_clear R (Bonded E) (sl_controller ledger))) (\<lambda>_.
     bindC (or_orphan (map_write R (Bonded E) ctrl stash)) (\<lambda>_.
     bindC (owned_write R (Ledger E) stash (ledger\<lparr>sl_controller := ctrl\<rparr>)) (\<lambda>_.
     ret ()))))"

definition tx_validate ::
  "('p, 'z) staking_env_scheme \<Rightarrow> 's module_runtime \<Rightarrow> 'p \<Rightarrow> ('s, unit, dispatch_error) comp" where
  "tx_validate E R ctrl =
     bindC (or_forward (map_read R (Bonded E) ctrl)) (\<lambda>stash.
     if stash = default_pk E then throw (LogicError ''Not bonded.'') else
     bindC (or_orphan (map_read R (Ledger E) stash)) (\<lambda>ledger.
     if ledger = ledger_default E then panic ''Ledger must exist when Bonded exists.'' else
     bindC (owned_write R (Ledger E) stash (ledger\<lparr>sl_role := Validator\<rparr>)) (\<lambda>_.
     ret ())))"

definition tx_nominate ::
  "('p, 'z) staking_env_scheme \<Rightarrow> 's module_runtime \<Rightarrow> 'p \<Rightarrow> 'p list
     \<Rightarrow> ('s, unit, dispatch_error) comp" where
  "tx_nominate E R ctrl targets =
     bindC (or_forward (map_read R (Bonded E) ctrl)) (\<lambda>stash.
     if stash = default_pk E then throw (LogicError ''Not bonded.'') else
     bindC (or_orphan (map_read R (Ledger E) stash)) (\<lambda>ledger.
     if ledger = ledger_default E then panic ''Ledger must exist when Bonded exists.'' else
     bindC (or_orphan (map_write R (Nominations E) stash targets)) (\<lambda>_.
     bindC (owned_write R (Ledger E) stash (ledger\<lparr>sl_role := Nominator\<rparr>)) (\<lambda>_.
     ret ()))))"

definition tx_chill ::
  "('p, 'z) staking_env_scheme \<Rightarrow> 's module_runtime \<Rightarrow> 'p \<Rightarrow> ('s, unit, dispatch_error) comp" where
  "tx_chill E R ctrl =
     bindC (or_forward (map_read R (Bonded E) ctrl)) (\<lambda>stash.
     if stash = default_pk E then throw (LogicError ''Not bonded.'') else
     bindC (or_orphan (map_read R (Ledger E) stash)) (\<lambda>ledger.
     if ledger = ledger_default E then panic ''Ledger must exist when Bonded exists.'' else
     bindC (if sl_role ledger = Nominator
            then or_orphan (map_clear R (Nominations E) stash) else ret ()) (\<lambda>_.
     bindC (owned_write R (Ledger E) stash (ledger\<lparr>sl_role := Chilled\<rparr>)) (\<lambda>_.
     ret ()))))"

fun staking_dispatch ::
  "('p, 'z) staking_env_scheme \<Rightarrow> 's module_runtime \<Rightarrow> 'p staking_call \<Rightarrow> 'p
     \<Rightarrow> ('s, unit, dispatch_error) comp" where
  "staking_dispatch E R (TxBond amount controller) origin = tx_bond E R origin amount controller"
| "staking_dispatch E R (TxBondExtra amount) origin = tx_bond_extra E R origin amount"
| "staking_dispatch E R (TxUnbond amount) origin = tx_unbond E R origin amount"
| "staking_dispatch E R (TxSetController ctrl) origin = tx_set_controller E R origin ctrl"
| "staking_dispatch E R TxValidate origin = tx_validate E R origin"
| "staking_dispatch E R (TxNominate targets) origin = tx_nominate E R origin targets"
| "staking_dispatch E R TxChill origin = tx_chill E R origin"

fun staking_access :: "('p, 'z) staking_env_scheme \<Rightarrow> 'p staking_call \<Rightarrow> 'p \<Rightarrow> state_key list" where
  "staking_access E (TxBond amount controller) origin =
     [key_for (BalanceOf E) origin, key_for (Ledger E) origin, key_for (Bonded E) controller]"
| "staking_access E (TxBondExtra amount) origin =
     [key_for (BalanceOf E) origin, key_for (Ledger E) origin]"
| "staking_access E (TxUnbond amount) origin =
     [key_for (BalanceOf E) origin, key_for (Ledger E) origin]"
| "staking_access E (TxSetController ctrl) origin =
     [key_for (Ledger E) origin, key_for (Bonded E) ctrl]"
| "staking_access E TxValidate origin = [key_for (Bonded E) origin]"
| "staking_access E (TxNominate targets) origin = [key_for (Bonded E) origin]"
| "staking_access E TxChill origin = [key_for (Bonded E) origin]"

definition staking_validate ::
  "bool \<Rightarrow> ('p, 'z) staking_env_scheme \<Rightarrow> 'p staking_call \<Rightarrow> 'p \<Rightarrow> state_key list" where
  "staking_validate no_access E call origin =
     (if no_access then [] else staking_access E call origin)"

context module_runtime_laws
begin

lemma sim_tx_bond:
  "sim view mine inv (refusal mine inv) {} (tx_bond E R stash amount controller) (tx_bond E AR stash amount controller) {}"
  unfolding tx_bond_def by (rule sim_call | simp)+

lemma sim_tx_bond_extra:
  "sim view mine inv (refusal mine inv) {} (tx_bond_extra E R stash amount) (tx_bond_extra E AR stash amount) {}"
  unfolding tx_bond_extra_def by (rule sim_call | simp)+

lemma sim_tx_unbond:
  "sim view mine inv (refusal mine inv) {} (tx_unbond E R stash amount) (tx_unbond E AR stash amount) {}"
  unfolding tx_unbond_def by (rule sim_call | simp)+

lemma sim_tx_set_controller:
  "sim view mine inv (refusal mine inv) {} (tx_set_controller E R stash ctrl) (tx_set_controller E AR stash ctrl) {}"
  unfolding tx_set_controller_def by (rule sim_call | simp)+

lemma sim_tx_validate:
  "sim view mine inv (refusal mine inv) {} (tx_validate E R ctrl) (tx_validate E AR ctrl) {}"
  unfolding tx_validate_def by (rule sim_call | simp)+

lemma sim_tx_nominate:
  "sim view mine inv (refusal mine inv) {} (tx_nominate E R ctrl targets) (tx_nominate E AR ctrl targets) {}"
  unfolding tx_nominate_def by (rule sim_call | simp)+

lemma sim_tx_chill:
  "sim view mine inv (refusal mine inv) {} (tx_chill E R ctrl) (tx_chill E AR ctrl) {}"
  unfolding tx_chill_def by (rule sim_call | simp)+

lemma sim_staking:
  "sim view mine inv (refusal mine inv) {} (staking_dispatch E R call origin)
     (staking_dispatch E AR call origin) {}"
  by (cases call) (simp_all add: sim_tx_bond sim_tx_bond_extra sim_tx_unbond sim_tx_set_controller
      sim_tx_validate sim_tx_nominate sim_tx_chill)

end

section \<open>The decoded state of the two modules\<close>

record 'p chain =
  ch_balances :: "'p \<Rightarrow> account_balance"
  ch_ledgers :: "'p \<Rightarrow> 'p staking_ledger"
  ch_bonded :: "'p \<Rightarrow> 'p"
  ch_nominations :: "'p \<Rightarrow> 'p list"

definition chain_of :: "('p, 'z) staking_env_scheme \<Rightarrow> view \<Rightarrow> 'p chain" where
  "chain_of E w =
     \<lparr>ch_balances = typed (BalanceOf E) w, ch_ledgers = typed (Ledger E) w,
      ch_bonded = typed (Bonded E) w, ch_nominations = typed (Nominations E) w\<rparr>"

definition chain_readable :: "('p, 'z) staking_env_scheme \<Rightarrow> view \<Rightarrow> bool" where
  "chain_readable E w \<longleftrightarrow> readable (BalanceOf E) w \<and> readable (Ledger E) w
     \<and> readable (Bonded E) w \<and> readable (Nominations E) w"

lemma chain_of_sel [simp]:
  "ch_balances (chain_of E w) = typed (BalanceOf E) w"
  "ch_ledgers (chain_of E w) = typed (Ledger E) w"
  "ch_bonded (chain_of E w) = typed (Bonded E) w"
  "ch_nominations (chain_of E w) = typed (Nominations E) w"
  by (simp_all add: chain_of_def)

lemma staking_maps_sel [simp]:
  "sm_default (Ledger E) = ledger_default E" "storage_name (Ledger E) = ''staking:ledger_of''"
  "sm_default (Bonded E) = default_pk E" "storage_name (Bonded E) = ''staking:bonded''"
  "sm_default (Nominations E) = []" "storage_name (Nominations E) = ''staking:nominations''"
  by (simp_all add: Ledger_def Bonded_def Nominations_def storage_name_def)

lemma dec_account_encode: "edc_ok E \<Longrightarrow> dec_account E (public_encode E p) = Ok p"
  using public_decode_encode[of E p "[]"] by (simp add: dec_account_def)

lemma dec_account_empty: "dec_account E [] = Ok (default_pk E)"
  by (simp add: dec_account_def public_decode_empty)

lemma staking_maps_ok:
  assumes "staking_ok E"
  shows "sm_ok (BalanceOf E)" "sm_ok (Ledger E)" "sm_ok (Bonded E)" "sm_ok (Nominations E)"
  using assms BalanceOf_ok[of E]
  by (auto simp: staking_ok_def balances_ok_def sm_ok_def Ledger_def Bonded_def Nominations_def
      public_encode_inj public_encode_length dec_account_encode dec_account_empty)

text \<open>How a write acts on the decoded state.\<close>

lemma chain_writes:
  assumes "staking_ok E"
  shows "chain_of E (w(key_for (BalanceOf E) k := StateValue (sm_enc (BalanceOf E) b)))
      = (chain_of E w)\<lparr>ch_balances := (ch_balances (chain_of E w))(k := b)\<rparr>"
    and "chain_of E (w(key_for (Ledger E) k := StateValue (sm_enc (Ledger E) l)))
      = (chain_of E w)\<lparr>ch_ledgers := (ch_ledgers (chain_of E w))(k := l)\<rparr>"
    and "chain_of E (w(key_for (Bonded E) k := StateValue (sm_enc (Bonded E) p)))
      = (chain_of E w)\<lparr>ch_bonded := (ch_bonded (chain_of E w))(k := p)\<rparr>"
    and "chain_of E (w(key_for (Nominations E) k := StateValue (sm_enc (Nominations E) ps)))
      = (chain_of E w)\<lparr>ch_nominations := (ch_nominations (chain_of E w))(k := ps)\<rparr>"
  using staking_maps_ok[OF assms] by (simp_all add: chain_of_def typed_write typed_other)

lemma readable_writes:
  assumes "staking_ok E" "chain_readable E w"
  shows "chain_readable E (w(key_for (BalanceOf E) k := StateValue (sm_enc (BalanceOf E) b)))"
    and "chain_readable E (w(key_for (Ledger E) k := StateValue (sm_enc (Ledger E) l)))"
    and "chain_readable E (w(key_for (Bonded E) k := StateValue (sm_enc (Bonded E) p)))"
    and "chain_readable E (w(key_for (Nominations E) k := StateValue (sm_enc (Nominations E) ps)))"
  using assms(2) staking_maps_ok[OF assms(1)]
  by (simp_all add: chain_readable_def readable_write readable_other)

lemma chain_reads:
  assumes "chain_readable E w"
  shows "map_read AR (BalanceOf E) k w = (Ok (ch_balances (chain_of E w) k), w)"
    and "map_read AR (Ledger E) k w = (Ok (ch_ledgers (chain_of E w) k), w)"
    and "map_read AR (Bonded E) k w = (Ok (ch_bonded (chain_of E w) k), w)"
    and "map_read AR (Nominations E) k w = (Ok (ch_nominations (chain_of E w) k), w)"
  using assms by (simp_all add: map_read_AR readable_decoded chain_readable_def)

section \<open>The specification of the calls\<close>

text \<open>What a call returns and the state it leaves, on the decoded state.\<close>

definition bond_spec ::
  "('p, 'z) staking_env_scheme \<Rightarrow> 'p \<Rightarrow> balance \<Rightarrow> 'p \<Rightarrow> 'p chain \<Rightarrow> dispatch_result \<times> 'p chain" where
  "bond_spec E stash amount controller ch =
     (if ch_ledgers ch stash \<noteq> ledger_default E then (Err (LogicError ''Already bonded.''), ch)
      else case reserve (debug_build E) amount (ch_balances ch stash) of
        Err e \<Rightarrow> (Err (LogicError e), ch)
      | Panic p \<Rightarrow> (Panic p, ch)
      | Ok b \<Rightarrow> (Ok (), ch\<lparr>
          ch_balances := (ch_balances ch)(stash := b),
          ch_bonded := (ch_bonded ch)(controller := stash),
          ch_ledgers := (ch_ledgers ch)
            (stash := \<lparr>sl_value = amount, sl_controller = controller, sl_role = Chilled\<rparr>)\<rparr>))"

definition bond_extra_spec ::
  "('p, 'z) staking_env_scheme \<Rightarrow> 'p \<Rightarrow> balance \<Rightarrow> 'p chain \<Rightarrow> dispatch_result \<times> 'p chain" where
  "bond_extra_spec E stash amount ch =
     (if ch_ledgers ch stash = ledger_default E then (Err (LogicError ''Not bonded.''), ch)
      else case reserve (debug_build E) amount (ch_balances ch stash) of
        Err e \<Rightarrow> (Err (LogicError e), ch)
      | Panic p \<Rightarrow> (Panic p, ch)
      | Ok b \<Rightarrow>
          (let paid = ch\<lparr>ch_balances := (ch_balances ch)(stash := b)\<rparr>
           in case u128_add (debug_build E) (sl_value (ch_ledgers ch stash)) amount of
             Inl p \<Rightarrow> (Panic p, paid)
           | Inr v \<Rightarrow> (Ok (), paid\<lparr>ch_ledgers := (ch_ledgers ch)
                 (stash := (ch_ledgers ch stash)\<lparr>sl_value := v\<rparr>)\<rparr>)))"

definition unbond_spec ::
  "('p, 'z) staking_env_scheme \<Rightarrow> 'p \<Rightarrow> balance \<Rightarrow> 'p chain \<Rightarrow> dispatch_result \<times> 'p chain" where
  "unbond_spec E stash amount ch =
     (if ch_ledgers ch stash = ledger_default E then (Err (LogicError ''Not bonded.''), ch)
      else if sl_value (ch_ledgers ch stash) < amount
      then (Err (LogicError ''Too much unbonding.''), ch)
      else (let less = ch\<lparr>ch_ledgers := (ch_ledgers ch)(stash := (ch_ledgers ch stash)
                  \<lparr>sl_value := sl_value (ch_ledgers ch stash) - amount\<rparr>)\<rparr>
            in case unreserve (debug_build E) amount (ch_balances ch stash) of
              Ok b \<Rightarrow> (Ok (), less\<lparr>ch_balances := (ch_balances ch)(stash := b)\<rparr>)
            | Err e \<Rightarrow> (Panic ''Must have enough reserved'', less)
            | Panic p \<Rightarrow> (Panic p, less)))"

definition set_controller_spec ::
  "('p, 'z) staking_env_scheme \<Rightarrow> 'p \<Rightarrow> 'p \<Rightarrow> 'p chain \<Rightarrow> dispatch_result \<times> 'p chain" where
  "set_controller_spec E stash ctrl ch =
     (let old = ch_ledgers ch stash in
      if old = ledger_default E then (Err (LogicError ''Not bonded.''), ch)
      else if sl_controller old = ctrl then (Ok (), ch)
      else (Ok (), ch\<lparr>
        ch_bonded := (ch_bonded ch)(sl_controller old := default_pk E, ctrl := stash),
        ch_ledgers := (ch_ledgers ch)(stash := old\<lparr>sl_controller := ctrl\<rparr>)\<rparr>))"

text \<open>The three calls of a controller share their checks.\<close>

definition as_controller ::
  "('p, 'z) staking_env_scheme \<Rightarrow> 'p \<Rightarrow> ('p \<Rightarrow> 'p chain \<Rightarrow> 'p chain) \<Rightarrow> 'p chain
     \<Rightarrow> dispatch_result \<times> 'p chain" where
  "as_controller E ctrl f ch =
     (let stash = ch_bonded ch ctrl in
      if stash = default_pk E then (Err (LogicError ''Not bonded.''), ch)
      else if ch_ledgers ch stash = ledger_default E
      then (Panic ''Ledger must exist when Bonded exists.'', ch)
      else (Ok (), f stash ch))"

definition set_role :: "staking_role \<Rightarrow> 'p \<Rightarrow> 'p chain \<Rightarrow> 'p chain" where
  "set_role role stash ch =
     ch\<lparr>ch_ledgers := (ch_ledgers ch)(stash := (ch_ledgers ch stash)\<lparr>sl_role := role\<rparr>)\<rparr>"

definition set_nominations :: "'p list \<Rightarrow> 'p \<Rightarrow> 'p chain \<Rightarrow> 'p chain" where
  "set_nominations targets stash ch =
     ch\<lparr>ch_nominations := (ch_nominations ch)(stash := targets)\<rparr>"

fun staking_spec ::
  "('p, 'z) staking_env_scheme \<Rightarrow> 'p staking_call \<Rightarrow> 'p \<Rightarrow> 'p chain \<Rightarrow> dispatch_result \<times> 'p chain"
  where
  "staking_spec E (TxBond amount controller) origin = bond_spec E origin amount controller"
| "staking_spec E (TxBondExtra amount) origin = bond_extra_spec E origin amount"
| "staking_spec E (TxUnbond amount) origin = unbond_spec E origin amount"
| "staking_spec E (TxSetController ctrl) origin = set_controller_spec E origin ctrl"
| "staking_spec E TxValidate origin = as_controller E origin (set_role Validator)"
| "staking_spec E (TxNominate targets) origin =
     as_controller E origin (\<lambda>s ch. set_role Nominator s (set_nominations targets s ch))"
| "staking_spec E TxChill origin =
     as_controller E origin (\<lambda>s ch. set_role Chilled s
       (if sl_role (ch_ledgers ch s) = Nominator then set_nominations [] s ch else ch))"

text \<open>The code of a call computes its specification through the decoding.\<close>

definition implements ::
  "('p, 'z) staking_env_scheme \<Rightarrow> (view, unit, dispatch_error) comp
     \<Rightarrow> ('p chain \<Rightarrow> dispatch_result \<times> 'p chain) \<Rightarrow> bool" where
  "implements E c f \<longleftrightarrow> (\<forall>w. chain_readable E w \<longrightarrow>
     f (chain_of E w) = (fst (c w), chain_of E (snd (c w))) \<and> chain_readable E (snd (c w)))"

lemmas AR_eval =
  or_forward_def or_orphan_def map_err_def expectC_def bindC_def liftP_def
  map_mutate_def map_clear_def map_exists_def map_write_AR chain_reads chain_writes readable_writes

lemma bond_implements:
  "staking_ok E \<Longrightarrow> implements E (tx_bond E AR stash amount controller) (bond_spec E stash amount controller)"
  by (auto simp: implements_def tx_bond_def bond_spec_def AR_eval ledger_default_def
      split: rs.splits)

lemma bond_extra_implements:
  "staking_ok E \<Longrightarrow> implements E (tx_bond_extra E AR stash amount) (bond_extra_spec E stash amount)"
  by (auto simp: implements_def tx_bond_extra_def bond_extra_spec_def AR_eval Let_def
      split: rs.splits sum.splits)

lemma unbond_implements:
  "staking_ok E \<Longrightarrow> implements E (tx_unbond E AR stash amount) (unbond_spec E stash amount)"
  by (auto simp: implements_def tx_unbond_def unbond_spec_def AR_eval Let_def checked_sub_def
      split: rs.splits sum.splits)

lemma set_controller_implements:
  "staking_ok E \<Longrightarrow>
     implements E (tx_set_controller E AR stash ctrl) (set_controller_spec E stash ctrl)"
  by (auto simp: implements_def tx_set_controller_def set_controller_spec_def AR_eval Let_def)

lemma controller_implements:
  assumes "staking_ok E"
  shows "implements E (tx_validate E AR ctrl) (staking_spec E TxValidate ctrl)"
    and "implements E (tx_nominate E AR ctrl targets) (staking_spec E (TxNominate targets) ctrl)"
    and "implements E (tx_chill E AR ctrl) (staking_spec E TxChill ctrl)"
  using assms by (auto simp: implements_def tx_validate_def tx_nominate_def tx_chill_def
      as_controller_def set_role_def set_nominations_def AR_eval Let_def)

lemma staking_implements:
  "staking_ok E \<Longrightarrow> implements E (staking_dispatch E AR call origin) (staking_spec E call origin)"
  by (cases call) (simp_all only: staking_dispatch.simps staking_spec.simps(1-4) bond_implements
      bond_extra_implements unbond_implements set_controller_implements controller_implements)

section \<open>What every call keeps\<close>

text \<open>
  All balances together fit into a \<open>u128\<close>; what a stash has bonded is covered by its reserved
  balance; a bonded controller leads to a ledger.
\<close>

definition solvent :: "('p \<Rightarrow> account_balance) \<Rightarrow> bool" where
  "solvent bal \<longleftrightarrow> (\<forall>A. finite A \<longrightarrow> funds A bal < 2 ^ 128)"

definition backed :: "'p chain \<Rightarrow> bool" where
  "backed ch \<longleftrightarrow> (\<forall>s. sl_value (ch_ledgers ch s) \<le> ab_reserved (ch_balances ch s))"

definition linked :: "('p, 'z) staking_env_scheme \<Rightarrow> 'p chain \<Rightarrow> bool" where
  "linked E ch \<longleftrightarrow>
     (\<forall>c. ch_bonded ch c \<noteq> default_pk E \<longrightarrow> ch_ledgers ch (ch_bonded ch c) \<noteq> ledger_default E)
   \<and> (\<forall>s. ch_ledgers ch s \<noteq> ledger_default E \<longrightarrow> sl_controller (ch_ledgers ch s) \<noteq> default_pk E)"

definition chain_inv :: "('p, 'z) staking_env_scheme \<Rightarrow> 'p chain \<Rightarrow> bool" where
  "chain_inv E ch \<longleftrightarrow> solvent (ch_balances ch) \<and> backed ch \<and> linked E ch"

text \<open>No call may name the default account as a controller.\<close>

fun names_default :: "('p, 'z) staking_env_scheme \<Rightarrow> 'p staking_call \<Rightarrow> bool" where
  "names_default E (TxBond amount controller) = (controller = default_pk E)"
| "names_default E (TxSetController ctrl) = (ctrl = default_pk E)"
| "names_default E _ = False"

lemma solvent_worth: "solvent bal \<Longrightarrow> worth (bal x) < 2 ^ 128"
  by (metis finite.emptyI finite_insert insertI1 le_less_trans solvent_def worth_le_funds)

lemma funds_same_worth: "worth b = worth (bal x) \<Longrightarrow> funds A (bal(x := b)) = funds A bal"
  unfolding funds_def by (rule sum.cong) auto

lemma solvent_same_funds: "(\<And>A. funds A bal' = funds A bal) \<Longrightarrow> solvent bal \<Longrightarrow> solvent bal'"
  by (simp add: solvent_def)

text \<open>\<open>sound\<close> collects what is shown of each call.\<close>

definition sound :: "('p, 'z) staking_env_scheme \<Rightarrow> 'p chain \<Rightarrow> dispatch_result \<times> 'p chain \<Rightarrow> bool" where
  "sound E ch out \<longleftrightarrow> \<not> is_Panic (fst out) \<and> \<not> (\<exists>t b. fst out = Err (Tainted t b))
     \<and> (\<not> is_Ok (fst out) \<longrightarrow> snd out = ch)
     \<and> (\<forall>A. funds A (ch_balances (snd out)) = funds A (ch_balances ch))
     \<and> backed (snd out) \<and> linked E (snd out)"

lemma sound_refused: "chain_inv E ch \<Longrightarrow> sound E ch (Err (LogicError e), ch)"
  by (simp add: sound_def chain_inv_def)

lemma ledger_eq_default:
  "l = ledger_default E \<longleftrightarrow> sl_value l = 0 \<and> sl_controller l = default_pk E \<and> sl_role l = Chilled"
  by (cases l) (simp add: ledger_default_def)

lemma controller_not_default: "sl_controller l \<noteq> default_pk E \<Longrightarrow> l \<noteq> ledger_default E"
  by (simp add: ledger_eq_default)

lemma bond_sound:
  assumes inv: "chain_inv E ch" and "controller \<noteq> default_pk E"
  shows "sound E ch (bond_spec E stash amount controller ch)"
proof (cases "reserve (debug_build E) amount (ch_balances ch stash)")
  case (Ok b)
  have "worth (ch_balances ch stash) < 2 ^ 128"
    using inv solvent_worth by (auto simp: chain_inv_def)
  note w = reserve_worth[OF Ok this]
  have "amount \<le> ab_reserved b"
    using w by (simp add: word_le_nat_alt)
  with Ok assms w show ?thesis
    by (auto simp: bond_spec_def sound_def backed_def linked_def chain_inv_def funds_same_worth
        ledger_eq_default)
next
  case (Err e)
  with inv show ?thesis by (auto simp: bond_spec_def sound_refused)
next
  case (Panic p)
  then have False
    using inv reserve_no_panic solvent_worth unfolding chain_inv_def by metis
  then show ?thesis ..
qed

lemma bond_extra_sound:
  assumes inv: "chain_inv E ch"
  shows "sound E ch (bond_extra_spec E stash amount ch)"
proof (cases "reserve (debug_build E) amount (ch_balances ch stash)")
  case (Ok b)
  let ?l = "ch_ledgers ch stash"
  have fits: "worth (ch_balances ch stash) < 2 ^ 128"
    using inv solvent_worth by (auto simp: chain_inv_def)
  note w = reserve_worth[OF Ok fits]
  have "unat (sl_value ?l) \<le> unat (ab_reserved (ch_balances ch stash))"
    using inv by (simp add: chain_inv_def backed_def word_le_nat_alt)
  then have v: "unat (sl_value ?l) + unat amount \<le> unat (ab_reserved b)"
    using w by simp
  then have small: "unat (sl_value ?l) + unat amount < 2 ^ 128"
    using unat_u128[of "ab_reserved b"] by linarith
  then have "sl_value ?l + amount \<le> ab_reserved b"
    using v by (simp add: word_le_nat_alt unat_add_no_overflow)
  then show ?thesis
    using Ok inv w u128_add_fits[OF small, of "debug_build E"]
    by (auto simp: bond_extra_spec_def sound_def backed_def linked_def chain_inv_def
        funds_same_worth sound_refused ledger_eq_default Let_def)
next
  case (Err e)
  with inv show ?thesis by (auto simp: bond_extra_spec_def sound_refused)
next
  case (Panic p)
  then have False
    using inv reserve_no_panic solvent_worth unfolding chain_inv_def by metis
  then show ?thesis ..
qed

lemma unbond_sound:
  assumes inv: "chain_inv E ch"
  shows "sound E ch (unbond_spec E stash amount ch)"
proof (cases "amount \<le> sl_value (ch_ledgers ch stash)")
  case True
  let ?l = "ch_ledgers ch stash"
  have fits: "worth (ch_balances ch stash) < 2 ^ 128"
    using inv solvent_worth by (auto simp: chain_inv_def)
  have vr: "sl_value ?l \<le> ab_reserved (ch_balances ch stash)"
    using inv by (simp add: chain_inv_def backed_def)
  then have le: "amount \<le> ab_reserved (ch_balances ch stash)"
    using True by simp
  then obtain b where b: "unreserve (debug_build E) amount (ch_balances ch stash) = Ok b"
    using unreserve_no_panic[OF fits, of "debug_build E" amount]
    by (cases "unreserve (debug_build E) amount (ch_balances ch stash)")
      (auto simp: unreserve_def split: sum.splits)
  note w = unreserve_worth[OF b fits]
  have "sl_value ?l - amount \<le> ab_reserved b"
    using w vr True by (simp add: word_le_nat_alt unat_sub_no_underflow)
  then show ?thesis
    using b inv w True
    by (auto simp: unbond_spec_def sound_def backed_def linked_def chain_inv_def
        funds_same_worth ledger_eq_default Let_def)
next
  case False
  with inv show ?thesis by (auto simp: unbond_spec_def sound_refused)
qed

lemma set_controller_sound:
  assumes inv: "chain_inv E ch" and "ctrl \<noteq> default_pk E"
  shows "sound E ch (set_controller_spec E stash ctrl ch)"
  using assms
  by (auto simp: set_controller_spec_def sound_def backed_def linked_def chain_inv_def
      ledger_eq_default Let_def)

lemma as_controller_sound:
  assumes inv: "chain_inv E ch"
    and f: "\<And>s. ch_ledgers ch s \<noteq> ledger_default E \<Longrightarrow> sound E ch (Ok (), f s ch)"
  shows "sound E ch (as_controller E ctrl f ch)"
  using assms by (auto simp: as_controller_def chain_inv_def linked_def sound_refused Let_def)

lemma set_role_sound:
  assumes "chain_inv E ch" "ch_ledgers ch s \<noteq> ledger_default E"
    "ch_balances ch' = ch_balances ch" "ch_ledgers ch' = ch_ledgers ch" "ch_bonded ch' = ch_bonded ch"
  shows "sound E ch (Ok (), set_role role s ch')"
proof -
  have "sl_controller (ch_ledgers ch s) \<noteq> default_pk E"
    using assms(1,2) by (simp add: chain_inv_def linked_def)
  then show ?thesis
    using assms by (auto simp: sound_def set_role_def backed_def linked_def chain_inv_def
        ledger_eq_default)
qed

lemma staking_spec_sound:
  assumes "chain_inv E ch" "\<not> names_default E call"
  shows "sound E ch (staking_spec E call origin ch)"
proof (cases call)
  case TxChill
  then show ?thesis
    using assms by (auto intro!: as_controller_sound set_role_sound simp: set_nominations_def)
next
  case (TxNominate targets)
  then show ?thesis
    using assms by (auto intro!: as_controller_sound set_role_sound simp: set_nominations_def)
next
  case TxValidate
  then show ?thesis
    using assms by (auto intro!: as_controller_sound set_role_sound)
qed (use assms in \<open>simp_all add: bond_sound bond_extra_sound unbond_sound set_controller_sound\<close>)

end
