(* ===== verification/Example_Env.thy ===== *)
theory Example_Env
  imports Staking
begin

text \<open>
  An instance of the parameters: accounts are single bytes padded to the length of a public key,
  and numbers are written bit by bit, one byte per bit. It shows that the assumptions on the
  codecs and the crypto library can hold, and the theorems are applied to concrete chains on it.
\<close>

section \<open>The codec\<close>

definition bits_of :: "u128 \<Rightarrow> bytes" where
  "bits_of w = map (\<lambda>n. if bit w n then 1 else 0) [0..<128]"

definition of_bits :: "bytes \<Rightarrow> u128" where
  "of_bits bs = horner_sum of_bool 2 (map (\<lambda>b. b = 1) bs)"

lemma length_bits_of [simp]: "length (bits_of w) = 128"
  by (simp add: bits_of_def)

lemma of_bits_of [simp]: "of_bits (bits_of w) = w"
proof -
  have "map (\<lambda>b. b = 1) (bits_of w) = map (bit w) [0..<128]"
    by (simp add: bits_of_def)
  then have "of_bits (bits_of w) = take_bit 128 w"
    by (simp only: of_bits_def horner_sum_bit_eq_take_bit)
  then show ?thesis
    by (simp add: take_bit_word_eq_self)
qed

definition role_byte :: "staking_role \<Rightarrow> u8" where
  "role_byte r = (case r of Validator \<Rightarrow> 0 | Nominator \<Rightarrow> 1 | Chilled \<Rightarrow> 2)"

definition byte_role :: "u8 \<Rightarrow> staking_role" where
  "byte_role b = (if b = 0 then Validator else if b = 1 then Nominator else Chilled)"

lemma byte_role_of [simp]: "byte_role (role_byte r) = r"
  by (simp add: byte_role_def role_byte_def split: staking_role.split)

definition ex_env :: "u8 staking_env" where
  "ex_env = \<lparr>
     debug_build = True,
     pk_as_ref = (\<lambda>p. replicate 31 0 @ [p]),
     pk_from_bytes = (\<lambda>bs. if length bs = 32 then Some (last bs) else None),
     default_pk = 0,
     enc_account_balance = (\<lambda>b. bits_of (ab_free b) @ bits_of (ab_reserved b)),
     dec_account_balance = (\<lambda>bs. if length bs = 256
       then Ok \<lparr>ab_free = of_bits (take 128 bs), ab_reserved = of_bits (drop 128 bs)\<rparr>
       else Err ''Not enough data to fill buffer''),
     enc_ledger = (\<lambda>l. bits_of (sl_value l) @ [sl_controller l, role_byte (sl_role l)]),
     dec_ledger = (\<lambda>bs. if length bs = 130
       then Ok \<lparr>sl_value = of_bits (take 128 bs), sl_controller = bs ! 128,
                 sl_role = byte_role (bs ! 129)\<rparr>
       else Err ''Not enough data to fill buffer''),
     enc_accounts = (\<lambda>ps. 1 # ps),
     dec_accounts = (\<lambda>bs. case bs of [] \<Rightarrow> Err ''Not enough data to fill buffer'' | b # ps \<Rightarrow> Ok ps)\<rparr>"

lemma ex_env_sel [simp]: "default_pk ex_env = 0" "debug_build ex_env"
  by (simp_all add: ex_env_def)

lemma ex_balances_ok: "balances_ok ex_env"
  by (simp add: balances_ok_def edc_ok_def ex_env_def)

lemma ex_staking_ok: "staking_ok ex_env"
  by (simp add: staking_ok_def ex_balances_ok) (simp add: ex_env_def nth_append)

section \<open>Chains\<close>

text \<open>The empty state decodes to the chain of defaults.\<close>

definition empty_chain :: "('p, 'z) staking_env_scheme \<Rightarrow> 'p chain" where
  "empty_chain E = \<lparr>ch_balances = (\<lambda>_. ab_default), ch_ledgers = (\<lambda>_. ledger_default E),
     ch_bonded = (\<lambda>_. default_pk E), ch_nominations = (\<lambda>_. [])\<rparr>"

lemma chain_of_fresh:
  assumes "staking_ok E"
  shows "chain_of E (\<lambda>_. default_value) = empty_chain E"
    and "chain_readable E (\<lambda>_. default_value)"
proof -
  note maps = staking_maps_ok[OF assms]
  have "decoded (BalanceOf E) (\<lambda>_. default_value) k = Inr ab_default"
    "decoded (Ledger E) (\<lambda>_. default_value) k = Inr (ledger_default E)"
    "decoded (Bonded E) (\<lambda>_. default_value) k = Inr (default_pk E)"
    "decoded (Nominations E) (\<lambda>_. default_value) k = Inr []" for k
    using decoded_fresh[OF maps(1), of "\<lambda>_. default_value" k]
      decoded_fresh[OF maps(2), of "\<lambda>_. default_value" k]
      decoded_fresh[OF maps(3), of "\<lambda>_. default_value" k]
      decoded_fresh[OF maps(4), of "\<lambda>_. default_value" k] by simp_all
  then show "chain_of E (\<lambda>_. default_value) = empty_chain E"
    "chain_readable E (\<lambda>_. default_value)"
    by (simp_all add: chain_of_def empty_chain_def chain_readable_def readable_def typed_decoded
        fun_eq_iff)
qed

lemma ts_view_new: "ts_view default_value ts_new = (\<lambda>_. default_value)"
  by (simp add: ts_new_def fun_eq_iff state_simps)

text \<open>A state in which one account has funds.\<close>

definition funded :: "('p, 'z) staking_env_scheme \<Rightarrow> 'p \<Rightarrow> balance \<Rightarrow> runtime_state" where
  "funded E who amount = unsafe_insert_genesis_value (key_for (BalanceOf E) who)
     (StateValue (sm_enc (BalanceOf E) (ab_new_free amount))) ts_new"

lemma view_funded:
  "ts_view default_value (funded E who amount) =
     (\<lambda>_. default_value)(key_for (BalanceOf E) who := StateValue (sm_enc (BalanceOf E) (ab_new_free amount)))"
  by (auto simp: funded_def unsafe_insert_genesis_value_def state_simps ts_view_new[unfolded fun_eq_iff])

lemma chain_funded:
  assumes "staking_ok E"
  shows "chain_of E (ts_view default_value (funded E who amount))
      = (empty_chain E)\<lparr>ch_balances := (\<lambda>_. ab_default)(who := ab_new_free amount)\<rparr>"
    and "chain_readable E (ts_view default_value (funded E who amount))"
  using chain_writes(1)[OF assms, of "\<lambda>_. default_value" who "ab_new_free amount"]
    readable_writes(1)[OF assms chain_of_fresh(2)[OF assms]]
  unfolding view_funded by (simp_all add: chain_of_fresh[OF assms] empty_chain_def del: chain_of_sel)

lemma chain_inv_funded:
  assumes "staking_ok E"
  shows "chain_inv E (chain_of E (ts_view default_value (funded E who amount)))"
proof -
  let ?bal = "(\<lambda>_. ab_default)(who := ab_new_free amount)"
  have "funds A ?bal < 2 ^ 128" if A: "finite A" for A
  proof -
    have "funds A ?bal \<le> funds (insert who A) ?bal"
      unfolding funds_def using A by (intro sum_mono2) auto
    also have "\<dots> = unat amount"
      using funds_update[of "insert who A" who "\<lambda>_. ab_default" "ab_new_free amount"] A
      by (simp add: funds_def worth_def ab_default_def ab_new_free_def)
    finally show ?thesis
      using unat_u128[of amount] by linarith
  qed
  then have "solvent ?bal"
    by (simp add: solvent_def)
  then show ?thesis
    by (simp add: chain_funded(1)[OF assms] chain_inv_def backed_def linked_def empty_chain_def
        ledger_default_def)
qed

section \<open>The transfer theorems at a concrete chain\<close>

lemma ex_readable: "readable (BalanceOf ex_env) (ts_view default_value (funded ex_env 1 1000))"
  using chain_funded(2)[OF ex_staking_ok] by (simp add: chain_readable_def)

theorem transfer_concurrent_witness:
  "let s = cr_new (funded ex_env 1 1000) 7; out = transfer ex_env CR 1 2 300 s
   in (\<exists>t b. fst out = Err (Tainted t b))
    \<or> (fst out, typed (BalanceOf ex_env) (cr_view (snd out)))
        = transfer_spec True 1 2 300 (typed (BalanceOf ex_env) (cr_view s))"
proof -
  let ?s = "cr_new (funded ex_env 1 1000) 7"
  have view: "cr_view ?s = ts_view default_value (funded ex_env 1 1000)"
    by (simp add: cr_view_def cr_new_def fun_eq_iff)
  have "cr_inv ?s"
    by (simp add: cr_inv_iff cr_new_def)
  from transfer_concurrent[OF ex_balances_ok this, of 1 2 300 "fst (transfer ex_env CR 1 2 300 ?s)"
      "snd (transfer ex_env CR 1 2 300 ?s)"] ex_readable
  show ?thesis
    by (simp add: Let_def view)
qed

theorem transfer_sequential_witness:
  "let out = transfer ex_env SR 1 2 300 (sr_new (funded ex_env 1 1000) 7)
   in fst out = Ok () \<and> typed (BalanceOf ex_env) (sr_view (snd out)) 2 = ab_new_free 300"
proof -
  have view: "sr_view (sr_new (funded ex_env 1 1000) 7) = ts_view default_value (funded ex_env 1 1000)"
    by (simp add: sr_view_def sr_new_def)
  have bal: "typed (BalanceOf ex_env) (ts_view default_value (funded ex_env 1 1000))
      = (\<lambda>_. ab_default)(1 := ab_new_free 1000)"
    using arg_cong[OF chain_funded(1)[OF ex_staking_ok, of 1 1000], of ch_balances] by simp
  have "transfer_spec True (1::u8) 2 300 ((\<lambda>_. ab_default)(1 := ab_new_free 1000))
      = (Ok (), (\<lambda>_. ab_default)(1 := ab_new_free 700, 2 := ab_new_free 300))"
    by (simp add: transfer_spec_def u128_add_def ab_default_def ab_new_free_def Let_def fun_eq_iff)
  with transfer_sequential[OF ex_balances_ok, of "sr_new (funded ex_env 1 1000) 7" 1 2 300]
    ex_readable show ?thesis
    by (simp add: view bal Let_def)
qed

end
