(* ===== verification/Dispatch.thy ===== *)
theory Dispatch
  imports Example_Env
begin

text \<open>
  The outer call of the runtime, the dispatch of a call on the two runtimes and the initial state
  builder (\<open>runtime/src/lib.rs\<close>, \<open>macros.rs\<close>, \<open>state_generator.rs\<close>). The frame rules show what no
  call can change, whatever it does; with the simulation they give the main facts of a dispatch:
  a refused call leaves every value as it was, and a successful one does what a sequential
  execution does on any state that agrees on the keys the thread owns afterwards.
\<close>

section \<open>The outer call\<close>

datatype 'p outer_call = BalancesCall "'p balances_call" | StakingCall "'p staking_call"

fun outer_dispatch ::
  "('p, 'z) staking_env_scheme \<Rightarrow> 's module_runtime \<Rightarrow> 'p outer_call \<Rightarrow> 'p
     \<Rightarrow> ('s, unit, dispatch_error) comp" where
  "outer_dispatch E R (BalancesCall inner_call) origin = balances_dispatch E R inner_call origin"
| "outer_dispatch E R (StakingCall inner_call) origin = staking_dispatch E R inner_call origin"

fun outer_validate ::
  "bool \<Rightarrow> ('p, 'z) staking_env_scheme \<Rightarrow> 'p outer_call \<Rightarrow> 'p \<Rightarrow> state_key list" where
  "outer_validate no_access E (BalancesCall inner_call) origin =
     balances_validate no_access E inner_call origin"
| "outer_validate no_access E (StakingCall inner_call) origin =
     staking_validate no_access E inner_call origin"

definition ConcurrentRuntime_dispatch ::
  "('p, 'z) staking_env_scheme \<Rightarrow> 'p outer_call \<Rightarrow> 'p
     \<Rightarrow> (concurrent_runtime, runtime_dispatch_success, runtime_dispatch_error) comp" where
  "ConcurrentRuntime_dispatch E call origin =
     cr_dispatch (debug_build E) (outer_dispatch E CR call origin)"

definition SequentialRuntime_dispatch ::
  "('p, 'z) staking_env_scheme \<Rightarrow> 'p outer_call \<Rightarrow> 'p
     \<Rightarrow> (sequential_runtime, runtime_dispatch_success, runtime_dispatch_error) comp" where
  "SequentialRuntime_dispatch E call origin = sr_dispatch (outer_dispatch E SR call origin)"

section \<open>Building an initial state\<close>

definition initial_new :: sequential_runtime where
  "initial_new = sr_new ts_new 999"

definition with_runtime ::
  "(sequential_runtime \<Rightarrow> sequential_runtime) \<Rightarrow> sequential_runtime \<Rightarrow> sequential_runtime" where
  "with_runtime update g = update g"

definition initial_insert ::
  "state_key \<Rightarrow> state_value \<Rightarrow> sequential_runtime \<Rightarrow> sequential_runtime" where
  "initial_insert key value g = g\<lparr>sr_state := unsafe_insert_genesis_value key value (sr_state g)\<rparr>"

definition build :: "sequential_runtime \<Rightarrow> runtime_state" where
  "build g = dump (sr_state g)"

section \<open>Frames\<close>

text \<open>A relation of states that every access keeps is kept by every call.\<close>

definition keeps :: "('s \<Rightarrow> 's \<Rightarrow> bool) \<Rightarrow> ('s, 'a, 'e) comp \<Rightarrow> bool" where
  "keeps Rel c \<longleftrightarrow> (\<forall>s. Rel s (snd (c s)))"

lemma keepsD: "keeps Rel c \<Longrightarrow> c s = (r, s') \<Longrightarrow> Rel s s'"
  unfolding keeps_def by (metis snd_conv)

locale runtime_frame =
  fixes R :: "'s module_runtime" and Rel :: "'s \<Rightarrow> 's \<Rightarrow> bool"
  assumes refl: "Rel s s"
    and trans: "Rel s1 s2 \<Longrightarrow> Rel s2 s3 \<Longrightarrow> Rel s1 s3"
    and read_keeps: "keeps Rel (mr_read R k)"
    and write_keeps: "keeps Rel (mr_write R k v)"
begin

lemma keeps_pure:
  "keeps Rel (ret x)" "keeps Rel (throw e)" "keeps Rel (panic p)" "keeps Rel (liftR r)"
  by (simp_all add: keeps_def refl)

lemma keeps_liftP: "keeps Rel (liftP x)"
  by (simp add: keeps_def liftP_def refl split: sum.split)

lemma keeps_bind: "keeps Rel c \<Longrightarrow> (\<And>x. keeps Rel (f x)) \<Longrightarrow> keeps Rel (bindC c f)"
  unfolding keeps_def bindC_def
  by (auto split: prod.split rs.split intro: trans) (metis snd_conv trans)+

lemma keeps_wrap:
  "keeps Rel c \<Longrightarrow> keeps Rel (map_err g c)" "keeps Rel c \<Longrightarrow> keeps Rel (expectC msg c)"
  by (auto simp: keeps_def map_err_def expectC_def split: prod.split rs.split) (metis snd_conv)+

lemma keeps_branch:
  "(b \<Longrightarrow> keeps Rel c1) \<Longrightarrow> (\<not> b \<Longrightarrow> keeps Rel c2) \<Longrightarrow> keeps Rel (if b then c1 else c2)"
  "keeps Rel c0 \<Longrightarrow> (\<And>x. keeps Rel (c x)) \<Longrightarrow> keeps Rel (case z of None \<Rightarrow> c0 | Some x \<Rightarrow> c x)"
  by (auto split: option.split)

lemma keeps_maps:
  "keeps Rel (map_read R M k)" "keeps Rel (map_write R M k v)" "keeps Rel (map_mutate R M k f)"
  "keeps Rel (map_clear R M k)" "keeps Rel (map_exists R M k)"
  unfolding map_read_def map_write_def map_mutate_def map_clear_def map_exists_def
  by (rule keeps_bind keeps_pure keeps_liftP read_keeps write_keeps)+

lemmas keeps_rules = keeps_pure keeps_liftP keeps_bind keeps_wrap keeps_branch keeps_maps

lemma keeps_outer_dispatch: "keeps Rel (outer_dispatch E R call origin)"
proof (cases call)
  case (BalancesCall inner)
  have "keeps Rel (transfer E R origin dest val)" for dest val
    unfolding transfer_def or_forward_def or_orphan_def by (rule keeps_rules)+
  with BalancesCall show ?thesis by (cases inner) simp
next
  case (StakingCall inner)
  have "keeps Rel (tx_bond E R stash amount controller)" "keeps Rel (tx_bond_extra E R stash amount)"
    "keeps Rel (tx_unbond E R stash amount)" "keeps Rel (tx_set_controller E R stash controller)"
    "keeps Rel (tx_validate E R stash)" "keeps Rel (tx_nominate E R stash targets)"
    "keeps Rel (tx_chill E R stash)" for stash amount controller targets
    unfolding tx_bond_def tx_bond_extra_def tx_unbond_def tx_set_controller_def tx_validate_def
      tx_nominate_def tx_chill_def or_forward_def or_orphan_def
    by (rule keeps_rules)+
  with StakingCall show ?thesis by (cases inner) simp_all
qed

end

text \<open>
  On the concurrent runtime a call only caches writes, and the only trace it leaves in the state
  before the commit is that it came to own keys nobody owned.
\<close>

definition cr_frame :: "concurrent_runtime \<Rightarrow> concurrent_runtime \<Rightarrow> bool" where
  "cr_frame s s' \<longleftrightarrow> (cr_inv s \<longrightarrow> cr_inv s' \<and> cr_id s' = cr_id s
     \<and> ts_view default_value (cr_state s') = ts_view default_value (cr_state s)
     \<and> (\<forall>k. ts_owner (cr_state s') k = ts_owner (cr_state s) k
         \<or> ts_owner (cr_state s) k = None \<and> ts_owner (cr_state s') k = Some (cr_id s)))"

lemma cr_frame_read: "cr_frame s (snd (cr_read k s))"
  unfolding cr_frame_def
proof (intro impI)
  assume inv: "cr_inv s"
  show "cr_inv (snd (cr_read k s)) \<and> cr_id (snd (cr_read k s)) = cr_id s
     \<and> ts_view default_value (cr_state (snd (cr_read k s))) = ts_view default_value (cr_state s)
     \<and> (\<forall>k'. ts_owner (cr_state (snd (cr_read k s))) k' = ts_owner (cr_state s) k'
         \<or> ts_owner (cr_state s) k' = None \<and> ts_owner (cr_state (snd (cr_read k s))) k' = Some (cr_id s))"
    by (cases rule: cr_read_cases[OF inv, of k]) (auto simp: inv cr_inv_state)
qed

lemma cr_frame_write: "cr_frame s (snd (cr_write k v s))"
proof -
  have ins: "cr_frame s (s1\<lparr>cr_cache := fmupd k v (cr_cache s1)\<rparr>)"
    if read: "cr_read k s = (Ok x, s1)" for x s1
  proof -
    have f: "cr_frame s s1"
      using cr_frame_read[of s k] read by simp
    have "cr_inv s \<Longrightarrow> cr_mine s1 k"
      using conc.read_Ok[of s k x s1] read by simp
    with f show ?thesis
      by (auto simp: cr_frame_def cache_insert_laws(2))
  qed
  show ?thesis
    using cr_frame_read[of s k] ins
    by (auto simp: cr_write_def bindC_def cache_insert_def split: prod.split rs.split)
qed

interpretation conc_frame: runtime_frame CR cr_frame
proof unfold_locales
  fix k v
  show "keeps cr_frame (mr_read CR k)" "keeps cr_frame (mr_write CR k v)"
    by (simp_all add: keeps_def cr_frame_read cr_frame_write)
  fix s1 s2 s3
  show "cr_frame s1 s2 \<Longrightarrow> cr_frame s2 s3 \<Longrightarrow> cr_frame s1 s3"
    unfolding cr_frame_def by metis
qed (simp add: cr_frame_def)

text \<open>The sequential runtime keeps its identifier and gives no key an owner.\<close>

definition sr_frame :: "sequential_runtime \<Rightarrow> sequential_runtime \<Rightarrow> bool" where
  "sr_frame s s' \<longleftrightarrow> sr_id s' = sr_id s
     \<and> (\<forall>k. ts_owner (sr_state s') k = ts_owner (sr_state s) k \<or> ts_owner (sr_state s') k = None)"

interpretation seq_frame: runtime_frame SR sr_frame
proof unfold_locales
  fix s1 s2 s3
  show "sr_frame s1 s2 \<Longrightarrow> sr_frame s2 s3 \<Longrightarrow> sr_frame s1 s3"
    unfolding sr_frame_def by metis
qed (auto simp: sr_frame_def keeps_def sr_read_eq sr_write_def unsafe_insert_genesis_value_def
    state_simps)

section \<open>Committing\<close>

lemma commit_entries:
  assumes "\<forall>(k, v) \<in> set xs. ts_owner (cr_state s) k = Some (cr_id s)"
  shows "mapC (commit_entry dbg) xs s =
    (Ok (), s\<lparr>cr_state := fold (\<lambda>(k, v). fmupd k (sv_new v (cr_id s))) xs (cr_state s)\<rparr>)"
  using assms
proof (induction xs arbitrary: s)
  case Nil
  then show ?case by simp
next
  case (Cons x xs)
  obtain k v where x: "x = (k, v)" by fastforce
  let ?s1 = "s\<lparr>cr_state := unsafe_insert k (sv_new v (cr_id s)) (cr_state s)\<rparr>"
  have "unsafe_read_taint k (cr_state s) = Some (cr_id s)"
    using Cons.prems x by (simp add: unsafe_read_taint_def unsafe_read_def ts_owner_def)
  then have "commit_entry dbg x s = (Ok (), ?s1)"
    by (simp add: commit_entry_def x)
  moreover have "\<forall>(k', v') \<in> set xs. ts_owner (cr_state ?s1) k' = Some (cr_id ?s1)"
    using Cons.prems by (auto simp: unsafe_insert_def state_simps)
  from Cons.IH[OF this] have "mapC (commit_entry dbg) xs ?s1 =
      (Ok (), s\<lparr>cr_state := fold (\<lambda>(k, v). fmupd k (sv_new v (cr_id s))) (x # xs) (cr_state s)\<rparr>)"
    by (simp add: x unsafe_insert_def)
  ultimately show ?case
    by (simp add: bindC_def)
qed

lemma commit_cache_Ok:
  assumes "cr_inv s"
  obtains m where "commit_cache dbg s = (Ok (), s\<lparr>cr_state := m\<rparr>)"
    "ts_view default_value m = cr_view s" "ts_owner m = ts_owner (cr_state s)"
proof -
  let ?m = "fold (\<lambda>(k, v). fmupd k (sv_new v (cr_id s))) (entries (cr_cache s)) (cr_state s)"
  have own: "ts_owner (cr_state s) k = Some (cr_id s)" if "fmlookup (cr_cache s) k = Some v" for k v
    using cr_inv_cached[OF assms that] by (simp add: cr_mine_def)
  have look: "fmlookup (cr_cache s) k = Some v" if "(k, v) \<in> set (entries (cr_cache s))" for k v
    using map_of_is_SomeI[OF distinct_entries that] by (simp add: map_of_sorted_list)
  have "\<forall>(k, v) \<in> set (entries (cr_cache s)). ts_owner (cr_state s) k = Some (cr_id s)"
    using own look by blast
  then have run: "commit_cache dbg s = (Ok (), s\<lparr>cr_state := ?m\<rparr>)"
    unfolding commit_cache_def by (rule commit_entries)
  have "ts_view default_value ?m = cr_view s"
    by (auto simp: fun_eq_iff ts_view_def cr_view_def fold_entries_lookup split: option.split)
  moreover have "ts_owner ?m = ts_owner (cr_state s)"
    using own by (auto simp: fun_eq_iff ts_owner_def fold_entries_lookup split: option.split)
  ultimately show thesis
    using run that by blast
qed

section \<open>The simulation of a whole call\<close>

context module_runtime_laws
begin

lemma sim_outer:
  "sim view mine inv (refusal mine inv) {} (outer_dispatch E R call origin)
     (outer_dispatch E AR call origin) {}"
proof (cases call)
  case (BalancesCall inner)
  then show ?thesis by (cases inner) (simp add: sim_transfer)
qed (simp add: sim_staking)

end

text \<open>No call fails with a logic error after it has written.\<close>

lemma AR_no_Err:
  "map_write AR M k v w \<noteq> (Err e, w')" "map_clear AR M k w \<noteq> (Err e, w')"
  "map_mutate AR M k f w \<noteq> (Err e, w')"
  by (auto simp: map_write_def map_clear_def map_mutate_def map_read_AR bindC_def liftP_def
      split: sum.splits)

lemma AR_read_same:
  "map_read AR M k w = (r, w') \<Longrightarrow> w' = w" "map_exists AR M k w = (b, w') \<Longrightarrow> w' = w"
  by (auto simp: map_read_AR map_exists_AR bindC_def liftP_def split: sum.splits)

lemma outer_AR_Err_unchanged:
  assumes "outer_dispatch E AR call origin w = (Err e, w')"
  shows "w' = w"
proof (cases call)
  case (BalancesCall inner)
  with assms show ?thesis
    by (cases inner) (auto simp: transfer_def comp_iffs or_forward_def or_orphan_def AR_no_Err
        dest: AR_read_same split: option.splits)
next
  case (StakingCall inner)
  note defs = comp_iffs or_forward_def or_orphan_def AR_no_Err
  show ?thesis
  proof (cases inner)
    case (TxBond amount controller)
    with assms StakingCall show ?thesis
      by (auto simp: tx_bond_def defs dest: AR_read_same split: if_splits)
  next
    case (TxBondExtra amount)
    with assms StakingCall show ?thesis
      by (auto simp: tx_bond_extra_def defs dest: AR_read_same split: if_splits)
  next
    case (TxUnbond amount)
    with assms StakingCall show ?thesis
      by (auto simp: tx_unbond_def defs dest: AR_read_same split: if_splits option.splits)
  next
    case (TxSetController ctrl)
    with assms StakingCall show ?thesis
      by (auto simp: tx_set_controller_def defs dest: AR_read_same split: if_splits)
  next
    case TxValidate
    with assms StakingCall show ?thesis
      by (auto simp: tx_validate_def defs dest: AR_read_same split: if_splits)
  next
    case (TxNominate targets)
    with assms StakingCall show ?thesis
      by (auto simp: tx_nominate_def defs dest: AR_read_same split: if_splits)
  next
    case TxChill
    with assms StakingCall show ?thesis
      by (auto simp: tx_chill_def defs dest: AR_read_same split: if_splits)
  qed
qed

text \<open>The specification runtime, and so the sequential one, never reports a taint.\<close>

lemma AR_read_no_Err: "map_read AR M k w \<noteq> (Err e, w')" "map_exists AR M k w \<noteq> (Err t, w')"
  by (auto simp: map_read_AR map_exists_AR bindC_def liftP_def split: sum.splits)

lemma outer_AR_not_tainted: "outer_dispatch E AR call origin w \<noteq> (Err (Tainted t b), w')"
proof (cases call)
  case (BalancesCall inner)
  then show ?thesis
    by (cases inner) (auto simp: transfer_def comp_iffs or_forward_def or_orphan_def AR_no_Err
        AR_read_no_Err split: option.splits)
next
  case (StakingCall inner)
  have "tx_bond E AR s a c w \<noteq> (Err (Tainted t b), w')"
    "tx_bond_extra E AR s a w \<noteq> (Err (Tainted t b), w')"
    "tx_unbond E AR s a w \<noteq> (Err (Tainted t b), w')"
    "tx_set_controller E AR s c w \<noteq> (Err (Tainted t b), w')"
    "tx_validate E AR c w \<noteq> (Err (Tainted t b), w')"
    "tx_nominate E AR c ts w \<noteq> (Err (Tainted t b), w')"
    "tx_chill E AR c w \<noteq> (Err (Tainted t b), w')" for s a c ts
    unfolding tx_bond_def tx_bond_extra_def tx_unbond_def tx_set_controller_def tx_validate_def
      tx_nominate_def tx_chill_def
    by (auto simp: comp_iffs or_forward_def or_orphan_def AR_no_Err AR_read_no_Err
        split: if_splits option.splits)
  with StakingCall show ?thesis by (cases inner) simp_all
qed

lemma sequential_never_refused: "SequentialRuntime_dispatch E call origin s \<noteq> (Err e, s')"
proof
  assume "SequentialRuntime_dispatch E call origin s = (Err e, s')"
  then obtain t b where "outer_dispatch E SR call origin s = (Err (Tainted t b), s')"
    by (auto simp: SequentialRuntime_dispatch_def sr_dispatch_def split: prod.splits
        elim!: to_runtime_dispatch_result.elims)
  with seq_runs[OF seq.sim_outer, of E call origin s] outer_AR_not_tainted show False
    by fastforce
qed

section \<open>A dispatch on the concurrent runtime\<close>

lemma fresh_cache:
  assumes "cr_cache s = fmempty"
  shows "cr_inv s" "cr_view s = ts_view default_value (cr_state s)"
  using assms by (simp_all add: cr_inv_iff cr_view_def fun_eq_iff)

text \<open>The four ways a dispatch ends.\<close>

lemma cr_dispatch_cases:
  assumes fresh: "cr_cache s = fmempty"
    and run: "ConcurrentRuntime_dispatch E call origin s = (r, s')"
  obtains (committed) s1 m where "outer_dispatch E CR call origin s = (Ok (), s1)" "r = Ok RtOk"
      "s' = s1\<lparr>cr_state := m, cr_cache := fmempty\<rparr>"
      "ts_view default_value m = cr_view s1" "ts_owner m = ts_owner (cr_state s1)"
  | (logic) s1 why where "outer_dispatch E CR call origin s = (Err (LogicError why), s1)"
      "r = Ok (RtLogicError why)" "s' = s1\<lparr>cr_cache := fmempty\<rparr>"
  | (tainted) s1 whom orphan where
      "outer_dispatch E CR call origin s = (Err (Tainted whom orphan), s1)"
      "r = Err (RtTainted whom orphan)" "s' = s1\<lparr>cr_cache := fmempty\<rparr>"
  | (panicked) p where "outer_dispatch E CR call origin s = (Panic p, s')" "r = Panic p"
proof -
  obtain q s1 where q: "outer_dispatch E CR call origin s = (q, s1)" by fastforce
  have inv: "cr_inv s1"
    using keepsD[OF conc_frame.keeps_outer_dispatch q] fresh_cache[OF fresh] by (simp add: cr_frame_def)
  show thesis
  proof (cases q)
    case (Ok u)
    obtain m where m: "commit_cache (debug_build E) s1 = (Ok (), s1\<lparr>cr_state := m\<rparr>)"
      "ts_view default_value m = cr_view s1" "ts_owner m = ts_owner (cr_state s1)"
      using commit_cache_Ok[OF inv] by blast
    with run q Ok fresh show thesis
      by (intro committed[of s1 m]) (auto simp: ConcurrentRuntime_dispatch_def cr_dispatch_def)
  next
    case (Err e)
    with run q fresh that(2,3) show thesis
      by (cases e) (auto simp: ConcurrentRuntime_dispatch_def cr_dispatch_def)
  next
    case (Panic p)
    with run q fresh panicked show thesis
      by (auto simp: ConcurrentRuntime_dispatch_def cr_dispatch_def)
  qed
qed

text \<open>The simulation of a whole dispatch, on functions from keys to values.\<close>

lemma concurrent_dispatch_follows:
  assumes fresh: "cr_cache s = fmempty"
    and run: "ConcurrentRuntime_dispatch E call origin s = (r, s')"
  shows "cr_id s' = cr_id s
    \<and> (\<forall>k. ts_owner (cr_state s') k = ts_owner (cr_state s) k
         \<or> ts_owner (cr_state s) k = None \<and> ts_owner (cr_state s') k = Some (cr_id s))
    \<and> (\<not> is_Panic r \<longrightarrow> cr_cache s' = fmempty)
    \<and> (\<not> is_Ok r \<longrightarrow> ts_view default_value (cr_state s') = ts_view default_value (cr_state s))
    \<and> (is_Ok r \<longrightarrow>
         (\<forall>k. ts_owner (cr_state s') k \<noteq> Some (cr_id s) \<longrightarrow>
            ts_view default_value (cr_state s') k = ts_view default_value (cr_state s) k)
       \<and> (\<exists>out. r = to_runtime_dispatch_result out
            \<and> follows (\<lambda>k. ts_owner (cr_state s') k = Some (cr_id s))
                (ts_view default_value (cr_state s)) (ts_view default_value (cr_state s'))
                (outer_dispatch E AR call origin) out))"
  using fresh run
proof (cases rule: cr_dispatch_cases)
  case (committed s1 m)
  note f = keepsD[OF conc_frame.keeps_outer_dispatch committed(1)]
  note d = simD[OF conc.sim_outer fresh_cache(1)[OF fresh] _ committed(1)]
  have own: "cr_mine s1 = (\<lambda>k. ts_owner m k = Some (cr_id s))"
    using f committed(5) fresh_cache[OF fresh] by (simp add: cr_frame_def cr_mine_def fun_eq_iff)
  have "r = to_runtime_dispatch_result (Ok ())" "cr_view s = ts_view default_value (cr_state s)"
    using committed(2) fresh_cache[OF fresh] by simp_all
  moreover have "follows (cr_mine s1) (cr_view s) (cr_view s1) (outer_dispatch E AR call origin) (Ok ())"
    using d(5) by simp
  ultimately show ?thesis
    using committed(2-5) f fresh_cache[OF fresh] d(4) unfolding own
    by (auto simp: cr_frame_def intro!: exI[of _ "Ok ()"])
next
  case (logic s1 why)
  note f = keepsD[OF conc_frame.keeps_outer_dispatch logic(1)]
  have no: "\<forall>e. Err (LogicError why) = Err e \<longrightarrow> \<not> refusal cr_mine cr_inv e"
    by (simp add: refusal_def)
  note d = simD[OF conc.sim_outer fresh_cache(1)[OF fresh] _ logic(1) no]
  have own: "cr_mine s1 = (\<lambda>k. ts_owner (cr_state s1) k = Some (cr_id s))"
    using f fresh_cache[OF fresh] by (simp add: cr_frame_def cr_mine_def fun_eq_iff)
  have "follows (cr_mine s1) (cr_view s) (cr_view s1) (outer_dispatch E AR call origin)
      (Err (LogicError why))"
    using d(5) by simp
  then have "follows (cr_mine s1) (cr_view s) (cr_view s) (outer_dispatch E AR call origin)
      (Err (LogicError why))"
    unfolding follows_def using outer_AR_Err_unchanged by (metis (no_types, lifting))
  moreover have "r = to_runtime_dispatch_result (Err (LogicError why))"
    by (simp add: logic(2))
  ultimately show ?thesis
    using logic(2,3) f fresh_cache[OF fresh] unfolding own
    by (auto simp: cr_frame_def intro!: exI[of _ "Err (LogicError why)"])
next
  case (tainted s1 whom orphan)
  note f = keepsD[OF conc_frame.keeps_outer_dispatch tainted(1)]
  with tainted fresh_cache[OF fresh] show ?thesis
    by (auto simp: cr_frame_def)
next
  case (panicked p)
  note f = keepsD[OF conc_frame.keeps_outer_dispatch panicked(1)]
  with panicked fresh_cache[OF fresh] show ?thesis
    by (auto simp: cr_frame_def)
qed

lemma sequential_follows:
  assumes "follows own v0 v1 (outer_dispatch E AR call origin) out" "\<forall>k. own k \<longrightarrow> sr_view q k = v0 k"
  shows "\<exists>q'. SequentialRuntime_dispatch E call origin q = (to_runtime_dispatch_result out, q')
     \<and> (\<forall>k. sr_view q' k = (if own k then v1 k else sr_view q k))"
proof -
  obtain w' where "outer_dispatch E AR call origin (sr_view q) = (out, w')"
      "\<forall>k. w' k = (if own k then v1 k else sr_view q k)"
    using assms unfolding follows_def by blast
  with seq_runs[OF seq.sim_outer, of E call origin q] show ?thesis
    by (cases "outer_dispatch E SR call origin q")
      (auto simp: SequentialRuntime_dispatch_def sr_dispatch_def)
qed

text \<open>C12. A dispatch by a worker only ever gives the worker keys nobody owned, and takes none from
  anybody; its cache is empty again unless it panicked. A call that is refused a key or panics
  leaves every value in the state as it was. Otherwise the values of keys the worker does not own
  are untouched, and a sequential runtime on any state with the same values at the keys the
  worker owns in the end returns the same result, writes the same values there and nothing
  elsewhere.\<close>

theorem concurrent_dispatch_refines_sequential:
  assumes fresh: "cr_cache s = fmempty"
    and run: "ConcurrentRuntime_dispatch E call origin s = (r, s')"
  shows "cr_id s' = cr_id s
    \<and> (\<forall>k. ts_owner (cr_state s') k = ts_owner (cr_state s) k
         \<or> ts_owner (cr_state s) k = None \<and> ts_owner (cr_state s') k = Some (cr_id s))
    \<and> (\<not> is_Panic r \<longrightarrow> cr_cache s' = fmempty)
    \<and> (\<not> is_Ok r \<longrightarrow> ts_view default_value (cr_state s') = ts_view default_value (cr_state s))
    \<and> (is_Ok r \<longrightarrow>
         (\<forall>k. ts_owner (cr_state s') k \<noteq> Some (cr_id s) \<longrightarrow>
            ts_view default_value (cr_state s') k = ts_view default_value (cr_state s) k)
       \<and> (\<forall>q. (\<forall>k. ts_owner (cr_state s') k = Some (cr_id s) \<longrightarrow>
                   sr_view q k = ts_view default_value (cr_state s) k) \<longrightarrow>
            (\<exists>q'. SequentialRuntime_dispatch E call origin q = (r, q')
               \<and> (\<forall>k. sr_view q' k = (if ts_owner (cr_state s') k = Some (cr_id s)
                     then ts_view default_value (cr_state s') k else sr_view q k)))))"
proof -
  note c = concurrent_dispatch_follows[OF fresh run]
  have "\<exists>q'. SequentialRuntime_dispatch E call origin q = (r, q')
      \<and> (\<forall>k. sr_view q' k = (if ts_owner (cr_state s') k = Some (cr_id s)
            then ts_view default_value (cr_state s') k else sr_view q k))"
    if ok: "is_Ok r" and q: "\<forall>k. ts_owner (cr_state s') k = Some (cr_id s) \<longrightarrow>
        sr_view q k = ts_view default_value (cr_state s) k" for q
  proof -
    obtain out where "r = to_runtime_dispatch_result out"
      and fol: "follows (\<lambda>k. ts_owner (cr_state s') k = Some (cr_id s))
        (ts_view default_value (cr_state s)) (ts_view default_value (cr_state s'))
        (outer_dispatch E AR call origin) out"
      using c ok by blast
    with sequential_follows[OF fol q] show ?thesis by simp
  qed
  with c show ?thesis by blast
qed

section \<open>The specification of all calls\<close>

fun chain_spec ::
  "('p, 'z) staking_env_scheme \<Rightarrow> 'p outer_call \<Rightarrow> 'p \<Rightarrow> 'p chain \<Rightarrow> dispatch_result \<times> 'p chain" where
  "chain_spec E (BalancesCall (Transfer dest val)) origin ch =
     (case transfer_spec (debug_build E) origin dest val (ch_balances ch) of
        (r, bal) \<Rightarrow> (r, ch\<lparr>ch_balances := bal\<rparr>))"
| "chain_spec E (StakingCall inner_call) origin ch = staking_spec E inner_call origin ch"

lemma transfer_implements:
  "staking_ok E \<Longrightarrow> implements E (transfer E AR origin dest val)
     (chain_spec E (BalancesCall (Transfer dest val)) origin)"
  by (auto simp: implements_def transfer_def transfer_spec_def AR_eval Let_def checked_sub_def
      split: sum.splits)

lemma outer_implements:
  assumes "staking_ok E"
  shows "implements E (outer_dispatch E AR call origin) (chain_spec E call origin)"
proof (cases call)
  case (BalancesCall inner)
  with transfer_implements[OF assms] show ?thesis by (cases inner) simp
next
  case (StakingCall inner)
  moreover have "chain_spec E (StakingCall inner) origin = staking_spec E inner origin"
    by (simp add: fun_eq_iff)
  ultimately show ?thesis
    using staking_implements[OF assms] by simp
qed

lemma implementsD:
  "implements E c f \<Longrightarrow> chain_readable E w \<Longrightarrow> c w = (r, w') \<Longrightarrow>
     f (chain_of E w) = (r, chain_of E w') \<and> chain_readable E w'"
  unfolding implements_def by (metis fst_conv snd_conv)

text \<open>The accounts whose balance a call may change.\<close>

fun participants :: "'p outer_call \<Rightarrow> 'p \<Rightarrow> 'p set" where
  "participants (BalancesCall (Transfer dest val)) origin = {origin, dest}"
| "participants (StakingCall inner_call) origin = {origin}"

fun names_default_controller :: "('p, 'z) staking_env_scheme \<Rightarrow> 'p outer_call \<Rightarrow> bool" where
  "names_default_controller E (BalancesCall _) = False"
| "names_default_controller E (StakingCall inner_call) = names_default E inner_call"

lemma transfer_spec_solvent:
  assumes "solvent bal" "transfer_spec chk origin dest val bal = (r, bal')"
  shows "solvent bal'"
  unfolding solvent_def
proof (intro allI impI)
  fix A :: "'a set"
  assume A: "finite A"
  let ?B = "insert origin (insert dest A)"
  have "funds ?B bal' = funds ?B bal" "funds ?B bal < 2 ^ 128"
    using transfer_spec_funds[of ?B origin dest bal chk val r bal'] assms A
    by (auto simp: solvent_def)
  moreover have "funds A bal' \<le> funds ?B bal'"
    unfolding funds_def using A by (intro sum_mono2) auto
  ultimately show "funds A bal' < 2 ^ 128" by linarith
qed

lemma chain_spec_keeps:
  assumes inv: "chain_inv E ch" and "\<not> names_default_controller E call"
    and run: "chain_spec E call origin ch = (r, ch')"
  shows "\<not> is_Panic r" "chain_inv E ch'" "\<not> is_Ok r \<Longrightarrow> ch' = ch"
    "finite A \<Longrightarrow> participants call origin \<subseteq> A \<Longrightarrow>
       funds A (ch_balances ch') = funds A (ch_balances ch)"
proof -
  have "\<not> is_Panic r \<and> chain_inv E ch' \<and> (\<not> is_Ok r \<longrightarrow> ch' = ch)
    \<and> (finite A \<longrightarrow> participants call origin \<subseteq> A \<longrightarrow>
        funds A (ch_balances ch') = funds A (ch_balances ch))"
  proof (cases call)
    case (StakingCall inner)
    then have s: "sound E ch (r, ch')"
      using staking_spec_sound[OF inv, of inner origin] assms(2) run by simp
    then have "solvent (ch_balances ch')"
      using inv solvent_same_funds[of "ch_balances ch'" "ch_balances ch"]
      by (simp add: sound_def chain_inv_def)
    with s show ?thesis by (auto simp: sound_def chain_inv_def)
  next
    case (BalancesCall inner)
    then obtain dest val where c: "call = BalancesCall (Transfer dest val)" by (cases inner) auto
    obtain bal where t: "transfer_spec (debug_build E) origin dest val (ch_balances ch) = (r, bal)"
      and ch': "ch' = ch\<lparr>ch_balances := bal\<rparr>"
      using run c by (auto split: prod.splits)
    have all: "funds B bal = funds B (ch_balances ch) \<and> \<not> is_Panic r
        \<and> (\<forall>a. ab_reserved (bal a) = ab_reserved (ch_balances ch a))"
      if "finite B" "{origin, dest} \<subseteq> B" for B
      using transfer_spec_funds[of B origin dest, OF _ _ _ _ t] inv that
      by (auto simp: chain_inv_def solvent_def)
    have "solvent bal"
      using transfer_spec_solvent[OF _ t] inv by (simp add: chain_inv_def)
    moreover have "\<not> is_Ok r \<longrightarrow> bal = ch_balances ch"
      using t all[of "{origin, dest}"] by (auto simp: transfer_spec_def Let_def split: if_splits sum.splits)
    ultimately show ?thesis
      using all[of "{origin, dest}"] all[of A] inv
      by (auto simp: c ch' chain_inv_def backed_def linked_def)
  qed
  then show "\<not> is_Panic r" "chain_inv E ch'" "\<not> is_Ok r \<Longrightarrow> ch' = ch"
    "finite A \<Longrightarrow> participants call origin \<subseteq> A \<Longrightarrow>
       funds A (ch_balances ch') = funds A (ch_balances ch)"
    by auto
qed

lemma sequential_call_spec:
  assumes "staking_ok E" "chain_readable E (sr_view s)"
    and run: "outer_dispatch E SR call origin s = (out, s')"
  shows "chain_spec E call origin (chain_of E (sr_view s)) = (out, chain_of E (sr_view s'))
       \<and> chain_readable E (sr_view s')"
proof -
  have "outer_dispatch E AR call origin (sr_view s) = (out, sr_view s')"
    using seq_runs[OF seq.sim_outer, of E call origin s] run by simp
  from implementsD[OF outer_implements[OF assms(1)] assms(2) this] show ?thesis .
qed

lemma SequentialRuntime_dispatch_cases:
  assumes "SequentialRuntime_dispatch E call origin s = (r, s')"
  obtains out where "outer_dispatch E SR call origin s = (out, s')" "r = to_runtime_dispatch_result out"
  using assms by (auto simp: SequentialRuntime_dispatch_def sr_dispatch_def split: prod.splits)

text \<open>C17. A dispatch on the sequential runtime computes the specification of the call on the
  decoded balances, ledgers, bonds and nominations; a logic error is reported as a success of
  that name.\<close>

theorem sequential_dispatch_computes_spec:
  assumes "staking_ok E" "chain_readable E (sr_view s)"
    and run: "SequentialRuntime_dispatch E call origin s = (r, s')"
  shows "(\<exists>out. chain_spec E call origin (chain_of E (sr_view s)) = (out, chain_of E (sr_view s'))
           \<and> r = to_runtime_dispatch_result out)
       \<and> chain_readable E (sr_view s')"
  using SequentialRuntime_dispatch_cases[OF run] sequential_call_spec[OF assms(1,2)] by metis

lemma dispatch_keeps_invariant:
  assumes "staking_ok E" and fresh: "cr_cache s = fmempty"
    and "chain_readable E (ts_view default_value (cr_state s))"
    and inv: "chain_inv E (chain_of E (ts_view default_value (cr_state s)))"
    and "\<not> names_default_controller E call"
    and run: "ConcurrentRuntime_dispatch E call origin s = (r, s')"
  shows "\<not> is_Panic r \<and> chain_readable E (ts_view default_value (cr_state s'))
    \<and> chain_inv E (chain_of E (ts_view default_value (cr_state s')))
    \<and> (\<forall>A. finite A \<longrightarrow> participants call origin \<subseteq> A \<longrightarrow>
         funds A (ch_balances (chain_of E (ts_view default_value (cr_state s'))))
           = funds A (ch_balances (chain_of E (ts_view default_value (cr_state s)))))"
  using fresh run
proof (cases rule: cr_dispatch_cases)
  case (committed s1 m)
  have "outer_dispatch E AR call origin (cr_view s) = (Ok (), cr_view s1)"
    by (rule conc.sim_runs[OF conc.sim_outer fresh_cache(1)[OF fresh] committed(1)]) simp
  with implementsD[OF outer_implements[OF assms(1)] _ this] assms(3) fresh_cache[OF fresh]
  have spec: "chain_spec E call origin (chain_of E (ts_view default_value (cr_state s)))
      = (Ok (), chain_of E (cr_view s1))" "chain_readable E (cr_view s1)"
    by simp_all
  show ?thesis
    using spec(2) chain_spec_keeps[OF inv assms(5) spec(1)] committed by simp
next
  case (logic s1 why)
  note f = keepsD[OF conc_frame.keeps_outer_dispatch logic(1)]
  with logic assms fresh_cache[OF fresh] show ?thesis by (simp add: cr_frame_def)
next
  case (tainted s1 whom orphan)
  note f = keepsD[OF conc_frame.keeps_outer_dispatch tainted(1)]
  with tainted assms fresh_cache[OF fresh] show ?thesis by (simp add: cr_frame_def)
next
  case (panicked p)
  have "outer_dispatch E AR call origin (cr_view s) = (Panic p, cr_view s')"
    by (rule conc.sim_runs[OF conc.sim_outer fresh_cache(1)[OF fresh] panicked(1)]) simp
  from implementsD[OF outer_implements[OF assms(1)] _ this] assms(3) fresh_cache[OF fresh]
    chain_spec_keeps(1)[OF inv assms(5)]
  show ?thesis by fastforce
qed

text \<open>C13. Whatever a worker dispatches on a well-formed chain (all balances together fit into a
  \<open>u128\<close>, every bond is covered by a reserve, every bonded controller has a ledger), as long as the
  call does not make the default account a controller: it does not panic, the chain it leaves is
  well formed, and no funds are created or destroyed.\<close>

theorem concurrent_dispatch_keeps_invariant:
  assumes "staking_ok E" and fresh: "cr_cache s = fmempty"
    and "chain_readable E (ts_view default_value (cr_state s))"
    and inv: "chain_inv E (chain_of E (ts_view default_value (cr_state s)))"
    and "\<not> names_default_controller E call"
    and run: "ConcurrentRuntime_dispatch E call origin s = (r, s')"
  shows "\<not> is_Panic r \<and> chain_readable E (ts_view default_value (cr_state s'))
    \<and> chain_inv E (chain_of E (ts_view default_value (cr_state s')))
    \<and> (\<forall>A. finite A \<longrightarrow> participants call origin \<subseteq> A \<longrightarrow>
         funds A (ch_balances (chain_of E (ts_view default_value (cr_state s'))))
           = funds A (ch_balances (chain_of E (ts_view default_value (cr_state s)))))"
  by (rule dispatch_keeps_invariant[OF assms])

text \<open>C33. A stash without a ledger can bond nothing under the default account, whose key pair is a
  public constant, as its controller: the bond succeeds, but the ledger it writes counts as no
  ledger, so the next \<open>tx_validate\<close> by the default account runs into
  \<open>panic!("Ledger must exist when Bonded exists.")\<close>.\<close>

theorem default_controller_panics:
  assumes "staking_ok E" "chain_readable E (sr_view s)"
    and "ch_ledgers (chain_of E (sr_view s)) stash = ledger_default E" "stash \<noteq> default_pk E"
    and run1: "SequentialRuntime_dispatch E (StakingCall (TxBond 0 (default_pk E))) stash s = (r1, s1)"
    and run2: "SequentialRuntime_dispatch E (StakingCall TxValidate) (default_pk E) s1 = (r2, s2)"
  shows "r1 = Ok RtOk \<and> r2 = Panic ''Ledger must exist when Bonded exists.''"
proof -
  have res: "\<exists>b. reserve (debug_build E) 0 (ch_balances ch stash) = Ok b" for ch
    using unat_u128[of "ab_reserved (ch_balances ch stash)"]
    by (simp add: reserve_def can_spend_def u128_add_fits)
  from run1 obtain outer where
    o1: "outer_dispatch E SR (StakingCall (TxBond 0 (default_pk E))) stash s = (outer, s1)"
      "r1 = to_runtime_dispatch_result outer"
    by (rule SequentialRuntime_dispatch_cases)
  from run2 obtain inner where
    o2: "outer_dispatch E SR (StakingCall TxValidate) (default_pk E) s1 = (inner, s2)"
      "r2 = to_runtime_dispatch_result inner"
    by (rule SequentialRuntime_dispatch_cases)
  note i1 = sequential_call_spec[OF assms(1,2) o1(1)]
  note i2 = sequential_call_spec[OF assms(1) conjunct2[OF i1] o2(1)]
  obtain b where b: "reserve (debug_build E) 0 (ch_balances (chain_of E (sr_view s)) stash) = Ok b"
    using res by blast
  have c1: "outer = Ok ()" "ch_bonded (chain_of E (sr_view s1)) (default_pk E) = stash"
    "ch_ledgers (chain_of E (sr_view s1)) stash = ledger_default E"
    using i1 b assms(3) by (auto simp: bond_spec_def ledger_default_def dest!: sym[of _ "chain_of E (sr_view s1)"]
        simp del: chain_of_sel)
  with i2 assms(4) have "inner = Panic ''Ledger must exist when Bonded exists.''"
    by (simp add: as_controller_def Let_def del: chain_of_sel)
  with c1 o1 o2 show ?thesis by simp
qed

section \<open>The theorems at a concrete chain\<close>

lemma view_of_new:
  "sr_view (sr_new m t) = ts_view default_value m" "cr_state (cr_new m t) = m"
  "cr_cache (cr_new m t) = fmempty" "cr_id (cr_new m t) = t"
  by (simp_all add: sr_view_def sr_new_def cr_new_def)

theorem concurrent_dispatch_refines_sequential_witness:
  "let s = cr_new (funded ex_env 1 1000) 7;
       out = ConcurrentRuntime_dispatch ex_env (BalancesCall (Transfer 2 300)) 1 s
   in cr_id (snd out) = 7
    \<and> (\<forall>k. ts_owner (cr_state (snd out)) k = ts_owner (funded ex_env 1 1000) k
         \<or> ts_owner (funded ex_env 1 1000) k = None \<and> ts_owner (cr_state (snd out)) k = Some 7)"
  using concurrent_dispatch_refines_sequential[of "cr_new (funded ex_env 1 1000) 7" ex_env
      "BalancesCall (Transfer 2 300)" 1, OF _ surjective_pairing]
  by (simp only: view_of_new Let_def simp_thms)

theorem sequential_dispatch_computes_spec_witness:
  "let s = sr_new (funded ex_env 1 1000) 7;
       out = SequentialRuntime_dispatch ex_env (StakingCall (TxBond 400 5)) 1 s
   in fst out = Ok RtOk \<and> ch_bonded (chain_of ex_env (sr_view (snd out))) 5 = 1
    \<and> chain_readable ex_env (sr_view (snd out))"
proof -
  let ?s = "sr_new (funded ex_env 1 1000) 7"
  let ?out = "SequentialRuntime_dispatch ex_env (StakingCall (TxBond 400 5)) 1 ?s"
  note ch = chain_funded[OF ex_staking_ok, of 1 1000]
  have "reserve True 400 (ab_new_free 1000) = Ok (ab_new 600 400)"
    by (simp add: reserve_def can_spend_def ab_new_free_def ab_new_def u128_add_def)
  with sequential_dispatch_computes_spec[OF ex_staking_ok, of ?s "StakingCall (TxBond 400 5)" 1
      "fst ?out" "snd ?out"] ch
  show ?thesis
    by (auto simp: view_of_new Let_def bond_spec_def empty_chain_def simp del: chain_of_sel
        dest!: sym[of _ "chain_of ex_env (sr_view (snd ?out))"])
qed

theorem concurrent_dispatch_keeps_invariant_witness:
  "let s = cr_new (funded ex_env 1 1000) 7;
       out = ConcurrentRuntime_dispatch ex_env (StakingCall (TxBond 400 5)) 1 s
   in \<not> is_Panic (fst out)
    \<and> chain_inv ex_env (chain_of ex_env (ts_view default_value (cr_state (snd out))))"
proof -
  let ?s = "cr_new (funded ex_env 1 1000) 7"
  let ?out = "ConcurrentRuntime_dispatch ex_env (StakingCall (TxBond 400 5)) 1 ?s"
  from concurrent_dispatch_keeps_invariant[OF ex_staking_ok, of ?s "StakingCall (TxBond 400 5)" 1
      "fst ?out" "snd ?out"] chain_funded(2)[OF ex_staking_ok, of 1 1000]
    chain_inv_funded[OF ex_staking_ok, of 1 1000]
  show ?thesis
    by (simp add: view_of_new Let_def)
qed

theorem default_controller_panics_witness:
  "let s = sr_new (funded ex_env 1 1000) 7;
       s1 = snd (SequentialRuntime_dispatch ex_env (StakingCall (TxBond 0 0)) 1 s)
   in fst (SequentialRuntime_dispatch ex_env (StakingCall TxValidate) 0 s1)
        = Panic ''Ledger must exist when Bonded exists.''"
proof -
  let ?s = "sr_new (funded ex_env 1 1000) 7"
  let ?one = "SequentialRuntime_dispatch ex_env (StakingCall (TxBond 0 0)) 1 ?s"
  let ?two = "SequentialRuntime_dispatch ex_env (StakingCall TxValidate) 0 (snd ?one)"
  from default_controller_panics[OF ex_staking_ok, of ?s 1 "fst ?one" "snd ?one" "fst ?two" "snd ?two"]
    chain_funded[OF ex_staking_ok, of 1 1000]
  show ?thesis
    by (simp add: view_of_new Let_def empty_chain_def del: chain_of_sel)
qed

end
