(* ===== verification/Types.thy ===== *)
theory Types
  imports Dispatch
begin

text \<open>
  The data the executors exchange (\<open>executor/src/types.rs\<close>): transactions with their tags and
  status, blocks, and the messages between the master and the workers. The signature check and
  the encoding of a call belong to libraries outside the repository; they are the parameters
  \<open>pk_verify\<close> and \<open>enc_call\<close>. A channel's sender in \<open>FinalizeSetup\<close> is represented by the id of
  the thread it leads to.
\<close>

section \<open>Transactions\<close>

datatype execution_tag = Done thread_id | Orphan | NotExecuted

definition execution_tag_default :: execution_tag where
  "execution_tag_default = NotExecuted"

datatype execution_status = Initial | Forwarded

definition execution_status_default :: execution_status where
  "execution_status_default = Initial"

record 'p transaction =
  tx_id :: transaction_id
  tx_tag :: execution_tag
  tx_exec_status :: execution_status
  tx_function :: "'p outer_call"
  tx_signature :: "'p \<times> bytes"

record 'p block =
  transactions :: "'p transaction list"

definition block_from :: "'p transaction list \<Rightarrow> 'p block" where
  "block_from txs = \<lparr>transactions = txs\<rparr>"

definition tx_new :: "transaction_id \<Rightarrow> 'p outer_call \<Rightarrow> 'p \<Rightarrow> bytes \<Rightarrow> 'p transaction" where
  "tx_new i call origin signed_call =
     \<lparr>tx_id = i, tx_tag = NotExecuted, tx_exec_status = Initial, tx_function = call,
      tx_signature = (origin, signed_call)\<rparr>"

definition set_done :: "thread_id \<Rightarrow> 'p transaction \<Rightarrow> 'p transaction" where
  "set_done by_whom tx = tx\<lparr>tx_tag := Done by_whom\<rparr>"

definition set_orphan :: "'p transaction \<Rightarrow> 'p transaction" where
  "set_orphan tx = tx\<lparr>tx_tag := Orphan\<rparr>"

record 'p exec_env = "'p staking_env" +
  pk_verify :: "'p \<Rightarrow> bytes \<Rightarrow> bytes \<Rightarrow> bool"
  enc_call :: "'p outer_call \<Rightarrow> bytes"

definition tx_verify :: "('p, 'z) exec_env_scheme \<Rightarrow> 'p transaction \<Rightarrow> bool" where
  "tx_verify E tx =
     (case tx_signature tx of (origin, signature) \<Rightarrow>
        pk_verify E origin (enc_call E (tx_function tx)) signature)"

text \<open>The tag and the status are not part of what is signed.\<close>

lemma tx_verify_updates [simp]:
  "tx_verify E (tx\<lparr>tx_tag := t\<rparr>) = tx_verify E tx"
  "tx_verify E (tx\<lparr>tx_exec_status := st\<rparr>) = tx_verify E tx"
  by (simp_all add: tx_verify_def)

section \<open>Messages\<close>

datatype task_type = Authoring | Validating

datatype 'p message_payload =
    FinalizeSetup "thread_id list"
  | Task task_type
  | TransactionMsg "'p transaction"
  | TransactionDistributionDone
  | AuthoringReport nat nat
  | ValidationReport
  | WorkerExecuted transaction_id
  | WorkerOrphan transaction_id
  | TaskDone
  | Terminate
  | TestMsg bytes

record 'p message =
  payload :: "'p message_payload"
  msg_from :: thread_id

definition new_from_thread :: "thread_id \<Rightarrow> 'p message_payload \<Rightarrow> 'p message" where
  "new_from_thread me p = \<lparr>payload = p, msg_from = me\<rparr>"

text \<open>
  \<open>PartialEq\<close> of payloads: transactions, setups by the keys of the first one, and in test builds
  test messages. All other payloads are different, also from themselves.
\<close>

fun payload_eq :: "bool \<Rightarrow> 'p message_payload \<Rightarrow> 'p message_payload \<Rightarrow> bool" where
  "payload_eq tst (TransactionMsg x) (TransactionMsg y) = (x = y)"
| "payload_eq tst (TestMsg x) (TestMsg y) = (tst \<and> x = y)"
| "payload_eq tst (FinalizeSetup x) (FinalizeSetup y) = list_all (\<lambda>key. key \<in> set y) x"
| "payload_eq tst _ _ = False"

end
