(* ===== verification/Crypto.thy ===== *)
theory Crypto
  imports Types
begin

text \<open>
  Key pairs and signatures (\<open>primitives/src/crypto.rs\<close>), the accounts for testing and signed
  transactions. The ed25519 crate is a parameter: what the code uses of \<open>edc::Keypair\<close> are fields of
  \<open>key_env\<close>, and \<open>keys_ok\<close> states their documented behaviour. A signature is represented by its 64
  bytes, a secret key by its 32.
\<close>

section \<open>Keys\<close>

record ('p, 'k) key_env = "'p exec_env" +
  kp_from_bytes :: "bytes \<Rightarrow> 'k option"
  kp_public :: "'k \<Rightarrow> 'p"
  kp_secret :: "'k \<Rightarrow> bytes"
  kp_sign :: "'k \<Rightarrow> bytes \<Rightarrow> bytes"
  kp_verify :: "'k \<Rightarrow> bytes \<Rightarrow> bytes \<Rightarrow> bool"
  kp_matching :: "'k \<Rightarrow> bool"

datatype 'k key_pair = KeyPair (keypair: 'k)

datatype private_key = Private bytes

definition public_from_bytes :: "('p, 'z) edc_env_scheme \<Rightarrow> bytes \<Rightarrow> 'p option" where
  "public_from_bytes E b = pk_from_bytes E b"

definition public_verify :: "('p, 'z) exec_env_scheme \<Rightarrow> 'p \<Rightarrow> bytes \<Rightarrow> bytes \<Rightarrow> bool" where
  "public_verify E p msg signature = pk_verify E p msg signature"

definition pair_public :: "('p, 'k, 'z) key_env_scheme \<Rightarrow> 'k key_pair \<Rightarrow> 'p" where
  "pair_public E p = kp_public E (keypair p)"

definition pair_private :: "('p, 'k, 'z) key_env_scheme \<Rightarrow> 'k key_pair \<Rightarrow> private_key" where
  "pair_private E p = Private (kp_secret E (keypair p))"

definition pair_sign :: "('p, 'k, 'z) key_env_scheme \<Rightarrow> 'k key_pair \<Rightarrow> bytes \<Rightarrow> bytes" where
  "pair_sign E p msg = kp_sign E (keypair p) msg"

definition pair_verify :: "('p, 'k, 'z) key_env_scheme \<Rightarrow> 'k key_pair \<Rightarrow> bytes \<Rightarrow> bytes \<Rightarrow> bool" where
  "pair_verify E p msg signature = kp_verify E (keypair p) msg signature"

definition public_fmt :: "('p, 'z) edc_env_scheme \<Rightarrow> 'p \<Rightarrow> string" where
  "public_fmt E p = slice_fmt (pk_as_ref E p)"

definition pair_fmt :: "('p, 'k, 'z) key_env_scheme \<Rightarrow> 'k key_pair \<Rightarrow> string" where
  "pair_fmt E p = ''Pair { Private: '' @ hex_slice_fmt (kp_secret E (keypair p))
     @ '', Public: '' @ hex_slice_fmt (pk_as_ref E (kp_public E (keypair p))) @ '' }''"

definition signature_fmt :: "bytes \<Rightarrow> string" where
  "signature_fmt signature = hex_slice_fmt signature"

section \<open>Accounts for testing\<close>

definition default_bytes :: bytes where
  "default_bytes = [
     251, 119, 100, 165, 244, 108, 8, 33, 132, 158, 110, 75, 239, 85, 201, 220, 54, 151, 132, 252,
     247, 205, 101, 233, 152, 112, 46, 110, 115, 160, 57, 203, 230, 54, 165, 51, 137, 245, 246, 79,
     228, 163, 178, 217, 247, 22, 65, 138, 1, 166, 141, 18, 205, 146, 98, 28, 91, 206, 190, 92, 192,
     84, 42, 255]"

definition alice_bytes :: bytes where
  "alice_bytes = [
     244, 5, 58, 42, 41, 213, 241, 132, 127, 57, 115, 17, 45, 124, 96, 105, 153, 122, 117,
     16, 191, 116, 208, 222, 115, 211, 181, 4, 135, 120, 232, 225, 164, 60, 189, 222, 17,
     247, 124, 143, 160, 82, 185, 246, 157, 20, 106, 182, 97, 30, 181, 158, 71, 93, 35, 179,
     171, 251, 111, 198, 206, 180, 249, 81]"

definition bob_bytes :: bytes where
  "bob_bytes = [
     169, 102, 220, 55, 249, 160, 36, 85, 87, 108, 33, 38, 8, 76, 149, 152, 246, 193, 111,
     201, 121, 131, 237, 99, 11, 113, 80, 143, 25, 172, 67, 196, 75, 236, 184, 74, 110, 177,
     248, 89, 181, 88, 105, 72, 121, 68, 121, 212, 49, 155, 114, 162, 138, 220, 64, 115, 12,
     203, 13, 204, 232, 80, 197, 128]"

definition dave_bytes :: bytes where
  "dave_bytes = [
     67, 204, 236, 61, 177, 124, 97, 247, 255, 113, 195, 14, 108, 91, 93, 12, 22, 12, 41,
     58, 87, 216, 50, 66, 119, 85, 159, 68, 236, 83, 214, 122, 52, 250, 190, 45, 30, 123,
     179, 245, 198, 198, 171, 122, 42, 39, 219, 252, 155, 118, 172, 3, 42, 140, 242, 58,
     182, 214, 35, 33, 6, 134, 37, 202]"

definition eve_bytes :: bytes where
  "eve_bytes = [
     185, 198, 116, 114, 180, 24, 166, 247, 113, 53, 68, 236, 101, 157, 192, 36, 178, 245,
     184, 163, 229, 2, 237, 118, 239, 109, 177, 222, 173, 126, 134, 152, 204, 62, 140, 165,
     109, 43, 220, 109, 69, 91, 85, 247, 59, 82, 203, 199, 103, 205, 90, 69, 28, 20, 51,
     193, 226, 144, 69, 204, 33, 88, 36, 191]"

definition pair_from_bytes :: "('p, 'k, 'z) key_env_scheme \<Rightarrow> bytes \<Rightarrow> 'k key_pair panicking" where
  "pair_from_bytes E b = (case kp_from_bytes E b of
     None \<Rightarrow> Inl ''called `Result::unwrap()` on an `Err` value'' | Some k \<Rightarrow> Inr (KeyPair k))"

definition alice :: "('p, 'k, 'z) key_env_scheme \<Rightarrow> 'k key_pair panicking" where
  "alice E = pair_from_bytes E alice_bytes"

definition bob :: "('p, 'k, 'z) key_env_scheme \<Rightarrow> 'k key_pair panicking" where
  "bob E = pair_from_bytes E bob_bytes"

definition dave :: "('p, 'k, 'z) key_env_scheme \<Rightarrow> 'k key_pair panicking" where
  "dave E = pair_from_bytes E dave_bytes"

definition eve :: "('p, 'k, 'z) key_env_scheme \<Rightarrow> 'k key_pair panicking" where
  "eve E = pair_from_bytes E eve_bytes"

definition default_pair :: "('p, 'k, 'z) key_env_scheme \<Rightarrow> 'k key_pair panicking" where
  "default_pair E = pair_from_bytes E default_bytes"

text \<open>
  What is relied on. A key pair whose halves belong together makes signatures that verify with its
  public half; the bytes of a pair are those of the secret and of the public key; the constants
  above are such pairs, and \<open>Public::default\<close> is the public key of the last one.
\<close>

definition keys_ok :: "('p, 'k, 'z) key_env_scheme \<Rightarrow> bool" where
  "keys_ok E \<longleftrightarrow>
     (\<forall>k msg. kp_matching E k \<longrightarrow> pk_verify E (kp_public E k) msg (kp_sign E k msg))
   \<and> (\<forall>k msg signature. kp_verify E k msg signature = pk_verify E (kp_public E k) msg signature)
   \<and> (\<forall>b k. kp_from_bytes E b = Some k \<longrightarrow> b = kp_secret E k @ pk_as_ref E (kp_public E k))
   \<and> (\<forall>b\<in>{alice_bytes, bob_bytes, dave_bytes, eve_bytes, default_bytes}.
        \<exists>k. kp_from_bytes E b = Some k \<and> kp_matching E k)
   \<and> (\<forall>k. kp_from_bytes E default_bytes = Some k \<longrightarrow> kp_public E k = default_pk E)"

definition matching_pair :: "('p, 'k, 'z) key_env_scheme \<Rightarrow> 'k key_pair \<Rightarrow> bool" where
  "matching_pair E p \<longleftrightarrow> kp_matching E (keypair p)"

lemma sign_verifies:
  assumes "keys_ok E" "matching_pair E p"
  shows "public_verify E (pair_public E p) msg (pair_sign E p msg)" "pair_verify E p msg (pair_sign E p msg)"
  using assms by (simp_all add: keys_ok_def matching_pair_def public_verify_def pair_public_def pair_sign_def
      pair_verify_def)

lemma test_accounts:
  assumes "keys_ok E"
  obtains a b d e where "alice E = Inr a" "matching_pair E a" "bob E = Inr b" "matching_pair E b"
    "dave E = Inr d" "matching_pair E d" "eve E = Inr e" "matching_pair E e"
proof -
  have "\<exists>k. kp_from_bytes E b = Some k \<and> kp_matching E k"
    if "b \<in> {alice_bytes, bob_bytes, dave_bytes, eve_bytes}" for b
    using assms that by (auto simp: keys_ok_def)
  then have "\<exists>p. pair_from_bytes E b = Inr p \<and> matching_pair E p"
    if "b \<in> {alice_bytes, bob_bytes, dave_bytes, eve_bytes}" for b
    using that by (fastforce simp: pair_from_bytes_def matching_pair_def)
  then show thesis
    using that unfolding alice_def bob_def dave_def eve_def by (metis insertCI)
qed

text \<open>The accounts are different, and none is the default account.\<close>

lemma test_accounts_distinct:
  assumes E: "keys_ok E" "edc_ok E" and p: "alice E = Inr a" "bob E = Inr b" "dave E = Inr d" "eve E = Inr e"
  shows "distinct (default_pk E # map (pair_public E) [a, b, d, e])"
proof -
  have pub: "pk_as_ref E (kp_public E k) = drop 32 bs" if "kp_from_bytes E bs = Some k" "length bs = 64" for bs k
  proof -
    have "bs = kp_secret E k @ pk_as_ref E (kp_public E k)" using E(1) that(1) unfolding keys_ok_def by blast
    moreover have "length (pk_as_ref E (kp_public E k)) = 32" using E(2) by (simp add: edc_ok_def)
    ultimately show ?thesis using that(2) by (metis add_diff_cancel_right' append_eq_conv_conj drop_append
        length_append numeral_Bit0 diff_self_eq_0 drop0 drop_all le_refl append_Nil)
  qed
  obtain kd where kd: "kp_from_bytes E default_bytes = Some kd" "kp_public E kd = default_pk E"
    using E(1) unfolding keys_ok_def by blast
  have "pk_as_ref E (default_pk E) = drop 32 default_bytes"
    using pub[OF kd(1)] kd(2) by (simp add: default_bytes_def)
  moreover have "pk_as_ref E (pair_public E a) = drop 32 alice_bytes" "pk_as_ref E (pair_public E b) = drop 32 bob_bytes"
    "pk_as_ref E (pair_public E d) = drop 32 dave_bytes" "pk_as_ref E (pair_public E e) = drop 32 eve_bytes"
    using p pub by (auto simp: alice_def bob_def dave_def eve_def pair_from_bytes_def pair_public_def
        alice_bytes_def bob_bytes_def dave_bytes_def eve_bytes_def split: option.splits)
  ultimately have "distinct (map (pk_as_ref E) (default_pk E # map (pair_public E) [a, b, d, e]))"
    by (simp add: default_bytes_def alice_bytes_def bob_bytes_def dave_bytes_def eve_bytes_def)
  then show ?thesis unfolding distinct_map by (rule conjunct1)
qed

section \<open>Signed transactions\<close>

text \<open>\<open>call.using_encoded(|payload| who.sign(payload))\<close>\<close>

definition sign_call :: "('p, 'k, 'z) key_env_scheme \<Rightarrow> 'k key_pair \<Rightarrow> 'p outer_call \<Rightarrow> bytes" where
  "sign_call E who call = pair_sign E who (enc_call E call)"

definition signed_tx ::
  "('p, 'k, 'z) key_env_scheme \<Rightarrow> transaction_id \<Rightarrow> 'p outer_call \<Rightarrow> 'k key_pair \<Rightarrow> 'p transaction" where
  "signed_tx E i call who = tx_new i call (pair_public E who) (sign_call E who call)"

lemma signed_tx_sel [simp]:
  "tx_id (signed_tx E i call who) = i" "tx_function (signed_tx E i call who) = call"
  "tx_exec_status (signed_tx E i call who) = Initial" "tx_tag (signed_tx E i call who) = NotExecuted"
  "fst (tx_signature (signed_tx E i call who)) = pair_public E who"
  by (simp_all add: signed_tx_def tx_new_def)

lemma signed_tx_verifies: "keys_ok E \<Longrightarrow> matching_pair E who \<Longrightarrow> tx_verify E (signed_tx E i call who)"
  using sign_verifies(1)[of E who "enc_call E call"]
  by (simp add: tx_verify_def signed_tx_def tx_new_def sign_call_def public_verify_def)

end
