(* ===== verification/Executor.thy ===== *)
theory Executor
  imports Types
begin

text \<open>
  The trait \<open>Executor\<close> (\<open>executor/src/lib.rs\<close>) as a record of its methods with the default method
  \<open>author_and_validate\<close>, its contract as the locale \<open>executor_laws\<close>, and the sequential executor
  (\<open>executor/src/sequential/mod.rs\<close>), which satisfies it. The measured durations are left out.
\<close>

section \<open>The trait\<close>

record ('s, 'p) executor =
  ex_author_block :: "'p transaction list \<Rightarrow> ('s, runtime_state \<times> 'p block, unit) comp"
  ex_validate_block :: "'p block \<Rightarrow> ('s, runtime_state, unit) comp"
  ex_clean :: "('s, unit, unit) comp"
  ex_apply_state :: "runtime_state \<Rightarrow> ('s, unit, unit) comp"

definition apply_initial ::
  "('s, 'p) executor \<Rightarrow> runtime_state option \<Rightarrow> ('s, unit, unit) comp" where
  "apply_initial X initial_state = (case initial_state of
     Some state \<Rightarrow> ex_apply_state X state | None \<Rightarrow> ret ())"

definition author_and_validate ::
  "('s, 'p) executor \<Rightarrow> 'p transaction list \<Rightarrow> runtime_state option \<Rightarrow> ('s, bool, unit) comp" where
  "author_and_validate X initial_transactions initial_state =
     bindC (apply_initial X initial_state) (\<lambda>_.
     bindC (ex_author_block X initial_transactions) (\<lambda>(authoring_state, blk).
     bindC (ex_clean X) (\<lambda>_.
     bindC (apply_initial X initial_state) (\<lambda>_.
     bindC (ex_validate_block X blk) (\<lambda>validation_state.
     bindC (ex_clean X) (\<lambda>_.
     ret (state_eq validation_state authoring_state)))))))"

text \<open>
  The contract: cleaning and applying a state always work and leave a state that is a function of
  what was applied, and validating an authored block there reproduces the authored state.
  \<open>own\<close> are the states of one executor, \<open>fresh\<close> the clean ones among them, \<open>starts i\<close> those with
  the initial state \<open>i\<close>.
\<close>

locale executor_laws =
  fixes X :: "('s, 'p) executor" and own :: "'s \<Rightarrow> bool"
    and fresh :: "'s \<Rightarrow> bool" and starts :: "runtime_state option \<Rightarrow> 's \<Rightarrow> bool"
  assumes clean: "own s \<Longrightarrow> \<exists>s'. ex_clean X s = (Ok (), s') \<and> fresh s'"
    and initial: "fresh s \<Longrightarrow> \<exists>s'. apply_initial X i s = (Ok (), s') \<and> starts i s'"
    and author: "starts i s \<Longrightarrow> ex_author_block X txs s = (r, s') \<Longrightarrow> own s' \<and> (\<forall>e. r \<noteq> Err e)"
    and replay: "starts i s \<Longrightarrow> starts i t \<Longrightarrow> ex_author_block X txs s = (Ok (st, blk), s') \<Longrightarrow>
      \<exists>st' t'. ex_validate_block X blk t = (Ok st', t') \<and> state_eq st' st \<and> own t'"
begin

text \<open>Authoring and validating from a clean executor agree, unless authoring panics.\<close>

lemma author_and_validate_agree:
  assumes "fresh s"
  obtains (agree) s' where "author_and_validate X txs i s = (Ok True, s')" "fresh s'"
  | (panics) p s1 s' where "apply_initial X i s = (Ok (), s1)" "starts i s1"
      "ex_author_block X txs s1 = (Panic p, s')" "author_and_validate X txs i s = (Panic p, s')"
proof -
  obtain s1 where s1: "apply_initial X i s = (Ok (), s1)" "starts i s1"
    using initial[OF assms] by blast
  obtain r s2 where r: "ex_author_block X txs s1 = (r, s2)" by fastforce
  show thesis
  proof (cases r)
    case (Ok out)
    obtain st blk where out: "out = (st, blk)" by fastforce
    obtain s3 where s3: "ex_clean X s2 = (Ok (), s3)" "fresh s3"
      using clean author[OF s1(2) r] by blast
    obtain s4 where s4: "apply_initial X i s3 = (Ok (), s4)" "starts i s4"
      using initial[OF s3(2)] by blast
    obtain st' s5 where s5: "ex_validate_block X blk s4 = (Ok st', s5)" "state_eq st' st" "own s5"
      using replay[OF s1(2) s4(2)] r Ok out by blast
    obtain s6 where s6: "ex_clean X s5 = (Ok (), s6)" "fresh s6"
      using clean[OF s5(3)] by blast
    have "author_and_validate X txs i s = (Ok True, s6)"
      using s1 s3 s4 s5 s6 r Ok out by (simp add: author_and_validate_def bindC_def)
    with s6 show thesis using agree by blast
  next
    case (Err e)
    then show thesis using author[OF s1(2) r] by blast
  next
    case (Panic p)
    then show thesis
      using s1 r by (intro panics[of s1 p s2]) (simp_all add: author_and_validate_def bindC_def)
  qed
qed

end

section \<open>The sequential executor\<close>

definition se_new :: "thread_id \<Rightarrow> sequential_runtime" where
  "se_new me = sr_new ts_new me"

fun apply_transaction ::
  "('p, 'z) staking_env_scheme \<Rightarrow> 'p transaction list
     \<Rightarrow> (sequential_runtime, runtime_dispatch_success list, unit) comp" where
  "apply_transaction E [] = ret []"
| "apply_transaction E (tx # txs) =
     bindC (expectC ''Sequential execution cannot fail on execute. This will at most be Ok(LogicError(..))''
        (SequentialRuntime_dispatch E (tx_function tx) (fst (tx_signature tx)))) (\<lambda>ok.
     bindC (apply_transaction E txs) (\<lambda>outcomes.
     ret (ok # outcomes)))"

definition se_author_block ::
  "('p, 'z) staking_env_scheme \<Rightarrow> 'p transaction list
     \<Rightarrow> (sequential_runtime, runtime_state \<times> 'p block, unit) comp" where
  "se_author_block E initial_transactions =
     bindC (apply_transaction E initial_transactions) (\<lambda>_.
     (\<lambda>s. (Ok (dump (sr_state s), block_from initial_transactions), s)))"

definition se_validate_block ::
  "('p, 'z) staking_env_scheme \<Rightarrow> 'p block \<Rightarrow> (sequential_runtime, runtime_state, unit) comp" where
  "se_validate_block E blk =
     bindC (apply_transaction E (transactions blk)) (\<lambda>_. (\<lambda>s. (Ok (dump (sr_state s)), s)))"

definition se_clean :: "(sequential_runtime, unit, unit) comp" where
  "se_clean s = (Ok (), s\<lparr>sr_state := unsafe_clean (sr_state s)\<rparr>)"

definition se_apply_state :: "runtime_state \<Rightarrow> (sequential_runtime, unit, unit) comp" where
  "se_apply_state state s =
     (Ok (), s\<lparr>sr_state := fold (\<lambda>(k, v). unsafe_insert k v) (entries state) (sr_state s)\<rparr>)"

definition SE :: "('p, 'z) staking_env_scheme \<Rightarrow> (sequential_runtime, 'p) executor" where
  "SE E = \<lparr>ex_author_block = se_author_block E, ex_validate_block = se_validate_block E,
           ex_clean = se_clean, ex_apply_state = se_apply_state\<rparr>"

lemma SE_sel [simp]:
  "ex_author_block (SE E) = se_author_block E" "ex_validate_block (SE E) = se_validate_block E"
  "ex_clean (SE E) = se_clean" "ex_apply_state (SE E) = se_apply_state"
  by (simp_all add: SE_def)

lemma apply_transaction_no_Err: "apply_transaction E txs s \<noteq> (Err e, s')"
  by (induction txs arbitrary: s e s') (auto simp: comp_iffs)

lemma sr_id_apply: "apply_transaction E txs s = (r, s') \<Longrightarrow> sr_id s' = sr_id s"
proof (induction txs arbitrary: s r s')
  case (Cons tx txs)
  have step: "sr_id s1 = sr_id s" if "SequentialRuntime_dispatch E call origin s = (q, s1)"
    for call origin q s1
  proof -
    from that obtain out where "outer_dispatch E SR call origin s = (out, s1)"
      by (rule SequentialRuntime_dispatch_cases)
    from keepsD[OF seq_frame.keeps_outer_dispatch this] show ?thesis
      by (simp add: sr_frame_def)
  qed
  from Cons.prems show ?case
    by (cases r) (auto simp: comp_iffs apply_transaction_no_Err dest!: step Cons.IH)
qed simp

text \<open>The states of the executor of thread \<open>me\<close>; its initial states are unique.\<close>

definition se_own :: "thread_id \<Rightarrow> sequential_runtime \<Rightarrow> bool" where
  "se_own me s \<longleftrightarrow> sr_id s = me"

definition se_starts :: "thread_id \<Rightarrow> runtime_state option \<Rightarrow> sequential_runtime \<Rightarrow> bool" where
  "se_starts me i s \<longleftrightarrow> s = sr_new (case i of Some m \<Rightarrow> m | None \<Rightarrow> ts_new) me"

lemma apply_to_empty: "fold (\<lambda>(k, v). unsafe_insert k v) (entries m) fmempty = m"
proof -
  have "unsafe_duplicate m fmempty = m"
    using duplicate_any_order[of "entries m" m fmempty]
    by (simp add: distinct_entries map_of_sorted_list)
  then show ?thesis
    by (simp add: unsafe_duplicate_def dump_def)
qed

interpretation sequential: executor_laws "SE E" "se_own me" "\<lambda>s. s = se_new me" "se_starts me"
  for E me
proof unfold_locales
  fix s s' t i txs r st blk
  show "se_own me s \<Longrightarrow> \<exists>s'. ex_clean (SE E) s = (Ok (), s') \<and> s' = se_new me"
    by (simp add: se_own_def se_clean_def se_new_def sr_new_def unsafe_clean_def ts_new_def)
  show "s = se_new me \<Longrightarrow> \<exists>s'. apply_initial (SE E) i s = (Ok (), s') \<and> se_starts me i s'"
    by (cases i) (simp_all add: apply_initial_def se_starts_def se_new_def se_apply_state_def
        sr_new_def ts_new_def apply_to_empty)
  show "se_starts me i s \<Longrightarrow> ex_author_block (SE E) txs s = (r, s') \<Longrightarrow>
      se_own me s' \<and> (\<forall>e. r \<noteq> Err e)"
    by (cases r) (auto simp: se_author_block_def se_starts_def se_own_def sr_new_def comp_iffs
        apply_transaction_no_Err dest: sr_id_apply)
  show "se_starts me i s \<Longrightarrow> se_starts me i t \<Longrightarrow>
      ex_author_block (SE E) txs s = (Ok (st, blk), s') \<Longrightarrow>
      \<exists>st' t'. ex_validate_block (SE E) blk t = (Ok st', t') \<and> state_eq st' st \<and> se_own me t'"
    by (auto simp: se_author_block_def se_validate_block_def se_starts_def se_own_def block_from_def
        state_eq_data sr_new_def bindC_def dest: sr_id_apply split: prod.splits rs.splits)
qed

section \<open>Properties\<close>

text \<open>Every transaction names a call that makes no default account a controller.\<close>

definition sane :: "('p, 'z) staking_env_scheme \<Rightarrow> 'p transaction list \<Rightarrow> bool" where
  "sane E txs \<longleftrightarrow> list_all (\<lambda>tx. \<not> names_default_controller E (tx_function tx)) txs"

definition all_participants :: "'p transaction list \<Rightarrow> 'p set" where
  "all_participants txs = (\<Union>tx\<in>set txs. participants (tx_function tx) (fst (tx_signature tx)))"

text \<open>The chain after a list of transactions, by the specification of the calls.\<close>

fun chain_run :: "('p, 'z) staking_env_scheme \<Rightarrow> 'p transaction list \<Rightarrow> 'p chain \<Rightarrow> 'p chain" where
  "chain_run E [] ch = ch"
| "chain_run E (tx # txs) ch =
     chain_run E txs (snd (chain_spec E (tx_function tx) (fst (tx_signature tx)) ch))"

lemma sequential_transaction:
  assumes "staking_ok E" "chain_readable E (sr_view s)" "chain_inv E (chain_of E (sr_view s))"
    and "\<not> names_default_controller E call"
  obtains ok s' where "SequentialRuntime_dispatch E call origin s = (Ok ok, s')"
    "chain_of E (sr_view s') = snd (chain_spec E call origin (chain_of E (sr_view s)))"
    "chain_readable E (sr_view s')" "chain_inv E (chain_of E (sr_view s'))"
    "\<And>A. finite A \<Longrightarrow> participants call origin \<subseteq> A \<Longrightarrow>
       funds A (ch_balances (chain_of E (sr_view s'))) = funds A (ch_balances (chain_of E (sr_view s)))"
proof -
  obtain r s' where run: "SequentialRuntime_dispatch E call origin s = (r, s')" by fastforce
  then obtain out where out: "outer_dispatch E SR call origin s = (out, s')"
      "r = to_runtime_dispatch_result out"
    by (rule SequentialRuntime_dispatch_cases)
  note spec = sequential_call_spec[OF assms(1,2) out(1)]
  note keeps = chain_spec_keeps[OF assms(3,4) conjunct1[OF spec]]
  have "\<not> is_Panic r"
    using keeps(1) out(2) by (cases out rule: to_runtime_dispatch_result.cases) auto
  then obtain ok where "r = Ok ok"
    using run by (cases r) (auto simp: sequential_never_refused)
  with run spec keeps that show thesis by auto
qed

lemma apply_transaction_runs:
  assumes "staking_ok E" "chain_readable E (sr_view s)" "chain_inv E (chain_of E (sr_view s))" "sane E txs"
  shows "\<exists>oks s'. apply_transaction E txs s = (Ok oks, s') \<and> length oks = length txs
     \<and> chain_of E (sr_view s') = chain_run E txs (chain_of E (sr_view s))
     \<and> chain_readable E (sr_view s') \<and> chain_inv E (chain_of E (sr_view s'))
     \<and> (\<forall>A. finite A \<longrightarrow> all_participants txs \<subseteq> A \<longrightarrow>
          funds A (ch_balances (chain_of E (sr_view s')))
            = funds A (ch_balances (chain_of E (sr_view s))))"
  using assms(2-4)
proof (induction txs arbitrary: s)
  case Nil
  then show ?case by simp
next
  case (Cons tx txs)
  have tx: "\<not> names_default_controller E (tx_function tx)" and txs: "sane E txs"
    using Cons.prems(3) by (simp_all add: sane_def)
  obtain ok s1 where s1: "SequentialRuntime_dispatch E (tx_function tx) (fst (tx_signature tx)) s = (Ok ok, s1)"
    "chain_of E (sr_view s1) = snd (chain_spec E (tx_function tx) (fst (tx_signature tx)) (chain_of E (sr_view s)))"
    "chain_readable E (sr_view s1)" "chain_inv E (chain_of E (sr_view s1))"
    "\<And>A. finite A \<Longrightarrow> participants (tx_function tx) (fst (tx_signature tx)) \<subseteq> A \<Longrightarrow>
       funds A (ch_balances (chain_of E (sr_view s1))) = funds A (ch_balances (chain_of E (sr_view s)))"
    using sequential_transaction[OF assms(1) Cons.prems(1,2) tx] by metis
  from Cons.IH[OF s1(3,4) txs] s1 show ?case
    by (auto simp: comp_simps all_participants_def simp del: chain_of_sel)
qed

text \<open>C27. On a well-formed chain, the sequential executor runs every list of transactions none of which
  names the default account as controller to its end, one outcome per transaction. The resulting chain is what the specifications of the calls
  compute one after the other, it is well formed, and the participants' funds add up to what they
  were before.\<close>

theorem sequential_executor_runs:
  assumes "staking_ok E" "chain_readable E (sr_view s)" "chain_inv E (chain_of E (sr_view s))"
    and "sane E txs"
  shows "\<exists>oks s'. apply_transaction E txs s = (Ok oks, s') \<and> length oks = length txs
     \<and> chain_of E (sr_view s') = chain_run E txs (chain_of E (sr_view s))
     \<and> chain_inv E (chain_of E (sr_view s'))
     \<and> (\<forall>A. finite A \<longrightarrow> all_participants txs \<subseteq> A \<longrightarrow>
          funds A (ch_balances (chain_of E (sr_view s')))
            = funds A (ch_balances (chain_of E (sr_view s))))"
  using apply_transaction_runs[OF assms] by blast

lemma sequential_agrees:
  assumes "staking_ok E" "chain_readable E (ts_view default_value initial)"
    and "chain_inv E (chain_of E (ts_view default_value initial))" and "sane E txs"
  shows "author_and_validate (SE E) txs (Some initial) (se_new me) = (Ok True, se_new me)"
proof -
  have "False" if "se_starts me (Some initial) s1" "ex_author_block (SE E) txs s1 = (Panic p, s')"
    for p s1 s'
  proof -
    have "sr_view s1 = ts_view default_value initial"
      using that(1) by (simp add: se_starts_def sr_view_def sr_new_def)
    with apply_transaction_runs[OF assms(1), of s1 txs] assms(2-4) that(2) show False
      by (auto simp: se_author_block_def comp_iffs)
  qed
  with sequential.author_and_validate_agree[where E = E and me = me and txs = txs
      and i = "Some initial", OF refl] show ?thesis
    by metis
qed

text \<open>C26. From a clean sequential executor and a well-formed initial state, authoring a block of
  transactions none of which names the default account as controller, and validating it, always succeeds, reports equal states and leaves the executor clean again.\<close>

theorem sequential_author_and_validate:
  assumes "staking_ok E" "chain_readable E (ts_view default_value initial)"
    and "chain_inv E (chain_of E (ts_view default_value initial))" and "sane E txs"
  shows "author_and_validate (SE E) txs (Some initial) (se_new me) = (Ok True, se_new me)"
  by (rule sequential_agrees[OF assms])

text \<open>The two theorems on a chain with one rich account.\<close>

definition ex_txs :: "u8 transaction list" where
  "ex_txs = [tx_new 1 (BalancesCall (Transfer 2 300)) 1 [], tx_new 2 (StakingCall (TxBond 100 9)) 2 [],
     tx_new 3 (StakingCall TxValidate) 9 [], tx_new 4 (BalancesCall (Transfer 7 5000)) 2 []]"

lemma ex_sane: "sane ex_env ex_txs"
  by (simp add: sane_def ex_txs_def tx_new_def)

theorem sequential_executor_runs_witness:
  "\<exists>oks s'. apply_transaction ex_env ex_txs (sr_new (funded ex_env 1 1000) 7) = (Ok oks, s')
     \<and> length oks = 4 \<and> chain_inv ex_env (chain_of ex_env (sr_view s'))"
  using sequential_executor_runs[OF ex_staking_ok, of "sr_new (funded ex_env 1 1000) 7" ex_txs]
    chain_funded(2)[OF ex_staking_ok, of 1 1000] chain_inv_funded[OF ex_staking_ok, of 1 1000] ex_sane
  by (auto simp: view_of_new ex_txs_def)

theorem sequential_author_and_validate_witness:
  "author_and_validate (SE ex_env) ex_txs (Some (funded ex_env 1 1000)) (se_new 7) = (Ok True, se_new 7)"
  by (rule sequential_author_and_validate[OF ex_staking_ok chain_funded(2)[OF ex_staking_ok]
        chain_inv_funded[OF ex_staking_ok] ex_sane])

end
