(* ===== verification/Pool.thy ===== *)
theory Pool
  imports Prelude
begin

text \<open>
  The transaction pool (\<open>executor/src/pool.rs\<close>): the vector \<open>VecPool\<close> and the interface
  \<open>TransactionPool\<close> the master is written against, as the locale \<open>transaction_pool\<close>. What the
  master does with a pool is proved there once: taking a transaction out (the trait's default
  method \<open>remove\<close>) and moving one to the end. A panic (an invalid transaction, an index out of
  range) is \<open>Inl\<close>. \<open>verify\<close> is the method of \<open>VerifiableTransaction\<close>.
\<close>

section \<open>The vector pool\<close>

record 'tx vec_pool =
  inner :: "'tx list"

definition vp_from :: "'tx list \<Rightarrow> 'tx vec_pool" where
  "vp_from v = \<lparr>inner = v\<rparr>"

definition vp_new :: "'tx vec_pool" where
  "vp_new = \<lparr>inner = []\<rparr>"

definition vp_with_capacity :: "nat \<Rightarrow> 'tx vec_pool" where
  "vp_with_capacity capacity = \<lparr>inner = []\<rparr>"

definition vp_push_back :: "('tx \<Rightarrow> bool) \<Rightarrow> 'tx \<Rightarrow> 'tx vec_pool \<Rightarrow> 'tx vec_pool panicking" where
  "vp_push_back verify tx p =
     (if \<not> verify tx then Inl ''Attempted to insert invalid transaction to the pool.''
      else Inr (p\<lparr>inner := inner p @ [tx]\<rparr>))"

fun vp_push_batch :: "('tx \<Rightarrow> bool) \<Rightarrow> 'tx list \<Rightarrow> 'tx vec_pool \<Rightarrow> 'tx vec_pool panicking" where
  "vp_push_batch verify [] p = Inr p"
| "vp_push_batch verify (t # ts) p = (case vp_push_back verify t p of
     Inl msg \<Rightarrow> Inl msg | Inr p' \<Rightarrow> vp_push_batch verify ts p')"

definition vp_insert ::
  "('tx \<Rightarrow> bool) \<Rightarrow> nat \<Rightarrow> 'tx \<Rightarrow> 'tx vec_pool \<Rightarrow> 'tx vec_pool panicking" where
  "vp_insert verify index tx p =
     (if \<not> verify tx then Inl ''Attempted to insert invalid transaction to the pool.''
      else if index > length (inner p) then Inl ''insertion index should be <= len''
      else Inr (p\<lparr>inner := take index (inner p) @ tx # drop index (inner p)\<rparr>))"

definition vp_remove_at :: "nat \<Rightarrow> 'tx vec_pool \<Rightarrow> ('tx \<times> 'tx vec_pool) panicking" where
  "vp_remove_at at p =
     (if at \<ge> length (inner p) then Inl ''removal index should be < len''
      else Inr (inner p ! at, p\<lparr>inner := take at (inner p) @ drop (Suc at) (inner p)\<rparr>))"

definition vp_clear :: "'tx vec_pool \<Rightarrow> 'tx vec_pool" where
  "vp_clear p = p\<lparr>inner := []\<rparr>"

definition vp_len :: "'tx vec_pool \<Rightarrow> nat" where
  "vp_len p = length (inner p)"

definition vp_all :: "'tx vec_pool \<Rightarrow> 'tx list" where
  "vp_all p = inner p"

definition vp_destruct :: "'tx vec_pool \<Rightarrow> 'tx list" where
  "vp_destruct p = inner p"

definition vp_get :: "('tx \<Rightarrow> bool) \<Rightarrow> 'tx vec_pool \<Rightarrow> (nat \<times> 'tx) option" where
  "vp_get search p = List.find (\<lambda>(_, tx). search tx) (enumerate 0 (inner p))"

text \<open>\<open>get_mut\<close> hands out a reference; \<open>f\<close> is what the caller assigns through it.\<close>

definition vp_get_mut ::
  "('tx \<Rightarrow> bool) \<Rightarrow> ('tx \<Rightarrow> 'tx) \<Rightarrow> 'tx vec_pool \<Rightarrow> 'tx vec_pool option" where
  "vp_get_mut search f p = (case vp_get search p of
     Some (i, tx) \<Rightarrow> Some (p\<lparr>inner := (inner p)[i := f tx]\<rparr>) | None \<Rightarrow> None)"

definition vp_iter :: "'tx vec_pool \<Rightarrow> 'tx list" where
  "vp_iter p = inner p"

definition vp_iter_mut :: "(nat \<Rightarrow> 'tx \<Rightarrow> 'tx) \<Rightarrow> 'tx vec_pool \<Rightarrow> 'tx vec_pool" where
  "vp_iter_mut f p = p\<lparr>inner := map (\<lambda>(i, tx). f i tx) (enumerate 0 (inner p))\<rparr>"

section \<open>The interface\<close>

text \<open>\<open>TransactionPool::remove\<close>, the default method of the trait.\<close>

definition pool_remove ::
  "(('tx \<Rightarrow> bool) \<Rightarrow> 'p \<Rightarrow> (nat \<times> 'tx) option) \<Rightarrow> (nat \<Rightarrow> 'p \<Rightarrow> ('tx \<times> 'p) panicking)
     \<Rightarrow> ('tx \<Rightarrow> bool) \<Rightarrow> 'p \<Rightarrow> ('tx option \<times> 'p) panicking" where
  "pool_remove get remove_at search p = (case get search p of
     Some (index, _) \<Rightarrow> (case remove_at index p of
         Inl msg \<Rightarrow> Inl msg | Inr (tx, p') \<Rightarrow> Inr (Some tx, p'))
   | None \<Rightarrow> Inr (None, p))"

locale transaction_pool =
  fixes all :: "'p \<Rightarrow> 'tx list"
    and push_back :: "'tx \<Rightarrow> 'p \<Rightarrow> 'p panicking"
    and remove_at :: "nat \<Rightarrow> 'p \<Rightarrow> ('tx \<times> 'p) panicking"
    and get :: "('tx \<Rightarrow> bool) \<Rightarrow> 'p \<Rightarrow> (nat \<times> 'tx) option"
    and verify :: "'tx \<Rightarrow> bool"
  assumes push_back_valid: "verify tx \<Longrightarrow> \<exists>p'. push_back tx p = Inr p' \<and> all p' = all p @ [tx]"
    and push_back_invalid: "\<not> verify tx \<Longrightarrow> \<exists>msg. push_back tx p = Inl msg"
    and remove_at_inside: "i < length (all p) \<Longrightarrow>
      \<exists>p'. remove_at i p = Inr (all p ! i, p') \<and> all p' = take i (all p) @ drop (Suc i) (all p)"
    and get_Some: "get f p = Some (i, tx) \<Longrightarrow>
      i < length (all p) \<and> all p ! i = tx \<and> f tx \<and> (\<forall>j<i. \<not> f (all p ! j))"
    and get_None: "get f p = None \<longleftrightarrow> (\<forall>tx\<in>set (all p). \<not> f tx)"
begin

lemma get_split:
  assumes "all p = l @ tx # r" "f tx" "\<forall>x\<in>set l. \<not> f x"
  shows "get f p = Some (length l, tx)"
proof (cases "get f p")
  case None
  then show ?thesis using assms by (auto simp: get_None)
next
  case (Some found)
  obtain i t where it: "found = (i, t)" by fastforce
  from get_Some[of f p i t] Some it have g: "i < length (all p)" "all p ! i = t" "f t"
    "\<forall>j<i. \<not> f (all p ! j)" by auto
  have "\<not> i < length l"
    using g(2,3) assms(1,3) by (auto simp: nth_append)
  moreover have "\<not> length l < i"
    using g(4) assms(1,2) by (auto simp: nth_append)
  ultimately have "i = length l" by simp
  with g(2) Some it assms(1) show ?thesis by simp
qed

lemma remove_first:
  assumes "all p = l @ tx # r" "f tx" "\<forall>x\<in>set l. \<not> f x"
  shows "\<exists>p'. pool_remove get remove_at f p = Inr (Some tx, p') \<and> all p' = l @ r"
  using get_split[OF assms] remove_at_inside[of "length l" p] assms(1)
  by (auto simp: pool_remove_def)

lemma remove_none:
  "\<forall>tx\<in>set (all p). \<not> f tx \<Longrightarrow> pool_remove get remove_at f p = Inr (None, p)"
  using get_None[of f p] by (simp add: pool_remove_def)

text \<open>Taking the first match out and putting a changed copy at the end.\<close>

lemma move_to_end:
  assumes "all p = l @ tx # r" and "verify (g tx)"
  shows "\<exists>p1 p2. remove_at (length l) p = Inr (tx, p1) \<and> push_back (g tx) p1 = Inr p2
     \<and> all p2 = l @ r @ [g tx]"
proof -
  obtain p1 where p1: "remove_at (length l) p = Inr (tx, p1)" "all p1 = l @ r"
    using remove_at_inside[of "length l" p] assms(1) by auto
  with push_back_valid[OF assms(2), of p1] show ?thesis by auto
qed

end

lemma find_enumerate_Some:
  "List.find (\<lambda>(_, tx). f tx) (enumerate n xs) = Some (i, tx) \<Longrightarrow>
     n \<le> i \<and> i - n < length xs \<and> xs ! (i - n) = tx \<and> f tx \<and> (\<forall>j<i - n. \<not> f (xs ! j))"
proof (induction xs arbitrary: n)
  case (Cons x xs)
  show ?case
  proof (cases "f x")
    case False
    with Cons.prems have "List.find (\<lambda>(_, tx). f tx) (enumerate (Suc n) xs) = Some (i, tx)"
      by simp
    note ih = Cons.IH[OF this]
    then have "i - n = Suc (i - Suc n)" by linarith
    with ih False show ?thesis
      by (auto simp: nth_Cons' less_Suc_eq_0_disj)
  qed (use Cons.prems in auto)
qed simp

lemma find_enumerate_None:
  "List.find (\<lambda>(_, tx). f tx) (enumerate n xs) = None \<longleftrightarrow> (\<forall>tx\<in>set xs. \<not> f tx)"
  by (induction xs arbitrary: n) auto

interpretation vec: transaction_pool vp_all "vp_push_back verify" vp_remove_at vp_get verify
  for verify
proof unfold_locales
  fix f :: "'b \<Rightarrow> bool" and p :: "'b vec_pool" and i tx
  show "vp_get f p = Some (i, tx) \<Longrightarrow>
      i < length (vp_all p) \<and> vp_all p ! i = tx \<and> f tx \<and> (\<forall>j<i. \<not> f (vp_all p ! j))"
    using find_enumerate_Some[of f 0 "inner p" i tx] by (simp add: vp_get_def vp_all_def)
  show "(vp_get f p = None) = (\<forall>tx\<in>set (vp_all p). \<not> f tx)"
    by (simp add: vp_get_def vp_all_def find_enumerate_None)
qed (simp_all add: vp_push_back_def vp_remove_at_def vp_all_def)

section \<open>Properties\<close>

text \<open>Inserting a batch adds all its transactions at the end, in their order, if all of them
  verify, and panics otherwise.\<close>

theorem push_batch_spec:
  "vp_push_batch verify txs p =
     (if list_all verify txs then Inr (p\<lparr>inner := inner p @ txs\<rparr>)
      else Inl ''Attempted to insert invalid transaction to the pool.'')"
  by (induction txs arbitrary: p) (auto simp: vp_push_back_def)

text \<open>\<open>remove\<close> takes exactly the first transaction that matches out of the pool and keeps the
  order of the others; without a match it leaves the pool alone. It never panics.\<close>

theorem pool_remove_spec:
  "pool_remove vp_get vp_remove_at f p =
     (case dropWhile (\<lambda>tx. \<not> f tx) (vp_all p) of
        [] \<Rightarrow> Inr (None, p)
      | tx # rest \<Rightarrow> Inr (Some tx, vp_from (takeWhile (\<lambda>tx. \<not> f tx) (vp_all p) @ rest)))"
proof (cases "dropWhile (\<lambda>tx. \<not> f tx) (vp_all p)")
  case Nil
  then have "\<forall>x\<in>set (vp_all p). \<not> f x" by simp
  then show ?thesis
    using vec.remove_none[of p f] by (simp add: Nil)
next
  case (Cons tx rest)
  then have split: "vp_all p = takeWhile (\<lambda>tx. \<not> f tx) (vp_all p) @ tx # rest"
    by (metis takeWhile_dropWhile_id)
  have "f tx"
    using Cons hd_dropWhile[of "\<lambda>tx. \<not> f tx" "vp_all p"] by simp
  from vec.remove_first[of p "takeWhile (\<lambda>tx. \<not> f tx) (vp_all p)" tx rest f, OF split this]
  obtain p' where p': "pool_remove vp_get vp_remove_at f p = Inr (Some tx, p')"
    "vp_all p' = takeWhile (\<lambda>tx. \<not> f tx) (vp_all p) @ rest"
    using set_takeWhileD by fastforce
  then have "p' = vp_from (takeWhile (\<lambda>tx. \<not> f tx) (vp_all p) @ rest)"
    by (cases p') (simp add: vp_all_def vp_from_def)
  with p' Cons show ?thesis by simp
qed

end
