(* ===== verification/Generators.thy ===== *)
theory Generators
  imports Crypto Executor Pool
begin

text \<open>
  The generators of transactions (\<open>transaction_generator\<close> in \<open>executor/src/types.rs\<close>) and the data sets
  of the benchmarks (\<open>benchmarks/src/datasets.rs\<close>). What the random number generators return is an
  argument: a function from the number of the draw to its outcome.
\<close>

section \<open>Random choices\<close>

text \<open>\<open>SliceRandom::choose\<close> with the number it draws, and \<open>choose_multiple\<close> with the positions it
  draws: it returns the elements at different positions, at most \<open>amount\<close> of them.\<close>

definition choose_from :: "nat \<Rightarrow> 'a list \<Rightarrow> 'a option" where
  "choose_from r xs = (if xs = [] then None else Some (xs ! (r mod length xs)))"

definition choose_multiple :: "nat \<Rightarrow> nat list \<Rightarrow> 'a list \<Rightarrow> 'a list" where
  "choose_multiple amount positions xs =
     map ((!) xs) (take amount (filter (\<lambda>i. i < length xs) (remdups positions)))"

definition unwrap_none :: string where
  "unwrap_none = ''called `Option::unwrap()` on a `None` value''"

text \<open>\<open>*\<close> with and without overflow checks.\<close>

definition u128_mul :: "bool \<Rightarrow> u128 \<Rightarrow> u128 \<Rightarrow> u128 panicking" where
  "u128_mul checks a b =
     (if checks \<and> 2 ^ 128 \<le> unat a * unat b then Inl ''attempt to multiply with overflow'' else Inr (a * b))"

section \<open>Generators of transactions\<close>

definition build_transfer ::
  "('p, 'k, 'z) key_env_scheme \<Rightarrow> transaction_id \<Rightarrow> 'k key_pair \<Rightarrow> 'p \<Rightarrow> 'p transaction" where
  "build_transfer E i origin to = signed_tx E i (BalancesCall (Transfer to 10)) origin"

definition endow_account ::
  "('p, 'z) balances_env_scheme \<Rightarrow> 's module_runtime \<Rightarrow> 'p \<Rightarrow> balance \<Rightarrow> ('s, unit, unit) comp" where
  "endow_account E R who amount =
     expectC ''called `Result::unwrap()` on an `Err` value'' (map_write R (BalanceOf E) who (ab_from amount))"

definition random_transfers ::
  "('p, 'k, 'z) key_env_scheme \<Rightarrow> (nat \<Rightarrow> 'k key_pair \<times> 'k key_pair) \<Rightarrow> nat
     \<Rightarrow> ('p transaction \<times> 'p \<times> 'p) list" where
  "random_transfers E random count = map (\<lambda>c. case random c of (sender, recipient) \<Rightarrow>
     (build_transfer E (of_nat c) sender (pair_public E recipient), pair_public E sender,
      pair_public E recipient)) [0..<count]"

definition simple_alice_bob_dave :: "('p, 'k, 'z) key_env_scheme \<Rightarrow> 'p transaction list panicking" where
  "simple_alice_bob_dave E = (case (alice E, bob E, dave E) of
     (Inr a, Inr b, Inr d) \<Rightarrow>
       Inr [build_transfer E 1 a (pair_public E b), build_transfer E 2 a (pair_public E d)]
   | (Inr _, Inr _, Inl msg) \<Rightarrow> Inl msg | (Inr _, Inl msg, _) \<Rightarrow> Inl msg | (Inl msg, _, _) \<Rightarrow> Inl msg)"

text \<open>The transfers of \<open>bank\<close>; \<open>choices i\<close> are the two numbers drawn for the \<open>i\<close>-th.\<close>

fun bank_transfers ::
  "('p, 'k, 'z) key_env_scheme \<Rightarrow> 'k key_pair list \<Rightarrow> (nat \<Rightarrow> nat \<times> nat) \<Rightarrow> balance \<Rightarrow> nat list
     \<Rightarrow> 'p transaction list panicking" where
  "bank_transfers E accounts choices amount [] = Inr []"
| "bank_transfers E accounts choices amount (i # is) =
     (case choose_from (fst (choices i)) accounts of None \<Rightarrow> Inl unwrap_none
      | Some origin \<Rightarrow> (case choose_from (snd (choices i)) accounts of None \<Rightarrow> Inl unwrap_none
      | Some to \<Rightarrow> (case bank_transfers E accounts choices amount is of Inl msg \<Rightarrow> Inl msg
      | Inr txs \<Rightarrow>
          Inr (signed_tx E (of_nat i) (BalancesCall (Transfer (pair_public E to) amount)) origin # txs))))"

definition bank ::
  "('p, 'k, 'z) key_env_scheme \<Rightarrow> (nat \<Rightarrow> 'k key_pair) \<Rightarrow> (nat \<Rightarrow> nat \<times> nat) \<Rightarrow> nat \<Rightarrow> nat \<Rightarrow> balance
     \<Rightarrow> ('p transaction list \<times> 'p list) panicking" where
  "bank E random choices members transfers amount =
     (let accounts = map random [0..<members]
      in case bank_transfers E accounts choices amount [0..<transfers] of Inl msg \<Rightarrow> Inl msg
         | Inr txs \<Rightarrow> Inr (txs, map (pair_public E) accounts))"

section \<open>Data sets\<close>

definition millionaires_playground ::
  "('p, 'k, 'z) key_env_scheme \<Rightarrow> 's module_runtime \<Rightarrow> (nat \<Rightarrow> 'k key_pair) \<Rightarrow> (nat \<Rightarrow> nat \<times> nat)
     \<Rightarrow> nat \<Rightarrow> nat \<Rightarrow> ('s, 'p transaction list, unit) comp" where
  "millionaires_playground E R random choices members transfers =
     bindC (liftP (bank E random choices members transfers 1000)) (\<lambda>(transactions, accounts).
     bindC (mapC (\<lambda>acc. endow_account E R acc 100000000000) accounts) (\<lambda>_.
     ret transactions))"

definition middle_class_playground ::
  "('p, 'k, 'z) key_env_scheme \<Rightarrow> 's module_runtime \<Rightarrow> (nat \<Rightarrow> 'k key_pair) \<Rightarrow> (nat \<Rightarrow> nat \<times> nat)
     \<Rightarrow> nat \<Rightarrow> nat \<Rightarrow> balance \<Rightarrow> nat \<Rightarrow> ('s, 'p transaction list, unit) comp" where
  "middle_class_playground E R random choices members transfers transfer_amount lucky_members =
     (if \<not> lucky_members \<le> members then panic ''assertion failed: lucky_members <= members''
      else
     bindC (liftP (bank E random choices members transfers transfer_amount)) (\<lambda>(transactions, accounts).
     bindC (mapC (\<lambda>(idx, acc).
         if idx < lucky_members
         then bindC (liftP (u128_mul (debug_build E) transfer_amount 1000000)) (endow_account E R acc)
         else endow_account E R acc (transfer_amount div 2)) (enumerate 0 accounts)) (\<lambda>_.
     ret transactions)))"

text \<open>
  The draws of \<open>world_of_stakers\<close>: the stash and controller of every staker (validators first), the
  ids of their two transactions, the votes of the nominators; and for every random transaction the
  byte that selects its kind, the account, its id and, for a new controller, the key pair.
\<close>

record 'k draws =
  dr_pairs :: "nat \<Rightarrow> 'k key_pair \<times> 'k key_pair"
  dr_ids :: "nat \<Rightarrow> transaction_id \<times> transaction_id"
  dr_votes :: "nat \<Rightarrow> nat list"
  dr_random :: "nat \<Rightarrow> u8 \<times> nat \<times> transaction_id \<times> 'k key_pair"

definition validator_txs ::
  "('p, 'k, 'z) key_env_scheme \<Rightarrow> transaction_id \<times> transaction_id \<Rightarrow> 'k key_pair \<times> 'k key_pair
     \<Rightarrow> 'p transaction list" where
  "validator_txs E ids pair = (case (ids, pair) of ((id1, id2), (stash, ctrl)) \<Rightarrow>
     [signed_tx E id1 (StakingCall (TxBond 1000000 (pair_public E ctrl))) stash,
      signed_tx E id2 (StakingCall TxValidate) ctrl])"

definition nominator_txs ::
  "('p, 'k, 'z) key_env_scheme \<Rightarrow> transaction_id \<times> transaction_id \<Rightarrow> 'p list
     \<Rightarrow> 'k key_pair \<times> 'k key_pair \<Rightarrow> 'p transaction list" where
  "nominator_txs E ids votes pair = (case (ids, pair) of ((id1, id2), (stash, ctrl)) \<Rightarrow>
     [signed_tx E id1 (StakingCall (TxBond 1000000 (pair_public E ctrl))) stash,
      signed_tx E id2 (StakingCall (TxNominate votes)) ctrl])"

definition random_staking_tx ::
  "('p, 'k, 'z) key_env_scheme \<Rightarrow> ('k key_pair \<times> 'k key_pair) list
     \<Rightarrow> u8 \<times> nat \<times> transaction_id \<times> 'k key_pair \<Rightarrow> 'p transaction panicking" where
  "random_staking_tx E all_accounts draw = (case draw of (byte, r, i, fresh_ctrl) \<Rightarrow>
     (case choose_from r all_accounts of None \<Rightarrow> Inl unwrap_none
      | Some (stash, ctrl) \<Rightarrow> Inr (
          if byte mod 4 = 0 then signed_tx E i (StakingCall (TxUnbond (1000000 div 2))) stash
          else if byte mod 4 = 1 then signed_tx E i (StakingCall TxChill) ctrl
          else if byte mod 4 = 2 then signed_tx E i (StakingCall (TxBondExtra 1000000)) stash
          else signed_tx E i (StakingCall (TxSetController (pair_public E fresh_ctrl))) stash)))"

fun random_staking_txs ::
  "('p, 'k, 'z) key_env_scheme \<Rightarrow> ('k key_pair \<times> 'k key_pair) list
     \<Rightarrow> (u8 \<times> nat \<times> transaction_id \<times> 'k key_pair) list \<Rightarrow> 'p transaction list panicking" where
  "random_staking_txs E all_accounts [] = Inr []"
| "random_staking_txs E all_accounts (d # ds) = (case random_staking_tx E all_accounts d of
     Inl msg \<Rightarrow> Inl msg
   | Inr tx \<Rightarrow> (case random_staking_txs E all_accounts ds of Inl msg \<Rightarrow> Inl msg | Inr txs \<Rightarrow> Inr (tx # txs)))"

definition world_of_stakers ::
  "('p, 'k, 'z) key_env_scheme \<Rightarrow> 's module_runtime \<Rightarrow> 'k draws \<Rightarrow> nat \<Rightarrow> nat \<Rightarrow> nat
     \<Rightarrow> ('s, 'p transaction list, unit) comp" where
  "world_of_stakers E R dr validators nominators random =
     (let vs = map (dr_pairs dr) [0..<validators];
          ns = map (dr_pairs dr) [validators..<validators + nominators];
          bonds = concat (map (\<lambda>i. validator_txs E (dr_ids dr i) (dr_pairs dr i)) [0..<validators]);
          votes = (\<lambda>i. map (\<lambda>(s, _). pair_public E s) (choose_multiple 4 (dr_votes dr i) vs));
          noms = concat (map (\<lambda>i. nominator_txs E (dr_ids dr i) (votes i) (dr_pairs dr i))
                   [validators..<validators + nominators])
      in bindC (mapC (\<lambda>(stash, ctrl).
             bindC (endow_account E R (pair_public E stash) 100000000000) (\<lambda>_.
               endow_account E R (pair_public E ctrl) 100000000000)) (vs @ ns)) (\<lambda>_.
         bindC (liftP (random_staking_txs E (vs @ ns) (map (dr_random dr) [0..<random]))) (\<lambda>txs.
         ret (bonds @ noms @ txs))))"

section \<open>What is generated\<close>

lemma choose_from_member: "xs \<noteq> [] \<Longrightarrow> \<exists>x\<in>set xs. choose_from r xs = Some x"
  by (auto simp: choose_from_def intro!: bexI[of _ "xs ! (r mod length xs)"])

lemma choose_from_None: "choose_from r xs = None \<longleftrightarrow> xs = []"
  by (simp add: choose_from_def)

text \<open>Transfers between members, with the numbers of the list as their ids.\<close>

definition transfers_between ::
  "('p, 'k, 'z) key_env_scheme \<Rightarrow> 'k key_pair list \<Rightarrow> balance \<Rightarrow> 'p transaction list \<Rightarrow> bool" where
  "transfers_between E accounts amount txs \<longleftrightarrow> (\<forall>tx\<in>set txs. \<exists>i. \<exists>origin\<in>set accounts. \<exists>to\<in>set accounts.
     tx = signed_tx E i (BalancesCall (Transfer (pair_public E to) amount)) origin)"

lemma bank_transfers_run:
  assumes "accounts \<noteq> []"
  shows "\<exists>txs. bank_transfers E accounts choices amount is = Inr txs
    \<and> map tx_id txs = map of_nat is \<and> transfers_between E accounts amount txs"
proof (induction "is")
  case Nil
  then show ?case by (simp add: transfers_between_def)
next
  case (Cons i "is")
  obtain origin to where "origin \<in> set accounts" "choose_from (fst (choices i)) accounts = Some origin"
    "to \<in> set accounts" "choose_from (snd (choices i)) accounts = Some to"
    using choose_from_member[OF assms] by metis
  moreover obtain txs where "bank_transfers E accounts choices amount is = Inr txs"
    "map tx_id txs = map of_nat is" "transfers_between E accounts amount txs"
    using Cons.IH by blast
  ultimately show ?case
    unfolding transfers_between_def by (simp del: bex_simps) blast
qed

lemma bank_run:
  assumes "0 < members"
  shows "\<exists>txs. bank E random choices members transfers amount
        = Inr (txs, map (pair_public E) (map random [0..<members]))
    \<and> map tx_id txs = map of_nat [0..<transfers]
    \<and> transfers_between E (map random [0..<members]) amount txs"
  using bank_transfers_run[of "map random [0..<members]" E choices amount "[0..<transfers]"] assms
  by (auto simp: bank_def Let_def)

lemma numbered_ids: "n \<le> 2 ^ 32 \<Longrightarrow> distinct (map of_nat [0..<n] :: transaction_id list)"
  by (auto simp: distinct_map inj_on_def word_of_nat_eq_iff take_bit_nat_eq_self)

lemma transfers_between_valid:
  assumes "keys_ok E" "\<forall>p\<in>set accounts. matching_pair E p" "transfers_between E accounts amount txs" "tx \<in> set txs"
  shows "tx_verify E tx" "tx_exec_status tx = Initial" "tx_tag tx = NotExecuted"
    "\<not> names_default_controller E (tx_function tx)" "\<exists>to\<in>set accounts. \<exists>origin\<in>set accounts.
      tx_function tx = BalancesCall (Transfer (pair_public E to) amount) \<and> fst (tx_signature tx) = pair_public E origin"
proof -
  obtain i origin to where tx: "origin \<in> set accounts" "to \<in> set accounts"
    "tx = signed_tx E i (BalancesCall (Transfer (pair_public E to) amount)) origin"
    using assms(3,4) by (auto simp: transfers_between_def)
  then show "tx_verify E tx" using signed_tx_verifies[OF assms(1)] assms(2) by blast
  show "tx_exec_status tx = Initial" "tx_tag tx = NotExecuted" "\<not> names_default_controller E (tx_function tx)"
    by (simp_all add: tx(3))
  show "\<exists>to\<in>set accounts. \<exists>origin\<in>set accounts.
      tx_function tx = BalancesCall (Transfer (pair_public E to) amount) \<and> fst (tx_signature tx) = pair_public E origin"
    by (rule bexI[OF bexI[OF _ tx(1)] tx(2)]) (simp add: tx(3))
qed

lemma push_batch_valid:
  "\<forall>tx\<in>set txs. verify tx \<Longrightarrow> vp_push_batch verify txs p = Inr (p\<lparr>inner := inner p @ txs\<rparr>)"
  by (induction txs arbitrary: p) (simp_all add: vp_push_back_def)

section \<open>Endowed accounts\<close>

definition endowed ::
  "('p, 'z) balances_env_scheme \<Rightarrow> ('p \<times> balance) list \<Rightarrow> runtime_state \<Rightarrow> runtime_state" where
  "endowed E = fold (\<lambda>(who, amount). unsafe_insert_genesis_value (key_for (BalanceOf E) who)
     (StateValue (sm_enc (BalanceOf E) (ab_new_free amount))))"

definition endowed_balances :: "('p \<times> balance) list \<Rightarrow> ('p \<Rightarrow> account_balance) \<Rightarrow> 'p \<Rightarrow> account_balance" where
  "endowed_balances = fold (\<lambda>(who, amount) bal. bal(who := ab_new_free amount))"

lemma endow_account_SR: "endow_account E SR who amount s = (Ok (), s\<lparr>sr_state := endowed E [(who, amount)] (sr_state s)\<rparr>)"
  by (simp add: endow_account_def map_write_def sr_write_def comp_simps endowed_def ab_from_new)

lemma mapC_endow_SR:
  assumes "\<And>x s. x \<in> set xs \<Longrightarrow> f x s = (Ok (), s\<lparr>sr_state := endowed E (g x) (sr_state s)\<rparr>)"
  shows "mapC f xs s = (Ok (), s\<lparr>sr_state := endowed E (concat (map g xs)) (sr_state s)\<rparr>)"
  using assms by (induction xs arbitrary: s) (simp_all add: comp_simps endowed_def)

lemma funds_endowed: 
  "finite A \<Longrightarrow> funds A (endowed_balances xs bal) \<le> funds A bal + (\<Sum>x\<leftarrow>xs. unat (snd x))"
proof (induction xs arbitrary: bal)
  case (Cons x xs)
  obtain who amount where x: "x = (who, amount)" by fastforce
  have "funds A (bal(who := ab_new_free amount)) \<le> funds A bal + unat amount"
  proof (cases "who \<in> A")
    case True
    from funds_update[OF Cons.prems this, of bal "ab_new_free amount"] show ?thesis
      by (simp add: worth_def ab_new_free_def)
  next
    case False
    then have "funds A (bal(who := ab_new_free amount)) = funds A bal"
      unfolding funds_def by (intro sum.cong) auto
    then show ?thesis by simp
  qed
  with Cons.IH[OF Cons.prems, of "bal(who := ab_new_free amount)"]
  have "funds A (endowed_balances xs (bal(who := ab_new_free amount)))
      \<le> funds A bal + (unat amount + (\<Sum>x\<leftarrow>xs. unat (snd x)))" by linarith
  then show ?case by (simp add: endowed_balances_def x)
qed (simp add: endowed_balances_def)

lemma endowed_chain:
  assumes E: "staking_ok E"
  shows "chain_readable E (ts_view default_value m) \<Longrightarrow>
      chain_readable E (ts_view default_value (endowed E xs m))
    \<and> chain_of E (ts_view default_value (endowed E xs m))
      = (chain_of E (ts_view default_value m))\<lparr>ch_balances :=
           endowed_balances xs (ch_balances (chain_of E (ts_view default_value m)))\<rparr>"
proof (induction xs arbitrary: m)
  case (Cons x xs)
  obtain who amount where x: "x = (who, amount)" by fastforce
  let ?k = "key_for (BalanceOf E) who" and ?v = "StateValue (sm_enc (BalanceOf E) (ab_new_free amount))"
  let ?m = "unsafe_insert_genesis_value ?k ?v m"
  have view: "ts_view default_value ?m = (ts_view default_value m)(?k := ?v)"
    by (simp add: unsafe_insert_genesis_value_def ts_view_def fun_eq_iff)
  note w = chain_writes(1)[OF E, of "ts_view default_value m" who "ab_new_free amount"]
  have "chain_readable E (ts_view default_value ?m)"
    unfolding view by (rule readable_writes(1)[OF E Cons.prems])
  from Cons.IH[OF this, unfolded view w] show ?case
    unfolding endowed_def endowed_balances_def x by (simp add: fun_upd_def)
qed (simp add: endowed_def endowed_balances_def)

lemma endowed_untainted: "\<forall>k. ts_owner m k = None \<Longrightarrow> \<forall>k. ts_owner (endowed E xs m) k = None"
proof (induction xs arbitrary: m)
  case (Cons x xs)
  have "\<forall>k'. ts_owner (unsafe_insert_genesis_value k v m) k' = None" for k v
    using Cons.prems by (simp add: unsafe_insert_genesis_value_def state_simps)
  from Cons.IH[OF this] show ?case by (simp add: endowed_def split: prod.split)
qed (simp add: endowed_def)

lemma endowed_keys: "fmdom' (endowed E xs m) = fmdom' m \<union> (key_for (BalanceOf E) \<circ> fst) ` set xs"
proof (induction xs arbitrary: m)
  case (Cons x xs)
  then show ?case by (auto simp: endowed_def unsafe_insert_genesis_value_def split: prod.split)
qed (simp add: endowed_def)

end
