(* ===== verification/Resumption.thy ===== *)
theory Resumption
  imports Dispatch
begin

text \<open>
  Dispatches that are interrupted. The code of a call is generic in its runtime, so how far a
  running call has got can be said by the accesses it has made and the answers it has received: run
  on the runtime \<open>HR\<close>, which takes the answers from such a history, the call either returns or stops
  at the access it makes next. \<open>traced\<close> says that a call has a history on every runtime, and that
  the history determines it. The rules follow the combinators, so they apply to all calls.
\<close>

section \<open>Accesses and histories\<close>

datatype access_op = OpRead state_key | OpWrite state_key state_value

datatype reply = ReadReply "(state_value, thread_id) rs" | WriteReply "(unit, thread_id) rs"

fun op_key :: "access_op \<Rightarrow> state_key" where
  "op_key (OpRead k) = k"
| "op_key (OpWrite k v) = k"

fun refused :: "reply \<Rightarrow> bool" where
  "refused (ReadReply r) \<longleftrightarrow> \<not> is_Ok r"
| "refused (WriteReply r) \<longleftrightarrow> \<not> is_Ok r"

type_synonym history = "(access_op \<times> reply) list"

text \<open>The access a history stops at is the second component.\<close>

type_synonym script = "history \<times> access_op option"

fun hr_read :: "state_key \<Rightarrow> (script, state_value, thread_id) comp" where
  "hr_read k ((OpRead k', ReadReply r) # h, q) =
     (if k' = k then (r, (h, q)) else (Panic ''waiting'', ((OpRead k', ReadReply r) # h, Some (OpRead k))))"
| "hr_read k (h, q) = (Panic ''waiting'', (h, Some (OpRead k)))"

fun hr_write :: "state_key \<Rightarrow> state_value \<Rightarrow> (script, unit, thread_id) comp" where
  "hr_write k v ((OpWrite k' v', WriteReply r) # h, q) =
     (if k' = k \<and> v' = v then (r, (h, q))
      else (Panic ''waiting'', ((OpWrite k' v', WriteReply r) # h, Some (OpWrite k v))))"
| "hr_write k v (h, q) = (Panic ''waiting'', (h, Some (OpWrite k v)))"

definition HR :: "script module_runtime" where
  "HR = \<lparr>mr_limited = True, mr_thread_id = (\<lambda>_. 0), mr_read = hr_read, mr_write = hr_write,
         mr_mutate = (\<lambda>k f. bindC (hr_read k) (\<lambda>old. bindC (liftP (f old)) (hr_write k)))\<rparr>"

lemma HR_sel [simp]: "mr_read HR = hr_read" "mr_write HR = hr_write"
  by (simp_all add: HR_def)

text \<open>One access on a runtime, and all accesses of a history, which must be answered as recorded.\<close>

fun perform :: "'s module_runtime \<Rightarrow> access_op \<Rightarrow> 's \<Rightarrow> reply \<times> 's" where
  "perform R (OpRead k) s = map_prod ReadReply id (mr_read R k s)"
| "perform R (OpWrite k v) s = map_prod WriteReply id (mr_write R k v s)"

fun performs :: "'s module_runtime \<Rightarrow> history \<Rightarrow> 's \<Rightarrow> 's option" where
  "performs R [] s = Some s"
| "performs R ((x, rep) # h) s = (case perform R x s of
     (rep', s') \<Rightarrow> if rep' = rep then performs R h s' else None)"

lemma performs_append: "performs R (h @ h') s = Option.bind (performs R h s) (performs R h')"
  by (induction R h s rule: performs.induct) (auto split: prod.split)

text \<open>How a call goes on after a history.\<close>

datatype 'r resumed = Asks access_op | Returns 'r | Stuck

definition resume :: "(script, 'a, 'e) comp \<Rightarrow> history \<Rightarrow> ('a, 'e) rs resumed" where
  "resume c h = (case c (h, None) of
     (r, ([], None)) \<Rightarrow> Returns r | (r, ([], Some x)) \<Rightarrow> Asks x | _ \<Rightarrow> Stuck)"

section \<open>Calls and their histories\<close>

text \<open>
  Run from \<open>s\<close>, the call makes the accesses \<open>u\<close> and nothing else; on \<open>HR\<close> it returns the same after
  \<open>u\<close>, and stops at the next access after every part of \<open>u\<close>. It makes at most \<open>n\<close> accesses, and if
  one is refused, it returns an error of \<open>T\<close> or panics.
\<close>

definition trace ::
  "'s module_runtime \<Rightarrow> ('e \<Rightarrow> bool) \<Rightarrow> nat \<Rightarrow> (script, 'a, 'e) comp \<Rightarrow> ('s, 'a, 'e) comp \<Rightarrow> 's \<Rightarrow> history \<Rightarrow> bool"
  where
  "trace R T n h c s u \<longleftrightarrow>
     performs R u s = Some (snd (c s)) \<and> length u \<le> n
   \<and> ((\<exists>x\<in>set u. refused (snd x)) \<longrightarrow> is_Panic (fst (c s)) \<or> (\<exists>e. fst (c s) = Err e \<and> T e))
   \<and> (\<forall>z. h (u @ z, None) = (fst (c s), (z, None)))
   \<and> (\<forall>p x rep rest z. u = p @ (x, rep) # rest \<longrightarrow> z = [] \<or> fst (hd z) \<noteq> x \<longrightarrow>
        (\<exists>msg. h (p @ z, None) = (Panic msg, (z, Some x))))"

definition traced ::
  "'s module_runtime \<Rightarrow> ('e \<Rightarrow> bool) \<Rightarrow> nat \<Rightarrow> (script, 'a, 'e) comp \<Rightarrow> ('s, 'a, 'e) comp \<Rightarrow> bool" where
  "traced R T n h c \<longleftrightarrow> (\<forall>s. \<exists>u. trace R T n h c s u)"

lemma tracedI: "(\<And>s. \<exists>u. trace R T n h c s u) \<Longrightarrow> traced R T n h c"
  by (simp add: traced_def)

lemma traceD:
  assumes "trace R T n h c s u"
  shows "performs R u s = Some (snd (c s))" "length u \<le> n"
    "x \<in> set u \<Longrightarrow> refused (snd x) \<Longrightarrow> is_Panic (fst (c s)) \<or> (\<exists>e. fst (c s) = Err e \<and> T e)"
    "h (u @ z, None) = (fst (c s), (z, None))"
    "u = p @ (y, rep) # rest \<Longrightarrow> z = [] \<or> fst (hd z) \<noteq> y \<Longrightarrow> \<exists>msg. h (p @ z, None) = (Panic msg, (z, Some y))"
  using assms unfolding trace_def by blast+

lemma trace_mono: "trace R T n h c s u \<Longrightarrow> n \<le> m \<Longrightarrow> trace R T m h c s u"
  by (auto simp: trace_def)

lemma traced_pure:
  "traced R T 0 (ret x) (ret x)" "traced R T 0 (throw e) (throw e)" "traced R T 0 (panic p) (panic p)"
  "traced R T 0 (liftR r) (liftR r)" "traced R T 0 (liftP y) (liftP y)"
  by (rule tracedI, rule exI[of _ "[]"], simp add: trace_def liftP_def split: sum.split)+

lemma traced_read: "traced R (\<lambda>_. True) 1 (hr_read k) (mr_read R k)"
proof (rule tracedI)
  fix s
  obtain r s' where r: "mr_read R k s = (r, s')" by fastforce
  let ?u = "[(OpRead k, ReadReply r)]"
  have "\<exists>msg. hr_read k (z, None) = (Panic msg, (z, Some (OpRead k)))" if "z = [] \<or> fst (hd z) \<noteq> OpRead k" for z
    using that by (cases "(k, (z, None :: access_op option))" rule: hr_read.cases) auto
  moreover have "\<not> is_Ok r \<Longrightarrow> is_Panic r \<or> (\<exists>e. r = Err e)" by (cases r) auto
  ultimately have "trace R (\<lambda>_. True) 1 (hr_read k) (mr_read R k) s ?u"
    using r by (auto simp: trace_def Cons_eq_append_conv)
  then show "\<exists>u. trace R (\<lambda>_. True) 1 (hr_read k) (mr_read R k) s u" ..
qed

lemma traced_write: "traced R (\<lambda>_. True) 1 (hr_write k v) (mr_write R k v)"
proof (rule tracedI)
  fix s
  obtain r s' where r: "mr_write R k v s = (r, s')" by fastforce
  let ?u = "[(OpWrite k v, WriteReply r)]"
  have "\<exists>msg. hr_write k v (z, None) = (Panic msg, (z, Some (OpWrite k v)))"
    if "z = [] \<or> fst (hd z) \<noteq> OpWrite k v" for z
    using that by (cases "(k, v, (z, None :: access_op option))" rule: hr_write.cases) auto
  moreover have "\<not> is_Ok r \<Longrightarrow> is_Panic r \<or> (\<exists>e. r = Err e)" by (cases r) auto
  ultimately have "trace R (\<lambda>_. True) 1 (hr_write k v) (mr_write R k v) s ?u"
    using r by (auto simp: trace_def Cons_eq_append_conv)
  then show "\<exists>u. trace R (\<lambda>_. True) 1 (hr_write k v) (mr_write R k v) s u" ..
qed

text \<open>Code that looks at a result but makes no access of its own keeps the history.\<close>

lemma trace_post:
  assumes u: "trace R T n h c s u" and c': "c' s = (r', snd (c s))"
    and hr: "\<And>t t'. h t = (fst (c s), t') \<Longrightarrow> h' t = (r', t')"
    and hp: "\<And>t t' msg. h t = (Panic msg, t') \<Longrightarrow> h' t = (Panic msg, t')"
    and bad: "is_Panic (fst (c s)) \<or> (\<exists>e. fst (c s) = Err e \<and> T e) \<Longrightarrow>
      is_Panic r' \<or> (\<exists>e. r' = Err e \<and> T' e)"
  shows "trace R T' n h' c' s u"
  unfolding trace_def
proof (intro conjI allI impI)
  note d = traceD[OF u]
  show "performs R u s = Some (snd (c' s))" "length u \<le> n" using d(1,2) c' by simp_all
  show "is_Panic (fst (c' s)) \<or> (\<exists>e. fst (c' s) = Err e \<and> T' e)" if "\<exists>x\<in>set u. refused (snd x)"
    using that d(3) bad c' by auto
  show "h' (u @ z, None) = (fst (c' s), (z, None))" for z
    using hr[OF d(4)] c' by simp
  fix p y rep rest and z :: history
  assume "u = p @ (y, rep) # rest" "z = [] \<or> fst (hd z) \<noteq> y"
  then obtain msg where "h (p @ z, None) = (Panic msg, (z, Some y))" using d(5) by blast
  from hp[OF this] show "\<exists>msg. h' (p @ z, None) = (Panic msg, (z, Some y))" by blast
qed

lemma traced_bind:
  assumes c: "traced R T n h c" and f: "\<And>x. traced R T m (g x) (f x)"
  shows "traced R T (n + m) (bindC h g) (bindC c f)"
proof (rule tracedI)
  fix s
  obtain u where u: "trace R T n h c s u" using c unfolding traced_def by blast
  obtain q s1 where q: "c s = (q, s1)" by fastforce
  note d = traceD[OF u, unfolded q fst_conv snd_conv]
  show "\<exists>u. trace R T (n + m) (bindC h g) (bindC c f) s u"
  proof (cases q)
    case (Ok x)
    obtain u' where u': "trace R T m (g x) (f x) s1 u'" using f unfolding traced_def by blast
    note d' = traceD[OF u']
    have run: "bindC c f s = f x s1" using q Ok by (simp add: bindC_def)
    have "trace R T (n + m) (bindC h g) (bindC c f) s (u @ u')"
      unfolding trace_def run
    proof (intro conjI allI impI)
      show "performs R (u @ u') s = Some (snd (f x s1))"
        using d(1) d'(1) by (simp add: performs_append)
      show "length (u @ u') \<le> n + m" using d(2) d'(2) by simp
      show "is_Panic (fst (f x s1)) \<or> (\<exists>e. fst (f x s1) = Err e \<and> T e)" if "\<exists>y\<in>set (u @ u'). refused (snd y)"
        using that d(3) d'(3) Ok by auto
      show "bindC h g ((u @ u') @ z, None) = (fst (f x s1), (z, None))" for z
        using d(4)[of "u' @ z"] d'(4)[of z] Ok by (simp add: bindC_def)
      fix p y rep rest and z :: history
      assume split: "u @ u' = p @ (y, rep) # rest" and z: "z = [] \<or> fst (hd z) \<noteq> y"
      show "\<exists>msg. bindC h g (p @ z, None) = (Panic msg, (z, Some y))"
      proof (cases "length u \<le> length p")
        case True
        define p' where "p' = drop (length u) p"
        have p: "p = u @ p'" "u' = p' @ (y, rep) # rest"
          using split True by (auto simp: append_eq_append_conv_if p'_def)
             (metis append_take_drop_id)
        from d'(5)[OF p(2) z] d(4)[of "p' @ z"] Ok show ?thesis
          by (auto simp: p(1) bindC_def)
      next
        case False
        then obtain rest' where "u = p @ (y, rep) # rest'"
          using split by (auto simp: append_eq_append_conv2 Cons_eq_append_conv neq_Nil_conv)
        from d(5)[OF this z] show ?thesis by (auto simp: bindC_def)
      qed
    qed
    then show ?thesis ..
  next
    case (Err e)
    have "trace R T n (bindC h g) (bindC c f) s u"
      by (rule trace_post[OF u]) (use q Err in \<open>auto simp: bindC_def\<close>)
    then show ?thesis using trace_mono[of R T n _ _ s u "n + m"] by auto
  next
    case (Panic p)
    have "trace R T n (bindC h g) (bindC c f) s u"
      by (rule trace_post[OF u]) (use q Panic in \<open>auto simp: bindC_def\<close>)
    then show ?thesis using trace_mono[of R T n _ _ s u "n + m"] by auto
  qed
qed

lemma traced_map_err:
  assumes c: "traced R T n h c" and g: "\<And>e. T e \<Longrightarrow> T' (g e)"
  shows "traced R T' n (map_err g h) (map_err g c)"
proof (rule tracedI)
  fix s
  obtain u where u: "trace R T n h c s u" using c unfolding traced_def by blast
  obtain q s1 where q: "c s = (q, s1)" by fastforce
  have "trace R T' n (map_err g h) (map_err g c) s u"
    by (rule trace_post[OF u, where r' = "fst (map_err g c s)"])
      (use q g in \<open>cases q; auto simp: map_err_def\<close>)+
  then show "\<exists>u. trace R T' n (map_err g h) (map_err g c) s u" ..
qed

lemma traced_expect:
  assumes c: "traced R T n h c"
  shows "traced R T' n (expectC msg h) (expectC msg c)"
proof (rule tracedI)
  fix s
  obtain u where u: "trace R T n h c s u" using c unfolding traced_def by blast
  obtain q s1 where q: "c s = (q, s1)" by fastforce
  have "trace R T' n (expectC msg h) (expectC msg c) s u"
    by (rule trace_post[OF u, where r' = "fst (expectC msg c s)"])
      (use q in \<open>cases q; auto simp: expectC_def\<close>)+
  then show "\<exists>u. trace R T' n (expectC msg h) (expectC msg c) s u" ..
qed

lemma traced_mono:
  assumes "traced R T n h c" "n \<le> m"
  shows "traced R T m h c"
proof (rule tracedI)
  fix s
  obtain u where "trace R T n h c s u" using assms(1) unfolding traced_def by blast
  from trace_mono[OF this assms(2)] show "\<exists>u. trace R T m h c s u" ..
qed

lemma traced_if:
  "traced R T n h1 c1 \<Longrightarrow> traced R T m h2 c2 \<Longrightarrow>
     traced R T (max n m) (if b then h1 else h2) (if b then c1 else c2)"
  using traced_mono[of R T n h1 c1 "max n m"] traced_mono[of R T m h2 c2 "max n m"] by simp

lemma traced_case_option:
  "traced R T n h0 c0 \<Longrightarrow> (\<And>x. traced R T m (h1 x) (c1 x)) \<Longrightarrow>
     traced R T (max n m) (case z of None \<Rightarrow> h0 | Some x \<Rightarrow> h1 x) (case z of None \<Rightarrow> c0 | Some x \<Rightarrow> c1 x)"
  using traced_mono[of R T n h0 c0 "max n m"] traced_mono[of R T m "h1 (the z)" "c1 (the z)" "max n m"]
  by (cases z) simp_all

section \<open>All calls have histories\<close>

lemma traced_maps:
  "traced R (\<lambda>_. True) 1 (map_read HR M k) (map_read R M k)"
  "traced R (\<lambda>_. True) 1 (map_write HR M k v) (map_write R M k v)"
  "traced R (\<lambda>_. True) 2 (map_mutate HR M k f) (map_mutate R M k f)"
  "traced R (\<lambda>_. True) 1 (map_clear HR M k) (map_clear R M k)"
  "traced R (\<lambda>_. True) 1 (map_exists HR M k) (map_exists R M k)"
proof -
  show rd: "traced R (\<lambda>_. True) 1 (map_read HR M k) (map_read R M k)"
    unfolding map_read_def HR_sel
    using traced_bind[OF traced_read traced_pure(5)] by (simp only: add_0_right)
  show wr: "traced R (\<lambda>_. True) 1 (map_write HR M k v) (map_write R M k v)" for v
    unfolding map_write_def HR_sel by (rule traced_write)
  show "traced R (\<lambda>_. True) 1 (map_clear HR M k) (map_clear R M k)"
    unfolding map_clear_def by (rule wr)
  show "traced R (\<lambda>_. True) 1 (map_exists HR M k) (map_exists R M k)"
    unfolding map_exists_def using traced_bind[OF rd traced_pure(1)] by (simp only: add_0_right)
  show "traced R (\<lambda>_. True) 2 (map_mutate HR M k f) (map_mutate R M k f)"
    unfolding map_mutate_def
    using traced_bind[OF rd traced_bind[OF traced_pure(5) wr]] by (simp add: numeral_2_eq_2)
qed

lemma traced_reported:
  "traced R (\<lambda>_. True) n h c \<Longrightarrow> traced R is_taint n (or_forward h) (or_forward c)"
  "traced R (\<lambda>_. True) n h c \<Longrightarrow> traced R is_taint n (or_orphan h) (or_orphan c)"
  unfolding or_forward_def or_orphan_def by (erule traced_map_err; simp)+

lemma traced_logic: "traced R T 0 (map_err g (liftR r)) (map_err g (liftR r))"
  by (rule traced_map_err[where T = "\<lambda>_. False", OF traced_pure(4)]) simp

lemmas traced_rules = traced_logic traced_reported traced_maps traced_expect[OF traced_maps(2)]
  traced_pure traced_if traced_case_option traced_bind

text \<open>No call makes more than five accesses.\<close>

definition max_accesses :: nat where
  "max_accesses = 5"

lemma traced_outer_dispatch:
  "traced R is_taint max_accesses (outer_dispatch E HR call origin) (outer_dispatch E R call origin)"
proof (cases call)
  case (BalancesCall inner)
  have "traced R is_taint max_accesses (transfer E HR origin dest val) (transfer E R origin dest val)" for dest val
    unfolding transfer_def by (rule traced_mono, (rule traced_rules)+) (simp add: max_accesses_def)
  with BalancesCall show ?thesis by (cases inner) simp
next
  case (StakingCall inner)
  have "traced R is_taint max_accesses (tx_bond E HR stash amount controller) (tx_bond E R stash amount controller)"
    "traced R is_taint max_accesses (tx_bond_extra E HR stash amount) (tx_bond_extra E R stash amount)"
    "traced R is_taint max_accesses (tx_unbond E HR stash amount) (tx_unbond E R stash amount)"
    "traced R is_taint max_accesses (tx_set_controller E HR stash controller) (tx_set_controller E R stash controller)"
    "traced R is_taint max_accesses (tx_validate E HR stash) (tx_validate E R stash)"
    "traced R is_taint max_accesses (tx_nominate E HR stash targets) (tx_nominate E R stash targets)"
    "traced R is_taint max_accesses (tx_chill E HR stash) (tx_chill E R stash)" for stash amount controller targets
    unfolding tx_bond_def tx_bond_extra_def tx_unbond_def tx_set_controller_def tx_validate_def
      tx_nominate_def tx_chill_def
    by (rule traced_mono, (rule traced_rules)+, simp add: max_accesses_def)+
  with StakingCall show ?thesis by (cases inner) simp_all
qed

section \<open>What a history determines\<close>

text \<open>Two histories that are answered alike from one state: one extends the other, or they part.\<close>

lemma performs_compare:
  "performs R h s = Some a \<Longrightarrow> performs R u s = Some b \<Longrightarrow>
     (\<exists>z. u = h @ z) \<or> (\<exists>z. h = u @ z)
   \<or> (\<exists>p x rx h' y ry u'. h = p @ (x, rx) # h' \<and> u = p @ (y, ry) # u' \<and> x \<noteq> y)"
proof (induction h arbitrary: s u)
  case (Cons xr h)
  obtain x r where xr: "xr = (x, r)" by fastforce
  show ?case
  proof (cases u)
    case (Cons yq u')
    obtain y q where yq: "yq = (y, q)" by fastforce
    show ?thesis
    proof (cases "x = y")
      case True
      obtain r' s1 where s1: "perform R x s = (r', s1)" by fastforce
      have h: "r = r'" "performs R h s1 = Some a" and u': "q = r'" "performs R u' s1 = Some b"
        using Cons.prems xr s1 True Cons yq by (auto split: if_splits)
      from Cons.IH[OF h(2) u'(2)] show ?thesis
      proof (elim disjE exE conjE)
        fix p x1 rx h1 y1 ry u1
        assume "h = p @ (x1, rx) # h1" "u' = p @ (y1, ry) # u1" "x1 \<noteq> y1"
        then have "xr # h = ((x, r) # p) @ (x1, rx) # h1 \<and> u = ((x, r) # p) @ (y1, ry) # u1 \<and> x1 \<noteq> y1"
          using xr yq Cons True h(1) u'(1) by simp
        then show ?thesis by blast
      qed (use xr yq Cons True h(1) u'(1) in auto)
    next
      case False
      then have "xr # h = [] @ (x, r) # h \<and> u = [] @ (y, q) # u' \<and> x \<noteq> y" using xr yq Cons by simp
      then show ?thesis by blast
    qed
  qed simp
qed simp

lemma trace_resume:
  assumes u: "trace R T n hc c s u"
  shows "resume hc u = Returns (fst (c s))"
    and "u = h @ (x, rep) # rest \<Longrightarrow> resume hc h = Asks x"
    and "z \<noteq> [] \<Longrightarrow> resume hc (u @ z) = Stuck"
    and "u = p @ (x, rep) # rest \<Longrightarrow> y \<noteq> x \<Longrightarrow> resume hc (p @ (y, q) # z) = Stuck"
proof -
  show "resume hc u = Returns (fst (c s))"
    using traceD(4)[OF u, of "[]"] by (simp add: resume_def)
  show "resume hc h = Asks x" if "u = h @ (x, rep) # rest"
    using traceD(5)[OF u that, of "[]"] by (auto simp: resume_def)
  show "resume hc (u @ z) = Stuck" if "z \<noteq> []"
    using traceD(4)[OF u, of z] that by (cases z) (simp_all add: resume_def)
  show "resume hc (p @ (y, q) # z) = Stuck" if "u = p @ (x, rep) # rest" "y \<noteq> x"
    using traceD(5)[OF u that(1), of "(y, q) # z"] that(2) by (auto simp: resume_def)
qed

text \<open>
  So a call that is not stuck after a history has made a part of its accesses: it returns if that
  is all of them, and asks for the next one otherwise.
\<close>

lemma resume_cases:
  assumes tr: "traced R T n hc c" and h: "performs R h s = Some s'" and live: "resume hc h \<noteq> Stuck"
  obtains (returns) "resume hc h = Returns (fst (c s))" "c s = (fst (c s), s')" "trace R T n hc c s h"
  | (asks) x rep rest where "resume hc h = Asks x" "trace R T n hc c s (h @ (x, rep) # rest)"
proof -
  obtain u where u: "trace R T n hc c s u" using tr unfolding traced_def by blast
  note pu = traceD(1)[OF u] and tres = trace_resume[OF u]
  from performs_compare[OF h pu] consider (pre) z where "u = h @ z" | (ext) z where "h = u @ z"
    | (part) p x rx h' y ry u' where "h = p @ (x, rx) # h'" "u = p @ (y, ry) # u'" "x \<noteq> y"
    by blast
  then show thesis
  proof cases
    case pre
    show thesis
    proof (cases z)
      case Nil
      with pre have "h = u" by simp
      then show thesis using returns tres(1) u pu h by (simp add: prod_eq_iff)
    next
      case (Cons y rest)
      then show thesis using asks[of "fst y" "snd y" rest] tres(2)[of h "fst y" "snd y" rest] pre u by simp
    qed
  next
    case ext
    then have "z = []" using tres(3) live by blast
    with ext have "h = u" by simp
    then show thesis using returns tres(1) u pu h by (simp add: prod_eq_iff)
  next
    case part
    then show thesis using tres(4)[OF part(2)] live by metis
  qed
qed

lemma resume_Returns:
  assumes "traced R T n hc c" "performs R h s = Some s'" "resume hc h = Returns r"
  shows "c s = (r, s')" "trace R T n hc c s h"
  by (rule resume_cases[OF assms(1,2)]; use assms(3) in force)+

lemma resume_Asks:
  assumes "traced R T n hc c" "performs R h s = Some s'" "resume hc h = Asks x"
  obtains rep rest where "trace R T n hc c s (h @ (x, rep) # rest)"
  by (rule resume_cases[OF assms(1,2)]) (use assms(3) that in auto)

text \<open>The next access, whatever its answer, does not get the call stuck.\<close>

lemma resume_step:
  assumes tr: "traced R T n hc c" and x: "resume hc h = Asks x"
    and h: "performs R (h @ [(x, rep)]) s = Some s'"
  shows "resume hc (h @ [(x, rep)]) \<noteq> Stuck" "length h < n"
proof -
  obtain s1 where s1: "performs R h s = Some s1" "performs R [(x, rep)] s1 = Some s'"
    using h by (auto simp: performs_append bind_eq_Some_conv)
  obtain rep' rest where u: "trace R T n hc c s (h @ (x, rep') # rest)"
    by (rule resume_Asks[OF tr s1(1) x])
  obtain s2 where "performs R (h @ (x, rep') # rest) s = Some s2" using traceD(1)[OF u] by blast
  then have "rep' = rep"
    using s1 by (auto simp: performs_append bind_eq_Some_conv split: prod.splits if_splits)
  then have u': "trace R T n hc c s ((h @ [(x, rep)]) @ rest)" using u by simp
  show "resume hc (h @ [(x, rep)]) \<noteq> Stuck"
  proof (cases rest)
    case Nil
    then show ?thesis using trace_resume(1)[OF u'] by simp
  next
    case (Cons y rest')
    then show ?thesis using trace_resume(2)[OF u', of _ "fst y" "snd y" rest'] by simp
  qed
  show "length h < n" using traceD(2)[OF u] by simp
qed

lemma resume_start:
  assumes "traced R T n hc c"
  shows "resume hc [] \<noteq> Stuck"
proof -
  obtain u where u: "trace R T n hc c undefined u" using assms unfolding traced_def by blast
  show ?thesis
  proof (cases u)
    case Nil
    then show ?thesis using trace_resume(1)[OF u] by simp
  next
    case (Cons y rest)
    then show ?thesis using trace_resume(2)[OF u, of "[]" "fst y" "snd y" rest] by simp
  qed
qed

lemma resume_length:
  assumes "traced R T n hc c" "performs R h s = Some s'" "resume hc h \<noteq> Stuck"
  shows "length h \<le> n"
  by (rule resume_cases[OF assms]; drule traceD(2); simp)

section \<open>Histories on values\<close>

text \<open>\<open>confined W h\<close>: all accesses of the history are within \<open>W\<close>.\<close>

definition confined :: "state_key set \<Rightarrow> history \<Rightarrow> bool" where
  "confined W h \<longleftrightarrow> (\<forall>x\<in>set h. op_key (fst x) \<in> W)"

lemma confined_simps [simp]:
  "confined W []" "confined W (x # h) \<longleftrightarrow> op_key (fst x) \<in> W \<and> confined W h"
  "confined W (h @ h') \<longleftrightarrow> confined W h \<and> confined W h'"
  by (auto simp: confined_def)

text \<open>Accesses that a runtime granted are answered alike by the values the call saw.\<close>

context module_runtime_laws
begin

lemma granted_access:
  assumes "inv s" "perform R x s = (rep, s')" "\<not> refused rep"
  shows "perform AR x (view s) = (rep, view s')" "inv s'" "mine s' = (mine s)(op_key x := True)"
proof -
  have "perform AR x (view s) = (rep, view s') \<and> inv s' \<and> mine s' = (mine s)(op_key x := True)"
  proof (cases x)
    case (OpRead k)
    then obtain r where r: "mr_read R k s = (r, s')" "rep = ReadReply r"
      using assms(2) by (cases "mr_read R k s") simp
    then obtain v where "r = Ok v" using assms(3) by (cases r) auto
    with r OpRead read_Ok[OF assms(1), of k v s'] show ?thesis by simp
  next
    case (OpWrite k v)
    then obtain r where r: "mr_write R k v s = (r, s')" "rep = WriteReply r"
      using assms(2) by (cases "mr_write R k v s") simp
    then have "r = Ok ()" using assms(3) by (cases r) auto
    with r OpWrite write_Ok[OF assms(1), of k v s'] show ?thesis by simp
  qed
  then show "perform AR x (view s) = (rep, view s')" "inv s'" "mine s' = (mine s)(op_key x := True)"
    by simp_all
qed

lemma granted_history:
  assumes "performs R h s = Some s'" "inv s" "\<forall>x\<in>set h. \<not> refused (snd x)"
  shows "performs AR h (view s) = Some (view s') \<and> inv s'
    \<and> (\<forall>k. mine s k \<longrightarrow> mine s' k) \<and> confined {k. mine s' k} h"
  using assms
proof (induction h arbitrary: s)
  case (Cons y h)
  obtain x rep where y: "y = (x, rep)" by fastforce
  obtain s1 where s1: "perform R x s = (rep, s1)" "performs R h s1 = Some s'"
    using Cons.prems(1) y by (auto split: prod.splits if_splits)
  have "\<not> refused rep" using Cons.prems(3) y by simp
  note g = granted_access[OF Cons.prems(2) s1(1) this]
  from Cons.IH[OF s1(2) g(2)] Cons.prems(3) g(1,3) y show ?case by simp
qed simp

end

text \<open>Confined accesses depend on values within \<open>W\<close> and change none elsewhere.\<close>

lemma performs_AR_local:
  assumes "performs AR h f = Some f'" "confined W h" "\<forall>k\<in>W. g k = f k"
  shows "\<exists>g'. performs AR h g = Some g' \<and> (\<forall>k. g' k = (if k \<in> W then f' k else g k))"
  using assms
proof (induction h arbitrary: f g)
  case (Cons y h)
  obtain x rep where y: "y = (x, rep)" by fastforce
  obtain f1 where f1: "perform AR x f = (rep, f1)" "performs AR h f1 = Some f'"
    using Cons.prems(1) y by (auto split: prod.splits if_splits)
  obtain g1 where g1: "perform AR x g = (rep, g1)" "\<forall>k\<in>W. g1 k = f1 k" "\<forall>k. k \<notin> W \<longrightarrow> g1 k = g k"
    using f1(1) Cons.prems(2,3) y by (cases x) auto
  from Cons.IH[OF f1(2) _ g1(2)] Cons.prems(2) y g1(1,3) show ?case by auto
qed auto

lemma performs_SR_local:
  assumes "performs SR h s = Some s'" "confined W h" "\<forall>k\<in>W. fmlookup (sr_state t) k = fmlookup (sr_state s) k"
  shows "\<exists>t'. performs SR h t = Some t'
    \<and> (\<forall>k. fmlookup (sr_state t') k = fmlookup (if k \<in> W then sr_state s' else sr_state t) k)"
  using assms
proof (induction h arbitrary: s t)
  case (Cons y h)
  obtain x rep where y: "y = (x, rep)" by fastforce
  obtain s1 where s1: "perform SR x s = (rep, s1)" "performs SR h s1 = Some s'"
    using Cons.prems(1) y by (auto split: prod.splits if_splits)
  obtain t1 where t1: "perform SR x t = (rep, t1)"
    "\<forall>k\<in>W. fmlookup (sr_state t1) k = fmlookup (sr_state s1) k"
    "\<forall>k. k \<notin> W \<longrightarrow> fmlookup (sr_state t1) k = fmlookup (sr_state t) k"
    using s1(1) Cons.prems(2,3) y
    by (cases x) (auto simp: sr_read_eq sr_view_def ts_view_def sr_write_def unsafe_insert_genesis_value_def)
  from Cons.IH[OF s1(2) _ t1(2)] Cons.prems(2) y t1(1,3) show ?case by auto
qed auto

text \<open>A call has one history from a state.\<close>

lemma trace_unique:
  assumes u: "trace R T n hc c s u" and h: "performs R h s = Some s'" "resume hc h = Returns r"
  shows "h = u"
proof -
  note pu = traceD(1)[OF u] and tres = trace_resume[OF u]
  from performs_compare[OF h(1) pu] show ?thesis
  proof (elim disjE exE conjE)
    fix z assume z: "u = h @ z"
    then show ?thesis using tres(2)[of h _ _ "tl z"] h(2) by (cases z) auto
  next
    fix z assume "h = u @ z"
    then show ?thesis using tres(3)[of z] h(2) by (cases z) auto
  next
    fix p x rx h' y ry u' assume "h = p @ (x, rx) # h'" "u = p @ (y, ry) # u'" "x \<noteq> y"
    then show ?thesis using tres(4)[of p y ry u' x rx h'] h(2) by simp
  qed
qed

end
