(* ===== verification/Serializability.thy ===== *)
theory Serializability
  imports Types Resumption
begin

text \<open>
  Executions of many transactions by several workers on the shared state, one dispatch at a time
  (\<open>Worker::execute_transaction\<close>), and their sequential counterpart. The main fact: what the
  successful dispatches did to the state is done again by running them on sequential runtimes in
  any order that keeps the order of each worker. This is what validation relies on.
\<close>

section \<open>Executions by workers\<close>

text \<open>
  \<open>Worker::execute_transaction\<close>: a dispatch on the worker's own runtime, which shares the state
  with all others and whose cache is empty between two dispatches.
\<close>

definition execute_transaction ::
  "('p, 'z) staking_env_scheme \<Rightarrow> thread_id \<Rightarrow> 'p transaction \<Rightarrow> runtime_state
     \<Rightarrow> runtime_dispatch_result \<times> runtime_state" where
  "execute_transaction E w tx m =
     (case ConcurrentRuntime_dispatch E (tx_function tx) (fst (tx_signature tx)) (cr_new m w) of
        (r, s') \<Rightarrow> (r, cr_state s'))"

type_synonym 'p event = "thread_id \<times> 'p transaction"
type_synonym 'p logged = "'p event \<times> runtime_dispatch_result"

text \<open>A run of dispatches, with the results.\<close>

fun concurrent_run ::
  "('p, 'z) staking_env_scheme \<Rightarrow> 'p event list \<Rightarrow> runtime_state
     \<Rightarrow> runtime_dispatch_result list \<times> runtime_state" where
  "concurrent_run E [] m = ([], m)"
| "concurrent_run E ((w, tx) # es) m = (case execute_transaction E w tx m of
     (r, m1) \<Rightarrow> (case concurrent_run E es m1 of (rs, m2) \<Rightarrow> (r # rs, m2)))"

text \<open>
  While a dispatch is under way it taints keys that were free. \<open>shared_run E m L m'\<close>: the dispatches
  \<open>L\<close>, with their results, lead from \<open>m\<close> to \<open>m'\<close> if in between any thread may taint any free key.
\<close>

definition touch :: "thread_id \<Rightarrow> state_key \<Rightarrow> runtime_state \<Rightarrow> runtime_state" where
  "touch w k m = snd (ts_read default_value k w m)"

inductive shared_run ::
  "('p, 'z) staking_env_scheme \<Rightarrow> runtime_state \<Rightarrow> 'p logged list \<Rightarrow> runtime_state \<Rightarrow> bool"
  for E :: "('p, 'z) staking_env_scheme" where
  no_dispatch: "shared_run E m [] m"
| dispatch: "execute_transaction E w tx m = (r, m1) \<Longrightarrow> shared_run E m1 L m' \<Longrightarrow>
    shared_run E m (((w, tx), r) # L) m'"
| touched: "ts_owner m k = None \<Longrightarrow> shared_run E (touch w k m) L m' \<Longrightarrow> shared_run E m L m'"

definition executed :: "'p logged list \<Rightarrow> 'p event list" where
  "executed L = map fst (filter (\<lambda>x. is_Ok (snd x)) L)"

text \<open>The same transactions on sequential runtimes that share one state.\<close>

fun sequential_run ::
  "('p, 'z) staking_env_scheme \<Rightarrow> 'p event list \<Rightarrow> runtime_state
     \<Rightarrow> runtime_dispatch_result list \<times> runtime_state" where
  "sequential_run E [] m = ([], m)"
| "sequential_run E ((w, tx) # es) m =
     (case SequentialRuntime_dispatch E (tx_function tx) (fst (tx_signature tx)) (sr_new m w) of
        (r, s1) \<Rightarrow> (case sequential_run E es (sr_state s1) of (rs, m2) \<Rightarrow> (r # rs, m2)))"

abbreviation values_of :: "runtime_state \<Rightarrow> view" where
  "values_of \<equiv> ts_view default_value"

lemma execute_transaction_facts:
  assumes "execute_transaction E w tx m = (r, m')"
  shows "\<And>k. ts_owner m' k = ts_owner m k \<or> ts_owner m k = None \<and> ts_owner m' k = Some w"
    and "\<not> is_Ok r \<Longrightarrow> values_of m' = values_of m"
    and "\<And>k. is_Ok r \<Longrightarrow> ts_owner m' k \<noteq> Some w \<Longrightarrow> values_of m' k = values_of m k"
    and "is_Ok r \<Longrightarrow> \<exists>out. r = to_runtime_dispatch_result out
       \<and> follows (\<lambda>k. ts_owner m' k = Some w) (values_of m) (values_of m')
           (outer_dispatch E AR (tx_function tx) (fst (tx_signature tx))) out"
proof -
  obtain s' where run: "ConcurrentRuntime_dispatch E (tx_function tx) (fst (tx_signature tx)) (cr_new m w) = (r, s')"
    and m': "m' = cr_state s'"
    using assms by (auto simp: execute_transaction_def split: prod.splits)
  note f = concurrent_dispatch_follows[OF _ run, unfolded view_of_new, OF refl]
  show "ts_owner m' k = ts_owner m k \<or> ts_owner m k = None \<and> ts_owner m' k = Some w" for k
    using f m' by blast
  show "\<not> is_Ok r \<Longrightarrow> values_of m' = values_of m"
    "is_Ok r \<Longrightarrow> ts_owner m' k \<noteq> Some w \<Longrightarrow> values_of m' k = values_of m k" for k
    using f m' by blast+
  show "is_Ok r \<Longrightarrow> \<exists>out. r = to_runtime_dispatch_result out
       \<and> follows (\<lambda>k. ts_owner m' k = Some w) (values_of m) (values_of m')
           (outer_dispatch E AR (tx_function tx) (fst (tx_signature tx))) out"
    using f m' by blast
qed

text \<open>The call of an executed transaction, and the keys it leaves to the worker.\<close>

lemma execute_transaction_call:
  assumes run: "execute_transaction E w tx m = (r, m1)"
    and q: "outer_dispatch E CR (tx_function tx) (fst (tx_signature tx)) (cr_new m w) = (q, s)"
  shows "is_Ok r \<Longrightarrow> r = to_runtime_dispatch_result q" "is_Ok r \<Longrightarrow> cr_mine s k \<Longrightarrow> ts_owner m1 k = Some w"
proof -
  obtain s' where s': "ConcurrentRuntime_dispatch E (tx_function tx) (fst (tx_signature tx)) (cr_new m w) = (r, s')"
    "m1 = cr_state s'"
    using run by (auto simp: execute_transaction_def split: prod.splits)
  have fresh: "cr_cache (cr_new m w) = fmempty" by (simp add: cr_new_def)
  have id: "cr_id s = w"
    using keepsD[OF conc_frame.keeps_outer_dispatch q] fresh_cache(1)[OF fresh]
    by (simp add: cr_frame_def cr_new_def)
  have "is_Ok r \<longrightarrow> r = to_runtime_dispatch_result q \<and> (\<forall>k. cr_mine s k \<longrightarrow> ts_owner m1 k = Some w)"
    using fresh s'(1)
  proof (cases rule: cr_dispatch_cases)
    case (committed s1 m')
    then show ?thesis using q s'(2) id by (auto simp: cr_mine_def)
  next
    case (logic s1 why)
    then show ?thesis using q s'(2) id by (auto simp: cr_mine_def)
  qed simp_all
  then show "is_Ok r \<Longrightarrow> r = to_runtime_dispatch_result q" "is_Ok r \<Longrightarrow> cr_mine s k \<Longrightarrow> ts_owner m1 k = Some w"
    by blast+
qed

lemma touch_facts:
  assumes "ts_owner m k = None"
  shows "values_of (touch w k m) = values_of m" "ts_owner (touch w k m) = (ts_owner m)(k := Some w)"
proof -
  from assms have "ts_owner m k = None \<or> ts_owner m k = Some w" by simp
  then obtain m' where "ts_read default_value k w m = (Ok (values_of m k), m')"
    "values_of m' = values_of m" "ts_owner m' = (ts_owner m)(k := Some w)"
    using ts.read_granted[of m k w] by blast
  then show "values_of (touch w k m) = values_of m" "ts_owner (touch w k m) = (ts_owner m)(k := Some w)"
    by (simp_all add: touch_def)
qed

text \<open>Ownership only grows during a run.\<close>

lemma shared_run_owners:
  "shared_run E m L m' \<Longrightarrow> ts_owner m k = Some w \<Longrightarrow> ts_owner m' k = Some w"
proof (induction rule: shared_run.induct)
  case (dispatch v tx m r m1 L m')
  then show ?case
    using execute_transaction_facts(1)[OF dispatch.hyps(1), of k] by auto
next
  case (touched m j v L m')
  then show ?case using touch_facts(2)[OF touched.hyps(1), of v] by (cases "k = j") auto
qed simp

text \<open>Runs can be extended at the end.\<close>

lemma shared_run_append:
  "shared_run E m L m1 \<Longrightarrow> shared_run E m1 L' m2 \<Longrightarrow> shared_run E m (L @ L') m2"
  by (induction rule: shared_run.induct) (auto intro: shared_run.intros)

lemma shared_run_dispatch:
  assumes "shared_run E m L m1" "execute_transaction E w tx m1 = (r, m2)"
  shows "shared_run E m (L @ [((w, tx), r)]) m2"
  by (rule shared_run_append[OF assms(1) dispatch[OF assms(2) no_dispatch]])

lemma shared_run_touch:
  assumes "shared_run E m L m1" "ts_owner m1 k = None"
  shows "shared_run E m L (touch w k m1)"
  using shared_run_append[OF assms(1) touched[OF assms(2) no_dispatch]] by simp

text \<open>Runs without interference are the executable ones.\<close>

lemma concurrent_shared_run:
  "concurrent_run E es m = (rs, m') \<Longrightarrow> shared_run E m (zip es rs) m'"
proof (induction es arbitrary: m rs)
  case (Cons e es)
  obtain w tx where e: "e = (w, tx)" by fastforce
  obtain r m1 where r: "execute_transaction E w tx m = (r, m1)" by fastforce
  obtain rs1 where "concurrent_run E es m1 = (rs1, m')" "rs = r # rs1"
    using Cons.prems e r by (auto split: prod.splits)
  with Cons.IH e dispatch[OF r] show ?case by simp
qed (auto intro: no_dispatch)

section \<open>Interleavings of independent sequential runs\<close>

text \<open>The code of the call of a transaction, generic in the runtime.\<close>

abbreviation call_code ::
  "('p, 'z) staking_env_scheme \<Rightarrow> 'p transaction \<Rightarrow> (script, unit, dispatch_error) comp" where
  "call_code E tx \<equiv> outer_dispatch E HR (tx_function tx) (fst (tx_signature tx))"

text \<open>
  \<open>on_part W f h e\<close>: on values that are \<open>f\<close> within \<open>W\<close>, the transaction succeeds, makes them \<open>h\<close>
  within \<open>W\<close>, and makes no access elsewhere. \<open>solo\<close> are such transactions in sequence.
\<close>

definition on_part ::
  "('p, 'z) staking_env_scheme \<Rightarrow> state_key set \<Rightarrow> view \<Rightarrow> view \<Rightarrow> 'p event \<Rightarrow> bool" where
  "on_part E W f h e \<longleftrightarrow> (\<exists>u out f'. resume (call_code E (snd e)) u = Returns out
     \<and> is_Ok (to_runtime_dispatch_result out) \<and> confined W u
     \<and> performs AR u f = Some f' \<and> (\<forall>k\<in>W. f' k = h k))"

lemma on_part_follows:
  assumes "on_part E W f h e"
  obtains out where "is_Ok (to_runtime_dispatch_result out)"
    "follows (\<lambda>k. k \<in> W) f h (outer_dispatch E AR (tx_function (snd e)) (fst (tx_signature (snd e)))) out"
proof -
  obtain u out f' where u: "resume (call_code E (snd e)) u = Returns out"
    "is_Ok (to_runtime_dispatch_result out)" "confined W u" "performs AR u f = Some f'" "\<forall>k\<in>W. f' k = h k"
    using assms by (auto simp: on_part_def)
  have "follows (\<lambda>k. k \<in> W) f h (outer_dispatch E AR (tx_function (snd e)) (fst (tx_signature (snd e)))) out"
    unfolding follows_def
  proof (intro allI impI)
    fix g :: view
    assume "\<forall>k. k \<in> W \<longrightarrow> g k = f k"
    then obtain g' where g': "performs AR u g = Some g'" "\<forall>k. g' k = (if k \<in> W then f' k else g k)"
      using performs_AR_local[OF u(4,3)] by blast
    with resume_Returns(1)[OF traced_outer_dispatch g'(1) u(1)] u(5)
    show "\<exists>g'. outer_dispatch E AR (tx_function (snd e)) (fst (tx_signature (snd e))) g = (out, g')
        \<and> (\<forall>k. g' k = (if k \<in> W then h k else g k))" by auto
  qed
  with u(2) show thesis by (rule that)
qed

inductive solo ::
  "('p, 'z) staking_env_scheme \<Rightarrow> state_key set \<Rightarrow> 'p event list \<Rightarrow> view \<Rightarrow> view \<Rightarrow> bool" for E W where
  solo_Nil: "\<forall>k\<in>W. f k = g k \<Longrightarrow> solo E W [] f g"
| solo_Cons: "on_part E W f h e \<Longrightarrow> solo E W es h g \<Longrightarrow> solo E W (e # es) f g"

inductive_cases solo_NilE: "solo E W [] f g"
inductive_cases solo_ConsE: "solo E W (e # es) f g"

lemma on_part_cong:
  assumes "on_part E W f h e" "\<forall>k\<in>W. f' k = f k"
  shows "on_part E W f' h e"
proof -
  obtain u out g where u: "resume (call_code E (snd e)) u = Returns out"
    "is_Ok (to_runtime_dispatch_result out)" "confined W u" "performs AR u f = Some g" "\<forall>k\<in>W. g k = h k"
    using assms(1) by (auto simp: on_part_def)
  obtain g' where "performs AR u f' = Some g'" "\<forall>k. g' k = (if k \<in> W then g k else f' k)"
    using performs_AR_local[OF u(4,3) assms(2)] by blast
  with u show ?thesis
    unfolding on_part_def by (intro exI[of _ u] exI[of _ out] exI[of _ g']) simp
qed

lemma solo_cong: "solo E W es f g \<Longrightarrow> \<forall>k\<in>W. f' k = f k \<Longrightarrow> solo E W es f' g"
proof (induction arbitrary: f' rule: solo.induct)
  case (solo_Nil f g)
  then show ?case by (auto intro: solo.solo_Nil)
next
  case (solo_Cons f h e es g)
  then show ?case
    using on_part_cong solo.solo_Cons by blast
qed

text \<open>Transactions of independent parts commute with each other.\<close>

lemma interleaving:
  assumes "\<And>u v. u \<noteq> v \<Longrightarrow> W u \<inter> W v = {}"
    and "\<And>w. solo E (W w) (filter (\<lambda>e. fst e = w) zs) f g"
    and "\<And>w k. k \<in> W w \<Longrightarrow> values_of m k = f k"
  shows "\<exists>rs m'. sequential_run E zs m = (rs, m') \<and> list_all is_Ok rs
     \<and> (\<forall>k. values_of m' k = (if \<exists>w. k \<in> W w then g k else values_of m k))"
  using assms(2,3)
proof (induction zs arbitrary: f m)
  case Nil
  have "f k = g k" if "k \<in> W w" for w k
    using Nil(1)[of w] that by (auto elim: solo_NilE)
  then show ?case using Nil(2) by auto
next
  case (Cons e zs)
  obtain w tx where e: "e = (w, tx)" by fastforce
  have "solo E (W w) (e # filter (\<lambda>e. fst e = w) zs) f g"
    using Cons.prems(1)[of w] e by simp
  then obtain h where h: "on_part E (W w) f h e" "solo E (W w) (filter (\<lambda>e. fst e = w) zs) h g"
    by (rule solo_ConsE)
  define f1 where "f1 k = (if k \<in> W w then h k else f k)" for k
  obtain out where out: "is_Ok (to_runtime_dispatch_result out)"
    "follows (\<lambda>k. k \<in> W w) f h (outer_dispatch E AR (tx_function tx) (fst (tx_signature tx))) out"
    by (rule on_part_follows[OF h(1)]) (use e in simp)
  have "\<forall>k. k \<in> W w \<longrightarrow> sr_view (sr_new m w) k = f k"
    using Cons.prems(2) by (simp add: view_of_new)
  from sequential_follows[OF out(2) this] obtain q' where
    q': "SequentialRuntime_dispatch E (tx_function tx) (fst (tx_signature tx)) (sr_new m w)
           = (to_runtime_dispatch_result out, q')"
    "\<forall>k. sr_view q' k = (if k \<in> W w then h k else sr_view (sr_new m w) k)"
    by blast
  have after: "\<forall>k. values_of (sr_state q') k = (if k \<in> W w then h k else values_of m k)"
    using q'(2) by (simp add: sr_new_def sr_view_def)
  have "solo E (W v) (filter (\<lambda>e. fst e = v) zs) f1 g" for v
  proof (cases "v = w")
    case True
    with h(2) show ?thesis by (auto intro: solo_cong simp: f1_def)
  next
    case False
    have "\<forall>k\<in>W v. f1 k = f k"
      using assms(1)[OF False] by (auto simp: f1_def)
    moreover have "solo E (W v) (filter (\<lambda>e. fst e = v) zs) f g"
      using Cons.prems(1)[of v] e False by simp
    ultimately show ?thesis by (auto intro: solo_cong)
  qed
  moreover have "values_of (sr_state q') k = f1 k" if "k \<in> W v" for v k
    using after Cons.prems(2)[OF that] by (simp add: f1_def)
  ultimately obtain rs m' where "sequential_run E zs (sr_state q') = (rs, m')" "list_all is_Ok rs"
    "\<forall>k. values_of m' k = (if \<exists>w. k \<in> W w then g k else values_of (sr_state q') k)"
    using Cons.IH by blast
  then show ?case
    using q'(1) after out(1) e by auto
qed

section \<open>A concurrent run, seen from one worker\<close>

lemma dispatch_on_part:
  assumes run: "execute_transaction E w tx m = (r, m1)" and ok: "is_Ok r"
    and W: "\<And>k. ts_owner m1 k = Some w \<Longrightarrow> k \<in> W"
  shows "on_part E W (values_of m) (values_of m1) (w, tx)"
proof -
  let ?call = "\<lambda>R. outer_dispatch E R (tx_function tx) (fst (tx_signature tx))"
  note facts = execute_transaction_facts[OF run]
  obtain out where out: "r = to_runtime_dispatch_result out"
    "follows (\<lambda>k. ts_owner m1 k = Some w) (values_of m) (values_of m1) (?call AR) out"
    using facts(4)[OF ok] by blast
  then obtain f where f: "?call AR (values_of m) = (out, f)"
    "\<forall>k. f k = (if ts_owner m1 k = Some w then values_of m1 k else values_of m k)"
    unfolding follows_def by blast
  have f_eq: "f = values_of m1"
    using f(2) facts(3)[OF ok] by auto
  obtain u where u: "trace CR is_taint max_accesses (call_code E tx) (?call CR) (cr_new m w) u"
    using traced_outer_dispatch[of CR E "tx_function tx" "fst (tx_signature tx)"] unfolding traced_def by blast
  note d = traceD[OF u]
  obtain q s where q: "?call CR (cr_new m w) = (q, s)" by fastforce
  note fresh = execute_transaction_call[OF run q]
  have "\<not> is_Panic q \<and> (\<forall>e. q = Err e \<longrightarrow> \<not> is_taint e)"
    using ok fresh(1)[OF ok] by (cases q rule: to_runtime_dispatch_result.cases) simp_all
  then have granted: "\<forall>x\<in>set u. \<not> refused (snd x)"
    using d(3) q by fastforce
  note fc = fresh_cache[of "cr_new m w", unfolded view_of_new, OF refl]
  have h: "performs AR u (values_of m) = Some (cr_view s)" "confined {k. cr_mine s k} u"
    using conc.granted_history[OF d(1) fc(1) granted] q by (simp_all add: fc(2))
  have res: "resume (call_code E tx) u = Returns q"
    using trace_resume(1)[OF u] q by simp
  have "?call AR (values_of m) = (q, cr_view s)"
    by (rule resume_Returns(1)[OF traced_outer_dispatch h(1) res])
  with f(1) f_eq have "q = out" "cr_view s = values_of m1" by simp_all
  moreover have "confined W u"
    using h(2) fresh(2)[OF ok] W by (auto simp: confined_def)
  ultimately show ?thesis
    using res h(1) ok out(1) unfolding on_part_def by auto
qed

lemma executed_simps [simp]:
  "executed [] = []" "executed (L @ L') = executed L @ executed L'"
  "executed (x # L) = (if is_Ok (snd x) then fst x # executed L else executed L)"
  by (simp_all add: executed_def)

lemma shared_run_solo:
  "shared_run E m L m' \<Longrightarrow> solo E {k. ts_owner m' k = Some w} (filter (\<lambda>e. fst e = w) (executed L))
     (values_of m) (values_of m')"
proof (induction rule: shared_run.induct)
  case (dispatch v tx m r m1 L m')
  let ?W = "{k. ts_owner m' k = Some w}"
  note facts = execute_transaction_facts[OF dispatch.hyps(1)]
  note mine = shared_run_owners[OF dispatch.hyps(2)]
  show ?case
  proof (cases "is_Ok r \<and> v = w")
    case True
    then have "on_part E ?W (values_of m) (values_of m1) (v, tx)"
      using dispatch_on_part[OF dispatch.hyps(1), of ?W] mine by simp
    with True dispatch.IH show ?thesis by (auto intro: solo_Cons)
  next
    case False
    have "\<forall>k\<in>?W. values_of m k = values_of m1 k"
    proof
      fix k
      assume "k \<in> ?W"
      show "values_of m k = values_of m1 k"
      proof (cases "is_Ok r")
        case True
        then have "ts_owner m1 k \<noteq> Some v"
          using False mine[of k v] \<open>k \<in> ?W\<close> by auto
        then show ?thesis using facts(3)[OF True] by simp
      qed (simp add: facts(2))
    qed
    then show ?thesis
      using dispatch.IH False by (auto intro: solo_cong)
  qed
next
  case (touched m k v L m')
  then show ?case using touch_facts(1)[OF touched.hyps(1)] by simp
qed (auto intro: solo_Nil)

text \<open>Keys without an owner at the end kept their value.\<close>

lemma shared_run_unowned:
  "shared_run E m L m' \<Longrightarrow> ts_owner m' k = None \<Longrightarrow> values_of m' k = values_of m k"
proof (induction rule: shared_run.induct)
  case (dispatch v tx m r m1 L m')
  have "ts_owner m1 k \<noteq> Some v"
    using shared_run_owners[OF dispatch.hyps(2)] dispatch.prems by fastforce
  then have "values_of m1 k = values_of m k"
    using execute_transaction_facts(2,3)[OF dispatch.hyps(1)] by (cases "is_Ok r") auto
  with dispatch.IH[OF dispatch.prems] show ?case by simp
next
  case (touched m j v L m')
  then show ?case using touch_facts(1)[OF touched.hyps(1)] by simp
qed simp

section \<open>Serializability\<close>

text \<open>What of a transaction matters to its execution.\<close>

definition tx_call :: "'p transaction \<Rightarrow> 'p outer_call \<times> 'p" where
  "tx_call tx = (tx_function tx, fst (tx_signature tx))"

definition calls_of :: "thread_id \<Rightarrow> 'p event list \<Rightarrow> ('p outer_call \<times> 'p) list" where
  "calls_of w es = map (\<lambda>(_, tx). tx_call tx) (filter (\<lambda>(v, _). v = w) es)"

lemma on_part_calls: "tx_call (snd e) = tx_call (snd e') \<Longrightarrow> on_part E W f h e = on_part E W f h e'"
  by (simp add: on_part_def tx_call_def)

lemma solo_calls:
  "solo E W es f g \<Longrightarrow> map (\<lambda>(_, tx). tx_call tx) es = map (\<lambda>(_, tx). tx_call tx) es' \<Longrightarrow> solo E W es' f g"
proof (induction arbitrary: es' rule: solo.induct)
  case (solo_Nil f g)
  then show ?case by (auto intro: solo.solo_Nil)
next
  case (solo_Cons f h e es g)
  then obtain e' es1 where "es' = e' # es1" "tx_call (snd e) = tx_call (snd e')"
    "map (\<lambda>(_, tx). tx_call tx) es = map (\<lambda>(_, tx). tx_call tx) es1"
    by (cases es') (auto simp: split_def)
  with solo_Cons show ?case
    using on_part_calls[of e e' E W f h] solo.solo_Cons by blast
qed

lemma serializable:
  assumes run: "shared_run E m L m'"
    and start: "values_of q = values_of m"
    and order: "\<And>w. calls_of w zs = calls_of w (executed L)"
  shows "\<exists>rs' q'. sequential_run E zs q = (rs', q') \<and> list_all is_Ok rs' \<and> values_of q' = values_of m'"
proof -
  let ?W = "\<lambda>w. {k. ts_owner m' k = Some w}"
  have fst_eq: "(\<lambda>e. fst e = w) = (\<lambda>(v, _). v = w)" for w :: thread_id
    by (simp add: fun_eq_iff split_def)
  have "solo E (?W w) (filter (\<lambda>e. fst e = w) zs) (values_of m) (values_of m')" for w
    using solo_calls[OF shared_run_solo[OF run, of w]] order[of w]
    by (simp add: calls_of_def fst_eq)
  then obtain rs' q' where q': "sequential_run E zs q = (rs', q')" "list_all is_Ok rs'"
    "\<forall>k. values_of q' k = (if \<exists>w. k \<in> ?W w then values_of m' k else values_of q k)"
    using interleaving[of ?W E zs "values_of m" "values_of m'" q] start by fastforce
  have "values_of q' k = values_of m' k" for k
    using q'(3) shared_run_unowned[OF run, of k] start by (cases "ts_owner m' k") auto
  with q' show ?thesis by blast
qed

text \<open>C11. Take any run of dispatches by any workers on the shared state, with any tainting of free
  keys in between. The transactions it executed (those that were not refused a key), run again from
  the same values on sequential runtimes, in any order that keeps the order of each worker, all
  succeed and end with the same value of every key. So the order between workers does not matter,
  and the refused attempts leave no trace.\<close>

theorem concurrent_runs_are_serializable:
  assumes run: "shared_run E m L m'"
    and start: "values_of q = values_of m"
    and order: "\<And>w. calls_of w zs = calls_of w (executed L)"
  shows "\<exists>rs' q'. sequential_run E zs q = (rs', q') \<and> list_all is_Ok rs' \<and> values_of q' = values_of m'"
  using serializable[OF assms] .

theorem concurrent_runs_are_serializable_witness:
  "let es = [(7, tx_new 1 (BalancesCall (Transfer 2 300)) 1 []), (8, tx_new 2 (BalancesCall (Transfer 3 1)) 2 []),
             (8, tx_new 3 (StakingCall (TxBond 5 6)) 9 [])];
       m = touch 7 (StateKey []) (funded ex_env 1 1000);
       out = concurrent_run ex_env es m
   in \<exists>rs' q'. sequential_run ex_env (executed (zip es (fst out))) m = (rs', q')
        \<and> list_all is_Ok rs' \<and> values_of q' = values_of (snd out)"
  unfolding Let_def
  by (rule concurrent_runs_are_serializable[OF concurrent_shared_run[OF surjective_pairing] refl refl])

end
