(* ===== verification/Worker.thy ===== *)
theory Worker
  imports Serializability
begin

text \<open>
  The worker threads (\<open>executor/src/concurrent/worker.rs\<close>). What all threads share is the record
  \<open>world\<close>: the state and the channels, each a list of messages with the oldest first. A loop of
  the code is one function per iteration, on the worker's own record and the world; where it
  stands in its loops is the worker's phase, with the loop's local variables. \<open>recv\<close> on an empty
  channel blocks and \<open>try_recv\<close> finds nothing: both leave everything as it is. A panic ends the
  thread (\<open>Crashed\<close>); parking is not modelled, since the master unparks all workers before it
  sends a task.
\<close>

section \<open>Channels\<close>

record 'p world =
  wo_state :: runtime_state
  to_master :: "'p message list"
  to_worker :: "thread_id \<Rightarrow> 'p message list"
  to_peer :: "thread_id \<Rightarrow> 'p message list"

definition send_master :: "thread_id \<Rightarrow> 'p message_payload \<Rightarrow> 'p world \<Rightarrow> 'p world" where
  "send_master me p wo = wo\<lparr>to_master := to_master wo @ [new_from_thread me p]\<rparr>"

definition send_worker :: "thread_id \<Rightarrow> thread_id \<Rightarrow> 'p message_payload \<Rightarrow> 'p world \<Rightarrow> 'p world" where
  "send_worker me w p wo =
     wo\<lparr>to_worker := (to_worker wo)(w := to_worker wo w @ [new_from_thread me p])\<rparr>"

definition send_peer :: "thread_id \<Rightarrow> thread_id \<Rightarrow> 'p message_payload \<Rightarrow> 'p world \<Rightarrow> 'p world" where
  "send_peer me w p wo =
     wo\<lparr>to_peer := (to_peer wo)(w := to_peer wo w @ [new_from_thread me p])\<rparr>"

lemmas send_defs = send_master_def send_worker_def send_peer_def new_from_thread_def

section \<open>The worker\<close>

datatype execution_outcome =
    Executed runtime_dispatch_success
  | ForwardedTo thread_id
  | ForwardedToMaster

datatype worker_phase =
    Setup
  | Idle
  | Depleting nat nat "runtime_dispatch_success list"
  | Serving
  | Validation "runtime_dispatch_success list"
  | Terminated
  | Crashed string

record worker =
  wk_id :: thread_id
  wk_master_id :: thread_id
  wk_others :: "thread_id list"
  wk_phase :: worker_phase

definition worker_new :: "thread_id \<Rightarrow> thread_id \<Rightarrow> worker" where
  "worker_new i master = \<lparr>wk_id = i, wk_master_id = master, wk_others = [], wk_phase = Setup\<rparr>"

definition crash :: "string \<Rightarrow> worker \<Rightarrow> worker" where
  "crash msg wk = wk\<lparr>wk_phase := Crashed msg\<rparr>"

text \<open>
  What a worker does once it knows the result of a dispatch: a transaction that was refused a key
  is forwarded to the worker that owns it or to the master, and a forwarded transaction that was
  executed is reported.
\<close>

definition report_or_forward ::
  "worker \<Rightarrow> 'p transaction \<Rightarrow> runtime_dispatch_result \<Rightarrow> ('p world, execution_outcome, unit) comp"
  where
  "report_or_forward wk tx rt_dispatch_result wo =
     (let forward_to_master =
            (Ok ForwardedToMaster, send_master (wk_id wk) (WorkerOrphan (tx_id tx)) wo)
      in case rt_dispatch_result of
          Err (RtTainted by_whom corrupt) \<Rightarrow>
            if tx_exec_status tx = Initial
            then if corrupt then forward_to_master
                 else if by_whom \<in> set (wk_others wk)
                 then (Ok (ForwardedTo by_whom), send_peer (wk_id wk) by_whom (TransactionMsg tx) wo)
                 else (Panic ''Must have queue to all other workers; qed.'', wo)
            else forward_to_master
        | Ok ok \<Rightarrow>
            (Ok (Executed ok),
             if tx_exec_status tx = Forwarded
             then send_master (wk_id wk) (WorkerExecuted (tx_id tx)) wo else wo)
        | Panic p \<Rightarrow> (Panic p, wo))"

definition execute_or_forward ::
  "('p, 'z) staking_env_scheme \<Rightarrow> worker \<Rightarrow> 'p transaction \<Rightarrow> ('p world, execution_outcome, unit) comp"
  where
  "execute_or_forward E wk tx wo =
     (case execute_transaction E (wk_id wk) tx (wo_state wo) of (rt_dispatch_result, m) \<Rightarrow>
        report_or_forward wk tx rt_dispatch_result (wo\<lparr>wo_state := m\<rparr>))"

text \<open>\<open>wait_finalize_setup\<close> and the task loop of \<open>run\<close>, on a message from the master.\<close>

definition wait_finalize_setup :: "'p message \<Rightarrow> worker \<Rightarrow> worker" where
  "wait_finalize_setup msg wk = (case payload msg of
     FinalizeSetup data \<Rightarrow> wk\<lparr>wk_others := data, wk_phase := Idle\<rparr>
   | _ \<Rightarrow> crash ''Received unexpected message'' wk)"

definition run_task :: "'p message \<Rightarrow> worker \<Rightarrow> worker" where
  "run_task msg wk = (case payload msg of
     Task Authoring \<Rightarrow> wk\<lparr>wk_phase := Depleting 0 0 []\<rparr>
   | Task Validating \<Rightarrow> wk\<lparr>wk_phase := Validation []\<rparr>
   | Terminate \<Rightarrow> wk\<lparr>wk_phase := Terminated\<rparr>
   | _ \<Rightarrow> crash ''Unexpected message'' wk)"

text \<open>One iteration of \<open>deplete_master_queue\<close>; its end sends the report.\<close>

definition deplete_outcome ::
  "nat \<Rightarrow> nat \<Rightarrow> runtime_dispatch_success list \<Rightarrow> worker
     \<Rightarrow> (execution_outcome, unit) rs \<times> 'p world \<Rightarrow> worker \<times> 'p world" where
  "deplete_outcome ex forwarded outputs wk r = (case r of
     (Ok (Executed inn), wo') \<Rightarrow>
       (wk\<lparr>wk_phase := Depleting (ex + 1) forwarded (outputs @ [inn])\<rparr>, wo')
   | (Ok _, wo') \<Rightarrow> (wk\<lparr>wk_phase := Depleting ex (forwarded + 1) outputs\<rparr>, wo')
   | (Err _, wo') \<Rightarrow> (wk, wo')
   | (Panic p, wo') \<Rightarrow> (crash p wk, wo'))"

definition deplete_master_queue ::
  "('p, 'z) staking_env_scheme \<Rightarrow> 'p message \<Rightarrow> nat \<Rightarrow> nat \<Rightarrow> runtime_dispatch_success list
     \<Rightarrow> worker \<Rightarrow> 'p world \<Rightarrow> worker \<times> 'p world" where
  "deplete_master_queue E msg ex forwarded outputs wk wo =
     (if debug_build E \<and> msg_from msg \<noteq> wk_master_id wk
      then (crash ''assertion failed: `(left == right)`'' wk, wo)
      else case payload msg of
        TransactionMsg tx \<Rightarrow> deplete_outcome ex forwarded outputs wk (execute_or_forward E wk tx wo)
      | TransactionDistributionDone \<Rightarrow>
          (wk\<lparr>wk_phase := Serving\<rparr>, send_master (wk_id wk) (AuthoringReport ex forwarded) wo)
      | _ \<Rightarrow> (crash ''Unexpected message payload.'' wk, wo))"

text \<open>The loop of \<open>run_author\<close> afterwards: the master ends the task, others forward transactions.\<close>

definition author_from_master :: "'p message \<Rightarrow> worker \<Rightarrow> worker" where
  "author_from_master msg wk = (case payload msg of
     TaskDone \<Rightarrow> wk\<lparr>wk_phase := Idle\<rparr>
   | _ \<Rightarrow> crash ''Unexpected message payload.'' wk)"

definition serve_outcome ::
  "worker \<Rightarrow> (execution_outcome, unit) rs \<times> 'p world \<Rightarrow> worker \<times> 'p world" where
  "serve_outcome wk r = (case r of (Panic p, wo') \<Rightarrow> (crash p wk, wo') | (_, wo') \<Rightarrow> (wk, wo'))"

definition author_from_others ::
  "('p, 'z) staking_env_scheme \<Rightarrow> 'p message \<Rightarrow> worker \<Rightarrow> 'p world \<Rightarrow> worker \<times> 'p world" where
  "author_from_others E msg wk wo = (case payload msg of
     TransactionMsg tx \<Rightarrow>
       serve_outcome wk (execute_or_forward E wk (tx\<lparr>tx_exec_status := Forwarded\<rparr>) wo)
   | _ \<Rightarrow> (crash ''Unexpected message payload'' wk, wo))"

text \<open>One iteration of \<open>run_validate\<close>.\<close>

definition validate_outcome ::
  "runtime_dispatch_success list \<Rightarrow> worker \<Rightarrow> runtime_dispatch_result \<times> 'p world
     \<Rightarrow> worker \<times> 'p world" where
  "validate_outcome outcomes wk r = (case r of
     (Ok outcome, wo') \<Rightarrow> (wk\<lparr>wk_phase := Validation (outcomes @ [outcome])\<rparr>, wo')
   | (Err _, wo') \<Rightarrow>
       (crash ''Executing transaction in the validation phase by thread should never fail'' wk, wo')
   | (Panic p, wo') \<Rightarrow> (crash p wk, wo'))"

text \<open>The dispatch of a transaction on the sequential runtime of the worker.\<close>

definition validate_transaction ::
  "('p, 'z) staking_env_scheme \<Rightarrow> thread_id \<Rightarrow> 'p transaction \<Rightarrow> runtime_state
     \<Rightarrow> runtime_dispatch_result \<times> runtime_state" where
  "validate_transaction E w tx m =
     (case SequentialRuntime_dispatch E (tx_function tx) (fst (tx_signature tx)) (sr_new m w) of
        (r, s') \<Rightarrow> (r, sr_state s'))"

definition run_validate ::
  "('p, 'z) staking_env_scheme \<Rightarrow> 'p message \<Rightarrow> runtime_dispatch_success list \<Rightarrow> worker \<Rightarrow> 'p world
     \<Rightarrow> worker \<times> 'p world" where
  "run_validate E msg outcomes wk wo =
     (if debug_build E \<and> msg_from msg \<noteq> wk_master_id wk
      then (crash ''assertion failed: `(left == right)`'' wk, wo)
      else case payload msg of
        TransactionMsg tx \<Rightarrow>
          if debug_build E \<and> tx_tag tx \<noteq> Done (wk_id wk)
          then (crash ''assertion failed: std::matches!(tag, ExecutionTag::Done(who) if who == self.id)'' wk, wo)
          else (case validate_transaction E (wk_id wk) tx (wo_state wo) of (outcome, m) \<Rightarrow>
            validate_outcome outcomes wk (outcome, wo\<lparr>wo_state := m\<rparr>))
      | TransactionDistributionDone \<Rightarrow>
          (wk\<lparr>wk_phase := Idle\<rparr>, send_master (wk_id wk) ValidationReport wo)
      | _ \<Rightarrow> (crash ''Unexpected message type in validation.'' wk, wo))"

text \<open>
  One iteration of a worker: it takes the oldest message from the master or, when it serves, from
  the other workers.
\<close>

definition worker_from_master ::
  "('p, 'z) staking_env_scheme \<Rightarrow> worker \<Rightarrow> 'p world \<Rightarrow> worker \<times> 'p world" where
  "worker_from_master E wk wo = (case to_worker wo (wk_id wk) of
     [] \<Rightarrow> (wk, wo)
   | msg # rest \<Rightarrow>
       (let wo1 = wo\<lparr>to_worker := (to_worker wo)(wk_id wk := rest)\<rparr> in
        case wk_phase wk of
          Setup \<Rightarrow> (wait_finalize_setup msg wk, wo1)
        | Idle \<Rightarrow> (run_task msg wk, wo1)
        | Depleting ex forwarded outputs \<Rightarrow> deplete_master_queue E msg ex forwarded outputs wk wo1
        | Serving \<Rightarrow> (author_from_master msg wk, wo1)
        | Validation outcomes \<Rightarrow> run_validate E msg outcomes wk wo1
        | Terminated \<Rightarrow> (wk, wo)
        | Crashed _ \<Rightarrow> (wk, wo)))"

definition worker_from_others ::
  "('p, 'z) staking_env_scheme \<Rightarrow> worker \<Rightarrow> 'p world \<Rightarrow> worker \<times> 'p world" where
  "worker_from_others E wk wo = (case to_peer wo (wk_id wk) of
     [] \<Rightarrow> (wk, wo)
   | msg # rest \<Rightarrow>
       (if wk_phase wk = Serving
        then author_from_others E msg wk (wo\<lparr>to_peer := (to_peer wo)(wk_id wk := rest)\<rparr>)
        else (wk, wo)))"

end
