(* ===== verification/Distribution.thy ===== *)
theory Distribution
  imports Types Pool "HOL-Library.Multiset"
begin

text \<open>
  The distribution of transactions among the workers (\<open>executor/src/concurrent/tx_distribution.rs\<close>):
  round robin, and by connected components of the graph between transactions and the keys they
  announce to access. The reference-counted nodes are \<open>TxRef i\<close> for the \<open>i\<close>-th transaction of the
  pool and \<open>KeyRef k\<close>; the mutable \<open>component\<close> field of the nodes is the map \<open>marks\<close>. The
  breadth-first search is a loop until the queue is empty, a partial function; that it ends is
  proved. A panic is \<open>Inl\<close>, a distribution that does not return is \<open>None\<close>.
\<close>

type_synonym 'p tx_pool = "'p transaction vec_pool"

text \<open>\<open>Distributer::distribute\<close>, without the runtime argument the distributer is built from.\<close>

type_synonym 'p distributer = "thread_id list \<Rightarrow> 'p tx_pool \<Rightarrow> 'p tx_pool panicking option"

section \<open>Round robin\<close>

definition round_robin :: "'p distributer" where
  "round_robin worker_ids pool =
     (let num_workers = length worker_ids in
      if num_workers = 0 \<and> vp_len pool \<noteq> 0
      then Some (Inl ''attempt to calculate the remainder with a divisor of zero'')
      else Some (Inr (vp_iter_mut
             (\<lambda>idx tx. tx\<lparr>tx_tag := Done (worker_ids ! (idx mod num_workers))\<rparr>) pool)))"

section \<open>The graph\<close>

datatype node_ref = TxRef nat | KeyRef state_key

record tx_graph =
  tx_keys :: "nat \<Rightarrow> state_key list"
  key_txs :: "state_key \<Rightarrow> nat list"

definition graph_new :: tx_graph where
  "graph_new = \<lparr>tx_keys = (\<lambda>_. []), key_txs = (\<lambda>_. [])\<rparr>"

definition add_key :: "nat \<Rightarrow> state_key \<Rightarrow> tx_graph \<Rightarrow> tx_graph" where
  "add_key i key G = G\<lparr>tx_keys := (tx_keys G)(i := tx_keys G i @ [key])\<rparr>"

definition add_tx :: "state_key \<Rightarrow> nat \<Rightarrow> tx_graph \<Rightarrow> tx_graph" where
  "add_tx key i G = G\<lparr>key_txs := (key_txs G)(key := key_txs G key @ [i])\<rparr>"

text \<open>The nodes of one transaction: it is added to all its keys, then all keys are added to it.\<close>

definition graph_add :: "nat \<times> state_key list \<Rightarrow> tx_graph \<Rightarrow> tx_graph" where
  "graph_add it G = (case it of (i, keys) \<Rightarrow>
     fold (\<lambda>key G. add_key i key G) keys (fold (\<lambda>key G. add_tx key i G) keys G))"

definition build_graph :: "state_key list list \<Rightarrow> tx_graph" where
  "build_graph hints = fold graph_add (enumerate 0 hints) graph_new"

type_synonym marks = "node_ref \<Rightarrow> u32 option"

definition visit :: "u32 \<Rightarrow> node_ref \<Rightarrow> marks \<Rightarrow> bool \<times> marks" where
  "visit cid n marks = (case marks n of
     None \<Rightarrow> (True, marks(n := Some cid)) | Some _ \<Rightarrow> (False, marks))"

fun neighbours :: "tx_graph \<Rightarrow> node_ref \<Rightarrow> node_ref list" where
  "neighbours G (KeyRef key) = map TxRef (key_txs G key)"
| "neighbours G (TxRef i) = map KeyRef (tx_keys G i)"

fun tx_index :: "node_ref \<Rightarrow> nat list" where
  "tx_index (TxRef i) = [i]"
| "tx_index (KeyRef _) = []"

partial_function (option) traverse_loop ::
  "tx_graph \<Rightarrow> u32 \<Rightarrow> node_ref list \<Rightarrow> marks \<Rightarrow> nat list \<Rightarrow> (nat list \<times> marks) option" where
  "traverse_loop G cid queue marks component = (case queue of
     [] \<Rightarrow> Some (component, marks)
   | current # rest \<Rightarrow>
       (case visit cid current marks of (fresh, marks') \<Rightarrow>
          traverse_loop G cid
            (rest @ filter (\<lambda>n. marks' n = None) (neighbours G current)) marks'
            (if fresh then component @ tx_index current else component)))"

definition traverse :: "tx_graph \<Rightarrow> nat \<Rightarrow> u32 \<Rightarrow> marks \<Rightarrow> (nat list \<times> marks) option" where
  "traverse G start cid marks = traverse_loop G cid [TxRef start] marks []"

text \<open>The components that are not empty, in the order of their first transactions.\<close>

fun collect_components ::
  "tx_graph \<Rightarrow> nat list \<Rightarrow> marks \<Rightarrow> nat list list option" where
  "collect_components G [] marks = Some []"
| "collect_components G (i # is) marks = (case traverse G i (of_nat i) marks of
     None \<Rightarrow> None
   | Some (component, marks') \<Rightarrow> (case collect_components G is marks' of
       None \<Rightarrow> None
     | Some components \<Rightarrow>
         Some (if component = [] then components else component # components)))"

section \<open>Assigning the components\<close>

text \<open>\<open>max_by_key\<close> gives the last maximum, \<open>min_by_key\<close> the first minimum.\<close>

fun max_index :: "nat list \<Rightarrow> nat option" where
  "max_index [] = None"
| "max_index (x # xs) = (case max_index xs of
     None \<Rightarrow> Some 0 | Some i \<Rightarrow> Some (if xs ! i \<ge> x then Suc i else 0))"

fun min_index :: "nat list \<Rightarrow> nat option" where
  "min_index [] = None"
| "min_index (x # xs) = (case min_index xs of
     None \<Rightarrow> Some 0 | Some i \<Rightarrow> Some (if xs ! i < x then Suc i else 0))"

type_synonym buckets = "(thread_id \<times> nat list) list"

definition remove_nth :: "nat \<Rightarrow> 'a list \<Rightarrow> 'a list" where
  "remove_nth i xs = take i xs @ drop (Suc i) xs"

definition extend_bucket :: "nat \<Rightarrow> nat list \<Rightarrow> buckets \<Rightarrow> buckets" where
  "extend_bucket j component bs = bs[j := (fst (bs ! j), snd (bs ! j) @ component)]"

lemma max_index_less: "max_index xs = Some i \<Longrightarrow> i < length xs"
  by (induction xs arbitrary: i) (auto split: option.splits if_splits)

lemma min_index_less: "min_index xs = Some i \<Longrightarrow> i < length xs"
  by (induction xs arbitrary: i) (auto split: option.splits if_splits)

function assign_loop :: "nat list list \<Rightarrow> buckets \<Rightarrow> buckets panicking" where
  "assign_loop components component_workers =
     (case max_index (map length components) of
        None \<Rightarrow> Inl ''called `Option::unwrap()` on a `None` value''
      | Some index \<Rightarrow> (case min_index (map (\<lambda>(_, v). length v) component_workers) of
          None \<Rightarrow> Inl ''called `Option::unwrap()` on a `None` value''
        | Some j \<Rightarrow>
            (let workers' = extend_bucket j (components ! index) component_workers;
                 components' = remove_nth index components
             in if components' = [] then Inr workers' else assign_loop components' workers')))"
  by auto
termination
proof (relation "measure (\<lambda>(cs, _). length cs)")
  fix components :: "nat list list" and bs index j xs cs
  assume "max_index (map length components) = Some index" "cs = remove_nth index components"
  then show "((cs, xs), (components, bs)) \<in> measure (\<lambda>(cs, _). length cs)"
    using max_index_less by (fastforce simp: remove_nth_def)
qed simp

declare assign_loop.simps [simp del]

section \<open>Tagging\<close>

fun tag_nodes :: "thread_id \<Rightarrow> transaction_id list \<Rightarrow> 'p tx_pool \<Rightarrow> 'p tx_pool panicking" where
  "tag_nodes worker [] pool = Inr pool"
| "tag_nodes worker (tid # tids) pool =
     (case vp_get_mut (\<lambda>t. tx_id t = tid) (\<lambda>tx. tx\<lparr>tx_tag := Done worker\<rparr>) pool of
        None \<Rightarrow> Inl ''called `Option::unwrap()` on a `None` value''
      | Some pool' \<Rightarrow> tag_nodes worker tids pool')"

fun tag_buckets :: "transaction_id list \<Rightarrow> buckets \<Rightarrow> 'p tx_pool \<Rightarrow> 'p tx_pool panicking" where
  "tag_buckets ids [] pool = Inr pool"
| "tag_buckets ids ((worker, nodes) # bs) pool =
     (case tag_nodes worker (map (\<lambda>i. ids ! i) nodes) pool of
        Inl msg \<Rightarrow> Inl msg | Inr pool' \<Rightarrow> tag_buckets ids bs pool')"

text \<open>\<open>validate\<close> gives the keys a transaction announces.\<close>

definition connected_components ::
  "bool \<Rightarrow> ('p transaction \<Rightarrow> state_key list) \<Rightarrow> 'p distributer" where
  "connected_components dbg validate worker_ids pool =
     (let hints = map validate (vp_iter pool);
          ids = map tx_id (vp_iter pool)
      in case collect_components (build_graph hints) [0..<length hints] (\<lambda>_. None) of
           None \<Rightarrow> None
         | Some components \<Rightarrow> Some (
             if dbg \<and> sum_list (map length components) \<noteq> vp_len pool
             then Inl ''All transactions must be assigned to a component.''
             else case assign_loop components
                    (map (\<lambda>i. (i, [])) (sorted_list_of_set (set worker_ids))) of
               Inl msg \<Rightarrow> Inl msg
             | Inr component_workers \<Rightarrow>
                 if dbg \<and> sum_list (map (\<lambda>(_, v). length v) component_workers) \<noteq> vp_len pool
                 then Inl ''all transactions within the components must be assigned to a worker.''
                 else case tag_buckets ids component_workers pool of
                   Inl msg \<Rightarrow> Inl msg
                 | Inr pool' \<Rightarrow>
                     if dbg \<and> \<not> list_all (\<lambda>tx. case tx_tag tx of Done _ \<Rightarrow> True | _ \<Rightarrow> False) (vp_iter pool')
                     then Inl ''All transactions inside the pool must have a Done(_) status.''
                     else Inr pool'))"

definition tx_hints :: "bool \<Rightarrow> ('p, 'z) staking_env_scheme \<Rightarrow> 'p transaction \<Rightarrow> state_key list" where
  "tx_hints no_access E tx = outer_validate no_access E (tx_function tx) (fst (tx_signature tx))"

section \<open>The graph that is built\<close>

lemma fold_add_key:
  "fold (\<lambda>key G. add_key i key G) ks G = G\<lparr>tx_keys := (tx_keys G)(i := tx_keys G i @ ks)\<rparr>"
  by (induction ks arbitrary: G) (simp_all add: add_key_def)

lemma fold_add_tx:
  "tx_keys (fold (\<lambda>key G. add_tx key i G) ks G) = tx_keys G"
  "set (key_txs (fold (\<lambda>key G. add_tx key i G) ks G) k)
     = set (key_txs G k) \<union> (if k \<in> set ks then {i} else {})"
  by (induction ks arbitrary: G) (auto simp: add_tx_def)

lemma graph_add_sel:
  "tx_keys (graph_add (i, ks) G) = (tx_keys G)(i := tx_keys G i @ ks)"
  "set (key_txs (graph_add (i, ks) G) k) = set (key_txs G k) \<union> (if k \<in> set ks then {i} else {})"
  by (simp_all add: graph_add_def fold_add_key fold_add_tx)

lemma fold_graph_add:
  assumes "\<forall>i\<ge>n. tx_keys G i = []"
  shows "tx_keys (fold graph_add (enumerate n hs) G) i =
      (if n \<le> i \<and> i < n + length hs then hs ! (i - n) else tx_keys G i)"
    and "set (key_txs (fold graph_add (enumerate n hs) G) k) =
      set (key_txs G k) \<union> {i. n \<le> i \<and> i < n + length hs \<and> k \<in> set (hs ! (i - n))}"
  using assms
proof (induction hs arbitrary: n G)
  case Nil
  { case 1 show ?case by auto next case 2 show ?case by auto }
next
  case (Cons h hs)
  { case (1 n G)
    let ?G = "graph_add (n, h) G"
    have "\<forall>i\<ge>Suc n. tx_keys ?G i = []" using 1 by (auto simp: graph_add_sel Suc_le_eq)
    from Cons.IH(1)[OF this] 1 show ?case
      by (auto simp: graph_add_sel nth_Cons' less_Suc_eq_le)
  next
    case (2 n G)
    let ?G = "graph_add (n, h) G"
    have "\<forall>i\<ge>Suc n. tx_keys ?G i = []" using 2 by (auto simp: graph_add_sel Suc_le_eq)
    moreover have "{i. n \<le> i \<and> i < n + length (h # hs) \<and> k \<in> set ((h # hs) ! (i - n))}
        = {i. Suc n \<le> i \<and> i < Suc n + length hs \<and> k \<in> set (hs ! (i - Suc n))}
          \<union> (if k \<in> set h then {n} else {})"
      by (auto simp: nth_Cons' Suc_le_eq split: if_splits)
    ultimately show ?case
      using Cons.IH(2)[of "Suc n" ?G] by (auto simp: graph_add_sel) }
qed

lemma build_graph_sel:
  "tx_keys (build_graph hints) i = (if i < length hints then hints ! i else [])"
  "set (key_txs (build_graph hints) k) = {i. i < length hints \<and> k \<in> set (hints ! i)}"
  unfolding build_graph_def
  using fold_graph_add(1)[of 0 graph_new hints i] fold_graph_add(2)[of 0 graph_new hints k]
  by (simp_all add: graph_new_def)

definition linked_nodes :: "tx_graph \<Rightarrow> (node_ref \<times> node_ref) set" where
  "linked_nodes G = {(a, b). b \<in> set (neighbours G a)}"

definition graph_nodes :: "state_key list list \<Rightarrow> node_ref set" where
  "graph_nodes hints = TxRef ` {..<length hints} \<union> KeyRef ` (\<Union>h\<in>set hints. set h)"

lemma finite_graph_nodes [simp]: "finite (graph_nodes hints)"
  by (simp add: graph_nodes_def)

lemma neighbours_in_graph: "set (neighbours (build_graph hints) x) \<subseteq> graph_nodes hints"
proof (cases x)
  case (TxRef i)
  then show ?thesis
    by (auto simp: build_graph_sel graph_nodes_def split: if_splits) (metis nth_mem UN_I imageI)
qed (auto simp: build_graph_sel graph_nodes_def)

lemma linked_sym: "(a, b) \<in> linked_nodes (build_graph hints) \<Longrightarrow> (b, a) \<in> linked_nodes (build_graph hints)"
  by (cases a; cases b) (auto simp: linked_nodes_def build_graph_sel split: if_splits)

section \<open>The search\<close>

text \<open>Every neighbour of a marked node is marked or still waits in the queue.\<close>

definition closed_up_to :: "tx_graph \<Rightarrow> marks \<Rightarrow> node_ref set \<Rightarrow> bool" where
  "closed_up_to G M X \<longleftrightarrow> (\<forall>x\<in>dom M. \<forall>y\<in>set (neighbours G x). y \<in> dom M \<or> y \<in> X)"

lemma visit_eq: "visit cid n M = (M n = None, if M n = None then M(n := Some cid) else M)"
  by (simp add: visit_def split: option.split)

lemma traverse_loop_spec:
  assumes "finite V" "\<And>x. set (neighbours G x) \<subseteq> V"
    and "set queue \<subseteq> V" "closed_up_to G M (set queue)"
  shows "\<exists>c M'. traverse_loop G cid queue M acc = Some (acc @ c, M')
     \<and> closed_up_to G M' {} \<and> dom M \<subseteq> dom M' \<and> set queue \<subseteq> dom M'
     \<and> distinct c \<and> set c = {i. TxRef i \<in> dom M' - dom M}
     \<and> (\<forall>x\<in>dom M' - dom M. \<exists>q\<in>set queue. (q, x) \<in> (linked_nodes G)\<^sup>*)"
  using assms(3,4)
proof (induction "(card (V - dom M), length (filter (\<lambda>x. x \<in> dom M) queue))"
    arbitrary: queue M acc rule: wf_induct_rule[OF wf_lex_prod[OF wf_less_than wf_less_than]])
  case (1 queue M acc)
  show ?case
  proof (cases queue)
    case Nil
    then show ?thesis
      using 1(3) by (auto simp: traverse_loop.simps)
  next
    case (Cons x rest)
    define M1 where "M1 = (if M x = None then M(x := Some cid) else M)"
    define new where "new = filter (\<lambda>n. M1 n = None) (neighbours G x)"
    define acc1 where "acc1 = (if M x = None then acc @ tx_index x else acc)"
    have run: "traverse_loop G cid queue M acc = traverse_loop G cid (rest @ new) M1 acc1"
      by (subst traverse_loop.simps) (simp add: Cons visit_eq M1_def new_def acc1_def)
    have M1: "dom M1 = insert x (dom M)"
      by (auto simp: M1_def)
    have smaller: "((card (V - dom M1), length (filter (\<lambda>x. x \<in> dom M1) (rest @ new))),
        card (V - dom M), length (filter (\<lambda>x. x \<in> dom M) queue)) \<in> less_than <*lex*> less_than"
    proof (cases "M x = None")
      case True
      then have "V - dom M1 \<subset> V - dom M"
        using 1(2) Cons M1 by auto
      then show ?thesis
        using psubset_card_mono[of "V - dom M" "V - dom M1"] assms(1) by simp
    next
      case False
      then have "dom M1 = dom M" "filter (\<lambda>x. x \<in> dom M) new = []"
        using M1 by (auto simp: new_def M1_def filter_empty_conv)
      then show ?thesis
        using Cons False by auto
    qed
    have sub: "set (rest @ new) \<subseteq> V"
      using 1(2) Cons assms(2)[of x] by (auto simp: new_def)
    have closed: "closed_up_to G M1 (set (rest @ new))"
      using 1(3) Cons M1 by (auto simp: closed_up_to_def new_def M1_def split: if_splits)
    from 1(1)[OF smaller sub closed, of acc1] obtain c M' where
      res: "traverse_loop G cid (rest @ new) M1 acc1 = Some (acc1 @ c, M')"
        "closed_up_to G M' {}" "dom M1 \<subseteq> dom M'" "set (rest @ new) \<subseteq> dom M'"
        "distinct c" "set c = {i. TxRef i \<in> dom M' - dom M1}"
        "\<forall>x\<in>dom M' - dom M1. \<exists>q\<in>set (rest @ new). (q, x) \<in> (linked_nodes G)\<^sup>*"
      by blast
    define c0 where "c0 = (if M x = None then tx_index x @ c else c)"
    have "traverse_loop G cid queue M acc = Some (acc @ c0, M')"
      using run res(1) by (simp add: acc1_def c0_def)
    moreover have "distinct c0 \<and> set c0 = {i. TxRef i \<in> dom M' - dom M}"
      using res(3,5,6) M1 by (cases x) (auto simp: c0_def)
    moreover have "\<exists>q\<in>set queue. (q, y) \<in> (linked_nodes G)\<^sup>*" if y: "y \<in> dom M' - dom M" for y
    proof (cases "y = x")
      case False
      with y M1 res(7) obtain q where q: "q \<in> set (rest @ new)" "(q, y) \<in> (linked_nodes G)\<^sup>*"
        by blast
      show ?thesis
      proof (cases "q \<in> set rest")
        case True
        then show ?thesis using q Cons by auto
      next
        case nonrest: False
        then have "(x, q) \<in> linked_nodes G"
          using q(1) by (auto simp: new_def linked_nodes_def)
        then have "(x, y) \<in> (linked_nodes G)\<^sup>*"
          using q(2) by (rule converse_rtrancl_into_rtrancl)
        then show ?thesis using Cons by auto
      qed
    qed (use Cons in auto)
    ultimately show ?thesis
      using res(2-4) M1 Cons by (intro exI[of _ c0] exI[of _ M']) auto
  qed
qed

section \<open>The components\<close>

lemma linked_rtrancl_sym:
  "(a, b) \<in> (linked_nodes (build_graph hints))\<^sup>* \<Longrightarrow> (b, a) \<in> (linked_nodes (build_graph hints))\<^sup>*"
  by (induction rule: rtrancl_induct) (auto intro: converse_rtrancl_into_rtrancl linked_sym)

lemma closed_reaches:
  "(a, b) \<in> (linked_nodes G)\<^sup>* \<Longrightarrow> closed_up_to G M {} \<Longrightarrow> a \<in> dom M \<Longrightarrow> b \<in> dom M"
  by (induction rule: rtrancl_induct) (auto simp: closed_up_to_def linked_nodes_def)

lemma reaches_in_graph:
  "(a, b) \<in> (linked_nodes (build_graph hints))\<^sup>* \<Longrightarrow> a \<in> graph_nodes hints \<Longrightarrow> b \<in> graph_nodes hints"
  by (induction rule: rtrancl_induct) (use neighbours_in_graph in \<open>auto simp: linked_nodes_def\<close>)

text \<open>Two transactions are connected if a chain of shared keys leads from one to the other.\<close>

definition connected :: "state_key list list \<Rightarrow> nat \<Rightarrow> nat \<Rightarrow> bool" where
  "connected hints i j \<longleftrightarrow> (TxRef i, TxRef j) \<in> (linked_nodes (build_graph hints))\<^sup>*"

lemma connected_sym: "connected hints i j \<longleftrightarrow> connected hints j i"
  unfolding connected_def using linked_rtrancl_sym by blast

lemma connected_trans: "connected hints i j \<Longrightarrow> connected hints j k \<Longrightarrow> connected hints i k"
  unfolding connected_def by (rule rtrancl_trans)

lemma shared_connected:
  assumes "i < length hints" "j < length hints" "k \<in> set (hints ! i)" "k \<in> set (hints ! j)"
  shows "connected hints i j"
proof -
  have "(TxRef i, KeyRef k) \<in> linked_nodes (build_graph hints)"
    "(KeyRef k, TxRef j) \<in> linked_nodes (build_graph hints)"
    using assms by (auto simp: linked_nodes_def build_graph_sel)
  then show ?thesis unfolding connected_def by (meson r_into_rtrancl rtrancl_into_rtrancl)
qed

lemma traverse_spec:
  assumes "start < length hints" "closed_up_to (build_graph hints) M {}"
  obtains c M' where "traverse (build_graph hints) start cid M = Some (c, M')"
    "closed_up_to (build_graph hints) M' {}" "dom M \<subseteq> dom M'" "TxRef start \<in> dom M'" "distinct c"
    "set c = {i. TxRef i \<in> dom M' - dom M}" "dom M' \<subseteq> dom M \<union> graph_nodes hints"
    "\<forall>i\<in>set c. \<forall>j. j \<in> set c \<longleftrightarrow> connected hints i j"
proof -
  let ?G = "build_graph hints"
  have V: "TxRef start \<in> graph_nodes hints"
    using assms(1) by (simp add: graph_nodes_def)
  have "closed_up_to ?G M (set [TxRef start])"
    using assms(2) by (auto simp: closed_up_to_def)
  from traverse_loop_spec[OF finite_graph_nodes neighbours_in_graph _ this, of cid "[]"] V
  obtain c M' where res: "traverse_loop ?G cid [TxRef start] M [] = Some (c, M')"
      "closed_up_to ?G M' {}" "dom M \<subseteq> dom M'" "TxRef start \<in> dom M'"
      "distinct c" "set c = {i. TxRef i \<in> dom M' - dom M}"
      "\<forall>x\<in>dom M' - dom M. (TxRef start, x) \<in> (linked_nodes ?G)\<^sup>*"
    by auto
  have conn: "j \<in> set c \<longleftrightarrow> connected hints i j" if i: "i \<in> set c" for i j
  proof
    assume "j \<in> set c"
    then have "connected hints start i" "connected hints start j"
      using res(6,7) i by (auto simp: connected_def)
    then show "connected hints i j"
      using connected_sym connected_trans by metis
  next
    assume c: "connected hints i j"
    then have "TxRef j \<in> dom M'"
      using closed_reaches[OF _ res(2)] i res(6) by (auto simp: connected_def)
    moreover have "TxRef j \<notin> dom M"
      using closed_reaches[OF _ assms(2)] c i res(6) connected_sym[of hints i j]
      by (auto simp: connected_def)
    ultimately show "j \<in> set c" using res(6) by auto
  qed
  have sub: "dom M' \<subseteq> dom M \<union> graph_nodes hints"
    using res(7) reaches_in_graph[OF _ V] by auto
  show thesis
  proof (rule that[of c M'])
    show "traverse ?G start cid M = Some (c, M')"
      using res(1) by (simp add: traverse_def)
    show "\<forall>i\<in>set c. \<forall>j. j \<in> set c \<longleftrightarrow> connected hints i j"
      using conn by blast
  qed (fact res(2-6) sub)+
qed

lemma collect_components_spec:
  assumes "set is \<subseteq> {..<length hints}" "closed_up_to (build_graph hints) M {}"
  shows "\<exists>cs D. collect_components (build_graph hints) is M = Some cs
     \<and> dom M \<subseteq> D \<and> TxRef ` set is \<subseteq> D \<and> D \<subseteq> dom M \<union> graph_nodes hints
     \<and> distinct (concat cs) \<and> set (concat cs) = {i. TxRef i \<in> D - dom M}
     \<and> (\<forall>c\<in>set cs. c \<noteq> [] \<and> (\<forall>i\<in>set c. \<forall>j. j \<in> set c \<longleftrightarrow> connected hints i j))"
  using assms
proof (induction "is" arbitrary: M)
  case Nil
  then show ?case by (intro exI[of _ "[]"] exI[of _ "dom M"]) auto
next
  case (Cons i "is")
  have i: "i < length hints" using Cons.prems(1) by simp
  obtain c M' where
    t: "traverse (build_graph hints) i (of_nat i) M = Some (c, M')"
    "closed_up_to (build_graph hints) M' {}" "dom M \<subseteq> dom M'" "TxRef i \<in> dom M'" "distinct c"
    "set c = {i. TxRef i \<in> dom M' - dom M}" "dom M' \<subseteq> dom M \<union> graph_nodes hints"
    "\<forall>i\<in>set c. \<forall>j. j \<in> set c \<longleftrightarrow> connected hints i j"
    by (rule traverse_spec[OF i Cons.prems(2)])
  have "set is \<subseteq> {..<length hints}" using Cons.prems(1) by simp
  from Cons.IH[OF this t(2)] obtain cs D where
    cs: "collect_components (build_graph hints) is M' = Some cs"
    "dom M' \<subseteq> D" "TxRef ` set is \<subseteq> D" "D \<subseteq> dom M' \<union> graph_nodes hints"
    "distinct (concat cs)" "set (concat cs) = {i. TxRef i \<in> D - dom M'}"
    "\<forall>c\<in>set cs. c \<noteq> [] \<and> (\<forall>i\<in>set c. \<forall>j. j \<in> set c \<longleftrightarrow> connected hints i j)"
    by (elim exE conjE) (rule that)
  let ?all = "if c = [] then cs else c # cs"
  have all: "concat ?all = c @ concat cs"
    by simp
  have "set c \<inter> set (concat cs) = {}"
    unfolding t(6) cs(6) by blast
  then have "distinct (concat ?all)"
    unfolding all distinct_append using t(5) cs(5) by blast
  moreover have "set (concat ?all) = {i. TxRef i \<in> D - dom M}"
    unfolding all set_append t(6) cs(6) using cs(2) t(3) by blast
  moreover have "collect_components (build_graph hints) (i # is) M = Some ?all"
    using t(1) cs(1) by simp
  moreover have "dom M \<subseteq> D" "D \<subseteq> dom M \<union> graph_nodes hints"
    using t(3,7) cs(2,4) by blast+
  moreover have "TxRef ` set (i # is) \<subseteq> D"
    using t(4) cs(2,3) by (simp add: subset_iff)
  moreover have "\<forall>c\<in>set ?all. c \<noteq> [] \<and> (\<forall>i\<in>set c. \<forall>j. j \<in> set c \<longleftrightarrow> connected hints i j)"
    using t(8) cs(7) by (simp split: if_split)
  ultimately show ?case by blast
qed

text \<open>The search always ends, and finds exactly the connected components.\<close>

lemma components_spec:
  obtains cs where "collect_components (build_graph hints) [0..<length hints] (\<lambda>_. None) = Some cs"
    "distinct (concat cs)" "set (concat cs) = {..<length hints}" "[] \<notin> set cs"
    "\<forall>c\<in>set cs. \<forall>i\<in>set c. \<forall>j. j \<in> set c \<longleftrightarrow> connected hints i j"
proof -
  have "closed_up_to (build_graph hints) (\<lambda>_. None) {}"
    by (simp add: closed_up_to_def)
  from collect_components_spec[of "[0..<length hints]", OF _ this] obtain cs D where
    cs: "collect_components (build_graph hints) [0..<length hints] (\<lambda>_. None) = Some cs"
    "TxRef ` {..<length hints} \<subseteq> D" "D \<subseteq> graph_nodes hints"
    "distinct (concat cs)" "set (concat cs) = {i. TxRef i \<in> D}"
    "\<forall>c\<in>set cs. c \<noteq> [] \<and> (\<forall>i\<in>set c. \<forall>j. j \<in> set c \<longleftrightarrow> connected hints i j)"
    unfolding set_upt dom_empty Un_empty_left Diff_empty lessThan_atLeast0[symmetric] by blast
  have nodes: "{i. TxRef i \<in> D} = {..<length hints}"
    using cs(2,3) by (auto simp: graph_nodes_def)
  show thesis
  proof (rule that[OF cs(1,4)])
    show "set (concat cs) = {..<length hints}"
      by (simp only: cs(5) nodes)
    show "[] \<notin> set cs" using cs(6) by blast
    show "\<forall>c\<in>set cs. \<forall>i\<in>set c. \<forall>j. j \<in> set c \<longleftrightarrow> connected hints i j"
      using cs(6) by blast
  qed
qed

section \<open>The assignment\<close>

lemma index_exists: "max_index xs = None \<longleftrightarrow> xs = []" "min_index xs = None \<longleftrightarrow> xs = []"
  by (cases xs; auto split: option.splits)+

lemma mset_remove_nth: "i < length xs \<Longrightarrow> add_mset (xs ! i) (mset (remove_nth i xs)) = mset xs"
  unfolding remove_nth_def by (metis id_take_nth_drop mset.simps(2) mset_append union_mset_add_mset_right)

lemma concat_remove_nth:
  "i < length xs \<Longrightarrow> mset (xs ! i) + mset (concat (remove_nth i xs)) = mset (concat xs)"
  unfolding remove_nth_def by (subst (3) id_take_nth_drop[of i xs]) simp_all

lemma extend_bucket_concat:
  assumes "j < length bs"
  shows "mset (concat (map snd (extend_bucket j c bs))) = mset (concat (map snd bs)) + mset c"
proof -
  have "bs = take j bs @ bs ! j # drop (Suc j) bs"
    using assms by (rule id_take_nth_drop)
  then have "mset (concat (map snd bs)) = mset (concat (map snd (take j bs)))
      + (mset (snd (bs ! j)) + mset (concat (map snd (drop (Suc j) bs))))"
    by (metis concat.simps(2) concat_append list.simps(9) map_append mset_append)
  moreover have "extend_bucket j c bs = take j bs @ (fst (bs ! j), snd (bs ! j) @ c) # drop (Suc j) bs"
    using assms by (simp add: extend_bucket_def upd_conv_take_nth_drop)
  ultimately show ?thesis
    by simp
qed

lemma extend_bucket_fst: "map fst (extend_bucket j c bs) = map fst bs"
  by (cases "j < length bs") (auto simp: extend_bucket_def map_update intro: nth_equalityI
      simp: nth_list_update)

text \<open>Every component ends up in one bucket as a whole, and nothing else is put there.\<close>

lemma assign_loop_spec:
  assumes "components \<noteq> []" "bs \<noteq> []"
  shows "\<exists>bs'. assign_loop components bs = Inr bs' \<and> map fst bs' = map fst bs
     \<and> mset (concat (map snd bs')) = mset (concat (map snd bs)) + mset (concat components)
     \<and> (\<forall>b\<in>set bs. \<exists>b'\<in>set bs'. fst b' = fst b \<and> set (snd b) \<subseteq> set (snd b'))
     \<and> (\<forall>c\<in>set components. \<exists>b'\<in>set bs'. set c \<subseteq> set (snd b'))"
  using assms
proof (induction "length components" arbitrary: components bs rule: less_induct)
  case less
  obtain index where i: "max_index (map length components) = Some index"
    using index_exists(1)[of "map length components"] less.prems(1) by auto
  obtain j where j: "min_index (map (\<lambda>(_, v). length v) bs) = Some j"
    using index_exists(2)[of "map (\<lambda>(_, v). length v) bs"] less.prems(2) by auto
  have il: "index < length components" and jl: "j < length bs"
    using max_index_less[OF i] min_index_less[OF j] by simp_all
  let ?c = "components ! index" and ?cs = "remove_nth index components"
  let ?bs = "extend_bucket j (components ! index) bs"
  have run: "assign_loop components bs = (if ?cs = [] then Inr ?bs else assign_loop ?cs ?bs)"
    by (subst assign_loop.simps) (simp add: i j Let_def)
  have fsts: "map fst ?bs = map fst bs" by (rule extend_bucket_fst)
  have grow: "\<exists>b'\<in>set ?bs. fst b' = fst b \<and> set (snd b) \<subseteq> set (snd b')" if "b \<in> set bs" for b
  proof -
    from that obtain n where n: "n < length bs" "b = bs ! n" by (auto simp: in_set_conv_nth)
    then have "fst (?bs ! n) = fst b" "set (snd b) \<subseteq> set (snd (?bs ! n))"
      by (cases "n = j"; simp add: extend_bucket_def)+
    moreover have "?bs ! n \<in> set ?bs"
      using n(1) by (intro nth_mem) (simp add: extend_bucket_def)
    ultimately show ?thesis by blast
  qed
  have this_one: "\<exists>b'\<in>set ?bs. set ?c \<subseteq> set (snd b')"
  proof -
    have "?bs ! j = (fst (bs ! j), snd (bs ! j) @ ?c)"
      using jl by (simp add: extend_bucket_def)
    moreover have "?bs ! j \<in> set ?bs"
      using jl by (intro nth_mem) (simp add: extend_bucket_def)
    ultimately show ?thesis by (metis Un_upper2 set_append snd_conv)
  qed
  have members: "set components = insert ?c (set ?cs)"
    using mset_remove_nth[OF il] by (metis set_mset_add_mset_insert set_mset_mset)
  show ?case
  proof (cases "?cs = []")
    case True
    then show ?thesis
      using run fsts grow this_one members extend_bucket_concat[OF jl, of ?c]
        concat_remove_nth[OF il] by auto
  next
    case False
    have "?bs \<noteq> []" "length ?cs < length components"
      using less.prems(2) il by (auto simp: extend_bucket_def remove_nth_def)
    from less.hyps[OF this(2) False this(1)] obtain bs' where
      ih: "assign_loop ?cs ?bs = Inr bs'" "map fst bs' = map fst ?bs"
      "mset (concat (map snd bs')) = mset (concat (map snd ?bs)) + mset (concat ?cs)"
      "\<forall>b\<in>set ?bs. \<exists>b'\<in>set bs'. fst b' = fst b \<and> set (snd b) \<subseteq> set (snd b')"
      "\<forall>c\<in>set ?cs. \<exists>b'\<in>set bs'. set c \<subseteq> set (snd b')"
      by (elim exE conjE) (rule that)
    have "mset (concat (map snd bs')) = mset (concat (map snd bs)) + mset (concat components)"
      using ih(3) extend_bucket_concat[OF jl, of ?c] concat_remove_nth[OF il] by simp
    moreover have "\<forall>b\<in>set bs. \<exists>b'\<in>set bs'. fst b' = fst b \<and> set (snd b) \<subseteq> set (snd b')"
      using grow ih(4) by (metis (no_types, lifting) subset_trans)
    moreover have "\<forall>c\<in>set components. \<exists>b'\<in>set bs'. set c \<subseteq> set (snd b')"
      using this_one ih(4,5) unfolding members by (metis insert_iff subset_trans)
    ultimately show ?thesis
      using run False ih(1,2) fsts by auto
  qed
qed

section \<open>The tags\<close>

text \<open>Two pools that differ in tags only.\<close>

definition same_but_tags :: "'p tx_pool \<Rightarrow> 'p tx_pool \<Rightarrow> bool" where
  "same_but_tags p q \<longleftrightarrow> map (\<lambda>tx. tx\<lparr>tx_tag := NotExecuted\<rparr>) (vp_all p)
     = map (\<lambda>tx. tx\<lparr>tx_tag := NotExecuted\<rparr>) (vp_all q)"

lemma same_but_tags_ids:
  assumes "same_but_tags p q"
  shows "map tx_id (vp_all p) = map tx_id (vp_all q)" "length (vp_all p) = length (vp_all q)"
proof -
  have "map tx_id (map (\<lambda>tx. tx\<lparr>tx_tag := NotExecuted\<rparr>) (vp_all p))
      = map tx_id (map (\<lambda>tx. tx\<lparr>tx_tag := NotExecuted\<rparr>) (vp_all q))"
    using assms by (simp only: same_but_tags_def)
  then show "map tx_id (vp_all p) = map tx_id (vp_all q)"
    by (simp add: comp_def)
  then show "length (vp_all p) = length (vp_all q)"
    by (metis length_map)
qed

lemma get_mut_by_id:
  assumes "distinct (map tx_id (vp_all p))" "i < length (vp_all p)" "tid = tx_id (vp_all p ! i)"
  shows "vp_get_mut (\<lambda>t. tx_id t = tid) f p = Some (p\<lparr>inner := (inner p)[i := f (vp_all p ! i)]\<rparr>)"
proof -
  have split: "vp_all p = take i (vp_all p) @ vp_all p ! i # drop (Suc i) (vp_all p)"
    using assms(2) by (rule id_take_nth_drop)
  have "\<forall>x\<in>set (take i (vp_all p)). tx_id x \<noteq> tid"
    using assms by (auto simp: in_set_conv_nth distinct_conv_nth)
  from vec.get_split[OF split _ this] assms(2,3) show ?thesis
    by (simp add: vp_get_mut_def min_absorb2)
qed

lemma tag_nodes_spec:
  assumes "distinct (map tx_id (vp_all p))" "set is \<subseteq> {..<length (vp_all p)}"
    and ids: "ids = map tx_id (vp_all p)"
  shows "\<exists>p'. tag_nodes w (map (\<lambda>i. ids ! i) is) p = Inr p' \<and> same_but_tags p p'
     \<and> (\<forall>i<length (vp_all p). tx_tag (vp_all p' ! i)
          = (if i \<in> set is then Done w else tx_tag (vp_all p ! i)))"
  using assms
proof (induction "is" arbitrary: p)
  case Nil
  then show ?case by (simp add: same_but_tags_def)
next
  case (Cons i "is")
  let ?p = "p\<lparr>inner := (inner p)[i := (vp_all p ! i)\<lparr>tx_tag := Done w\<rparr>]\<rparr>"
  have il: "i < length (vp_all p)" using Cons.prems(2) by simp
  have first: "vp_get_mut (\<lambda>t. tx_id t = ids ! i) (\<lambda>tx. tx\<lparr>tx_tag := Done w\<rparr>) p = Some ?p"
    by (rule get_mut_by_id[OF Cons.prems(1) il]) (use il Cons.prems(3) in simp)
  have all: "vp_all ?p = (vp_all p)[i := (vp_all p ! i)\<lparr>tx_tag := Done w\<rparr>]"
    by (simp add: vp_all_def)
  have same: "same_but_tags p ?p"
    unfolding same_but_tags_def all map_update using il
    by (intro nth_equalityI) (auto simp: nth_list_update)
  note idp = same_but_tags_ids[OF same]
  have "distinct (map tx_id (vp_all ?p))" "set is \<subseteq> {..<length (vp_all ?p)}" "ids = map tx_id (vp_all ?p)"
    using Cons.prems idp by auto
  from Cons.IH[OF this] obtain p' where
    p': "tag_nodes w (map (\<lambda>i. ids ! i) is) ?p = Inr p'" "same_but_tags ?p p'"
    "\<forall>j<length (vp_all ?p). tx_tag (vp_all p' ! j)
       = (if j \<in> set is then Done w else tx_tag (vp_all ?p ! j))"
    by (elim exE conjE) (rule that)
  have "tx_tag (vp_all p' ! j) = (if j \<in> set (i # is) then Done w else tx_tag (vp_all p ! j))"
    if j: "j < length (vp_all p)" for j
    using p'(3) j il unfolding all by (auto simp: nth_list_update)
  moreover have "same_but_tags p p'"
    using same p'(2) by (simp add: same_but_tags_def)
  ultimately show ?case
    using first p'(1) by auto
qed

lemma tag_buckets_spec:
  assumes "distinct (map tx_id (vp_all p))" "set (concat (map snd bs)) \<subseteq> {..<length (vp_all p)}"
    and "distinct (concat (map snd bs))" and ids: "ids = map tx_id (vp_all p)"
  shows "\<exists>p'. tag_buckets ids bs p = Inr p' \<and> same_but_tags p p'
     \<and> (\<forall>(w, v)\<in>set bs. \<forall>i\<in>set v. tx_tag (vp_all p' ! i) = Done w)
     \<and> (\<forall>i<length (vp_all p). i \<notin> set (concat (map snd bs)) \<longrightarrow>
          tx_tag (vp_all p' ! i) = tx_tag (vp_all p ! i))"
  using assms
proof (induction bs arbitrary: p)
  case Nil
  then show ?case by (simp add: same_but_tags_def)
next
  case (Cons b bs)
  obtain w v where b: "b = (w, v)" by fastforce
  have v: "set v \<subseteq> {..<length (vp_all p)}"
    using Cons.prems(2) b by simp
  from tag_nodes_spec[OF Cons.prems(1) v Cons.prems(4), of w] obtain p1 where
    p1: "tag_nodes w (map (\<lambda>i. ids ! i) v) p = Inr p1" "same_but_tags p p1"
    "\<forall>i<length (vp_all p). tx_tag (vp_all p1 ! i) = (if i \<in> set v then Done w else tx_tag (vp_all p ! i))"
    by (elim exE conjE) (rule that)
  note idp = same_but_tags_ids[OF p1(2)]
  have "distinct (map tx_id (vp_all p1))" "set (concat (map snd bs)) \<subseteq> {..<length (vp_all p1)}"
    "distinct (concat (map snd bs))" "ids = map tx_id (vp_all p1)"
    using Cons.prems idp by simp_all
  from Cons.IH[OF this] obtain p' where
    p': "tag_buckets ids bs p1 = Inr p'" "same_but_tags p1 p'"
    "\<forall>(w, v)\<in>set bs. \<forall>i\<in>set v. tx_tag (vp_all p' ! i) = Done w"
    "\<forall>i<length (vp_all p1). i \<notin> set (concat (map snd bs)) \<longrightarrow>
          tx_tag (vp_all p' ! i) = tx_tag (vp_all p1 ! i)"
    by (elim exE conjE) (rule that)
  have mine: "tx_tag (vp_all p' ! i) = Done w" if "i \<in> set v" for i
  proof -
    have "i < length (vp_all p)" using v that by auto
    moreover have "i \<notin> set (concat (map snd bs))"
      using Cons.prems(3) that unfolding b by (simp only: list.map concat.simps distinct_append) auto
    ultimately show ?thesis
      using p1(3) p'(4) that idp(2) by simp
  qed
  have others: "tx_tag (vp_all p' ! i) = tx_tag (vp_all p ! i)"
    if "i < length (vp_all p)" "i \<notin> set (concat (map snd (b # bs)))" for i
    using p1(3) p'(4) that idp(2) b by simp
  have "same_but_tags p p'"
    using p1(2) p'(2) by (simp add: same_but_tags_def)
  with p1(1) p'(1,3) mine others show ?case
    unfolding b by auto
qed

section \<open>The contract of a distributer\<close>

text \<open>
  With at least one worker and one transaction, and distinct identifiers, every transaction is
  assigned to a worker and nothing else is changed.
\<close>

locale distributer_laws =
  fixes D :: "'p distributer"
  assumes distributes: "ws \<noteq> [] \<Longrightarrow> vp_all p \<noteq> [] \<Longrightarrow> distinct (map tx_id (vp_all p)) \<Longrightarrow>
    \<exists>p'. D ws p = Some (Inr p') \<and> same_but_tags p p'
       \<and> (\<forall>tx\<in>set (vp_all p'). \<exists>w\<in>set ws. tx_tag tx = Done w)"
begin

lemma assigned:
  assumes "ws \<noteq> []" "vp_all p \<noteq> []" "distinct (map tx_id (vp_all p))"
  obtains p' where "D ws p = Some (Inr p')" "map tx_id (vp_all p') = map tx_id (vp_all p)"
    "\<forall>tx\<in>set (vp_all p'). \<exists>w\<in>set ws. tx_tag tx = Done w"
  using distributes[OF assms] same_but_tags_ids by metis

end

lemma round_robin_result:
  "ws \<noteq> [] \<Longrightarrow> round_robin ws p = Some (Inr (vp_iter_mut
      (\<lambda>idx tx. tx\<lparr>tx_tag := Done (ws ! (idx mod length ws))\<rparr>) p))"
  by (simp add: round_robin_def)

lemma iter_mut_nth:
  "i < length (vp_all p) \<Longrightarrow> vp_all (vp_iter_mut f p) ! i = f i (vp_all p ! i)"
  "length (vp_all (vp_iter_mut f p)) = length (vp_all p)"
  by (simp_all add: vp_iter_mut_def vp_all_def enumerate_eq_zip)

interpretation rr: distributer_laws round_robin
proof unfold_locales
  fix ws :: "thread_id list" and p :: "'a tx_pool"
  assume "ws \<noteq> []"
  let ?p' = "vp_iter_mut (\<lambda>idx tx. tx\<lparr>tx_tag := Done (ws ! (idx mod length ws))\<rparr>) p"
  have "same_but_tags p ?p'"
    unfolding same_but_tags_def by (rule nth_equalityI) (simp_all add: iter_mut_nth)
  moreover have "\<exists>w\<in>set ws. tx_tag tx = Done w" if "tx \<in> set (vp_all ?p')" for tx
  proof -
    from that obtain i where "i < length (vp_all p)" "tx = vp_all ?p' ! i"
      by (auto simp: in_set_conv_nth iter_mut_nth)
    then show ?thesis using \<open>ws \<noteq> []\<close> by (simp add: iter_mut_nth)
  qed
  ultimately show "\<exists>p'. round_robin ws p = Some (Inr p') \<and> same_but_tags p p'
       \<and> (\<forall>tx\<in>set (vp_all p'). \<exists>w\<in>set ws. tx_tag tx = Done w)"
    using round_robin_result[OF \<open>ws \<noteq> []\<close>] by blast
qed

lemma connected_components_result:
  assumes ws: "ws \<noteq> []" and txs: "vp_all p \<noteq> []" and ids: "distinct (map tx_id (vp_all p))"
  obtains p' where "connected_components dbg validate ws p = Some (Inr p')" "same_but_tags p p'"
    "\<forall>tx\<in>set (vp_all p'). \<exists>w\<in>set ws. tx_tag tx = Done w"
    "\<forall>i j. i < length (vp_all p) \<longrightarrow> connected (map validate (vp_all p)) i j \<longrightarrow>
       tx_tag (vp_all p' ! i) = tx_tag (vp_all p' ! j)"
proof -
  define hints where "hints = map validate (vp_all p)"
  let ?n = "length (vp_all p)" and ?idl = "map tx_id (vp_all p)"
  let ?bs0 = "map (\<lambda>i. (i, [])) (sorted_list_of_set (set ws)) :: buckets"
  have n: "length hints = ?n" by (simp add: hints_def)
  obtain cs where cs: "collect_components (build_graph hints) [0..<?n] (\<lambda>_. None) = Some cs"
    "distinct (concat cs)" "set (concat cs) = {..<?n}" "[] \<notin> set cs"
    "\<forall>c\<in>set cs. \<forall>i\<in>set c. \<forall>j. j \<in> set c \<longleftrightarrow> connected hints i j"
    using components_spec[of hints] unfolding n by blast
  have len: "length (concat cs) = ?n"
    using distinct_card[OF cs(2)] cs(3) by simp
  have "cs \<noteq> []" using len txs by auto
  moreover have "?bs0 \<noteq> []" using ws by simp
  ultimately obtain bs where bs: "assign_loop cs ?bs0 = Inr bs" "map fst bs = map fst ?bs0"
    "mset (concat (map snd bs)) = mset (concat (map snd ?bs0)) + mset (concat cs)"
    "\<forall>c\<in>set cs. \<exists>b'\<in>set bs. set c \<subseteq> set (snd b')"
    using assign_loop_spec by meson
  have "concat (map snd ?bs0) = []" by (simp add: comp_def)
  then have all: "mset (concat (map snd bs)) = mset (concat cs)"
    using bs(3) by simp
  then have b: "distinct (concat (map snd bs))" "set (concat (map snd bs)) = {..<?n}"
      "length (concat (map snd bs)) = ?n"
    using cs(2,3) len by (metis mset_eq_imp_distinct_iff, metis mset_eq_setD, metis mset_eq_length)
  obtain p' where p': "tag_buckets ?idl bs p = Inr p'" "same_but_tags p p'"
    "\<forall>(w, v)\<in>set bs. \<forall>i\<in>set v. tx_tag (vp_all p' ! i) = Done w"
    using tag_buckets_spec[OF ids _ b(1) refl] b(2) by blast
  have tag: "\<exists>w\<in>set ws. tx_tag (vp_all p' ! i) = Done w" if "i < ?n" for i
  proof -
    have "i \<in> set (concat (map snd bs))" using b(2) that by simp
    then obtain w v where wv: "(w, v) \<in> set bs" "i \<in> set v" by auto
    then have "w \<in> set (map fst bs)" by force
    then show ?thesis using bs(2) p'(3) wv by (auto simp: comp_def)
  qed
  have done_all: "\<forall>tx\<in>set (vp_all p'). \<exists>w\<in>set ws. tx_tag tx = Done w"
    using tag same_but_tags_ids(2)[OF p'(2)] by (auto simp: in_set_conv_nth)
  have same: "tx_tag (vp_all p' ! i) = tx_tag (vp_all p' ! j)"
    if "i < ?n" "connected hints i j" for i j
  proof -
    have "i \<in> set (concat cs)" using cs(3) that(1) by simp
    then obtain c where c: "c \<in> set cs" "i \<in> set c" by auto
    then have "j \<in> set c" using cs(5) that(2) by blast
    moreover obtain w v where wv: "(w, v) \<in> set bs" "set c \<subseteq> set v" using bs(4) c(1) by fastforce
    have "\<forall>i\<in>set v. tx_tag (vp_all p' ! i) = Done w" using p'(3) wv(1) by blast
    ultimately have "tx_tag (vp_all p' ! i) = Done w" "tx_tag (vp_all p' ! j) = Done w"
      using wv(2) c(2) by blast+
    then show ?thesis by (rule trans[OF _ sym])
  qed
  have sums: "sum_list (map length cs) = ?n" "sum_list (map (\<lambda>(_, v). length v) bs) = ?n"
    using len b(3) by (simp_all add: length_concat comp_def split_def)
  have "connected_components dbg validate ws p = Some (Inr p')"
    using cs(1) bs(1) p'(1) sums done_all
    by (auto simp: connected_components_def Let_def vp_iter_def vp_len_def list_all_iff
        vp_all_def[symmetric] hints_def[symmetric] n split: execution_tag.splits)
  then show thesis
    using p'(2) done_all same that unfolding hints_def by blast
qed

interpretation cc: distributer_laws "connected_components dbg validate" for dbg validate
proof unfold_locales
  fix ws :: "thread_id list" and p :: "'a tx_pool"
  assume "ws \<noteq> []" "vp_all p \<noteq> []" "distinct (map tx_id (vp_all p))"
  then show "\<exists>p'. connected_components dbg validate ws p = Some (Inr p') \<and> same_but_tags p p'
       \<and> (\<forall>tx\<in>set (vp_all p'). \<exists>w\<in>set ws. tx_tag tx = Done w)"
    by (rule connected_components_result) blast
qed

section \<open>When the distribution panics\<close>

text \<open>
  A search by identifier finds the first transaction with it, so one that comes after another with
  the same identifier is never tagged.
\<close>

definition shadowed :: "transaction_id list \<Rightarrow> nat \<Rightarrow> bool" where
  "shadowed ids j \<longleftrightarrow> (\<exists>i<j. ids ! i = ids ! j)"

definition keeps_shadowed :: "'p tx_pool \<Rightarrow> 'p tx_pool \<Rightarrow> bool" where
  "keeps_shadowed p p' \<longleftrightarrow> map tx_id (vp_all p') = map tx_id (vp_all p)
     \<and> (\<forall>j<length (vp_all p). shadowed (map tx_id (vp_all p)) j \<longrightarrow> vp_all p' ! j = vp_all p ! j)"

lemma keeps_shadowed_refl: "keeps_shadowed p p"
  by (simp add: keeps_shadowed_def)

lemma keeps_shadowed_trans:
  assumes "keeps_shadowed p q" "keeps_shadowed q r"
  shows "keeps_shadowed p r"
proof -
  have "length (vp_all q) = length (vp_all p)"
    using assms(1) unfolding keeps_shadowed_def by (metis length_map)
  then show ?thesis using assms by (simp add: keeps_shadowed_def)
qed

lemma not_distinct_shadowed: "\<not> distinct ids \<Longrightarrow> \<exists>j<length ids. shadowed ids j"
  unfolding distinct_conv_nth shadowed_def by (metis linorder_neqE_nat)

lemma get_mut_first:
  assumes "tid \<in> set (map tx_id (vp_all p))" "\<And>tx. tx_id (f tx) = tx_id tx"
  shows "\<exists>p'. vp_get_mut (\<lambda>t. tx_id t = tid) f p = Some p' \<and> keeps_shadowed p p'"
proof -
  obtain ys x zs where split: "vp_all p = ys @ x # zs" "tx_id x = tid" "\<forall>y\<in>set ys. tx_id y \<noteq> tid"
    using assms(1) split_list_first_prop[of "vp_all p" "\<lambda>t. tx_id t = tid"] by auto
  let ?i = "length ys" and ?p = "p\<lparr>inner := (inner p)[length ys := f x]\<rparr>"
  have get: "vp_get_mut (\<lambda>t. tx_id t = tid) f p = Some ?p"
    using vec.get_split[OF split(1,2,3)] by (simp add: vp_get_mut_def)
  have "map tx_id (vp_all ?p) = map tx_id (vp_all p)"
    using split(1) assms(2) by (simp add: vp_all_def)
  moreover have "\<not> shadowed (map tx_id (vp_all p)) ?i"
    using split by (auto simp: shadowed_def nth_append)
  moreover have "vp_all ?p ! j = vp_all p ! j" if "j \<noteq> ?i" for j
    using that by (simp add: vp_all_def)
  ultimately have "keeps_shadowed p ?p" unfolding keeps_shadowed_def by metis
  with get show ?thesis by blast
qed

lemma tag_nodes_keeps:
  "set tids \<subseteq> set (map tx_id (vp_all p)) \<Longrightarrow> \<exists>p'. tag_nodes w tids p = Inr p' \<and> keeps_shadowed p p'"
proof (induction tids arbitrary: p)
  case Nil
  then show ?case by (simp add: keeps_shadowed_refl)
next
  case (Cons tid tids)
  obtain q where q: "vp_get_mut (\<lambda>t. tx_id t = tid) (\<lambda>tx. tx\<lparr>tx_tag := Done w\<rparr>) p = Some q" "keeps_shadowed p q"
    using get_mut_first[of tid p "\<lambda>tx. tx\<lparr>tx_tag := Done w\<rparr>"] Cons.prems by auto
  moreover have "set tids \<subseteq> set (map tx_id (vp_all q))"
    using Cons.prems q(2) by (simp add: keeps_shadowed_def flip: set_map)
  ultimately show ?case using Cons.IH[of q] by (auto intro: keeps_shadowed_trans)
qed

lemma tag_buckets_keeps:
  "ids = map tx_id (vp_all p) \<Longrightarrow> set (concat (map snd bs)) \<subseteq> {..<length ids} \<Longrightarrow>
     \<exists>p'. tag_buckets ids bs p = Inr p' \<and> keeps_shadowed p p'"
proof (induction bs arbitrary: p)
  case Nil
  then show ?case by (simp add: keeps_shadowed_refl)
next
  case (Cons b bs)
  obtain w v where b: "b = (w, v)" by fastforce
  have "set (map (\<lambda>i. ids ! i) v) \<subseteq> set ids" using Cons.prems(2) by (auto simp: b)
  then obtain q where q: "tag_nodes w (map (\<lambda>i. ids ! i) v) p = Inr q" "keeps_shadowed p q"
    using tag_nodes_keeps[of "map (\<lambda>i. ids ! i) v" p w] Cons.prems(1) by blast
  then obtain p' where "tag_buckets ids bs q = Inr p'" "keeps_shadowed q p'"
    using Cons.IH[of q] Cons.prems by (auto simp: keeps_shadowed_def)
  with q show ?case by (auto simp: b intro: keeps_shadowed_trans)
qed

lemma assign_loop_nothing:
  "cs = [] \<or> bs = [] \<Longrightarrow> assign_loop cs bs = Inl ''called `Option::unwrap()` on a `None` value''"
  by (subst assign_loop.simps) (auto split: option.splits simp: index_exists)

text \<open>The components that are assigned to the workers, or the panic if there is nothing to assign or no worker.\<close>

lemma components_assigned:
  fixes ws :: "thread_id list"
  defines "start \<equiv> map (\<lambda>i. (i, [])) (sorted_list_of_set (set ws))"
  obtains cs where "collect_components (build_graph hints) [0..<length hints] (\<lambda>_. None) = Some cs"
    "sum_list (map length cs) = length hints"
    "if hints = [] \<or> ws = [] then assign_loop cs start = Inl ''called `Option::unwrap()` on a `None` value''
     else \<exists>bs. assign_loop cs start = Inr bs \<and> sum_list (map (\<lambda>(_, v). length v) bs) = length hints
        \<and> distinct (concat (map snd bs)) \<and> set (concat (map snd bs)) = {..<length hints}"
proof -
  obtain cs where cs: "collect_components (build_graph hints) [0..<length hints] (\<lambda>_. None) = Some cs"
    "distinct (concat cs)" "set (concat cs) = {..<length hints}" "[] \<notin> set cs"
    "\<forall>c\<in>set cs. \<forall>i\<in>set c. \<forall>j. j \<in> set c \<longleftrightarrow> connected hints i j"
    by (rule components_spec[of hints])
  have len: "length (concat cs) = length hints" using distinct_card[OF cs(2)] cs(3) by simp
  have none: "cs = []" if "hints = []"
    using len cs(4) that by (cases cs) auto
  have some: "\<exists>bs. assign_loop cs start = Inr bs \<and> sum_list (map (\<lambda>(_, v). length v) bs) = length hints
      \<and> distinct (concat (map snd bs)) \<and> set (concat (map snd bs)) = {..<length hints}"
    if "hints \<noteq> []" "ws \<noteq> []"
  proof -
    have "cs \<noteq> []" "start \<noteq> []" using len that by (auto simp: start_def)
    then obtain bs where bs: "assign_loop cs start = Inr bs"
      "mset (concat (map snd bs)) = mset (concat (map snd start)) + mset (concat cs)"
      using assign_loop_spec by meson
    then have all: "mset (concat (map snd bs)) = mset (concat cs)" by (simp add: comp_def start_def)
    have "sum_list (map (\<lambda>(_, v). length v) bs) = length (concat (map snd bs))"
      by (simp add: length_concat comp_def split_def)
    with bs(1) mset_eq_length[OF all] mset_eq_setD[OF all] mset_eq_imp_distinct_iff[OF all] len cs(2,3)
    show ?thesis by (intro exI[of _ bs]) simp
  qed
  have panics: "assign_loop cs start = Inl ''called `Option::unwrap()` on a `None` value''"
    if "hints = [] \<or> ws = []"
    using that none by (intro assign_loop_nothing) (auto simp: start_def)
  have "if hints = [] \<or> ws = [] then assign_loop cs start = Inl ''called `Option::unwrap()` on a `None` value''
     else \<exists>bs. assign_loop cs start = Inr bs \<and> sum_list (map (\<lambda>(_, v). length v) bs) = length hints
        \<and> distinct (concat (map snd bs)) \<and> set (concat (map snd bs)) = {..<length hints}"
  proof (cases "hints = [] \<or> ws = []")
    case True
    from panics[OF this] show ?thesis unfolding if_P[OF True] .
  next
    case False
    then have "hints \<noteq> []" "ws \<noteq> []" by simp_all
    from some[OF this] show ?thesis unfolding if_not_P[OF False] .
  qed
  moreover have "sum_list (map length cs) = length hints" using len by (simp add: length_concat)
  ultimately show thesis by (intro that[OF cs(1)])
qed

text \<open>All transactions are tagged if and only if no identifier comes twice.\<close>

lemma all_tagged_iff:
  assumes run: "tag_buckets (map tx_id (vp_all p)) bs p = Inr p'"
    and fresh: "\<forall>tx\<in>set (vp_all p). \<forall>w. tx_tag tx \<noteq> Done w"
    and bs: "distinct (concat (map snd bs))" "set (concat (map snd bs)) = {..<length (vp_all p)}"
  shows "list_all (\<lambda>tx. case tx_tag tx of Done _ \<Rightarrow> True | _ \<Rightarrow> False) (vp_all p')
     \<longleftrightarrow> distinct (map tx_id (vp_all p))"
proof (cases "distinct (map tx_id (vp_all p))")
  case True
  have tags: "\<forall>(w, v)\<in>set bs. \<forall>i\<in>set v. tx_tag (vp_all p' ! i) = Done w" and same: "same_but_tags p p'"
    using tag_buckets_spec[OF True _ bs(1) refl] run bs(2) by auto
  have "\<exists>w. tx_tag (vp_all p' ! i) = Done w" if "i < length (vp_all p')" for i
  proof -
    have "i \<in> set (concat (map snd bs))" using that same_but_tags_ids(2)[OF same] bs(2) by simp
    then show ?thesis using tags by fastforce
  qed
  then show ?thesis using True by (force simp: list_all_length)
next
  case False
  have "keeps_shadowed p p'" using tag_buckets_keeps[OF refl, of bs p] bs(2) run by auto
  moreover obtain j where j: "j < length (vp_all p)" "shadowed (map tx_id (vp_all p)) j"
    using not_distinct_shadowed[OF False] by auto
  ultimately have "vp_all p' ! j = vp_all p ! j" "length (vp_all p') = length (vp_all p)"
    unfolding keeps_shadowed_def by (blast, metis length_map)
  then have "vp_all p' ! j \<in> set (vp_all p')" "\<forall>w. tx_tag (vp_all p' ! j) \<noteq> Done w"
    using fresh j(1) nth_mem[of j "vp_all p'"] by simp_all
  then have "\<exists>tx\<in>set (vp_all p'). \<not> (case tx_tag tx of Done _ \<Rightarrow> True | _ \<Rightarrow> False)"
    by (intro bexI[of _ "vp_all p' ! j"]) (auto split: execution_tag.splits)
  then have "\<not> list_all (\<lambda>tx. case tx_tag tx of Done _ \<Rightarrow> True | _ \<Rightarrow> False) (vp_all p')"
    unfolding list_all_iff by blast
  with False show ?thesis by blast
qed

section \<open>Properties\<close>

text \<open>C31. The search for a component always ends, and the components it finds are exactly the
  classes of transactions that are connected by chains of announced keys: every transaction is
  in one component, once, and no component is empty.\<close>

theorem components_are_classes:
  "\<exists>cs. collect_components (build_graph hints) [0..<length hints] (\<lambda>_. None) = Some cs
     \<and> distinct (concat cs) \<and> set (concat cs) = {..<length hints} \<and> [] \<notin> set cs
     \<and> (\<forall>c\<in>set cs. \<forall>i\<in>set c. \<forall>j. j \<in> set c \<longleftrightarrow> connected hints i j)"
  by (rule components_spec[of hints]) blast

theorem components_are_classes_witness:
  "\<exists>cs. collect_components (build_graph [[StateKey [1]], [StateKey [2]], [StateKey [1]]]) [0..<3] (\<lambda>_. None)
     = Some cs \<and> set (concat cs) = {..<3}"
  using components_are_classes[of "[[StateKey [1]], [StateKey [2]], [StateKey [1]]]"]
  by (auto simp: numeral_3_eq_3)



text \<open>Round robin gives the transaction at position \<open>i\<close> to worker \<open>i mod n\<close> of the \<open>n\<close> workers,
  and panics exactly if there are transactions but no worker.\<close>

theorem round_robin_spec:
  "round_robin ws p =
     (if ws = [] \<and> vp_all p \<noteq> []
      then Some (Inl ''attempt to calculate the remainder with a divisor of zero'')
      else Some (Inr (vp_from (map (\<lambda>i. (vp_all p ! i)\<lparr>tx_tag := Done (ws ! (i mod length ws))\<rparr>)
             [0..<length (vp_all p)]))))"
proof -
  have "vp_iter_mut f p = vp_from (map (\<lambda>i. f i (vp_all p ! i)) [0..<length (vp_all p)])"
    for f :: "nat \<Rightarrow> 'a transaction \<Rightarrow> 'a transaction"
  proof -
    have "vp_all (vp_iter_mut f p) = map (\<lambda>i. f i (vp_all p ! i)) [0..<length (vp_all p)]"
      by (rule nth_equalityI) (simp_all add: iter_mut_nth)
    then show ?thesis
      by (cases "vp_iter_mut f p") (simp add: vp_all_def vp_from_def)
  qed
  then show ?thesis
    by (simp add: round_robin_def vp_len_def vp_all_def)
qed

text \<open>C38. What the distribution by connected components does with a pool of transactions that are not
  assigned yet, in all cases: it always ends; it panics on the unwrap of an empty maximum or minimum
  exactly if there is no transaction or no worker; otherwise it panics exactly if two transactions have
  the same identifier and the code is compiled with debug assertions, because the second of them is
  never tagged; in all other cases it succeeds and keeps the identifiers.\<close>

theorem connected_components_outcome:
  assumes "\<forall>tx\<in>set (vp_all p). \<forall>w. tx_tag tx \<noteq> Done w"
  shows "if vp_all p = [] \<or> ws = []
     then connected_components dbg validate ws p = Some (Inl ''called `Option::unwrap()` on a `None` value'')
     else if dbg \<and> \<not> distinct (map tx_id (vp_all p))
     then connected_components dbg validate ws p
       = Some (Inl ''All transactions inside the pool must have a Done(_) status.'')
     else \<exists>p'. connected_components dbg validate ws p = Some (Inr p')
       \<and> map tx_id (vp_all p') = map tx_id (vp_all p)"
proof -
  define hints where "hints = map validate (vp_all p)"
  let ?ids = "map tx_id (vp_all p)"
  have n: "length hints = length (vp_all p)" "hints = [] \<longleftrightarrow> vp_all p = []" by (simp_all add: hints_def)
  note run = connected_components_def Let_def vp_iter_def vp_len_def vp_all_def[symmetric] hints_def[symmetric]
  show ?thesis
  proof (rule components_assigned[where hints = hints and ws = ws])
    fix cs
    assume cs: "collect_components (build_graph hints) [0..<length hints] (\<lambda>_. None) = Some cs"
      "sum_list (map length cs) = length hints"
      "if hints = [] \<or> ws = []
       then assign_loop cs (map (\<lambda>i. (i, [])) (sorted_list_of_set (set ws)))
          = Inl ''called `Option::unwrap()` on a `None` value''
       else \<exists>bs. assign_loop cs (map (\<lambda>i. (i, [])) (sorted_list_of_set (set ws))) = Inr bs
          \<and> sum_list (map (\<lambda>(_, v). length v) bs) = length hints
          \<and> distinct (concat (map snd bs)) \<and> set (concat (map snd bs)) = {..<length hints}"
    show ?thesis
    proof (cases "vp_all p = [] \<or> ws = []")
      case True
      then show ?thesis using cs n by (simp add: run)
    next
      case False
      then obtain bs where bs: "assign_loop cs (map (\<lambda>i. (i, [])) (sorted_list_of_set (set ws))) = Inr bs"
        "sum_list (map (\<lambda>(_, v). length v) bs) = length hints" "distinct (concat (map snd bs))"
        "set (concat (map snd bs)) = {..<length (vp_all p)}"
        using cs(3) n by auto
      obtain p' where p': "tag_buckets ?ids bs p = Inr p'" "keeps_shadowed p p'"
        using tag_buckets_keeps[OF refl, of bs p] bs(4) by auto
      have "connected_components dbg validate ws p = Some (
          if dbg \<and> \<not> distinct ?ids then Inl ''All transactions inside the pool must have a Done(_) status.'' else Inr p')"
        using cs(1,2) bs(1,2) p'(1) n(1) all_tagged_iff[OF p'(1) assms bs(3,4)] by (cases dbg) (simp_all add: run)
      with False p'(2) show ?thesis by (cases dbg) (simp_all add: keeps_shadowed_def)
    qed
  qed
qed

theorem connected_components_outcome_witness:
  "connected_components True (\<lambda>_. []) [7, 8]
       (vp_from [tx_new 1 (BalancesCall (Transfer (2::u8) 5)) 1 [], tx_new 1 (BalancesCall (Transfer 2 5)) 1 []])
     = Some (Inl ''All transactions inside the pool must have a Done(_) status.'')"
proof -
  let ?p = "vp_from [tx_new 1 (BalancesCall (Transfer (2::u8) 5)) 1 [], tx_new 1 (BalancesCall (Transfer 2 5)) 1 []]"
  have "\<forall>tx\<in>set (vp_all ?p). \<forall>w. tx_tag tx \<noteq> Done w"
    by (simp add: vp_all_def vp_from_def tx_new_def)
  from connected_components_outcome[OF this, of "[7, 8]" True "\<lambda>_. []"] show ?thesis
    by (simp add: vp_all_def vp_from_def tx_new_def)
qed

end
