(* ===== verification/Master.thy ===== *)
theory Master
  imports Worker Distribution
begin

text \<open>
  The master thread (\<open>executor/src/concurrent/master.rs\<close>) and the methods of the concurrent
  executor (\<open>executor/src/concurrent/mod.rs\<close>). As for the workers, a loop is one function per
  iteration; \<open>ms_phase\<close> says in which loop the master is, with the local variables of that loop.
  Sending never blocks and a receiver only takes what was sent before, so the sends between two
  loops are one step. The map from the ids of the workers to their channels is the list of ids in
  the order of the map; \<open>D\<close> is the type parameter for the distribution.
\<close>

section \<open>State\<close>

text \<open>The local variables of \<open>collection_phase\<close>.\<close>

record collection =
  executed_workers :: nat
  executed_local :: nat
  forwarded :: nat
  reported :: nat
  total :: nat

datatype master_phase =
    MReady
  | MCollecting collection
  | MValidating nat
  | MCrashed string

record 'p master =
  ms_id :: thread_id
  ms_workers :: "thread_id list"
  ms_pool :: "'p tx_pool"
  ms_orphans :: "'p transaction list"
  ms_phase :: master_phase

definition master_new :: "thread_id \<Rightarrow> 'p master" where
  "master_new i =
     \<lparr>ms_id = i, ms_workers = [], ms_pool = vp_new, ms_orphans = [], ms_phase = MReady\<rparr>"

definition num_workers :: "'p master \<Rightarrow> nat" where
  "num_workers ma = length (ms_workers ma)"

definition mcrash :: "string \<Rightarrow> 'p master \<Rightarrow> 'p master" where
  "mcrash msg ma = ma\<lparr>ms_phase := MCrashed msg\<rparr>"

definition broadcast :: "'p master \<Rightarrow> 'p message_payload \<Rightarrow> 'p world \<Rightarrow> 'p world" where
  "broadcast ma p wo = foldl (\<lambda>wo w. send_worker (ms_id ma) w p wo) wo (ms_workers ma)"

definition run_terminate :: "'p master \<Rightarrow> 'p world \<Rightarrow> 'p world" where
  "run_terminate ma wo = broadcast ma Terminate wo"

section \<open>Distribution\<close>

definition distribute_transactions ::
  "'p distributer \<Rightarrow> 'p master \<Rightarrow> 'p master panicking option" where
  "distribute_transactions D ma = (case D (ms_workers ma) (ms_pool ma) of
     None \<Rightarrow> None
   | Some (Inl msg) \<Rightarrow> Some (Inl msg)
   | Some (Inr pool) \<Rightarrow> Some (Inr (ma\<lparr>ms_pool := pool\<rparr>)))"

text \<open>Who gets what, by the tags; a tag other than \<open>Done\<close> is a panic.\<close>

fun threads_and_txs ::
  "string \<Rightarrow> 'p transaction list \<Rightarrow> (thread_id \<times> 'p transaction) list panicking" where
  "threads_and_txs msg [] = Inr []"
| "threads_and_txs msg (tx # txs) = (case tx_tag tx of
     Done w \<Rightarrow> (case threads_and_txs msg txs of Inl m \<Rightarrow> Inl m | Inr xs \<Rightarrow> Inr ((w, tx) # xs))
   | _ \<Rightarrow> Inl msg)"

fun send_transactions ::
  "'p master \<Rightarrow> (thread_id \<times> 'p transaction) list \<Rightarrow> 'p world \<Rightarrow> string option \<times> 'p world" where
  "send_transactions ma [] wo = (None, wo)"
| "send_transactions ma ((tid, tx) # xs) wo =
     (if tid \<in> set (ms_workers ma)
      then send_transactions ma xs (send_worker (ms_id ma) tid (TransactionMsg tx) wo)
      else (Some ''Worker thread must exist; qed.'', wo))"

definition concurrent_phase ::
  "'p distributer \<Rightarrow> 'p master \<Rightarrow> 'p world \<Rightarrow> ('p master \<times> 'p world) option" where
  "concurrent_phase D ma wo = (case distribute_transactions D ma of
     None \<Rightarrow> None
   | Some (Inl msg) \<Rightarrow> Some (mcrash msg ma, wo)
   | Some (Inr ma1) \<Rightarrow> (case threads_and_txs
          ''A transaction has not been assigned. This is a bug in the distribution code''
          (vp_all (ms_pool ma1)) of
       Inl msg \<Rightarrow> Some (mcrash msg ma1, wo)
     | Inr xs \<Rightarrow> (case send_transactions ma1 xs wo of
         (Some msg, wo1) \<Rightarrow> Some (mcrash msg ma1, wo1)
       | (None, wo1) \<Rightarrow> Some (ma1, broadcast ma1 TransactionDistributionDone wo1))))"

section \<open>Collection\<close>

fun position :: "('a \<Rightarrow> bool) \<Rightarrow> 'a list \<Rightarrow> nat option" where
  "position f [] = None"
| "position f (x # xs) = (if f x then Some 0 else map_option Suc (position f xs))"

text \<open>What the master does with a message of the collection phase.\<close>

definition collect_message ::
  "('p, 'z) exec_env_scheme \<Rightarrow> 'p message \<Rightarrow> 'p master \<times> collection
     \<Rightarrow> ('p master \<times> collection) panicking" where
  "collect_message E msg = (\<lambda>(ma, c). case payload msg of
     AuthoringReport e f \<Rightarrow>
       Inr (ma, c\<lparr>executed_workers := executed_workers c + e, forwarded := forwarded c + f,
                 reported := reported c + 1\<rparr>)
   | WorkerOrphan tid \<Rightarrow>
       (case pool_remove vp_get vp_remove_at (\<lambda>t. tx_id t = tid) (ms_pool ma) of
          Inl m \<Rightarrow> Inl m
        | Inr (None, _) \<Rightarrow> Inl ''Transaction must exist in the pool''
        | Inr (Some orphan, pool) \<Rightarrow>
            Inr (ma\<lparr>ms_pool := pool, ms_orphans := ms_orphans ma @ [orphan\<lparr>tx_tag := Orphan\<rparr>]\<rparr>, c))
   | WorkerExecuted tid \<Rightarrow>
       (case position (\<lambda>t. tx_id t = tid) (vp_iter (ms_pool ma)) of
          None \<Rightarrow> Inl ''Transaction must exist in the pool''
        | Some idx \<Rightarrow> (case vp_remove_at idx (ms_pool ma) of
            Inl m \<Rightarrow> Inl m
          | Inr (t, pool) \<Rightarrow> (case tx_tag t of
              Done initial_worker \<Rightarrow>
                if msg_from msg = initial_worker then Inl ''assertion failed: `(left != right)`''
                else (case vp_push_back (tx_verify E) (t\<lparr>tx_tag := Done (msg_from msg)\<rparr>) pool of
                    Inl m \<Rightarrow> Inl m
                  | Inr pool' \<Rightarrow>
                      Inr (ma\<lparr>ms_pool := pool'\<rparr>, c\<lparr>executed_local := executed_local c + 1\<rparr>))
            | _ \<Rightarrow> Inl ''Unexpected initial worker.'')))
   | _ \<Rightarrow> Inl ''Unexpected message type at master.'')"

definition collection_finished :: "'p master \<Rightarrow> collection \<Rightarrow> bool" where
  "collection_finished ma c \<longleftrightarrow> reported c = length (ms_workers ma)
     \<and> forwarded c = executed_local c + length (ms_orphans ma)"

section \<open>The orphan phase\<close>

fun execute_orphans ::
  "('p, 'z) staking_env_scheme \<Rightarrow> 'p transaction list
     \<Rightarrow> (sequential_runtime, runtime_dispatch_success list, unit) comp" where
  "execute_orphans E [] = ret []"
| "execute_orphans E (tx # txs) =
     bindC (if debug_build E \<and> tx_tag tx \<noteq> Orphan
            then panic ''assertion failed: `(left == right)`'' else ret ()) (\<lambda>_.
     bindC (expectC ''Executing transaction in the master runtime should never fail; qed''
              (SequentialRuntime_dispatch E (tx_function tx) (fst (tx_signature tx)))) (\<lambda>outcome.
     bindC (execute_orphans E txs) (\<lambda>outcomes.
     ret (outcome # outcomes))))"

definition execute_orphan_pool ::
  "('p, 'z) staking_env_scheme \<Rightarrow> 'p master \<Rightarrow> 'p world \<Rightarrow> 'p master \<times> 'p world" where
  "execute_orphan_pool E ma wo =
     (case execute_orphans E (ms_orphans ma) (sr_new (wo_state wo) (ms_id ma)) of
        (Ok _, s) \<Rightarrow> (ma\<lparr>ms_phase := MReady\<rparr>, wo\<lparr>wo_state := sr_state s\<rparr>)
      | (Err _, s) \<Rightarrow> (ma, wo\<lparr>wo_state := sr_state s\<rparr>)
      | (Panic p, s) \<Rightarrow> (mcrash p ma, wo\<lparr>wo_state := sr_state s\<rparr>))"

section \<open>Authoring\<close>

text \<open>What a method of the executor returns to its caller.\<close>

datatype 'p returned =
    Authored runtime_state "'p block"
  | Validated runtime_state

text \<open>\<open>author_block\<close> and \<open>run_author\<close> up to the loop of the collection phase.\<close>

definition author_block_start ::
  "('p, 'z) exec_env_scheme \<Rightarrow> 'p distributer \<Rightarrow> 'p transaction list \<Rightarrow> 'p master \<Rightarrow> 'p world
     \<Rightarrow> ('p master \<times> 'p world) option" where
  "author_block_start E D initial_transactions ma wo =
     (case vp_push_batch (tx_verify E) initial_transactions (ms_pool ma) of
        Inl msg \<Rightarrow> Some (mcrash msg ma, wo)
      | Inr pool \<Rightarrow>
          (let ma1 = ma\<lparr>ms_pool := pool\<rparr> in
           case concurrent_phase D ma1 (broadcast ma1 (Task Authoring) wo) of
             None \<Rightarrow> None
           | Some (ma2, wo2) \<Rightarrow>
               (case ms_phase ma2 of
                  MCrashed _ \<Rightarrow> Some (ma2, wo2)
                | _ \<Rightarrow> Some (ma2\<lparr>ms_phase := MCollecting
                         \<lparr>executed_workers = 0, executed_local = 0, forwarded = 0, reported = 0,
                          total = vp_len (ms_pool ma2)\<rparr>\<rparr>, wo2))))"

text \<open>After the loop: end the task, execute the orphans, return the state and the block.\<close>

definition author_block_end ::
  "('p, 'z) exec_env_scheme \<Rightarrow> collection \<Rightarrow> 'p master \<Rightarrow> 'p world
     \<Rightarrow> ('p master \<times> 'p world) \<times> 'p returned option" where
  "author_block_end E c ma wo =
     (if debug_build E \<and> total c \<noteq> executed_local c + executed_workers c + length (ms_orphans ma)
      then ((mcrash ''assertion failed: `(left == right)`'' ma, wo), None)
      else (case execute_orphan_pool E ma (broadcast ma TaskDone wo) of (ma1, wo1) \<Rightarrow>
        ((ma1, wo1),
         if ms_phase ma1 = MReady
         then Some (Authored (dump (wo_state wo1))
                (block_from (vp_all (ms_pool ma1) @ ms_orphans ma1)))
         else None)))"

text \<open>One iteration of the loop: a message if there is one, then the test for the end.\<close>

definition collection_iteration ::
  "('p, 'z) exec_env_scheme \<Rightarrow> collection \<Rightarrow> 'p master \<Rightarrow> 'p world
     \<Rightarrow> ('p master \<times> 'p world) \<times> 'p returned option" where
  "collection_iteration E c ma wo =
     (case (case to_master wo of
              [] \<Rightarrow> (Inr (ma, c), wo)
            | msg # rest \<Rightarrow> (collect_message E msg (ma, c), wo\<lparr>to_master := rest\<rparr>)) of
        (Inl m, wo1) \<Rightarrow> ((mcrash m ma, wo1), None)
      | (Inr (ma1, c1), wo1) \<Rightarrow>
          if collection_finished ma1 c1 then author_block_end E c1 ma1 wo1
          else ((ma1\<lparr>ms_phase := MCollecting c1\<rparr>, wo1), None))"

section \<open>Validation\<close>

text \<open>The transactions of the block go to the workers that executed them, the others wait.\<close>

fun hand_out ::
  "'p transaction list \<Rightarrow> 'p master \<Rightarrow> 'p world \<Rightarrow> 'p master \<times> 'p world" where
  "hand_out [] ma wo = (ma\<lparr>ms_phase := MValidating 0\<rparr>,
     broadcast ma TransactionDistributionDone wo)"
| "hand_out (tx # txs) ma wo = (case tx_tag tx of
     Done owner \<Rightarrow>
       if owner \<in> set (ms_workers ma)
       then hand_out txs ma (send_worker (ms_id ma) owner (TransactionMsg tx) wo)
       else (mcrash ''Worker should exist'' ma, wo)
   | Orphan \<Rightarrow> hand_out txs (ma\<lparr>ms_orphans := ms_orphans ma @ [tx]\<rparr>) wo
   | NotExecuted \<Rightarrow>
       (mcrash ''Transaction for validation need to be executed or orphan'' ma, wo))"

definition validate_block_start ::
  "'p block \<Rightarrow> 'p master \<Rightarrow> 'p world \<Rightarrow> 'p master \<times> 'p world" where
  "validate_block_start blk ma wo =
     hand_out (transactions blk) ma (broadcast ma (Task Validating) wo)"

definition validation_iteration ::
  "('p, 'z) staking_env_scheme \<Rightarrow> nat \<Rightarrow> 'p master \<Rightarrow> 'p world
     \<Rightarrow> ('p master \<times> 'p world) \<times> 'p returned option" where
  "validation_iteration E workers_done ma wo =
     (case (case to_master wo of
              [] \<Rightarrow> (Inr workers_done, wo)
            | msg # rest \<Rightarrow>
                (case payload msg of
                   ValidationReport \<Rightarrow> Inr (workers_done + 1)
                 | _ \<Rightarrow> Inl ''Unexpected message type'', wo\<lparr>to_master := rest\<rparr>)) of
        (Inl m, wo1) \<Rightarrow> ((mcrash m ma, wo1), None)
      | (Inr n, wo1) \<Rightarrow>
          if n = length (ms_workers ma)
          then (case execute_orphan_pool E ma wo1 of (ma1, wo2) \<Rightarrow>
            ((ma1, wo2),
             if ms_phase ma1 = MReady then Some (Validated (dump (wo_state wo2))) else None))
          else ((ma\<lparr>ms_phase := MValidating n\<rparr>, wo1), None))"

text \<open>
  \<open>Master::run_validate\<close>, which nothing calls: it sorts the transactions of a block into buckets
  and then drops them.
\<close>

fun sort_block ::
  "'p transaction list \<Rightarrow> (thread_id \<Rightarrow> 'p transaction list) \<times> 'p transaction list
     \<Rightarrow> ((thread_id \<Rightarrow> 'p transaction list) \<times> 'p transaction list) panicking" where
  "sort_block [] acc = Inr acc"
| "sort_block (tx # txs) (buckets, orphans) = (case tx_tag tx of
     Done whom \<Rightarrow> sort_block txs (buckets(whom := buckets whom @ [tx]), orphans)
   | Orphan \<Rightarrow> sort_block txs (buckets, orphans @ [tx])
   | NotExecuted \<Rightarrow> Inl ''Unexpected tx status.'')"

definition master_run_validate ::
  "'p block \<Rightarrow> 'p master \<Rightarrow> 'p world \<Rightarrow> 'p master \<times> 'p world" where
  "master_run_validate blk ma wo =
     (let wo1 = broadcast ma (Task Validating) wo
      in case sort_block (transactions blk) (\<lambda>_. [], []) of
           Inl m \<Rightarrow> (mcrash m ma, wo1) | Inr _ \<Rightarrow> (ma, wo1))"

section \<open>Cleaning and the initial state\<close>

definition ce_clean :: "'p master \<Rightarrow> 'p world \<Rightarrow> 'p master \<times> 'p world" where
  "ce_clean ma wo = (ma\<lparr>ms_pool := vp_clear (ms_pool ma), ms_orphans := []\<rparr>,
     wo\<lparr>wo_state := unsafe_clean (wo_state wo)\<rparr>)"

definition ce_apply_state :: "runtime_state \<Rightarrow> 'p world \<Rightarrow> 'p world" where
  "ce_apply_state state wo =
     wo\<lparr>wo_state := fold (\<lambda>(k, v). unsafe_insert k v) (entries state) (wo_state wo)\<rparr>"

end
