(* ===== verification/Refusal.thy ===== *)
theory Refusal
  imports Serializability
begin

text \<open>
  Whom a refused dispatch names. The error of a refused access is the thread that owns the key,
  and the calls pass it on unchanged, so a worker forwards a transaction to a thread other than
  itself that owns a key.
\<close>

section \<open>Errors that hold of the state they are raised in\<close>

definition blames ::
  "('s \<Rightarrow> bool) \<Rightarrow> ('e \<Rightarrow> 's \<Rightarrow> bool) \<Rightarrow> ('s, 'a, 'e) comp \<Rightarrow> bool" where
  "blames okay B c \<longleftrightarrow>
     (\<forall>s r s'. okay s \<longrightarrow> c s = (r, s') \<longrightarrow> okay s' \<and> (\<forall>e. r = Err e \<longrightarrow> B e s'))"

lemma blamesD:
  "blames okay B c \<Longrightarrow> okay s \<Longrightarrow> c s = (r, s') \<Longrightarrow> okay s'"
  "blames okay B c \<Longrightarrow> okay s \<Longrightarrow> c s = (Err e, s') \<Longrightarrow> B e s'"
  unfolding blames_def by blast+

lemma blames_pure:
  "blames okay B (ret x)" "blames okay B (panic p)" "(\<And>s. B e s) \<Longrightarrow> blames okay B (throw e)"
  "(\<And>e s. B e s) \<Longrightarrow> blames okay B (liftR r)"
  by (auto simp: blames_def)

lemma blames_liftP: "blames okay B (liftP x)"
  by (auto simp: blames_def liftP_def split: sum.splits)

lemma blamesI:
  assumes "\<And>s r s'. okay s \<Longrightarrow> c s = (r, s') \<Longrightarrow> okay s' \<and> (\<forall>e. r = Err e \<longrightarrow> B e s')"
  shows "blames okay B c"
  unfolding blames_def using assms by blast

lemma blames_bind:
  assumes c: "blames okay B c" and f: "\<And>x. blames okay B (f x)"
  shows "blames okay B (bindC c f)"
proof (rule blamesI, goal_cases)
  case (1 s r s')
  obtain q s1 where q: "c s = (q, s1)" by fastforce
  note s1 = blamesD(1)[OF c 1(1) q]
  show ?case
  proof (cases q)
    case (Ok x)
    then have run: "f x s1 = (r, s')" using 1(2) q by (simp add: bindC_def)
    show ?thesis
      using blamesD(1)[OF f s1 run] blamesD(2)[OF f s1] run by blast
  next
    case (Err e)
    then show ?thesis
      using 1(2) q s1 blamesD(2)[OF c 1(1)] by (auto simp: bindC_def)
  next
    case (Panic p)
    then show ?thesis using 1(2) q s1 by (auto simp: bindC_def)
  qed
qed

lemma blames_map_err:
  assumes c: "blames okay B c" and g: "\<And>e s. B e s \<Longrightarrow> B' (g e) s"
  shows "blames okay B' (map_err g c)"
proof (rule blamesI, goal_cases)
  case (1 s r s')
  obtain q s1 where q: "c s = (q, s1)" by fastforce
  note s1 = blamesD(1)[OF c 1(1) q]
  show ?case
  proof (cases q)
    case (Err e)
    then show ?thesis
      using 1(2) q s1 blamesD(2)[OF c 1(1)] g by (auto simp: map_err_def)
  qed (use 1(2) q s1 in \<open>auto simp: map_err_def\<close>)
qed

lemma blames_expect:
  assumes c: "blames okay B c"
  shows "blames okay B' (expectC msg c)"
proof (rule blamesI, goal_cases)
  case (1 s r s')
  obtain q s1 where q: "c s = (q, s1)" by fastforce
  note s1 = blamesD(1)[OF c 1(1) q]
  with 1(2) q show ?case by (cases q) (auto simp: expectC_def)
qed

lemma blames_branch:
  "blames okay B c1 \<Longrightarrow> blames okay B c2 \<Longrightarrow> blames okay B (if b then c1 else c2)"
  "blames okay B c0 \<Longrightarrow> (\<And>x. blames okay B (c x)) \<Longrightarrow>
     blames okay B (case z of None \<Rightarrow> c0 | Some x \<Rightarrow> c x)"
  by (auto split: option.split)

text \<open>What a call may report: a taint by a thread that is to blame, or any logic error.\<close>

fun reports :: "(thread_id \<Rightarrow> 's \<Rightarrow> bool) \<Rightarrow> dispatch_error \<Rightarrow> 's \<Rightarrow> bool" where
  "reports B (Tainted t b) s = B t s"
| "reports B (LogicError why) s = True"

locale blaming_runtime =
  fixes R :: "'s module_runtime" and okay :: "'s \<Rightarrow> bool" and B :: "thread_id \<Rightarrow> 's \<Rightarrow> bool"
  assumes read_blames: "blames okay B (mr_read R k)"
    and write_blames: "blames okay B (mr_write R k v)"
begin

lemma blames_maps:
  "blames okay B (map_read R M k)" "blames okay B (map_write R M k v)"
  "blames okay B (map_mutate R M k f)" "blames okay B (map_clear R M k)"
  "blames okay B (map_exists R M k)"
  unfolding map_read_def map_write_def map_mutate_def map_clear_def map_exists_def
  by (rule blames_bind blames_pure blames_liftP read_blames write_blames)+

lemma blames_reported:
  "blames okay B c \<Longrightarrow> blames okay (reports B) (or_forward c)"
  "blames okay B c \<Longrightarrow> blames okay (reports B) (or_orphan c)"
  unfolding or_forward_def or_orphan_def by (erule blames_map_err; simp)+

lemma blames_logic: "blames okay (reports B) (map_err LogicError (liftR r))"
  by (rule blames_map_err[where B = "\<lambda>_ _. True"]) (simp_all add: blames_pure)

lemma blames_throw: "blames okay (reports B) (throw (LogicError why))"
  by (simp add: blames_pure)

lemmas blames_rules = blames_logic blames_throw blames_reported blames_maps
  blames_expect[OF blames_maps(2)] blames_pure(1,2) blames_liftP blames_branch blames_bind

lemma blames_outer_dispatch: "blames okay (reports B) (outer_dispatch E R call origin)"
proof (cases call)
  case (BalancesCall inner)
  have "blames okay (reports B) (transfer E R origin dest val)" for dest val
    unfolding transfer_def by (rule blames_rules)+
  with BalancesCall show ?thesis by (cases inner) simp
next
  case (StakingCall inner)
  have "blames okay (reports B) (tx_bond E R stash amount controller)"
    "blames okay (reports B) (tx_bond_extra E R stash amount)"
    "blames okay (reports B) (tx_unbond E R stash amount)"
    "blames okay (reports B) (tx_set_controller E R stash controller)"
    "blames okay (reports B) (tx_validate E R stash)"
    "blames okay (reports B) (tx_nominate E R stash targets)"
    "blames okay (reports B) (tx_chill E R stash)" for stash amount controller targets
    unfolding tx_bond_def tx_bond_extra_def tx_unbond_def tx_set_controller_def tx_validate_def
      tx_nominate_def tx_chill_def
    by (rule blames_rules)+
  with StakingCall show ?thesis by (cases inner) simp_all
qed

end

section \<open>The concurrent runtime\<close>

definition owns_a_key :: "thread_id \<Rightarrow> concurrent_runtime \<Rightarrow> bool" where
  "owns_a_key t s \<longleftrightarrow> t \<noteq> cr_id s \<and> (\<exists>k. ts_owner (cr_state s) k = Some t)"

interpretation conc_blame: blaming_runtime CR cr_inv owns_a_key
proof unfold_locales
  fix k v
  show read: "blames cr_inv owns_a_key (mr_read CR k)"
    unfolding blames_def
  proof (intro allI impI)
    fix s r s'
    assume inv: "cr_inv s" and r: "mr_read CR k s = (r, s')"
    show "cr_inv s' \<and> (\<forall>e. r = Err e \<longrightarrow> owns_a_key e s')"
      by (cases rule: cr_read_cases[OF inv, of k])
        (use r inv in \<open>auto simp: cr_inv_state owns_a_key_def\<close>)
  qed
  show "blames cr_inv owns_a_key (mr_write CR k v)"
    unfolding blames_def
  proof (intro allI impI)
    fix s r s'
    assume inv: "cr_inv s" and w: "mr_write CR k v s = (r, s')"
    from inv show "cr_inv s' \<and> (\<forall>e. r = Err e \<longrightarrow> owns_a_key e s')"
    proof (cases rule: conc.write_cases[of s k v])
      case (denied t)
      with w blamesD(2)[OF read inv, of t s] inv show ?thesis by auto
    qed (use w in auto)
  qed
qed

text \<open>A worker that refuses a transaction names another thread, one that owns a key.\<close>

lemma refused_owner:
  assumes "execute_transaction E w tx m = (Err (RtTainted t b), m')"
  shows "t \<noteq> w \<and> (\<exists>k. ts_owner m' k = Some t)"
proof -
  obtain s' where run: "ConcurrentRuntime_dispatch E (tx_function tx) (fst (tx_signature tx)) (cr_new m w)
      = (Err (RtTainted t b), s')" and m': "m' = cr_state s'"
    using assms by (auto simp: execute_transaction_def split: prod.splits)
  have fresh: "cr_cache (cr_new m w) = fmempty" by (simp add: view_of_new)
  from fresh run obtain s1 where s1:
    "outer_dispatch E CR (tx_function tx) (fst (tx_signature tx)) (cr_new m w) = (Err (Tainted t b), s1)"
    "s' = s1\<lparr>cr_cache := fmempty\<rparr>"
    by (cases rule: cr_dispatch_cases) auto
  have "cr_id s1 = w"
    using keepsD[OF conc_frame.keeps_outer_dispatch s1(1)] fresh_cache(1)[OF fresh]
    by (simp add: cr_frame_def view_of_new)
  moreover have "reports owns_a_key (Tainted t b) s1"
    by (rule blamesD(2)[OF conc_blame.blames_outer_dispatch fresh_cache(1)[OF fresh] s1(1)])
  ultimately show ?thesis
    using s1(2) m' by (auto simp: owns_a_key_def)
qed

section \<open>A dispatch on a well-formed chain\<close>

definition well_formed :: "('p, 'z) staking_env_scheme \<Rightarrow> runtime_state \<Rightarrow> bool" where
  "well_formed E m \<longleftrightarrow> chain_readable E (values_of m) \<and> chain_inv E (chain_of E (values_of m))"

lemma execute_transaction_sound:
  assumes "staking_ok E" "well_formed E m" "\<not> names_default_controller E (tx_function tx)"
    and run: "execute_transaction E w tx m = (r, m')"
  shows "\<not> is_Panic r" "well_formed E m'"
proof -
  obtain s' where s': "ConcurrentRuntime_dispatch E (tx_function tx) (fst (tx_signature tx)) (cr_new m w)
      = (r, s')" and m': "m' = cr_state s'"
    using run by (auto simp: execute_transaction_def split: prod.splits)
  have "cr_cache (cr_new m w) = fmempty" "cr_state (cr_new m w) = m"
    by (simp_all add: view_of_new)
  with dispatch_keeps_invariant[OF assms(1) _ _ _ assms(3) s'] assms(2) m'
  show "\<not> is_Panic r" "well_formed E m'"
    by (auto simp: well_formed_def)
qed

end
