(* ===== verification/System.thy ===== *)
theory System
  imports Master Refusal Executor
begin

text \<open>
  The concurrent executor (\<open>executor/src/concurrent/mod.rs\<close>) as a system of threads: the master,
  the workers and what they share. A step is one iteration of a loop of one thread, a dispatch
  included; \<open>Threads\<close> splits the dispatch into its critical sections and has the runs of the
  program, this theory has the steps that their abstraction makes. Each step is labelled with the
  transactions it dispatched.
\<close>

section \<open>Configurations\<close>

record 'p system =
  sy_world :: "'p world"
  sy_workers :: "thread_id \<Rightarrow> worker"
  sy_master :: "'p master"
  sy_result :: "'p returned option"

text \<open>
  \<open>ConcurrentExecutor::new\<close>; \<open>ids\<close> are the ids the operating system gives to the threads it
  spawns, in that order. The map of workers is sorted by them.
\<close>

definition concurrent_new ::
  "thread_id \<Rightarrow> thread_id list \<Rightarrow> runtime_state option \<Rightarrow> 'p system panicking" where
  "concurrent_new me ids initial_state =
     (let ws = sorted_list_of_set (set ids);
          wo = \<lparr>wo_state = (case initial_state of Some m \<Rightarrow> m | None \<Rightarrow> ts_new),
                to_master = [], to_worker = (\<lambda>_. []), to_peer = (\<lambda>_. [])\<rparr>;
          ma = (master_new me)\<lparr>ms_workers := ws\<rparr>
      in if length ws \<noteq> length ids then Inl ''assertion failed: `(left == right)`''
         else Inr \<lparr>sy_world = broadcast ma (FinalizeSetup ws) wo,
                   sy_workers = (\<lambda>w. worker_new w me), sy_master = ma, sy_result = None\<rparr>)"

section \<open>Steps\<close>

text \<open>The transaction a worker would dispatch on the next message.\<close>

definition master_event :: "worker \<Rightarrow> 'p message \<Rightarrow> 'p event list" where
  "master_event wk msg = (case payload msg of
     TransactionMsg tx \<Rightarrow>
       (case wk_phase wk of
          Depleting _ _ _ \<Rightarrow> [(wk_id wk, tx)] | Validation _ \<Rightarrow> [(wk_id wk, tx)] | _ \<Rightarrow> [])
   | _ \<Rightarrow> [])"

definition peer_event :: "worker \<Rightarrow> 'p message \<Rightarrow> 'p event list" where
  "peer_event wk msg = (case payload msg of
     TransactionMsg tx \<Rightarrow> [(wk_id wk, tx\<lparr>tx_exec_status := Forwarded\<rparr>)] | _ \<Rightarrow> [])"

fun running :: "worker_phase \<Rightarrow> bool" where
  "running Terminated = False"
| "running (Crashed _) = False"
| "running _ = True"

inductive sys_step ::
  "('p, 'z) exec_env_scheme \<Rightarrow> 'p system \<Rightarrow> 'p event list \<Rightarrow> 'p system \<Rightarrow> bool"
  for E :: "('p, 'z) exec_env_scheme" where
  from_master:
    "w \<in> set (ms_workers (sy_master c)) \<Longrightarrow> running (wk_phase (sy_workers c w)) \<Longrightarrow>
     to_worker (sy_world c) w = msg # rest \<Longrightarrow>
     worker_from_master E (sy_workers c w) (sy_world c) = (wk', wo') \<Longrightarrow>
     sys_step E c (master_event (sy_workers c w) msg)
       (c\<lparr>sy_workers := (sy_workers c)(w := wk'), sy_world := wo'\<rparr>)"
| from_peer:
    "w \<in> set (ms_workers (sy_master c)) \<Longrightarrow> wk_phase (sy_workers c w) = Serving \<Longrightarrow>
     to_peer (sy_world c) w = msg # rest \<Longrightarrow>
     worker_from_others E (sy_workers c w) (sy_world c) = (wk', wo') \<Longrightarrow>
     sys_step E c (peer_event (sy_workers c w) msg)
       (c\<lparr>sy_workers := (sy_workers c)(w := wk'), sy_world := wo'\<rparr>)"
| collects:
    "ms_phase (sy_master c) = MCollecting col \<Longrightarrow>
     collection_iteration E col (sy_master c) (sy_world c) = ((ma', wo'), res) \<Longrightarrow>
     sys_step E c [] (c\<lparr>sy_master := ma', sy_world := wo', sy_result := res\<rparr>)"
| validates:
    "ms_phase (sy_master c) = MValidating n \<Longrightarrow>
     validation_iteration E n (sy_master c) (sy_world c) = ((ma', wo'), res) \<Longrightarrow>
     sys_step E c [] (c\<lparr>sy_master := ma', sy_world := wo', sy_result := res\<rparr>)"

section \<open>The methods of the executor\<close>

text \<open>A caller has the executor to itself, so a method starts when no other is running.\<close>

definition call_author ::
  "('p, 'z) exec_env_scheme \<Rightarrow> 'p distributer \<Rightarrow> 'p transaction list \<Rightarrow> 'p system \<Rightarrow> 'p system option"
  where
  "call_author E D initial_transactions c =
     (if ms_phase (sy_master c) \<noteq> MReady then None
      else (case author_block_start E D initial_transactions (sy_master c) (sy_world c) of
        None \<Rightarrow> None
      | Some (ma, wo) \<Rightarrow> Some (c\<lparr>sy_master := ma, sy_world := wo, sy_result := None\<rparr>)))"

definition call_validate :: "'p block \<Rightarrow> 'p system \<Rightarrow> 'p system option" where
  "call_validate blk c =
     (if ms_phase (sy_master c) \<noteq> MReady then None
      else (case validate_block_start blk (sy_master c) (sy_world c) of
        (ma, wo) \<Rightarrow> Some (c\<lparr>sy_master := ma, sy_world := wo, sy_result := None\<rparr>)))"

definition call_clean :: "'p system \<Rightarrow> 'p system" where
  "call_clean c = (case ce_clean (sy_master c) (sy_world c) of
     (ma, wo) \<Rightarrow> c\<lparr>sy_master := ma, sy_world := wo\<rparr>)"

definition call_apply_state :: "runtime_state \<Rightarrow> 'p system \<Rightarrow> 'p system" where
  "call_apply_state state c = c\<lparr>sy_world := ce_apply_state state (sy_world c)\<rparr>"

section \<open>Frames of the steps\<close>

lemma broadcast_world:
  "wo_state (broadcast ma p wo) = wo_state wo"
  "to_master (broadcast ma p wo) = to_master wo"
  "to_peer (broadcast ma p wo) = to_peer wo"
proof -
  have "wo_state (foldl (\<lambda>wo w. send_worker i w p wo) wo ws) = wo_state wo
    \<and> to_master (foldl (\<lambda>wo w. send_worker i w p wo) wo ws) = to_master wo
    \<and> to_peer (foldl (\<lambda>wo w. send_worker i w p wo) wo ws) = to_peer wo" for i ws
    by (induction ws arbitrary: wo) (simp_all add: send_worker_def)
  then show "wo_state (broadcast ma p wo) = wo_state wo"
    "to_master (broadcast ma p wo) = to_master wo" "to_peer (broadcast ma p wo) = to_peer wo"
    by (simp_all add: broadcast_def)
qed

lemma broadcast_to_worker:
  assumes "distinct (ms_workers ma)"
  shows "to_worker (broadcast ma p wo) w =
    to_worker wo w @ (if w \<in> set (ms_workers ma) then [new_from_thread (ms_id ma) p] else [])"
proof -
  have "distinct ws \<Longrightarrow> to_worker (foldl (\<lambda>wo w. send_worker i w p wo) wo ws) w =
      to_worker wo w @ (if w \<in> set ws then [new_from_thread i p] else [])" for i ws
    by (induction ws arbitrary: wo) (auto simp: send_worker_def)
  with assms show ?thesis by (simp add: broadcast_def)
qed

text \<open>The transactions are sent in their order to the workers they are tagged with.\<close>

definition tagged :: "thread_id \<Rightarrow> 'p transaction list \<Rightarrow> 'p transaction list" where
  "tagged w = filter (\<lambda>tx. tx_tag tx = Done w)"

lemma threads_and_txs_Inr:
  "\<forall>tx\<in>set txs. \<exists>w. tx_tag tx = Done w \<Longrightarrow>
     \<exists>xs. threads_and_txs msg txs = Inr xs \<and> map snd xs = txs \<and> (\<forall>(w, tx)\<in>set xs. tx_tag tx = Done w)"
proof (induction txs)
  case (Cons tx txs)
  then obtain w xs where "tx_tag tx = Done w" "threads_and_txs msg txs = Inr xs" "map snd xs = txs"
    "\<forall>(w, tx)\<in>set xs. tx_tag tx = Done w" by auto
  then show ?case by auto
qed simp

lemma send_transactions_None:
  assumes "\<forall>(w, tx)\<in>set xs. tx_tag tx = Done w \<and> w \<in> set (ms_workers ma)"
  shows "\<exists>wo'. send_transactions ma xs wo = (None, wo') \<and> wo_state wo' = wo_state wo
     \<and> to_master wo' = to_master wo \<and> to_peer wo' = to_peer wo
     \<and> (\<forall>w. to_worker wo' w = to_worker wo w
          @ map (\<lambda>tx. new_from_thread (ms_id ma) (TransactionMsg tx)) (tagged w (map snd xs)))"
  using assms
proof (induction xs arbitrary: wo)
  case (Cons x xs)
  obtain w tx where x: "x = (w, tx)" by fastforce
  let ?wo = "send_worker (ms_id ma) w (TransactionMsg tx) wo"
  obtain wo' where wo': "send_transactions ma xs ?wo = (None, wo')" "wo_state wo' = wo_state ?wo"
    "to_master wo' = to_master ?wo" "to_peer wo' = to_peer ?wo"
    "\<forall>w. to_worker wo' w = to_worker ?wo w
          @ map (\<lambda>tx. new_from_thread (ms_id ma) (TransactionMsg tx)) (tagged w (map snd xs))"
    using Cons.IH[of ?wo] Cons.prems by auto
  with x Cons.prems show ?case
    by (auto simp: send_worker_def tagged_def)
qed (simp add: tagged_def)

end
