(* ===== verification/Log.thy ===== *)
theory Log
  imports System "HOL-Library.Sublist"
begin

text \<open>
  What a run of the authoring workers leaves behind: the list of the dispatches in the order they
  happened, each with its result. The pool and the orphans the master ends up with are functions
  of this log and of the pool as it was distributed; a log is consistent if it can come from
  workers that take their transactions from queues.
\<close>

section \<open>Logs\<close>

definition who :: "'p logged \<Rightarrow> thread_id" where
  "who x = fst (fst x)"

text \<open>The transaction as it is in the pool: only workers set the status to \<open>Forwarded\<close>.\<close>

definition the_tx :: "'p logged \<Rightarrow> 'p transaction" where
  "the_tx x = (snd (fst x))\<lparr>tx_exec_status := Initial\<rparr>"

definition first :: "'p logged \<Rightarrow> bool" where
  "first x \<longleftrightarrow> tx_exec_status (snd (fst x)) = Initial"

definition succeeded :: "'p logged \<Rightarrow> bool" where
  "succeeded x \<longleftrightarrow> is_Ok (snd x)"

definition sent_to :: "thread_id \<Rightarrow> 'p logged \<Rightarrow> bool" where
  "sent_to u x \<longleftrightarrow> first x \<and> snd x = Err (RtTainted u False)"

definition orphaned :: "'p logged \<Rightarrow> bool" where
  "orphaned x \<longleftrightarrow> (case snd x of Err (RtTainted t b) \<Rightarrow> b \<or> \<not> first x | _ \<Rightarrow> False)"

text \<open>Of these the master is told.\<close>

definition settled :: "'p logged \<Rightarrow> bool" where
  "settled x \<longleftrightarrow> \<not> first x \<and> succeeded x \<or> orphaned x"

lemmas logged_defs = who_def first_def succeeded_def sent_to_def orphaned_def settled_def

text \<open>A dispatch that did not panic is one of three things.\<close>

lemma logged_cases:
  assumes "\<not> is_Panic (snd x)"
  obtains (locally) "first x" "succeeded x" "\<not> settled x" "\<And>u. \<not> sent_to u x"
  | (sent) u where "sent_to u x" "\<not> succeeded x" "\<not> settled x"
  | (settled) "settled x" "\<And>u. \<not> sent_to u x"
  using assms
proof (cases "snd x")
  case (Err e)
  then show thesis
    using that by (cases e; cases "first x") (auto simp: logged_defs split: if_splits)
qed (use that in \<open>auto simp: logged_defs\<close>)

definition firsts :: "thread_id \<Rightarrow> 'p logged list \<Rightarrow> 'p transaction list" where
  "firsts w L = map the_tx (filter (\<lambda>x. who x = w \<and> first x) L)"

definition forwards_to :: "thread_id \<Rightarrow> 'p logged list \<Rightarrow> 'p transaction list" where
  "forwards_to u L = map the_tx (filter (sent_to u) L)"

definition handled :: "thread_id \<Rightarrow> 'p logged list \<Rightarrow> 'p transaction list" where
  "handled u L = map the_tx (filter (\<lambda>x. who x = u \<and> \<not> first x) L)"

definition gone :: "'p logged list \<Rightarrow> transaction_id set" where
  "gone L = (\<lambda>x. tx_id (the_tx x)) ` set (filter settled L)"

definition pool_after :: "'p transaction list \<Rightarrow> 'p logged list \<Rightarrow> 'p transaction list" where
  "pool_after P L = filter (\<lambda>tx. tx_id tx \<notin> gone L) P
     @ map (\<lambda>x. (the_tx x)\<lparr>tx_tag := Done (who x)\<rparr>) (filter (\<lambda>x. \<not> first x \<and> succeeded x) L)"

definition orphans_after :: "'p logged list \<Rightarrow> 'p transaction list" where
  "orphans_after L = map (\<lambda>x. (the_tx x)\<lparr>tx_tag := Orphan\<rparr>) (filter orphaned L)"

lemmas log_parts = firsts_def forwards_to_def handled_def gone_def pool_after_def orphans_after_def

section \<open>Consistent logs\<close>

definition log_ok :: "thread_id list \<Rightarrow> 'p transaction list \<Rightarrow> 'p logged list \<Rightarrow> bool" where
  "log_ok ws P L \<longleftrightarrow>
     (\<forall>x\<in>set L. who x \<in> set ws \<and> the_tx x \<in> set P \<and> \<not> is_Panic (snd x)
        \<and> (first x \<longrightarrow> tx_tag (the_tx x) = Done (who x))
        \<and> (\<forall>u. sent_to u x \<longrightarrow> u \<noteq> who x \<and> u \<in> set ws))
   \<and> distinct (map the_tx (filter first L))
   \<and> (\<forall>u. prefix (handled u L) (forwards_to u L))
   \<and> (\<forall>w. filter (\<lambda>x. who x = w) L
        = filter (\<lambda>x. who x = w \<and> first x) L @ filter (\<lambda>x. who x = w \<and> \<not> first x) L)"

lemma log_okD:
  assumes "log_ok ws P L"
  shows "x \<in> set L \<Longrightarrow> who x \<in> set ws" "x \<in> set L \<Longrightarrow> the_tx x \<in> set P"
    "x \<in> set L \<Longrightarrow> \<not> is_Panic (snd x)"
    "x \<in> set L \<Longrightarrow> first x \<Longrightarrow> tx_tag (the_tx x) = Done (who x)"
    "x \<in> set L \<Longrightarrow> sent_to u x \<Longrightarrow> u \<noteq> who x" "x \<in> set L \<Longrightarrow> sent_to u x \<Longrightarrow> u \<in> set ws"
    "distinct (map the_tx (filter first L))" "prefix (handled u L) (forwards_to u L)"
    "filter (\<lambda>x. who x = w) L
        = filter (\<lambda>x. who x = w \<and> first x) L @ filter (\<lambda>x. who x = w \<and> \<not> first x) L"
  using assms unfolding log_ok_def by blast+

text \<open>A transaction has at most one first attempt.\<close>

lemma first_unique:
  assumes "log_ok ws P L" "x \<in> set L" "y \<in> set L" "first x" "first y" "the_tx x = the_tx y"
  shows "x = y"
  using log_okD(7)[OF assms(1)] assms(2-) by (auto simp: distinct_map dest: inj_onD)

lemma distinct_forwards:
  assumes "log_ok ws P L"
  shows "distinct (forwards_to u L)"
proof -
  have "filter (sent_to u) L = filter (sent_to u) (filter first L)"
    by (auto simp: sent_to_def intro!: filter_cong)
  then show ?thesis
    using log_okD(7)[OF assms] by (simp only: forwards_to_def distinct_map_filter)
qed

lemma handled_mem: "x \<in> set L \<Longrightarrow> \<not> first x \<Longrightarrow> the_tx x \<in> set (handled (who x) L)"
  by (auto simp: handled_def)

text \<open>A later attempt was preceded by a first one that forwarded the transaction.\<close>

lemma handled_was_sent:
  assumes "log_ok ws P L" "x \<in> set L" "\<not> first x"
  obtains z where "z \<in> set L" "sent_to (who x) z" "the_tx z = the_tx x"
proof -
  have "the_tx x \<in> set (forwards_to (who x) L)"
    using set_mono_prefix[OF log_okD(8)[OF assms(1)]] handled_mem[OF assms(2,3)] by blast
  then show thesis using that by (auto simp: forwards_to_def)
qed

lemma sent_first: "sent_to u x \<Longrightarrow> first x"
  by (simp add: sent_to_def)

lemma had_first:
  assumes "log_ok ws P L" "x \<in> set L"
  obtains z where "z \<in> set L" "first z" "the_tx z = the_tx x" "first x \<Longrightarrow> z = x"
    "\<not> first x \<Longrightarrow> sent_to (who x) z"
proof (cases "first x")
  case False
  with handled_was_sent[OF assms False] that sent_first show thesis by metis
qed (use assms(2) that in blast)

text \<open>So a transaction is settled at most once.\<close>

lemma settled_unique:
  assumes ok: "log_ok ws P (L @ [x])" and x: "settled x" and P: "distinct (map tx_id P)"
  shows "tx_id (the_tx x) \<notin> gone L"
proof
  assume "tx_id (the_tx x) \<in> gone L"
  then obtain y where y: "y \<in> set L" "settled y" "tx_id (the_tx y) = tx_id (the_tx x)"
    by (auto simp: gone_def)
  have both: "x \<in> set (L @ [x])" "y \<in> set (L @ [x])" using y(1) by auto
  have same: "the_tx y = the_tx x"
    using P log_okD(2)[OF ok both(1)] log_okD(2)[OF ok both(2)] y(3)
    by (auto simp: distinct_map dest: inj_onD)
  obtain a where a: "a \<in> set (L @ [x])" "first a" "the_tx a = the_tx x" "first x \<Longrightarrow> a = x"
    "\<not> first x \<Longrightarrow> sent_to (who x) a"
    by (rule had_first[OF ok both(1)]) blast
  obtain b where b: "b \<in> set (L @ [x])" "first b" "the_tx b = the_tx y" "first y \<Longrightarrow> b = y"
    "\<not> first y \<Longrightarrow> sent_to (who y) b"
    by (rule had_first[OF ok both(2)]) blast
  have ab: "a = b"
    using first_unique[OF ok a(1) b(1) a(2) b(2)] a(3) b(3) same by simp
  have unsent: "\<not> sent_to u z" if "settled z" for u and z :: "'a logged"
    using that by (auto simp: logged_defs split: rs.splits runtime_dispatch_error.splits)
  show False
  proof (cases "first x"; cases "first y")
    assume "first x" "first y"
    have "x \<notin> set L"
      using log_okD(7)[OF ok] \<open>first x\<close> by auto
    with a(4) b(4) ab y(1) \<open>first x\<close> \<open>first y\<close> show False by simp
  next
    assume "first x" "\<not> first y"
    with a(4) b(5) ab unsent[OF x] show False by simp
  next
    assume "\<not> first x" "first y"
    with a(5) b(4) ab unsent[OF y(2)] show False by simp
  next
    assume nx: "\<not> first x" and ny: "\<not> first y"
    then have "who x = who y"
      using a(5) b(5) ab by (simp add: sent_to_def)
    then have "the_tx x \<in> set (handled (who x) L)"
      using handled_mem[OF y(1) ny] same by simp
    moreover have "handled (who x) (L @ [x]) = handled (who x) L @ [the_tx x]"
      using nx by (simp add: handled_def)
    moreover have "distinct (handled (who x) (L @ [x]))"
      using distinct_forwards[OF ok] log_okD(8)[OF ok] by (metis distinct_append prefixE)
    ultimately show False by simp
  qed
qed

section \<open>Extending a log\<close>

lemma log_append [simp]:
  "firsts w (L @ [x]) = firsts w L @ (if who x = w \<and> first x then [the_tx x] else [])"
  "forwards_to u (L @ [x]) = forwards_to u L @ (if sent_to u x then [the_tx x] else [])"
  "handled u (L @ [x]) = handled u L @ (if who x = u \<and> \<not> first x then [the_tx x] else [])"
  "gone (L @ [x]) = gone L \<union> (if settled x then {tx_id (the_tx x)} else {})"
  "orphans_after (L @ [x]) =
     orphans_after L @ (if orphaned x then [(the_tx x)\<lparr>tx_tag := Orphan\<rparr>] else [])"
  by (auto simp: log_parts)

text \<open>A worker takes the next transaction out of its queue from the master.\<close>

lemma log_ok_first:
  assumes ok: "log_ok ws P L" and P: "distinct (map tx_id P)"
    and x: "first x" "who x \<in> set ws" "\<not> is_Panic (snd x)"
    and queue: "firsts (who x) L @ the_tx x # todo = tagged (who x) P"
    and idle: "handled (who x) L = []"
    and sent: "\<And>u. sent_to u x \<Longrightarrow> u \<noteq> who x \<and> u \<in> set ws"
  shows "log_ok ws P (L @ [x])"
proof -
  have mem: "the_tx x \<in> set (tagged (who x) P)"
    unfolding queue[symmetric] by simp
  have "distinct (tagged (who x) P)"
    using P by (simp add: tagged_def distinct_map)
  then have new: "the_tx x \<notin> set (firsts (who x) L)"
    unfolding queue[symmetric] by simp
  have "the_tx x \<notin> the_tx ` set (filter first L)"
  proof
    assume "the_tx x \<in> the_tx ` set (filter first L)"
    then obtain y where y: "y \<in> set L" "first y" "the_tx y = the_tx x" by auto
    then have "tx_tag (the_tx x) = Done (who y)"
      using log_okD(4)[OF ok, of y] by simp
    then have "who y = who x" using mem by (simp add: tagged_def)
    moreover have "the_tx y \<in> set (firsts (who y) L)"
      using y(1,2) by (auto simp: firsts_def)
    ultimately show False using new y(3) by simp
  qed
  moreover have "filter (\<lambda>z. who z = who x \<and> \<not> first z) L = []"
    using idle by (simp add: handled_def)
  moreover have "prefix (handled u L) (forwards_to u (L @ [x]))" for u
    using log_okD(8)[OF ok, of u] by (auto intro: prefix_order.trans)
  moreover have "tx_tag (the_tx x) = Done (who x)" "the_tx x \<in> set P"
    using mem by (simp_all add: tagged_def)
  ultimately show ?thesis
    using ok x sent unfolding log_ok_def by auto
qed

text \<open>Or out of its queue from the other workers.\<close>

lemma log_ok_later:
  assumes ok: "log_ok ws P L"
    and x: "\<not> first x" "who x \<in> set ws" "\<not> is_Panic (snd x)"
    and queue: "prefix (handled (who x) L @ [the_tx x]) (forwards_to (who x) L)"
  shows "log_ok ws P (L @ [x])"
proof -
  have no: "\<not> sent_to u x" for u using x(1) by (simp add: sent_to_def)
  have "the_tx x \<in> set (forwards_to (who x) L)"
    using set_mono_prefix[OF queue] by simp
  then have "the_tx x \<in> set P"
    using log_okD(2)[OF ok] by (auto simp: forwards_to_def)
  moreover have "prefix (handled u (L @ [x])) (forwards_to u (L @ [x]))" for u
    using queue log_okD(8)[OF ok, of u] x(1) no by auto
  moreover have "filter (\<lambda>z. who z = who x) L
      = filter (\<lambda>z. who z = who x \<and> first z) L @ filter (\<lambda>z. who z = who x \<and> \<not> first z) L"
    by (rule log_okD(9)[OF ok])
  ultimately show ?thesis
    using ok x no unfolding log_ok_def by auto
qed

section \<open>What the master makes of it\<close>

lemma distinct_split:
  assumes "distinct (map f xs)" "x \<in> set xs"
  obtains l r where "xs = l @ x # r" "filter (\<lambda>y. f y \<noteq> f x) xs = l @ r" "f x \<notin> f ` set l"
proof -
  obtain l r where "xs = l @ x # r" by (meson assms(2) split_list)
  moreover from this have "f x \<notin> f ` set l" "f x \<notin> f ` set r"
    using assms(1) by auto
  moreover from this have "filter (\<lambda>y. f y \<noteq> f x) l = l" "filter (\<lambda>y. f y \<noteq> f x) r = r"
    by (metis (mono_tags, lifting) filter_True imageI)+
  ultimately show thesis using that by simp
qed

lemma pool_after_settled:
  assumes ok: "log_ok ws P (L @ [x])" and x: "settled x" and P: "distinct (map tx_id P)"
  obtains l r where "pool_after P L = l @ the_tx x # r" "tx_id (the_tx x) \<notin> tx_id ` set l"
    "\<not> first x \<Longrightarrow> succeeded x \<Longrightarrow>
       pool_after P (L @ [x]) = l @ r @ [(the_tx x)\<lparr>tx_tag := Done (who x)\<rparr>]"
    "orphaned x \<Longrightarrow> pool_after P (L @ [x]) = l @ r"
proof -
  let ?p = "filter (\<lambda>tx. tx_id tx \<notin> gone L) P"
  let ?r = "map (\<lambda>x. (the_tx x)\<lparr>tx_tag := Done (who x)\<rparr>) (filter (\<lambda>x. \<not> first x \<and> succeeded x) L)"
  have "the_tx x \<in> set ?p"
    using settled_unique[OF assms] log_okD(2)[OF ok, of x] by simp
  moreover have "distinct (map tx_id ?p)"
    using P by (rule distinct_map_filter)
  ultimately obtain l r where lr: "?p = l @ the_tx x # r"
    "filter (\<lambda>y. tx_id y \<noteq> tx_id (the_tx x)) ?p = l @ r" "tx_id (the_tx x) \<notin> tx_id ` set l"
    using distinct_split[of tx_id ?p "the_tx x"] by blast
  have p': "filter (\<lambda>tx. tx_id tx \<notin> gone (L @ [x])) P = l @ r"
    using lr(2) x by (simp add: filter_filter conj_commute Un_commute)
  show thesis
  proof (rule that[of l "r @ ?r"])
    show "pool_after P L = l @ the_tx x # r @ ?r"
      using lr(1) by (simp add: pool_after_def)
    show "tx_id (the_tx x) \<notin> tx_id ` set l" by (rule lr(3))
    show "pool_after P (L @ [x]) = l @ (r @ ?r) @ [(the_tx x)\<lparr>tx_tag := Done (who x)\<rparr>]"
      if "\<not> first x" "succeeded x"
      using p' that by (simp add: pool_after_def del: log_append)
    show "pool_after P (L @ [x]) = l @ r @ ?r" if "orphaned x"
    proof -
      have "\<not> succeeded x" using that by (auto simp: logged_defs split: rs.splits)
      then show ?thesis using p' by (simp add: pool_after_def del: log_append)
    qed
  qed
qed

lemma pool_after_unsettled: "\<not> settled x \<Longrightarrow> pool_after P (L @ [x]) = pool_after P L"
  by (auto simp: pool_after_def settled_def)

lemma orphans_after_unsettled: "\<not> settled x \<Longrightarrow> orphans_after (L @ [x]) = orphans_after L"
  by (simp add: settled_def)

lemma tagged_pool_member:
  "log_ok ws P L \<Longrightarrow> (\<forall>tx\<in>set P. \<exists>w\<in>set ws. tx_tag tx = Done w) \<Longrightarrow>
     tx \<in> set (pool_after P L) \<Longrightarrow> \<exists>w\<in>set ws. tx_tag tx = Done w"
  using log_okD(1) by (auto simp: pool_after_def)

section \<open>Counting\<close>

lemma count_by_worker:
  assumes "finite W" "\<forall>x\<in>set L. Q x \<longrightarrow> k x \<in> W"
  shows "(\<Sum>w\<in>W. length (filter (\<lambda>x. k x = w \<and> Q x) L)) = length (filter Q L)"
  using assms(2)
proof (induction L)
  case (Cons x L)
  have "(\<Sum>w\<in>W. length (filter (\<lambda>x. k x = w \<and> Q x) (x # L)))
      = (\<Sum>w\<in>W. (if w = k x then (if Q x then 1 else 0) else 0) + length (filter (\<lambda>x. k x = w \<and> Q x) L))"
    by (rule sum.cong) auto
  then show ?case
    using Cons assms(1) by (simp add: sum.distrib)
qed simp

lemma in_flight_iff:
  "\<not> is_Panic (snd x) \<Longrightarrow> (\<exists>u. sent_to u x) = (first x \<and> \<not> succeeded x \<and> \<not> orphaned x)"
  by (cases "snd x") (auto simp: logged_defs split: runtime_dispatch_error.splits)

lemma length_forwards:
  assumes "log_ok ws P L"
  shows "(\<Sum>u\<in>set ws. length (forwards_to u L))
     = length (filter (\<lambda>x. first x \<and> \<not> succeeded x \<and> \<not> orphaned x) L)"
proof -
  define dest :: "'a logged \<Rightarrow> thread_id" where
    "dest x = (case snd x of Err (RtTainted t b) \<Rightarrow> t | _ \<Rightarrow> 0)" for x
  let ?Q = "\<lambda>x. \<exists>u. sent_to u x"
  have key: "sent_to u x \<longleftrightarrow> dest x = u \<and> ?Q x" for u and x :: "'a logged"
    by (auto simp: dest_def sent_to_def)
  have "(\<Sum>u\<in>set ws. length (filter (sent_to u) L))
      = (\<Sum>u\<in>set ws. length (filter (\<lambda>x. dest x = u \<and> ?Q x) L))"
    by (intro sum.cong arg_cong[where f = length] filter_cong refl) (rule key)
  moreover have "\<forall>x\<in>set L. ?Q x \<longrightarrow> dest x \<in> set ws"
    using log_okD(6)[OF assms] key by blast
  ultimately have "(\<Sum>u\<in>set ws. length (forwards_to u L)) = length (filter ?Q L)"
    unfolding forwards_to_def length_map using count_by_worker[of "set ws" L ?Q dest] by simp
  also have "filter ?Q L = filter (\<lambda>x. first x \<and> \<not> succeeded x \<and> \<not> orphaned x) L"
    by (rule filter_cong[OF refl]) (rule in_flight_iff[OF log_okD(3)[OF assms]])
  finally show ?thesis .
qed

lemma length_handled:
  assumes "log_ok ws P L"
  shows "(\<Sum>u\<in>set ws. length (handled u L)) = length (filter (\<lambda>x. \<not> first x) L)"
  unfolding handled_def length_map
  using count_by_worker[of "set ws" L "\<lambda>x. \<not> first x" who] log_okD(1)[OF assms] by simp

text \<open>Forwarded transactions that are not settled are still on their way.\<close>

lemma unsettled_in_flight:
  assumes "log_ok ws P L"
  shows "length (filter (\<lambda>x. first x \<and> \<not> succeeded x) L) + (\<Sum>u\<in>set ws. length (handled u L))
     = length (filter (\<lambda>x. \<not> first x \<and> succeeded x) L) + length (filter orphaned L)
       + (\<Sum>u\<in>set ws. length (forwards_to u L))"
proof -
  have "length (filter (\<lambda>x. first x \<and> \<not> succeeded x) M) + length (filter (\<lambda>x. \<not> first x) M)
      = length (filter (\<lambda>x. \<not> first x \<and> succeeded x) M) + length (filter orphaned M)
        + length (filter (\<lambda>x. first x \<and> \<not> succeeded x \<and> \<not> orphaned x) M)"
    if "\<forall>x\<in>set M. \<not> is_Panic (snd x)" for M :: "'a logged list"
    using that
  proof (induction M)
    case (Cons x M)
    have "\<not> is_Panic (snd x)" using Cons.prems by simp
    then show ?case
      using Cons by (cases rule: logged_cases) (auto simp: settled_def sent_to_def logged_defs split: rs.splits runtime_dispatch_error.splits)
  qed simp
  then show ?thesis
    using log_okD(3)[OF assms] by (simp add: length_forwards[OF assms] length_handled[OF assms])
qed

section \<open>The transactions of the pool\<close>

definition settled_once :: "'p logged list \<Rightarrow> bool" where
  "settled_once L \<longleftrightarrow> distinct (map (\<lambda>x. tx_id (the_tx x)) (filter settled L))"

lemma settled_once_append:
  assumes "settled_once L" "log_ok ws P (L @ [x])" "distinct (map tx_id P)"
  shows "settled_once (L @ [x])"
  using assms settled_unique[OF assms(2) _ assms(3)] by (auto simp: settled_once_def gone_def)

text \<open>No transaction is lost and none appears twice, at any time.\<close>

lemma pool_and_orphans:
  assumes ok: "log_ok ws P L" and once: "settled_once L" and P: "distinct (map tx_id P)"
  shows "mset (map tx_id (pool_after P L @ orphans_after L)) = mset (map tx_id P)"
proof -
  let ?s = "map (\<lambda>x. tx_id (the_tx x)) (filter settled L)"
  have sub: "gone L \<subseteq> tx_id ` set P"
    using log_okD(2)[OF ok] by (auto simp: gone_def)
  have "mset (map tx_id (filter (\<lambda>tx. tx_id tx \<in> gone L) P)) = mset ?s"
  proof (rule set_eq_iff_mset_eq_distinct[THEN iffD1])
    show "distinct (map tx_id (filter (\<lambda>tx. tx_id tx \<in> gone L) P))"
      using P by (rule distinct_map_filter)
    show "distinct ?s" using once by (simp add: settled_once_def)
    have "set (map tx_id (filter (\<lambda>tx. tx_id tx \<in> gone L) P)) = gone L"
      using sub by auto
    then show "set (map tx_id (filter (\<lambda>tx. tx_id tx \<in> gone L) P)) = set ?s"
      by (simp add: gone_def)
  qed
  moreover have "mset (map (\<lambda>x. tx_id (the_tx x)) (filter settled M))
      = mset (map (\<lambda>x. tx_id (the_tx x)) (filter (\<lambda>x. \<not> first x \<and> succeeded x) M))
        + mset (map (\<lambda>x. tx_id (the_tx x)) (filter orphaned M))" for M :: "'a logged list"
  proof (induction M)
    case (Cons x M)
    have "\<not> (succeeded x \<and> orphaned x)"
      by (auto simp: logged_defs split: rs.splits)
    with Cons show ?case
      by (cases "first x"; cases "succeeded x"; cases "orphaned x") (simp_all add: settled_def)
  qed simp
  moreover have "mset (map tx_id P) = mset (map tx_id (filter (\<lambda>tx. tx_id tx \<notin> gone L) P))
      + mset (map tx_id (filter (\<lambda>tx. tx_id tx \<in> gone L) P))"
    by (induction P) auto
  ultimately show ?thesis
    by (simp add: pool_after_def orphans_after_def comp_def)
qed

section \<open>A complete log\<close>

text \<open>Every queue is empty: all was taken from the master and all that was forwarded was handled.\<close>

definition complete :: "thread_id list \<Rightarrow> 'p transaction list \<Rightarrow> 'p logged list \<Rightarrow> bool" where
  "complete ws P L \<longleftrightarrow> (\<forall>w\<in>set ws. firsts w L = tagged w P \<and> handled w L = forwards_to w L)"

lemma complete_gone:
  assumes ok: "log_ok ws P L" and full: "complete ws P L" and P: "distinct (map tx_id P)"
    and x: "x \<in> set L" "first x"
  shows "tx_id (the_tx x) \<in> gone L \<longleftrightarrow> \<not> succeeded x"
proof
  assume "\<not> succeeded x"
  with logged_cases[OF log_okD(3)[OF ok x(1)]] consider "settled x" | u where "sent_to u x" by blast
  then show "tx_id (the_tx x) \<in> gone L"
  proof cases
    case 1
    then show ?thesis using x(1) by (auto simp: gone_def)
  next
    case (2 u)
    then have "the_tx x \<in> set (forwards_to u L)" using x(1) by (auto simp: forwards_to_def)
    then have "the_tx x \<in> set (handled u L)"
      using full log_okD(6)[OF ok x(1) 2] by (simp add: complete_def)
    then obtain y where y: "y \<in> set L" "\<not> first y" "the_tx y = the_tx x"
      by (auto simp: handled_def)
    then have "settled y"
      by (cases rule: logged_cases[OF log_okD(3)[OF ok y(1)]]) (auto simp: sent_to_def)
    with y show ?thesis by (auto simp: gone_def intro!: image_eqI[of _ _ y])
  qed
next
  assume "tx_id (the_tx x) \<in> gone L"
  then obtain y where y: "y \<in> set L" "settled y" "tx_id (the_tx y) = tx_id (the_tx x)"
    by (auto simp: gone_def)
  then have same: "the_tx y = the_tx x"
    using P log_okD(2)[OF ok x(1)] log_okD(2)[OF ok y(1)] by (auto simp: distinct_map dest: inj_onD)
  obtain z where z: "z \<in> set L" "first z" "the_tx z = the_tx y" "first y \<Longrightarrow> z = y"
    "\<not> first y \<Longrightarrow> sent_to (who y) z"
    by (rule had_first[OF ok y(1)]) blast
  have "z = x"
    using first_unique[OF ok z(1) x(1) z(2) x(2)] z(3) same by simp
  with z(4,5) y(2) x(2) show "\<not> succeeded x"
    by (cases "first y") (auto simp: logged_defs split: rs.splits)
qed

text \<open>
  Then the pool lists for every worker the transactions it executed, in the order in which it
  executed them.
\<close>

lemma complete_order:
  assumes ok: "log_ok ws P L" and full: "complete ws P L" and P: "distinct (map tx_id P)"
    and w: "w \<in> set ws"
  shows "map tx_call (tagged w (pool_after P L))
     = map (\<lambda>x. tx_call (snd (fst x))) (filter (\<lambda>x. who x = w \<and> succeeded x) L)"
proof -
  have call: "tx_call (the_tx x) = tx_call (snd (fst x))" "tx_call (t\<lparr>tx_tag := g\<rparr>) = tx_call t"
    for x :: "'a logged" and t :: "'a transaction" and g
    by (simp_all add: tx_call_def the_tx_def)
  have "tagged w (filter (\<lambda>tx. tx_id tx \<notin> gone L) P) = filter (\<lambda>tx. tx_id tx \<notin> gone L) (firsts w L)"
    using full w by (simp add: complete_def tagged_def conj_commute)
  also have "\<dots> = map the_tx (filter (\<lambda>x. tx_id (the_tx x) \<notin> gone L) (filter (\<lambda>x. who x = w \<and> first x) L))"
    by (simp add: firsts_def filter_map comp_def)
  also have "filter (\<lambda>x. tx_id (the_tx x) \<notin> gone L) (filter (\<lambda>x. who x = w \<and> first x) L)
      = filter succeeded (filter (\<lambda>x. who x = w \<and> first x) L)"
    using complete_gone[OF ok full P] by (intro filter_cong refl) auto
  finally have 1: "tagged w (filter (\<lambda>tx. tx_id tx \<notin> gone L) P)
      = map the_tx (filter succeeded (filter (\<lambda>x. who x = w \<and> first x) L))" .
  have 2: "tagged w (map (\<lambda>x. (the_tx x)\<lparr>tx_tag := Done (who x)\<rparr>) (filter (\<lambda>x. \<not> first x \<and> succeeded x) L))
      = map (\<lambda>x. (the_tx x)\<lparr>tx_tag := Done (who x)\<rparr>)
          (filter succeeded (filter (\<lambda>x. who x = w \<and> \<not> first x) L))"
    by (simp add: tagged_def filter_map comp_def conj_commute conj_left_commute)
  have "filter (\<lambda>x. who x = w \<and> succeeded x) L = filter succeeded (filter (\<lambda>x. who x = w) L)"
    by (simp add: conj_commute)
  also have "\<dots> = filter succeeded (filter (\<lambda>x. who x = w \<and> first x) L)
       @ filter succeeded (filter (\<lambda>x. who x = w \<and> \<not> first x) L)"
    by (subst log_okD(9)[OF ok, of w]) (simp only: filter_append)
  finally show ?thesis
    using 1 2 by (simp add: pool_after_def tagged_def call comp_def del: filter_filter)
qed

end
