(* ===== verification/Block_Authoring.thy ===== *)
theory Block_Authoring
  imports Log
begin

text \<open>
  Authoring a block on the threads of the concurrent executor. Every configuration reached is a
  function of the log of dispatches and of how far each worker is in its queue; the invariant says
  which. Messages the master has not received yet count as received: the view of the master is
  what it will be after them.
\<close>

section \<open>One transaction\<close>

text \<open>What the master is told of a dispatch.\<close>

definition told :: "'p logged \<Rightarrow> 'p message list" where
  "told x = (if orphaned x then [new_from_thread (who x) (WorkerOrphan (tx_id (the_tx x)))]
     else if \<not> first x \<and> succeeded x
     then [new_from_thread (who x) (WorkerExecuted (tx_id (the_tx x)))] else [])"

lemma execute_or_forward_world:
  assumes run: "execute_transaction E (wk_id wk) tx (wo_state wo) = (q, m)" and "\<not> is_Panic q"
    and x: "x = ((wk_id wk, tx), q)" and others: "\<And>u. sent_to u x \<Longrightarrow> u \<in> set (wk_others wk)"
  shows "\<exists>r wo'. execute_or_forward E wk tx wo = (Ok r, wo')
    \<and> (succeeded x \<longleftrightarrow> (\<exists>ok. r = Executed ok))
    \<and> wo_state wo' = m \<and> to_worker wo' = to_worker wo \<and> to_master wo' = to_master wo @ told x
    \<and> (\<forall>u. map payload (to_peer wo' u)
         = map payload (to_peer wo u) @ (if sent_to u x then [TransactionMsg tx] else []))"
proof (cases q)
  case (Ok ok)
  with run x show ?thesis
    by (cases "tx_exec_status tx")
      (auto simp: execute_or_forward_def report_or_forward_def told_def logged_defs the_tx_def send_defs Let_def)
next
  case (Err e)
  obtain t b where e: "e = RtTainted t b" by (cases e)
  show ?thesis
  proof (cases "tx_exec_status tx = Initial \<and> \<not> b")
    case True
    then have "t \<in> set (wk_others wk)"
      using others[of t] x Err e by (simp add: logged_defs)
    with True run x Err e show ?thesis
      by (auto simp: execute_or_forward_def report_or_forward_def told_def logged_defs the_tx_def send_defs Let_def)
  next
    case False
    with run x Err e show ?thesis
      by (cases "tx_exec_status tx"; cases b)
        (auto simp: execute_or_forward_def report_or_forward_def told_def logged_defs the_tx_def send_defs Let_def)
  qed
qed (use assms(2) in simp)

section \<open>The view of the master\<close>

fun collect_all ::
  "('p, 'z) exec_env_scheme \<Rightarrow> 'p message list \<Rightarrow> 'p master \<times> collection
     \<Rightarrow> ('p master \<times> collection) panicking" where
  "collect_all E [] s = Inr s"
| "collect_all E (msg # msgs) s = (case collect_message E msg s of
     Inl m \<Rightarrow> Inl m | Inr s' \<Rightarrow> collect_all E msgs s')"

lemma collect_all_append:
  "collect_all E (xs @ ys) s = (case collect_all E xs s of Inl m \<Rightarrow> Inl m | Inr s' \<Rightarrow> collect_all E ys s')"
  by (induction xs arbitrary: s) (auto split: sum.split)

definition own_first :: "thread_id \<Rightarrow> bool \<Rightarrow> 'p logged list \<Rightarrow> nat" where
  "own_first w good L = length (filter (\<lambda>x. who x = w \<and> first x \<and> succeeded x = good) L)"

lemma own_first_append [simp]:
  "own_first w good (L @ [x]) =
     own_first w good L + (if who x = w \<and> first x \<and> succeeded x = good then 1 else 0)"
  by (simp add: own_first_def)

definition master_view ::
  "thread_id list \<Rightarrow> 'p transaction list \<Rightarrow> thread_id set \<Rightarrow> 'p logged list \<Rightarrow> 'p master \<times> collection \<Rightarrow> bool"
  where
  "master_view ws P R L = (\<lambda>(ma, c). vp_all (ms_pool ma) = pool_after P L
     \<and> ms_orphans ma = orphans_after L \<and> ms_workers ma = ws
     \<and> executed_local c = length (filter (\<lambda>x. \<not> first x \<and> succeeded x) L) \<and> total c = length P
     \<and> reported c = card R \<and> executed_workers c = (\<Sum>w\<in>R. own_first w True L)
     \<and> forwarded c = (\<Sum>w\<in>R. own_first w False L))"

lemma position_append:
  "\<forall>x\<in>set l. \<not> f x \<Longrightarrow> f t \<Longrightarrow> position f (l @ t # r) = Some (length l)"
  by (induction l) auto

lemma collect_orphan:
  assumes "vp_all (ms_pool ma) = l @ t # r" "tx_id t \<notin> tx_id ` set l"
  shows "\<exists>pool. collect_message E (new_from_thread w (WorkerOrphan (tx_id t))) (ma, c)
      = Inr (ma\<lparr>ms_pool := pool, ms_orphans := ms_orphans ma @ [t\<lparr>tx_tag := Orphan\<rparr>]\<rparr>, c)
    \<and> vp_all pool = l @ r"
proof -
  have "\<forall>x\<in>set l. \<not> tx_id x = tx_id t" using assms(2) by (metis imageI)
  from vec.remove_first[OF assms(1) _ this] show ?thesis
    by (auto simp: collect_message_def new_from_thread_def)
qed

lemma collect_executed:
  assumes pool: "vp_all (ms_pool ma) = l @ t # r" "tx_id t \<notin> tx_id ` set l"
    and t: "tx_tag t = Done w\<^sub>0" "w \<noteq> w\<^sub>0" "tx_verify E t"
  shows "\<exists>pool. collect_message E (new_from_thread w (WorkerExecuted (tx_id t))) (ma, c)
      = Inr (ma\<lparr>ms_pool := pool\<rparr>, c\<lparr>executed_local := executed_local c + 1\<rparr>)
    \<and> vp_all pool = l @ r @ [t\<lparr>tx_tag := Done w\<rparr>]"
proof -
  have "\<forall>x\<in>set l. \<not> tx_id x = tx_id t" using assms(2) by (metis imageI)
  then have "position (\<lambda>x. tx_id x = tx_id t) (vp_iter (ms_pool ma)) = Some (length l)"
    using assms(1) position_append[of l "\<lambda>x. tx_id x = tx_id t" t r] by (simp add: vp_iter_def vp_all_def)
  moreover obtain p1 p2 where "vp_remove_at (length l) (ms_pool ma) = Inr (t, p1)"
    "vp_push_back (tx_verify E) (t\<lparr>tx_tag := Done w\<rparr>) p1 = Inr p2"
    "vp_all p2 = l @ r @ [t\<lparr>tx_tag := Done w\<rparr>]"
    using vec.move_to_end[OF pool(1), of "tx_verify E" "\<lambda>t. t\<lparr>tx_tag := Done w\<rparr>"] t(3) by auto
  ultimately show ?thesis
    using t by (intro exI[of _ p2]) (simp add: collect_message_def new_from_thread_def)
qed

text \<open>A dispatch of a worker, told to the master, keeps the view up to date.\<close>

lemma told_view:
  assumes view: "master_view ws P R L s" and ok: "log_ok ws P (L @ [x])" and P: "distinct (map tx_id P)"
    and tags: "\<forall>tx\<in>set P. \<exists>w\<in>set ws. tx_tag tx = Done w" and valid: "\<forall>tx\<in>set P. tx_verify E tx"
    and busy: "first x \<Longrightarrow> who x \<notin> R"
  shows "\<exists>s'. collect_all E (told x) s = Inr s' \<and> master_view ws P R (L @ [x]) s'"
proof -
  obtain ma c where s: "s = (ma, c)" by fastforce
  have sums: "(\<Sum>w\<in>R. own_first w g (L @ [x])) = (\<Sum>w\<in>R. own_first w g L)" for g
    by (rule sum.cong) (use busy in auto)
  have x_in: "x \<in> set (L @ [x])" by simp
  note mem = log_okD(2)[OF ok x_in]
  show ?thesis
  proof (cases "settled x")
    case False
    then have "told x = []" "\<not> orphaned x" "\<not> (\<not> first x \<and> succeeded x)"
      by (auto simp: told_def settled_def)
    with view s show ?thesis
      by (simp add: master_view_def pool_after_unsettled[OF False] sums del: own_first_append)
  next
    case True
    obtain l r where lr: "pool_after P L = l @ the_tx x # r" "tx_id (the_tx x) \<notin> tx_id ` set l"
      "\<not> first x \<Longrightarrow> succeeded x \<Longrightarrow>
         pool_after P (L @ [x]) = l @ r @ [(the_tx x)\<lparr>tx_tag := Done (who x)\<rparr>]"
      "orphaned x \<Longrightarrow> pool_after P (L @ [x]) = l @ r"
      by (rule pool_after_settled[OF ok True P]) blast
    have pool: "vp_all (ms_pool ma) = l @ the_tx x # r"
      using view s lr(1) by (simp add: master_view_def)
    show ?thesis
    proof (cases "orphaned x")
      case orph: True
      then have "\<not> succeeded x" by (auto simp: logged_defs split: rs.splits)
      with orph collect_orphan[OF pool lr(2), of E "who x" c] lr(4) view s show ?thesis
        by (auto simp: told_def master_view_def sums simp del: own_first_append)
    next
      case False
      with True have late: "\<not> first x" "succeeded x" by (auto simp: settled_def)
      obtain z where z: "z \<in> set (L @ [x])" "sent_to (who x) z" "the_tx z = the_tx x"
        by (rule handled_was_sent[OF ok x_in late(1)])
      have "tx_tag (the_tx x) = Done (who z)" "who x \<noteq> who z"
        using log_okD(4)[OF ok z(1) sent_first[OF z(2)]] log_okD(5)[OF ok z(1,2)] z(3) by simp_all
      from collect_executed[OF pool lr(2) this, of E c] valid mem lr(3)[OF late] view s late False
      show ?thesis
        by (auto simp: told_def master_view_def sums simp del: own_first_append)
    qed
  qed
qed

section \<open>The invariant\<close>

text \<open>Where a worker may be between two tasks, and what it still has to receive from then.\<close>

definition quiet :: "thread_id list \<Rightarrow> worker \<Rightarrow> 'p message_payload list \<Rightarrow> bool" where
  "quiet ws wk pre \<longleftrightarrow> wk_phase wk = Setup \<and> pre = [FinalizeSetup ws]
     \<or> wk_phase wk = Idle \<and> wk_others wk = ws \<and> pre = []
     \<or> wk_phase wk = Serving \<and> wk_others wk = ws \<and> pre = [TaskDone]"

text \<open>Where a worker may be while a block is authored; \<open>queue\<close> is what the master sent it.\<close>

definition author_stage ::
  "thread_id list \<Rightarrow> 'p logged list \<Rightarrow> thread_id \<Rightarrow> 'p transaction list \<Rightarrow> worker
     \<Rightarrow> 'p message_payload list \<Rightarrow> bool" where
  "author_stage ws L w todo wk queue \<longleftrightarrow>
     (\<exists>pre. quiet ws wk pre \<and> queue = pre @ Task Authoring # map TransactionMsg todo @ [TransactionDistributionDone])
   \<or> (\<exists>outs. wk_phase wk = Depleting (own_first w True L) (own_first w False L) outs \<and> wk_others wk = ws
        \<and> queue = map TransactionMsg todo @ [TransactionDistributionDone] \<and> handled w L = [])
   \<or> wk_phase wk = Serving \<and> wk_others wk = ws \<and> queue = [] \<and> todo = []"

definition worker_inv ::
  "thread_id \<Rightarrow> thread_id list \<Rightarrow> 'p transaction list \<Rightarrow> 'p logged list \<Rightarrow> thread_id \<Rightarrow> worker
     \<Rightarrow> 'p message list \<Rightarrow> bool" where
  "worker_inv mid ws P L w wk msgs \<longleftrightarrow> wk_id wk = w \<and> wk_master_id wk = mid
     \<and> (\<exists>todo queue. msgs = map (new_from_thread mid) queue \<and> firsts w L @ todo = tagged w P
          \<and> author_stage ws L w todo wk queue)"

definition peer_inv :: "'p logged list \<Rightarrow> thread_id \<Rightarrow> 'p message list \<Rightarrow> bool" where
  "peer_inv L u msgs \<longleftrightarrow>
     (\<exists>q. map payload msgs = map TransactionMsg q \<and> handled u L @ q = forwards_to u L)"

definition state_inv ::
  "('p, 'z) staking_env_scheme \<Rightarrow> runtime_state \<Rightarrow> 'p logged list \<Rightarrow> runtime_state \<Rightarrow> bool" where
  "state_inv E m\<^sub>0 L m \<longleftrightarrow> shared_run E m\<^sub>0 L m \<and> well_formed E m"

text \<open>
  The workers that have begun the task. Only they own keys, have dispatched and are sent
  transactions by others.
\<close>

definition started :: "worker \<Rightarrow> 'p message list \<Rightarrow> bool" where
  "started wk msgs \<longleftrightarrow> (\<exists>e f outs. wk_phase wk = Depleting e f outs) \<or> wk_phase wk = Serving \<and> msgs = []"

definition started_workers :: "'p system \<Rightarrow> thread_id set" where
  "started_workers c = {w \<in> set (ms_workers (sy_master c)).
     started (sy_workers c w) (to_worker (sy_world c) w)}"

definition begun :: "'p logged list \<Rightarrow> 'p system \<Rightarrow> bool" where
  "begun L c \<longleftrightarrow>
     (\<forall>k t. ts_owner (wo_state (sy_world c)) k = Some t \<longrightarrow> t \<in> started_workers c)
   \<and> (\<forall>x\<in>set L. who x \<in> started_workers c \<and> (\<forall>u. sent_to u x \<longrightarrow> u \<in> started_workers c))"

definition reporting :: "'p system \<Rightarrow> thread_id set" where
  "reporting c = {w \<in> set (ms_workers (sy_master c)).
     wk_phase (sy_workers c w) = Serving \<and> to_worker (sy_world c) w = []}"

definition author_inv ::
  "('p, 'z) exec_env_scheme \<Rightarrow> thread_id \<Rightarrow> thread_id list \<Rightarrow> 'p transaction list \<Rightarrow> runtime_state
     \<Rightarrow> 'p logged list \<Rightarrow> 'p system \<Rightarrow> bool" where
  "author_inv E mid ws P m\<^sub>0 L c \<longleftrightarrow>
     log_ok ws P L \<and> settled_once L \<and> state_inv E m\<^sub>0 L (wo_state (sy_world c)) \<and> begun L c
   \<and> ms_id (sy_master c) = mid \<and> ms_workers (sy_master c) = ws \<and> sy_result c = None
   \<and> (\<forall>w\<in>set ws. worker_inv mid ws P L w (sy_workers c w) (to_worker (sy_world c) w)
        \<and> peer_inv L w (to_peer (sy_world c) w))
   \<and> (\<exists>col s'. ms_phase (sy_master c) = MCollecting col
        \<and> collect_all E (to_master (sy_world c)) (sy_master c, col) = Inr s'
        \<and> master_view ws P (reporting c) L s')"

text \<open>What is assumed of the transactions, once distributed.\<close>

definition distributed ::
  "('p, 'z) exec_env_scheme \<Rightarrow> thread_id list \<Rightarrow> 'p transaction list \<Rightarrow> bool" where
  "distributed E ws P \<longleftrightarrow> distinct ws \<and> distinct (map tx_id P)
     \<and> (\<forall>tx\<in>set P. (\<exists>w\<in>set ws. tx_tag tx = Done w) \<and> tx_exec_status tx = Initial \<and> tx_verify E tx
          \<and> \<not> names_default_controller E (tx_function tx))"

lemma distributedD:
  assumes "distributed E ws P"
  shows "distinct ws" "distinct (map tx_id P)" "\<forall>tx\<in>set P. \<exists>w\<in>set ws. tx_tag tx = Done w"
    "\<forall>tx\<in>set P. tx_verify E tx" "tx \<in> set P \<Longrightarrow> tx_exec_status tx = Initial"
    "tx \<in> set P \<Longrightarrow> \<not> names_default_controller E (tx_function tx)"
  using assms by (auto simp: distributed_def)

lemma tagged_set: "tx \<in> set (tagged w P) \<longleftrightarrow> tx \<in> set P \<and> tx_tag tx = Done w"
  by (auto simp: tagged_def)

text \<open>A dispatch on the state of the invariant.\<close>

lemma state_inv_step:
  assumes inv: "state_inv E m\<^sub>0 L m" and E: "staking_ok E"
    and tx: "\<not> names_default_controller E (tx_function tx)"
    and run: "execute_transaction E w tx m = (r, m')"
  shows "state_inv E m\<^sub>0 (L @ [((w, tx), r)]) m'" "\<not> is_Panic r"
    "r = Err (RtTainted t b) \<Longrightarrow> t \<noteq> w \<and> (\<exists>k. ts_owner m k = Some t)"
proof -
  note sound = execute_transaction_sound[OF E _ tx run]
  show "state_inv E m\<^sub>0 (L @ [((w, tx), r)]) m'"
    using inv sound(2) shared_run_dispatch[OF _ run] by (auto simp: state_inv_def)
  show "\<not> is_Panic r" using sound(1) inv by (simp add: state_inv_def)
  show "t \<noteq> w \<and> (\<exists>k. ts_owner m k = Some t)" if r: "r = Err (RtTainted t b)"
  proof -
    obtain k where k: "t \<noteq> w" "ts_owner m' k = Some t"
      using refused_owner[of E w tx m t b m'] run r by auto
    then have "ts_owner m k = Some t" using execute_transaction_facts(1)[OF run, of k] by auto
    with k(1) show ?thesis by blast
  qed
qed

lemma state_inv_touch:
  assumes "state_inv E m\<^sub>0 L m" "ts_owner m k = None"
  shows "state_inv E m\<^sub>0 L (touch w k m)"
  using assms(1) shared_run_touch[OF _ assms(2), of E m\<^sub>0 L w] touch_facts(1)[OF assms(2), of w]
  by (simp add: state_inv_def well_formed_def)

section \<open>Steps of the workers\<close>

lemma worker_inv_other:
  assumes "worker_inv mid ws P L v wk msgs" "who x \<noteq> v"
  shows "worker_inv mid ws P (L @ [x]) v wk msgs"
proof -
  obtain todo queue where t: "msgs = map (new_from_thread mid) queue" "firsts v L @ todo = tagged v P"
    "author_stage ws L v todo wk queue" "wk_id wk = v" "wk_master_id wk = mid"
    using assms(1) by (auto simp: worker_inv_def)
  have "author_stage ws (L @ [x]) v todo wk queue"
    using t(3) assms(2) by (simp add: author_stage_def)
  with t assms(2) show ?thesis
    unfolding worker_inv_def by (intro conjI exI[of _ todo] exI[of _ queue]) simp_all
qed

lemma author_inv_update:
  assumes inv: "author_inv E mid ws P m\<^sub>0 L c" and w: "w \<in> set ws"
    and log: "L' = L \<or> (\<exists>x. L' = L @ [x] \<and> who x = w)"
    and log': "log_ok ws P L'" "settled_once L'" "state_inv E m\<^sub>0 L' (wo_state wo')"
    and mine: "worker_inv mid ws P L' w wk' (to_worker wo' w)"
    and others: "\<And>v. v \<noteq> w \<Longrightarrow> to_worker wo' v = to_worker (sy_world c) v"
    and peers: "\<And>v. v \<in> set ws \<Longrightarrow> peer_inv L' v (to_peer wo' v)"
    and sent: "to_master wo' = to_master (sy_world c) @ msgs"
    and go: "started (sy_workers c w) (to_worker (sy_world c) w) \<Longrightarrow> started wk' (to_worker wo' w)"
    and owners: "\<And>k t. ts_owner (wo_state wo') k = Some t \<Longrightarrow>
       ts_owner (wo_state (sy_world c)) k = Some t \<or> t = w \<and> started wk' (to_worker wo' w)"
    and new: "\<And>x. x \<in> set L' \<Longrightarrow> x \<in> set L
       \<or> who x = w \<and> started wk' (to_worker wo' w) \<and> (\<forall>u. sent_to u x \<longrightarrow> u \<in> started_workers c)"
    and view: "\<And>s. master_view ws P (reporting c) L s \<Longrightarrow>
       \<exists>s'. collect_all E msgs s = Inr s' \<and> master_view ws P
         (if wk_phase wk' = Serving \<and> to_worker wo' w = [] then insert w (reporting c) else reporting c - {w}) L' s'"
  shows "author_inv E mid ws P m\<^sub>0 L' (c\<lparr>sy_workers := (sy_workers c)(w := wk'), sy_world := wo'\<rparr>)"
proof -
  let ?c = "c\<lparr>sy_workers := (sy_workers c)(w := wk'), sy_world := wo'\<rparr>"
  have ws: "ms_workers (sy_master c) = ws"
    using inv by (simp add: author_inv_def)
  have rep: "reporting ?c = (if wk_phase wk' = Serving \<and> to_worker wo' w = []
      then insert w (reporting c) else reporting c - {w})"
    using w others by (auto simp: reporting_def ws split: if_splits)
  have workers: "worker_inv mid ws P L' v (sy_workers ?c v) (to_worker wo' v)" if "v \<in> set ws" for v
  proof (cases "v = w")
    case False
    have "worker_inv mid ws P L v (sy_workers c v) (to_worker (sy_world c) v)"
      using inv that by (simp add: author_inv_def)
    with log False others[OF False] show ?thesis
      using worker_inv_other by fastforce
  qed (simp add: mine)
  have more: "v \<in> started_workers ?c" if "v \<in> started_workers c" for v
    using that go others[of v] by (cases "v = w") (simp_all add: started_workers_def)
  have self: "w \<in> started_workers ?c" if "started wk' (to_worker wo' w)"
    using that w ws by (simp add: started_workers_def)
  have old: "begun L c" using inv by (simp add: author_inv_def)
  have begun: "begun L' ?c"
    unfolding begun_def
  proof (intro conjI allI impI ballI)
    fix k t assume "ts_owner (wo_state (sy_world ?c)) k = Some t"
    then have "ts_owner (wo_state wo') k = Some t" by simp
    from owners[OF this] show "t \<in> started_workers ?c"
      using more self old unfolding begun_def by blast
  next
    fix x assume x: "x \<in> set L'"
    from new[OF x] show "who x \<in> started_workers ?c"
      using more self old unfolding begun_def by blast
    fix u assume "sent_to u x"
    with new[OF x] show "u \<in> started_workers ?c"
      using more old unfolding begun_def by blast
  qed
  obtain col s where s: "ms_phase (sy_master c) = MCollecting col"
    "collect_all E (to_master (sy_world c)) (sy_master c, col) = Inr s" "master_view ws P (reporting c) L s"
    using inv unfolding author_inv_def by blast
  obtain s' where s': "collect_all E msgs s = Inr s'" "master_view ws P (reporting ?c) L' s'"
    using view[OF s(3)] unfolding rep by blast
  have "collect_all E (to_master wo') (sy_master c, col) = Inr s'"
    using s(2) s'(1) by (simp add: sent collect_all_append)
  with s(1) s'(2) have "\<exists>col s'. ms_phase (sy_master ?c) = MCollecting col
      \<and> collect_all E (to_master (sy_world ?c)) (sy_master ?c, col) = Inr s'
      \<and> master_view ws P (reporting ?c) L' s'"
    by (intro exI[of _ col] exI[of _ s']) simp
  with inv log' workers peers begun show ?thesis
    unfolding author_inv_def by simp
qed

text \<open>A dispatch that keeps a log consistent keeps the invariant, if the worker's queues do.\<close>

lemma author_inv_dispatch:
  assumes inv: "author_inv E mid ws P m\<^sub>0 L c" and w: "w \<in> set ws" and P: "distributed E ws P"
    and E: "staking_ok E" and tx: "the_tx ((w, tx), q) \<in> set P"
    and run: "execute_transaction E w tx (wo_state (sy_world c)) = (q, m)"
    and ok: "log_ok ws P (L @ [((w, tx), q)])"
    and mine: "worker_inv mid ws P (L @ [((w, tx), q)]) w wk' (to_worker wo' w)"
    and world: "wo_state wo' = m" "to_master wo' = to_master (sy_world c) @ told ((w, tx), q)"
      "\<And>v. v \<noteq> w \<Longrightarrow> to_worker wo' v = to_worker (sy_world c) v"
      "\<And>v. v \<in> set ws \<Longrightarrow> peer_inv (L @ [((w, tx), q)]) v (to_peer wo' v)"
    and same: "w \<in> reporting c \<longleftrightarrow> wk_phase wk' = Serving \<and> to_worker wo' w = []"
    and busy: "tx_exec_status tx = Initial \<Longrightarrow> w \<notin> reporting c"
    and go: "started wk' (to_worker wo' w)"
    and sent: "\<And>u. sent_to u ((w, tx), q) \<Longrightarrow> u \<in> started_workers c"
  shows "author_inv E mid ws P m\<^sub>0 (L @ [((w, tx), q)])
      (c\<lparr>sy_workers := (sy_workers c)(w := wk'), sy_world := wo'\<rparr>)"
proof (rule author_inv_update[OF inv w _ ok _ _ mine world(3) world(4) world(2)], goal_cases)
  case 1
  show ?case by (simp add: who_def)
next
  case 2
  show ?case
    using inv by (intro settled_once_append[OF _ ok distributedD(2)[OF P]]) (simp add: author_inv_def)
next
  case 3
  have "\<not> names_default_controller E (tx_function tx)"
    using distributedD(6)[OF P tx] by (simp add: the_tx_def)
  from state_inv_step(1)[OF _ E this run] inv show ?case
    by (simp add: author_inv_def world(1))
next
  case 6
  show ?case by (rule go)
next
  case (7 k t)
  then show ?case
    using execute_transaction_facts(1)[OF run, of k] go by (auto simp: world(1))
next
  case (8 x)
  then show ?case using go sent by (auto simp: who_def)
next
  case (9 s)
  have "(if wk_phase wk' = Serving \<and> to_worker wo' w = [] then insert w (reporting c) else reporting c - {w})
      = reporting c"
    using same by auto
  moreover have "\<exists>s'. collect_all E (told ((w, tx), q)) s = Inr s'
      \<and> master_view ws P (reporting c) (L @ [((w, tx), q)]) s'"
    using busy by (intro told_view[OF 9 ok]) (use distributedD[OF P] in \<open>auto simp: first_def who_def\<close>)
  ultimately show ?case by simp
qed simp_all

lemma author_invD:
  assumes "author_inv E mid ws P m\<^sub>0 L c"
  shows "log_ok ws P L" "settled_once L" "state_inv E m\<^sub>0 L (wo_state (sy_world c))"
    "w \<in> set ws \<Longrightarrow> worker_inv mid ws P L w (sy_workers c w) (to_worker (sy_world c) w)"
    "w \<in> set ws \<Longrightarrow> peer_inv L w (to_peer (sy_world c) w)"
    "ms_workers (sy_master c) = ws" "ms_id (sy_master c) = mid" "sy_result c = None" "begun L c"
  using assms unfolding author_inv_def by blast+

lemma begunD:
  assumes "begun L c"
  shows "ts_owner (wo_state (sy_world c)) k = Some t \<Longrightarrow> t \<in> started_workers c"
    "x \<in> set L \<Longrightarrow> who x \<in> started_workers c" "x \<in> set L \<Longrightarrow> sent_to u x \<Longrightarrow> u \<in> started_workers c"
  using assms unfolding begun_def by blast+

lemma quiet_not_started:
  "quiet ws wk pre \<Longrightarrow> msgs \<noteq> [] \<Longrightarrow> \<not> started wk msgs"
  by (auto simp: quiet_def started_def)

text \<open>A step that only moves the worker on in its queue.\<close>

lemma author_inv_silent:
  assumes inv: "author_inv E mid ws P m\<^sub>0 L c" and w: "w \<in> set ws"
    and queue: "to_worker (sy_world c) w = msg # rest"
    and mine: "worker_inv mid ws P L w wk' rest" and "wk_phase wk' \<noteq> Serving"
    and idle: "\<not> started (sy_workers c w) (msg # rest)"
  shows "author_inv E mid ws P m\<^sub>0 L (c\<lparr>sy_workers := (sy_workers c)(w := wk'),
     sy_world := (sy_world c)\<lparr>to_worker := (to_worker (sy_world c))(w := rest)\<rparr>\<rparr>)"
proof (rule author_inv_update[OF inv w, where msgs = "[]"], goal_cases)
  case (12 s)
  have "w \<notin> reporting c" using queue by (simp add: reporting_def)
  with 12 assms(5) show ?case by simp
qed (use author_invD[OF inv] mine idle queue in simp_all)

text \<open>The end of the queue: the worker reports and starts to serve the others.\<close>

lemma master_view_report:
  assumes view: "master_view ws P R L s" and w: "w \<notin> R" "finite R"
  shows "\<exists>s'. collect_all E [new_from_thread w (AuthoringReport (own_first w True L) (own_first w False L))] s
      = Inr s' \<and> master_view ws P (insert w R) L s'"
  using assms by (cases s) (simp add: collect_message_def new_from_thread_def master_view_def)

lemma author_inv_report:
  assumes inv: "author_inv E mid ws P m\<^sub>0 L c" and w: "w \<in> set ws"
    and queue: "to_worker (sy_world c) w = msg # []"
    and mine: "worker_inv mid ws P L w wk' []" and serving: "wk_phase wk' = Serving"
  shows "author_inv E mid ws P m\<^sub>0 L (c\<lparr>sy_workers := (sy_workers c)(w := wk'),
     sy_world := send_master w (AuthoringReport (own_first w True L) (own_first w False L))
       ((sy_world c)\<lparr>to_worker := (to_worker (sy_world c))(w := [])\<rparr>)\<rparr>)"
proof (rule author_inv_update[OF inv w,
      where msgs = "[new_from_thread w (AuthoringReport (own_first w True L) (own_first w False L))]"], goal_cases)
  case (12 s)
  have "w \<notin> reporting c" "finite (reporting c)" using queue by (simp_all add: reporting_def)
  from master_view_report[OF 12 this] serving show ?case
    by (simp add: send_master_def)
qed (use author_invD[OF inv] mine serving in \<open>simp_all add: send_master_def started_def\<close>)

lemma quiet_step:
  assumes quiet: "quiet ws wk (p # pre)" and E: "wk_id wk = w"
  shows "\<exists>wk'. quiet ws wk' pre \<and> wk_phase wk' \<noteq> Serving \<and> wk_id wk' = w
      \<and> wk_master_id wk' = wk_master_id wk
      \<and> (\<forall>wo rest. to_worker wo w = new_from_thread mid p # rest \<longrightarrow>
           worker_from_master E wk wo = (wk', wo\<lparr>to_worker := (to_worker wo)(w := rest)\<rparr>))
      \<and> master_event wk (new_from_thread mid p) = []"
proof (cases "wk_phase wk = Setup")
  case True
  with quiet have "p = FinalizeSetup ws" "pre = []" by (auto simp: quiet_def)
  with True E show ?thesis
    by (intro exI[of _ "wk\<lparr>wk_others := ws, wk_phase := Idle\<rparr>"])
      (simp add: worker_from_master_def wait_finalize_setup_def new_from_thread_def quiet_def
        master_event_def Let_def)
next
  case False
  with quiet have "p = TaskDone" "pre = []" "wk_phase wk = Serving" "wk_others wk = ws"
    by (auto simp: quiet_def)
  with E show ?thesis
    by (intro exI[of _ "wk\<lparr>wk_phase := Idle\<rparr>"])
      (simp add: worker_from_master_def author_from_master_def new_from_thread_def quiet_def
        master_event_def Let_def)
qed

lemma peer_inv_append:
  assumes "peer_inv L u msgs" "\<And>v. sent_to v x \<Longrightarrow> snd (fst x) = the_tx x"
    and "map payload msgs' = map payload msgs @ (if sent_to u x then [TransactionMsg (snd (fst x))] else [])"
    and "who x = u \<Longrightarrow> first x"
  shows "peer_inv (L @ [x]) u msgs'"
proof -
  obtain q where "map payload msgs = map TransactionMsg q" "handled u L @ q = forwards_to u L"
    using assms(1) by (auto simp: peer_inv_def)
  with assms(2-) show ?thesis
    unfolding peer_inv_def
    by (intro exI[of _ "q @ (if sent_to u x then [the_tx x] else [])"]) auto
qed

text \<open>A transaction from the master.\<close>

lemma author_inv_first:
  assumes inv: "author_inv E mid ws P m\<^sub>0 L c" and w: "w \<in> set ws" and P: "distributed E ws P"
    and E: "staking_ok E"
    and phase: "wk_phase (sy_workers c w) = Depleting (own_first w True L) (own_first w False L) outs"
    and others: "wk_others (sy_workers c w) = ws" and idle: "handled w L = []"
    and todo: "firsts w L @ tx # todo = tagged w P"
    and queue: "to_worker (sy_world c) w = map (new_from_thread mid)
      (TransactionMsg tx # map TransactionMsg todo @ [TransactionDistributionDone])"
    and step: "worker_from_master E (sy_workers c w) (sy_world c) = (wk', wo')"
  shows "author_inv E mid ws P m\<^sub>0 (L @ [((w, tx), fst (execute_transaction E w tx (wo_state (sy_world c))))])
      (c\<lparr>sy_workers := (sy_workers c)(w := wk'), sy_world := wo'\<rparr>)"
proof -
  let ?wk = "sy_workers c w" and ?wo = "sy_world c"
  let ?rest = "map (new_from_thread mid) (map TransactionMsg todo @ [TransactionDistributionDone])"
  let ?wo1 = "?wo\<lparr>to_worker := (to_worker ?wo)(w := ?rest)\<rparr>"
  have ids: "wk_id ?wk = w" "wk_master_id ?wk = mid"
    using author_invD(4)[OF inv w] by (auto simp: worker_inv_def)
  have "tx \<in> set (tagged w P)" unfolding todo[symmetric] by simp
  then have tx: "tx \<in> set P" "tx_tag tx = Done w" by (simp_all add: tagged_set)
  note tx_ok = distributedD(5,6)[OF P tx(1)]
  obtain q m where run: "execute_transaction E w tx (wo_state ?wo) = (q, m)" by fastforce
  let ?x = "((w, tx), q)"
  note st = state_inv_step[OF author_invD(3)[OF inv] E tx_ok(2) run]
  have x: "first ?x" "who ?x = w" "the_tx ?x = tx"
    using tx_ok(1) by (simp_all add: first_def who_def the_tx_def)
  have sent: "u \<noteq> w" "u \<in> started_workers c" if "sent_to u ?x" for u
    using st(3)[of u False] that begunD(1)[OF author_invD(9)[OF inv]] by (auto simp: sent_to_def)
  have sent_ws: "u \<in> set ws" if "sent_to u ?x" for u
    using sent(2)[OF that] author_invD(6)[OF inv] by (simp add: started_workers_def)
  have ok: "log_ok ws P (L @ [?x])"
    by (rule log_ok_first[OF author_invD(1)[OF inv] distributedD(2)[OF P]])
      (use x w st(2) todo idle sent(1) sent_ws in simp_all)
  have "u \<in> set (wk_others ?wk)" if "sent_to u ?x" for u
    using sent_ws[OF that] others by simp
  then obtain r wo2 where eof: "execute_or_forward E ?wk tx ?wo1 = (Ok r, wo2)"
    "succeeded ?x \<longleftrightarrow> (\<exists>ok. r = Executed ok)" "wo_state wo2 = m" "to_worker wo2 = to_worker ?wo1"
    "to_master wo2 = to_master ?wo1 @ told ?x"
    "\<forall>u. map payload (to_peer wo2 u) = map payload (to_peer ?wo1 u) @ (if sent_to u ?x then [TransactionMsg tx] else [])"
    using execute_or_forward_world[of E ?wk tx ?wo1 q m ?x] run st(2) ids by auto
  have wk': "wo' = wo2" "\<exists>outs'. wk' = ?wk\<lparr>wk_phase := Depleting (own_first w True (L @ [?x])) (own_first w False (L @ [?x])) outs'\<rparr>"
    using step eof(1,2) queue phase ids x
    by (auto simp: worker_from_master_def deplete_master_queue_def deplete_outcome_def new_from_thread_def
        split: execution_outcome.splits)
  then obtain outs' where outs': "wk' = ?wk\<lparr>wk_phase := Depleting (own_first w True (L @ [?x])) (own_first w False (L @ [?x])) outs'\<rparr>"
    by blast
  have "author_inv E mid ws P m\<^sub>0 (L @ [?x]) (c\<lparr>sy_workers := (sy_workers c)(w := wk'), sy_world := wo2\<rparr>)"
  proof (rule author_inv_dispatch[OF inv w P E _ run ok], goal_cases)
    case 2
    have "author_stage ws (L @ [?x]) w todo wk' (map TransactionMsg todo @ [TransactionDistributionDone])"
      unfolding author_stage_def outs' using others idle x by simp
    then show ?case
      unfolding worker_inv_def using ids todo x eof(4)
      by (auto simp: outs' intro!: exI[of _ todo] exI[of _ "map TransactionMsg todo @ [TransactionDistributionDone]"])
  next
    case (6 v)
    show ?case
      by (rule peer_inv_append[OF author_invD(5)[OF inv 6]]) (use x eof(6) in simp_all)
  next
    case 7
    show ?case using phase by (simp add: reporting_def outs')
  next
    case 8
    show ?case using phase by (simp add: reporting_def)
  next
    case 9
    show ?case by (simp add: started_def outs')
  next
    case (10 u)
    then show ?case by (rule sent(2))
  qed (use tx x eof in simp_all)
  with wk'(1) run show ?thesis by simp
qed

text \<open>A transaction from another worker.\<close>

lemma author_inv_later:
  assumes inv: "author_inv E mid ws P m\<^sub>0 L c" and w: "w \<in> set ws" and P: "distributed E ws P"
    and E: "staking_ok E" and phase: "wk_phase (sy_workers c w) = Serving"
    and queue: "to_peer (sy_world c) w = msg # rest"
    and step: "worker_from_others E (sy_workers c w) (sy_world c) = (wk', wo')"
  shows "\<exists>tx. peer_event (sy_workers c w) msg = [(w, tx)]
    \<and> author_inv E mid ws P m\<^sub>0 (L @ [((w, tx), fst (execute_transaction E w tx (wo_state (sy_world c))))])
      (c\<lparr>sy_workers := (sy_workers c)(w := wk'), sy_world := wo'\<rparr>)"
proof -
  let ?wk = "sy_workers c w" and ?wo = "sy_world c"
  let ?wo1 = "?wo\<lparr>to_peer := (to_peer ?wo)(w := rest)\<rparr>"
  note ok\<^sub>0 = author_invD(1)[OF inv]
  obtain tx pend where pend: "payload msg = TransactionMsg tx" "map payload rest = map TransactionMsg pend"
    "handled w L @ tx # pend = forwards_to w L"
    using author_invD(5)[OF inv w] queue by (fastforce simp: peer_inv_def)
  have "tx \<in> set (forwards_to w L)" unfolding pend(3)[symmetric] by simp
  then obtain z where z: "z \<in> set L" "sent_to w z" "the_tx z = tx"
    by (auto simp: forwards_to_def)
  have tx: "tx \<in> set P" using log_okD(2)[OF ok\<^sub>0 z(1)] z(3) by simp
  note tx_ok = distributedD(5,6)[OF P tx]
  have active: "started ?wk (to_worker ?wo w)"
    using begunD(3)[OF author_invD(9)[OF inv] z(1,2)] by (simp add: started_workers_def)
  have wkw: "wk_id ?wk = w" "wk_master_id ?wk = mid" "wk_others ?wk = ws" "to_worker ?wo w = []"
    "firsts w L = tagged w P"
    using author_invD(4)[OF inv w] phase active
    by (auto simp: worker_inv_def author_stage_def quiet_def started_def)
  let ?tx = "tx\<lparr>tx_exec_status := Forwarded\<rparr>"
  obtain q m where run: "execute_transaction E w ?tx (wo_state ?wo) = (q, m)" by fastforce
  let ?x = "((w, ?tx), q)"
  have x: "\<not> first ?x" "who ?x = w" "the_tx ?x = tx" "\<And>u. \<not> sent_to u ?x"
    using tx_ok(1) by (simp_all add: first_def who_def the_tx_def sent_to_def)
  have tx_ok2: "\<not> names_default_controller E (tx_function ?tx)" using tx_ok(2) by simp
  note st = state_inv_step[OF author_invD(3)[OF inv] E tx_ok2 run]
  have ok: "log_ok ws P (L @ [?x])"
    by (rule log_ok_later[OF ok\<^sub>0]) (use x w st(2) pend(3)[symmetric] in \<open>auto simp: prefix_def\<close>)
  obtain r wo2 where eof: "execute_or_forward E ?wk ?tx ?wo1 = (Ok r, wo2)"
    "wo_state wo2 = m" "to_worker wo2 = to_worker ?wo1" "to_master wo2 = to_master ?wo1 @ told ?x"
    "\<forall>u. map payload (to_peer wo2 u) = map payload (to_peer ?wo1 u) @ (if sent_to u ?x then [TransactionMsg ?tx] else [])"
    using execute_or_forward_world[of E ?wk ?tx ?wo1 q m ?x] run st(2) x wkw by auto
  have wk': "wk' = ?wk" "wo' = wo2"
    using step eof(1) queue phase wkw pend(1)
    by (auto simp: worker_from_others_def author_from_others_def serve_outcome_def)
  have "author_inv E mid ws P m\<^sub>0 (L @ [?x]) (c\<lparr>sy_workers := (sy_workers c)(w := wk'), sy_world := wo2\<rparr>)"
  proof (rule author_inv_dispatch[OF inv w P E _ run ok], goal_cases)
    case 2
    show ?case
      using wkw phase x eof(3) by (auto simp: worker_inv_def author_stage_def wk'(1))
  next
    case (6 v)
    show ?case
    proof (cases "v = w")
      case True
      with pend x eof(5) show ?thesis
        by (auto simp: peer_inv_def intro!: exI[of _ pend])
    next
      case False
      show ?thesis
        by (rule peer_inv_append[OF author_invD(5)[OF inv 6]]) (use x eof(5) False in auto)
    qed
  next
    case 7
    show ?case using phase wkw eof(3) w author_invD(6)[OF inv] by (simp add: reporting_def wk'(1))
  next
    case 9
    show ?case using phase wkw eof(3) by (simp add: started_def wk'(1))
  qed (use tx x eof in simp_all)
  moreover have "peer_event ?wk msg = [(w, ?tx)]"
    using pend(1) wkw by (simp add: peer_event_def)
  ultimately show ?thesis using wk' run by (intro exI[of _ ?tx]) simp
qed

text \<open>Any step of a worker.\<close>

lemma author_inv_from_master:
  assumes inv: "author_inv E mid ws P m\<^sub>0 L c" and w: "w \<in> set ws" and P: "distributed E ws P"
    and E: "staking_ok E" and queue: "to_worker (sy_world c) w = msg # rest"
    and step: "worker_from_master E (sy_workers c w) (sy_world c) = (wk', wo')"
  shows "\<exists>xs. map fst xs = master_event (sy_workers c w) msg
    \<and> (\<forall>x\<in>set xs. snd x = fst (execute_transaction E (who x) (snd (fst x)) (wo_state (sy_world c))))
    \<and> author_inv E mid ws P m\<^sub>0 (L @ xs)
      (c\<lparr>sy_workers := (sy_workers c)(w := wk'), sy_world := wo'\<rparr>)"
proof -
  let ?wk = "sy_workers c w"
  obtain todo qu where wi: "wk_id ?wk = w" "wk_master_id ?wk = mid"
    "map (new_from_thread mid) qu = msg # rest" "firsts w L @ todo = tagged w P" "author_stage ws L w todo ?wk qu"
    using author_invD(4)[OF inv w] unfolding queue worker_inv_def
    by (elim exE conjE) (rule that, simp_all only:)
  have asleep: "\<not> started ?wk (msg # rest)" if "quiet ws ?wk pre" for pre
    by (rule quiet_not_started[OF that]) simp
  from wi(5) consider (quiet) pre where "quiet ws ?wk pre" "\<not> started ?wk (msg # rest)"
      "qu = pre @ Task Authoring # map TransactionMsg todo @ [TransactionDistributionDone]"
    | (depleting) outs where "wk_phase ?wk = Depleting (own_first w True L) (own_first w False L) outs"
      "wk_others ?wk = ws" "handled w L = []"
      "qu = map TransactionMsg todo @ [TransactionDistributionDone]"
    using wi(3) asleep by (auto simp: author_stage_def)
  then show ?thesis
  proof cases
    case quiet
    have new: "w \<notin> who ` set L"
    proof
      assume "w \<in> who ` set L"
      then have "w \<in> started_workers c" using begunD(2)[OF author_invD(9)[OF inv]] by blast
      with quiet(2) queue show False by (simp add: started_workers_def)
    qed
    show ?thesis
    proof (cases pre)
      case Nil
      have idle: "own_first w g L = 0" "handled w L = []" for g
        using new by (force simp: own_first_def handled_def filter_empty_conv)+
      have msg: "msg = new_from_thread mid (Task Authoring)"
        "rest = map (new_from_thread mid) (map TransactionMsg todo @ [TransactionDistributionDone])"
        using wi(3) quiet(3) Nil by auto
      have phase: "wk_phase ?wk = Idle" "wk_others ?wk = ws"
        using quiet(1) Nil by (auto simp: quiet_def)
      have wk': "wk' = ?wk\<lparr>wk_phase := Depleting 0 0 []\<rparr>"
        "wo' = (sy_world c)\<lparr>to_worker := (to_worker (sy_world c))(w := rest)\<rparr>"
        using step queue phase wi(1) msg(1)
        by (auto simp: worker_from_master_def run_task_def new_from_thread_def Let_def)
      have "worker_inv mid ws P L w wk' rest"
        unfolding worker_inv_def author_stage_def using wi phase idle msg(2) wk'(1)
        by (intro conjI exI[of _ todo] exI[of _ "map TransactionMsg todo @ [TransactionDistributionDone]"]) simp_all
      from author_inv_silent[OF inv w queue this _ quiet(2)] wk' phase msg(1)
      show ?thesis by (intro exI[of _ "[]"]) (simp add: master_event_def new_from_thread_def)
    next
      case (Cons p pre')
      have msg: "msg = new_from_thread mid p"
        "rest = map (new_from_thread mid) (pre' @ Task Authoring # map TransactionMsg todo @ [TransactionDistributionDone])"
        using wi(3) quiet(3) Cons by auto
      obtain wk2 where wk2: "quiet ws wk2 pre'" "wk_phase wk2 \<noteq> Serving" "wk_id wk2 = w" "wk_master_id wk2 = mid"
        "worker_from_master E ?wk (sy_world c)
           = (wk2, (sy_world c)\<lparr>to_worker := (to_worker (sy_world c))(w := rest)\<rparr>)"
        "master_event ?wk msg = []"
        using quiet_step[OF quiet(1)[unfolded Cons] wi(1), of mid] queue msg(1) wi(2) by blast
      have "worker_inv mid ws P L w wk2 rest"
        unfolding worker_inv_def author_stage_def using wi quiet(2) wk2 msg(2)
        by (intro conjI exI[of _ todo]
            exI[of _ "pre' @ Task Authoring # map TransactionMsg todo @ [TransactionDistributionDone]"]) auto
      from author_inv_silent[OF inv w queue this wk2(2) quiet(2)] wk2(5,6) step
      show ?thesis by (intro exI[of _ "[]"]) simp
    qed
  next
    case depleting
    show ?thesis
    proof (cases todo)
      case Nil
      have msg: "msg = new_from_thread mid TransactionDistributionDone" "rest = []"
        using wi(3) depleting(4) Nil by auto
      have wk': "wk' = ?wk\<lparr>wk_phase := Serving\<rparr>"
        "wo' = send_master w (AuthoringReport (own_first w True L) (own_first w False L))
           ((sy_world c)\<lparr>to_worker := (to_worker (sy_world c))(w := [])\<rparr>)"
        using step queue depleting(1) wi(1,2) msg
        by (auto simp: worker_from_master_def deplete_master_queue_def deplete_outcome_def new_from_thread_def)
      have "worker_inv mid ws P L w wk' []"
        unfolding worker_inv_def author_stage_def using wi depleting Nil wk'(1)
        by (intro conjI exI[of _ "[]"]) simp_all
      from author_inv_report[OF inv w queue[unfolded msg(2)] this] wk' msg(1)
      show ?thesis by (intro exI[of _ "[]"]) (simp add: master_event_def new_from_thread_def)
    next
      case (Cons tx todo')
      have "msg = new_from_thread mid (TransactionMsg tx)"
        and qu: "to_worker (sy_world c) w = map (new_from_thread mid)
          (TransactionMsg tx # map TransactionMsg todo' @ [TransactionDistributionDone])"
        using wi(3) depleting(4) Cons queue by auto
      then have "master_event ?wk msg = [(w, tx)]"
        using depleting(1) wi(1) by (simp add: master_event_def new_from_thread_def)
      moreover note author_inv_first[OF inv w P E depleting(1-3) wi(4)[unfolded Cons] qu step]
      ultimately show ?thesis
        by (intro exI[of _ "[((w, tx), fst (execute_transaction E w tx (wo_state (sy_world c))))]"])
          (simp add: who_def)
    qed
  qed
qed

section \<open>Steps of the master\<close>

lemma well_formed_sr: "well_formed E (sr_state s) \<longleftrightarrow>
    chain_readable E (sr_view s) \<and> chain_inv E (chain_of E (sr_view s))"
  by (simp add: well_formed_def sr_view_def)

lemma execute_orphans_no_Err: "execute_orphans E txs s \<noteq> (Err e, s')"
proof (induction txs arbitrary: s)
  case (Cons tx txs)
  then show ?case by (auto simp: comp_iffs split: if_splits)
qed (simp add: comp_simps)

lemma execute_orphans_run:
  assumes E: "staking_ok E" and "well_formed E (sr_state s)"
    and "\<forall>tx\<in>set txs. tx_tag tx = Orphan \<and> \<not> names_default_controller E (tx_function tx)"
  shows "\<exists>oks s'. execute_orphans E txs s = (Ok oks, s') \<and> well_formed E (sr_state s')"
  using assms(2,3)
proof (induction txs arbitrary: s)
  case (Cons tx txs)
  have chain: "chain_readable E (sr_view s)" "chain_inv E (chain_of E (sr_view s))"
    "\<not> names_default_controller E (tx_function tx)"
    using Cons.prems by (auto simp: well_formed_sr)
  obtain ok s1 where s1: "SequentialRuntime_dispatch E (tx_function tx) (fst (tx_signature tx)) s = (Ok ok, s1)"
    "chain_readable E (sr_view s1)" "chain_inv E (chain_of E (sr_view s1))"
    using sequential_transaction[OF E chain] by metis
  obtain oks s2 where "execute_orphans E txs s1 = (Ok oks, s2)" "well_formed E (sr_state s2)"
    using Cons.IH[of s1] s1(2,3) Cons.prems(2) by (auto simp: well_formed_sr)
  with s1(1) Cons.prems(2) show ?case by (simp add: comp_simps expectC_def)
qed (simp add: comp_simps)

text \<open>What a received message can change.\<close>

lemma collect_message_frame:
  assumes "collect_message E msg (ma, c) = Inr (ma', c')"
  shows "ms_id ma' = ms_id ma" "ms_workers ma' = ms_workers ma" "total c' = total c"
    "reported c \<le> reported c'" "reported c' = reported c \<Longrightarrow> forwarded c' = forwarded c"
    "executed_local c' + length (ms_orphans ma') + reported c'
       = executed_local c + length (ms_orphans ma) + reported c + 1"
  using assms by (auto simp: collect_message_def
      split: message_payload.splits sum.splits option.splits execution_tag.splits if_splits)

lemma collect_all_frame:
  assumes "collect_all E msgs (ma, c) = Inr (ma', c')"
  shows "ms_id ma' = ms_id ma \<and> ms_workers ma' = ms_workers ma \<and> total c' = total c
    \<and> reported c \<le> reported c' \<and> (reported c' = reported c \<longrightarrow> forwarded c' = forwarded c)
    \<and> executed_local c' + length (ms_orphans ma') + reported c'
       = executed_local c + length (ms_orphans ma) + reported c + length msgs"
  using assms
proof (induction msgs arbitrary: ma c)
  case (Cons msg msgs)
  obtain ma1 c1 where 1: "collect_message E msg (ma, c) = Inr (ma1, c1)"
    "collect_all E msgs (ma1, c1) = Inr (ma', c')"
    using Cons.prems by (auto split: sum.splits)
  from Cons.IH[OF 1(2)] collect_message_frame[OF 1(1)] show ?case by auto
qed simp

lemma collect_message_phase:
  "collect_message E msg (ma\<lparr>ms_phase := p\<rparr>, c) = (case collect_message E msg (ma, c) of
     Inl m \<Rightarrow> Inl m | Inr (ma', c') \<Rightarrow> Inr (ma'\<lparr>ms_phase := p\<rparr>, c'))"
  by (auto simp: collect_message_def split: message_payload.splits sum.splits option.splits
      execution_tag.splits if_splits)

lemma collect_all_phase:
  "collect_all E msgs (ma\<lparr>ms_phase := p\<rparr>, c) = (case collect_all E msgs (ma, c) of
     Inl m \<Rightarrow> Inl m | Inr (ma', c') \<Rightarrow> Inr (ma'\<lparr>ms_phase := p\<rparr>, c'))"
proof (induction msgs arbitrary: ma c)
  case (Cons msg msgs)
  show ?case
    by (cases "collect_message E msg (ma, c)") (auto simp: collect_message_phase Cons.IH split: prod.split)
qed simp

lemma master_view_phase [simp]:
  "master_view ws P R L (ma\<lparr>ms_phase := p\<rparr>, c) = master_view ws P R L (ma, c)"
  by (simp add: master_view_def)

lemma sum_tagged:
  assumes P: "distributed E ws P"
  shows "(\<Sum>w\<in>set ws. length (tagged w P)) = length P"
proof -
  define k :: "'a transaction \<Rightarrow> thread_id" where
    "k tx = (case tx_tag tx of Done w \<Rightarrow> w | _ \<Rightarrow> 0)" for tx
  have tags: "\<exists>w\<in>set ws. tx_tag tx = Done w" if "tx \<in> set P" for tx
    using distributedD(3)[OF P] that by blast
  have "tagged w P = filter (\<lambda>tx. k tx = w \<and> True) P" for w
    unfolding tagged_def by (rule filter_cong[OF refl]) (use tags in \<open>fastforce simp: k_def\<close>)
  moreover have "\<forall>tx\<in>set P. True \<longrightarrow> k tx \<in> set ws"
    using tags by (fastforce simp: k_def)
  ultimately show ?thesis
    using count_by_worker[of "set ws" P "\<lambda>_. True" k] by simp
qed

text \<open>When the test for the end of the collection holds, nothing is on its way any more.\<close>

lemma finished_complete:
  assumes inv: "author_inv E mid ws P m\<^sub>0 L c" and P: "distributed E ws P"
    and view: "collect_all E msgs (ma, col) = Inr s" "master_view ws P (reporting c) L s"
    and fin: "collection_finished ma col" and ma: "ms_workers ma = ws"
  shows "msgs = []" "complete ws P L" "\<forall>w\<in>set ws. to_peer (sy_world c) w = []" "reporting c = set ws"
    "total col = executed_local col + executed_workers col + length (ms_orphans ma)"
proof -
  obtain ma' c' where s: "s = (ma', c')" by fastforce
  note ok = author_invD(1)[OF inv] and dist = distributedD(1)[OF P]
  note fr = collect_all_frame[OF view(1)[unfolded s]]
  have v: "vp_all (ms_pool ma') = pool_after P L" "ms_orphans ma' = orphans_after L"
    "executed_local c' = length (filter (\<lambda>x. \<not> first x \<and> succeeded x) L)" "total c' = length P"
    "reported c' = card (reporting c)" "executed_workers c' = (\<Sum>w\<in>reporting c. own_first w True L)"
    "forwarded c' = (\<Sum>w\<in>reporting c. own_first w False L)"
    using view(2) s by (simp_all add: master_view_def)
  have sub: "reporting c \<subseteq> set ws"
    using author_invD(6)[OF inv] by (auto simp: reporting_def)
  have all: "reported col = card (set ws)"
    using fin ma distinct_card[OF dist] by (simp add: collection_finished_def)
  have "card (reporting c) \<le> card (set ws)" by (rule card_mono[OF finite_set sub])
  then have rep: "reported c' = reported col" "card (reporting c) = card (set ws)"
    using fr v(5) all by simp_all
  show reporting: "reporting c = set ws"
    by (rule card_subset_eq[OF finite_set sub rep(2)])
  have eq: "forwarded c' = executed_local col + length (ms_orphans ma)"
    using fr rep(1) fin by (simp add: collection_finished_def)
  have firsts: "firsts w L = tagged w P" if "w \<in> set ws" for w
  proof -
    have "wk_phase (sy_workers c w) = Serving" "to_worker (sy_world c) w = []"
      using that reporting by (auto simp: reporting_def)
    with author_invD(4)[OF inv that] show ?thesis
      by (auto simp: worker_inv_def author_stage_def)
  qed
  have first_sum: "(\<Sum>w\<in>set ws. own_first w g L) = length (filter (\<lambda>x. first x \<and> succeeded x = g) L)" for g
    unfolding own_first_def
    using count_by_worker[of "set ws" L "\<lambda>x. first x \<and> succeeded x = g" who] log_okD(1)[OF ok] by simp
  have flight: "forwarded c' + (\<Sum>u\<in>set ws. length (handled u L))
      = executed_local c' + length (ms_orphans ma') + (\<Sum>u\<in>set ws. length (forwards_to u L))"
    using unsettled_in_flight[OF ok] first_sum[of False] v(2,3,7) reporting
    by (simp add: orphans_after_def)
  have pref: "prefix (handled u L) (forwards_to u L)" for u by (rule log_okD(8)[OF ok])
  have le: "length (handled u L) \<le> length (forwards_to u L)" for u
    using prefix_length_le[OF pref] .
  have "(\<Sum>u\<in>set ws. length (handled u L)) \<le> (\<Sum>u\<in>set ws. length (forwards_to u L))"
    by (rule sum_mono) (rule le)
  then have none: "length msgs = 0"
    "(\<Sum>u\<in>set ws. length (handled u L)) = (\<Sum>u\<in>set ws. length (forwards_to u L))"
    using flight eq fr rep(1) by linarith+
  then show "msgs = []" by simp
  then have same: "ma' = ma" "c' = col" using view(1) s by simp_all
  have handled: "handled w L = forwards_to w L" if "w \<in> set ws" for w
  proof -
    have "length (handled w L) = length (forwards_to w L)"
      using none(2) le that sum_mono_inv[of "\<lambda>u. length (handled u L)" "set ws" "\<lambda>u. length (forwards_to u L)" w]
      by simp
    with pref[of w] show ?thesis by (metis prefix_def append_self_conv append_eq_conv_conj take_all_iff order_refl)
  qed
  with firsts show "complete ws P L" by (simp add: complete_def)
  show "\<forall>w\<in>set ws. to_peer (sy_world c) w = []"
    using author_invD(5)[OF inv] handled by (fastforce simp: peer_inv_def)
  have "length (firsts w L) = own_first w True L + own_first w False L" for w
    by (simp add: firsts_def own_first_def) (induction L; auto)
  then have "(\<Sum>w\<in>set ws. length (tagged w P)) = (\<Sum>w\<in>set ws. own_first w True L + own_first w False L)"
    by (intro sum.cong refl) (simp add: firsts[symmetric])
  moreover note sum_tagged[OF P]
  ultimately have "length P = executed_workers c' + forwarded c'"
    using v(6,7) reporting by (simp add: sum.distrib)
  with eq v(4) same show "total col = executed_local col + executed_workers col + length (ms_orphans ma)"
    by simp
qed

text \<open>A finished block: all threads are between two tasks and the result has been returned.\<close>

definition quiet_system :: "thread_id \<Rightarrow> thread_id list \<Rightarrow> 'p system \<Rightarrow> bool" where
  "quiet_system mid ws c \<longleftrightarrow> ms_phase (sy_master c) = MReady \<and> ms_id (sy_master c) = mid
     \<and> ms_workers (sy_master c) = ws \<and> to_master (sy_world c) = []
     \<and> (\<forall>w\<in>set ws. wk_id (sy_workers c w) = w \<and> wk_master_id (sy_workers c w) = mid
          \<and> to_peer (sy_world c) w = []
          \<and> (\<exists>pre. quiet ws (sy_workers c w) pre
               \<and> to_worker (sy_world c) w = map (new_from_thread mid) pre))"

definition author_done ::
  "('p, 'z) exec_env_scheme \<Rightarrow> thread_id \<Rightarrow> thread_id list \<Rightarrow> 'p transaction list \<Rightarrow> runtime_state
     \<Rightarrow> 'p logged list \<Rightarrow> 'p system \<Rightarrow> bool" where
  "author_done E mid ws P m\<^sub>0 L c \<longleftrightarrow>
     log_ok ws P L \<and> settled_once L \<and> complete ws P L \<and> quiet_system mid ws c
   \<and> well_formed E (wo_state (sy_world c))
   \<and> ms_pool (sy_master c) = vp_from (pool_after P L) \<and> ms_orphans (sy_master c) = orphans_after L
   \<and> sy_result c = Some (Authored (wo_state (sy_world c)) (block_from (pool_after P L @ orphans_after L)))
   \<and> (\<exists>m oks s. state_inv E m\<^sub>0 L m
        \<and> execute_orphans E (orphans_after L) (sr_new m mid) = (Ok oks, s) \<and> wo_state (sy_world c) = sr_state s)"

lemma vp_from_all: "vp_from (vp_all p) = p"
  by (cases p) (simp add: vp_from_def vp_all_def)

lemma orphans_after_mem:
  assumes "log_ok ws P L" "distributed E ws P" "tx \<in> set (orphans_after L)"
  shows "tx_tag tx = Orphan" "\<not> names_default_controller E (tx_function tx)"
proof -
  obtain x where "x \<in> set L" "tx = (the_tx x)\<lparr>tx_tag := Orphan\<rparr>"
    using assms(3) by (auto simp: orphans_after_def)
  with log_okD(2)[OF assms(1)] distributedD(6)[OF assms(2)]
  show "tx_tag tx = Orphan" "\<not> names_default_controller E (tx_function tx)" by simp_all
qed

lemma author_finishes:
  assumes inv: "author_inv E mid ws P m\<^sub>0 L c" and P: "distributed E ws P" and E: "staking_ok E"
    and view: "collect_all E msgs (ma, col) = Inr s" "master_view ws P (reporting c) L s"
    and fin: "collection_finished ma col" and ma: "ms_workers ma = ws" "ms_id ma = mid"
    and run: "author_block_end E col ma ((sy_world c)\<lparr>to_master := msgs\<rparr>) = ((ma', wo'), res)"
  shows "author_done E mid ws P m\<^sub>0 L (c\<lparr>sy_master := ma', sy_world := wo', sy_result := res\<rparr>)"
proof -
  let ?m = "wo_state (sy_world c)"
  note f = finished_complete[OF inv P view fin ma(1)]
  have s: "s = (ma, col)" using view(1) f(1) by simp
  have pool: "vp_all (ms_pool ma) = pool_after P L" "ms_orphans ma = orphans_after L"
    using view(2) by (simp_all add: s master_view_def)
  note st = author_invD(3)[OF inv]
  have orphs: "\<forall>tx\<in>set (orphans_after L). tx_tag tx = Orphan \<and> \<not> names_default_controller E (tx_function tx)"
    using orphans_after_mem[OF author_invD(1)[OF inv] P] by blast
  have "well_formed E (sr_state (sr_new ?m mid))"
    using st by (simp add: state_inv_def sr_new_def)
  then obtain oks s2 where s2: "execute_orphans E (orphans_after L) (sr_new ?m mid) = (Ok oks, s2)"
    "well_formed E (sr_state s2)"
    using execute_orphans_run[OF E _ orphs] by blast
  let ?wo = "broadcast ma TaskDone ((sy_world c)\<lparr>to_master := msgs\<rparr>)"
  have pool_run: "execute_orphan_pool E ma ?wo = (ma\<lparr>ms_phase := MReady\<rparr>, ?wo\<lparr>wo_state := sr_state s2\<rparr>)"
    using s2(1) ma(2) pool(2) by (simp add: execute_orphan_pool_def broadcast_world)
  then have res: "ma' = ma\<lparr>ms_phase := MReady\<rparr>" "wo' = ?wo\<lparr>wo_state := sr_state s2\<rparr>"
    "res = Some (Authored (sr_state s2) (block_from (pool_after P L @ orphans_after L)))"
    using run f(5) pool by (auto simp: author_block_end_def dump_def)
  have "quiet_system mid ws (c\<lparr>sy_master := ma', sy_world := wo', sy_result := res\<rparr>)"
    unfolding quiet_system_def
  proof (intro conjI ballI)
    fix w assume w: "w \<in> set ws"
    have wk: "wk_phase (sy_workers c w) = Serving" "to_worker (sy_world c) w = []"
      using w f(4) by (auto simp: reporting_def)
    then show "\<exists>pre. quiet ws (sy_workers (c\<lparr>sy_master := ma', sy_world := wo', sy_result := res\<rparr>) w) pre
        \<and> to_worker (sy_world (c\<lparr>sy_master := ma', sy_world := wo', sy_result := res\<rparr>)) w
          = map (new_from_thread mid) pre"
      using author_invD(4)[OF inv w] w ma distributedD(1)[OF P]
      by (intro exI[of _ "[TaskDone]"])
        (auto simp: quiet_def worker_inv_def author_stage_def res broadcast_to_worker)
    show "wk_id (sy_workers (c\<lparr>sy_master := ma', sy_world := wo', sy_result := res\<rparr>) w) = w"
      "wk_master_id (sy_workers (c\<lparr>sy_master := ma', sy_world := wo', sy_result := res\<rparr>) w) = mid"
      "to_peer (sy_world (c\<lparr>sy_master := ma', sy_world := wo', sy_result := res\<rparr>)) w = []"
      using author_invD(4)[OF inv w] f(3) w by (auto simp: worker_inv_def res broadcast_world)
  qed (use f(1) ma in \<open>simp_all add: res broadcast_world\<close>)
  then show ?thesis
    using author_invD(1,2)[OF inv] f(2) s2 st pool res vp_from_all[of "ms_pool ma"]
    unfolding author_done_def by auto
qed

lemma author_inv_collects:
  assumes inv: "author_inv E mid ws P m\<^sub>0 L c" and P: "distributed E ws P" and E: "staking_ok E"
    and phase: "ms_phase (sy_master c) = MCollecting col"
    and run: "collection_iteration E col (sy_master c) (sy_world c) = ((ma', wo'), res)"
  defines "c' \<equiv> c\<lparr>sy_master := ma', sy_world := wo', sy_result := res\<rparr>"
  shows "author_inv E mid ws P m\<^sub>0 L c' \<or> author_done E mid ws P m\<^sub>0 L c'"
proof -
  obtain s where s: "collect_all E (to_master (sy_world c)) (sy_master c, col) = Inr s"
    "master_view ws P (reporting c) L s"
    using inv phase unfolding author_inv_def by auto
  have "\<exists>ma1 c1 msgs. (case to_master (sy_world c) of
              [] \<Rightarrow> (Inr (sy_master c, col), sy_world c)
            | msg # rest \<Rightarrow> (collect_message E msg (sy_master c, col), (sy_world c)\<lparr>to_master := rest\<rparr>))
        = (Inr (ma1, c1), (sy_world c)\<lparr>to_master := msgs\<rparr>)
      \<and> collect_all E msgs (ma1, c1) = Inr s \<and> ms_workers ma1 = ws \<and> ms_id ma1 = mid"
  proof (cases "to_master (sy_world c)")
    case Nil
    with s author_invD(6,7)[OF inv] show ?thesis
      by (intro exI[of _ "sy_master c"] exI[of _ col] exI[of _ "[]"]) simp
  next
    case (Cons msg rest)
    then obtain ma1 c1 where 1: "collect_message E msg (sy_master c, col) = Inr (ma1, c1)"
      "collect_all E rest (ma1, c1) = Inr s"
      using s(1) by (auto split: sum.splits)
    with Cons collect_message_frame(1,2)[OF 1(1)] author_invD(6,7)[OF inv] show ?thesis
      by (intro exI[of _ ma1] exI[of _ c1] exI[of _ rest]) simp
  qed
  then obtain ma1 c1 msgs where 1: "(case to_master (sy_world c) of
              [] \<Rightarrow> (Inr (sy_master c, col), sy_world c)
            | msg # rest \<Rightarrow> (collect_message E msg (sy_master c, col), (sy_world c)\<lparr>to_master := rest\<rparr>))
        = (Inr (ma1, c1), (sy_world c)\<lparr>to_master := msgs\<rparr>)"
    "collect_all E msgs (ma1, c1) = Inr s" "ms_workers ma1 = ws" "ms_id ma1 = mid" by blast
  show ?thesis
  proof (cases "collection_finished ma1 c1")
    case True
    then have "author_block_end E c1 ma1 ((sy_world c)\<lparr>to_master := msgs\<rparr>) = ((ma', wo'), res)"
      using run unfolding collection_iteration_def 1(1) by simp
    from author_finishes[OF inv P E 1(2) s(2) True 1(3,4) this] show ?thesis
      by (simp add: c'_def)
  next
    case False
    then have res: "ma' = ma1\<lparr>ms_phase := MCollecting c1\<rparr>" "wo' = (sy_world c)\<lparr>to_master := msgs\<rparr>" "res = None"
      using run unfolding collection_iteration_def 1(1) by auto
    obtain ma2 c2 where s2: "s = (ma2, c2)" by fastforce
    have rep: "reporting c' = reporting c"
      using author_invD(6)[OF inv] 1(3) by (simp add: reporting_def c'_def res)
    have "started_workers c' = started_workers c"
      using author_invD(6)[OF inv] 1(3) by (simp add: started_workers_def c'_def res)
    then have begun: "begun L c'"
      using author_invD(9)[OF inv] by (simp add: begun_def c'_def res)
    have "collect_all E msgs (ma', c1) = Inr (ma2\<lparr>ms_phase := MCollecting c1\<rparr>, c2)"
      using 1(2) s2 by (simp add: res collect_all_phase)
    moreover have "master_view ws P (reporting c') L (ma2\<lparr>ms_phase := MCollecting c1\<rparr>, c2)"
      using s(2) s2 rep by simp
    ultimately have "\<exists>col s'. ms_phase (sy_master c') = MCollecting col
        \<and> collect_all E (to_master (sy_world c')) (sy_master c', col) = Inr s'
        \<and> master_view ws P (reporting c') L s'"
      by (simp add: c'_def res)
    then have "author_inv E mid ws P m\<^sub>0 L c'"
      using inv 1(3,4) begun[unfolded c'_def res] unfolding author_inv_def by (simp add: c'_def res)
    then show ?thesis ..
  qed
qed

text \<open>A worker that has begun may taint a free key at any time.\<close>

definition touch_system :: "thread_id \<Rightarrow> state_key \<Rightarrow> 'p system \<Rightarrow> 'p system" where
  "touch_system w k c = c\<lparr>sy_world := (sy_world c)\<lparr>wo_state := touch w k (wo_state (sy_world c))\<rparr>\<rparr>"

lemma author_inv_touch:
  assumes inv: "author_inv E mid ws P m\<^sub>0 L c" and w: "w \<in> started_workers c"
    and k: "ts_owner (wo_state (sy_world c)) k = None"
  shows "author_inv E mid ws P m\<^sub>0 L (touch_system w k c)"
proof -
  have "started_workers (touch_system w k c) = started_workers c" "reporting (touch_system w k c) = reporting c"
    by (simp_all add: started_workers_def reporting_def touch_system_def)
  moreover from this have "begun L (touch_system w k c)"
    using author_invD(9)[OF inv] w touch_facts(2)[OF k, of w]
    unfolding begun_def by (simp add: touch_system_def)
  ultimately show ?thesis
    using inv state_inv_touch[OF author_invD(3)[OF inv] k, of w]
    unfolding author_inv_def by (simp add: touch_system_def)
qed

section \<open>After the end\<close>

lemma quiet_system_step:
  assumes quiet: "quiet_system mid ws c" and step: "sys_step E c fs c'"
  shows "fs = [] \<and> quiet_system mid ws c' \<and> sy_master c' = sy_master c
     \<and> wo_state (sy_world c') = wo_state (sy_world c) \<and> sy_result c' = sy_result c"
  using step
proof cases
  case (from_master w msg rest wk' wo')
  let ?wk = "sy_workers c w" and ?wo = "sy_world c"
  have w: "w \<in> set ws" using from_master(3) quiet by (simp add: quiet_system_def)
  then obtain pre where pre: "wk_id ?wk = w" "wk_master_id ?wk = mid" "quiet ws ?wk pre"
    "to_worker ?wo w = map (new_from_thread mid) pre"
    using quiet by (auto simp: quiet_system_def)
  then obtain p pre' where pp: "pre = p # pre'" "msg = new_from_thread mid p"
    "rest = map (new_from_thread mid) pre'"
    using from_master(5) by (cases pre) auto
  obtain wk2 where wk2: "quiet ws wk2 pre'" "wk_id wk2 = w" "wk_master_id wk2 = mid"
    "worker_from_master E ?wk ?wo = (wk2, ?wo\<lparr>to_worker := (to_worker ?wo)(w := rest)\<rparr>)"
    "master_event ?wk msg = []"
    using quiet_step[OF pre(3)[unfolded pp(1)] pre(1), of mid] from_master(5) pp(2) pre(2) by blast
  have res: "wk' = wk2" "wo' = ?wo\<lparr>to_worker := (to_worker ?wo)(w := rest)\<rparr>"
    using from_master(6) wk2(4) by simp_all
  have "quiet_system mid ws c'"
    using quiet w wk2(1-3) pp(3) unfolding quiet_system_def from_master(2) res by auto
  with from_master(1,2) wk2(5) res show ?thesis by simp
next
  case (from_peer w msg rest wk' wo')
  then show ?thesis using quiet by (auto simp: quiet_system_def)
next
  case (collects col ma' wo' res)
  then show ?thesis using quiet by (auto simp: quiet_system_def)
next
  case (validates n ma' wo' res)
  then show ?thesis using quiet by (auto simp: quiet_system_def)
qed

lemma author_done_step:
  assumes "author_done E mid ws P m\<^sub>0 L c" "sys_step E c fs c'"
  shows "fs = [] \<and> author_done E mid ws P m\<^sub>0 L c'"
proof -
  have "quiet_system mid ws c" using assms(1) by (simp add: author_done_def)
  from quiet_system_step[OF this assms(2)] assms(1) show ?thesis
    unfolding author_done_def by simp
qed

section \<open>The start\<close>

text \<open>What the caller has to provide: transactions that verify, are new and have different ids.\<close>

definition submittable :: "('p, 'z) exec_env_scheme \<Rightarrow> 'p transaction list \<Rightarrow> bool" where
  "submittable E txs \<longleftrightarrow> txs \<noteq> [] \<and> distinct (map tx_id txs) \<and> sane E txs
     \<and> (\<forall>tx\<in>set txs. tx_verify E tx \<and> tx_exec_status tx = Initial)"

text \<open>An executor that was just cleaned and set to a state without taints.\<close>

definition clean_system :: "('p, 'z) staking_env_scheme \<Rightarrow> thread_id \<Rightarrow> thread_id list \<Rightarrow> 'p system \<Rightarrow> bool" where
  "clean_system E mid ws c \<longleftrightarrow> quiet_system mid ws c \<and> ws \<noteq> [] \<and> distinct ws
     \<and> vp_all (ms_pool (sy_master c)) = [] \<and> ms_orphans (sy_master c) = []
     \<and> well_formed E (wo_state (sy_world c)) \<and> (\<forall>k. ts_owner (wo_state (sy_world c)) k = None)"

text \<open>
  What authoring needs of both: a distribution that succeeds on the transactions. The laws of a
  distributer give it for every list that is not empty; round robin also distributes nothing.
\<close>

definition distributes_to :: "'p distributer \<Rightarrow> thread_id list \<Rightarrow> 'p tx_pool \<Rightarrow> bool" where
  "distributes_to D ws p \<longleftrightarrow> (\<exists>p'. D ws p = Some (Inr p') \<and> same_but_tags p p'
     \<and> (\<forall>tx\<in>set (vp_all p'). \<exists>w\<in>set ws. tx_tag tx = Done w))"

definition startable ::
  "('p, 'z) exec_env_scheme \<Rightarrow> 'p distributer \<Rightarrow> thread_id list \<Rightarrow> 'p transaction list \<Rightarrow> bool" where
  "startable E D ws txs \<longleftrightarrow> distributes_to D ws (vp_from txs) \<and> distinct (map tx_id txs) \<and> sane E txs
     \<and> (\<forall>tx\<in>set txs. tx_verify E tx \<and> tx_exec_status tx = Initial)"

lemma startableI:
  assumes "clean_system E mid ws c" "distributer_laws D" "submittable E txs"
  shows "startable E D ws txs"
proof -
  have "ws \<noteq> []" "vp_all (vp_from txs) \<noteq> []" "distinct (map tx_id (vp_all (vp_from txs)))"
    using assms(1,3) by (simp_all add: clean_system_def submittable_def vp_all_def vp_from_def)
  from distributer_laws.distributes[OF assms(2) this] assms(3) show ?thesis
    by (simp add: startable_def distributes_to_def submittable_def)
qed

lemma startable_nothing: "ws \<noteq> [] \<Longrightarrow> startable E round_robin ws []"
  by (simp add: startable_def distributes_to_def round_robin_result same_but_tags_def vp_iter_mut_def
      vp_from_def vp_all_def sane_def)

definition untagged :: "'p transaction \<Rightarrow> 'p transaction" where
  "untagged tx = tx\<lparr>tx_tag := NotExecuted\<rparr>"

lemma untagged_simps [simp]:
  "tx_id (untagged tx) = tx_id tx" "tx_function (untagged tx) = tx_function tx"
  "tx_exec_status (untagged tx) = tx_exec_status tx" "tx_signature (untagged tx) = tx_signature tx"
  "tx_verify E (untagged tx) = tx_verify E tx" "untagged (tx\<lparr>tx_tag := t\<rparr>) = untagged tx"
  by (simp_all add: untagged_def)

lemma same_untagged:
  assumes "map untagged P = map untagged txs"
  shows "map tx_id P = map tx_id txs" "sane E txs \<Longrightarrow> sane E P"
    "(\<forall>tx\<in>set txs. tx_verify E tx \<and> tx_exec_status tx = Initial) \<Longrightarrow>
     (\<forall>tx\<in>set P. tx_verify E tx \<and> tx_exec_status tx = Initial)"
proof -
  have lift: "map f P = map f txs" if "\<And>tx. f (untagged tx) = f tx" for f :: "'a transaction \<Rightarrow> 'q"
    using arg_cong[OF assms, of "map f"] by (simp add: comp_def that)
  show "map tx_id P = map tx_id txs" by (rule lift) simp
  have all: "list_all g (map f P) = list_all g (map f txs)" if "\<And>tx. f (untagged tx) = f tx"
    for f :: "'a transaction \<Rightarrow> 'r" and g
    using arg_cong[OF assms, of "map f"] by (simp add: comp_def that)
  show "sane E P" if "sane E txs"
    using that all[of tx_function "\<lambda>f. \<not> names_default_controller E f"]
    by (simp add: sane_def list.pred_map comp_def)
  show "\<forall>tx\<in>set P. tx_verify E tx \<and> tx_exec_status tx = Initial"
    if "\<forall>tx\<in>set txs. tx_verify E tx \<and> tx_exec_status tx = Initial"
    using that all[of "\<lambda>tx. tx_verify E tx \<and> tx_exec_status tx = Initial" id]
    by (simp add: list_all_iff list.pred_map comp_def)
qed

lemma concurrent_phase_run:
  assumes D: "distributes_to D (ms_workers ma) (ms_pool ma)" and ws: "distinct (ms_workers ma)"
  obtains p wo' where "concurrent_phase D ma wo = Some (ma\<lparr>ms_pool := p\<rparr>, wo')"
    "map untagged (vp_all p) = map untagged (vp_all (ms_pool ma))"
    "\<forall>tx\<in>set (vp_all p). \<exists>w\<in>set (ms_workers ma). tx_tag tx = Done w"
    "wo_state wo' = wo_state wo" "to_master wo' = to_master wo" "to_peer wo' = to_peer wo"
    "\<And>w. w \<in> set (ms_workers ma) \<Longrightarrow> to_worker wo' w = to_worker wo w
       @ map (new_from_thread (ms_id ma)) (map TransactionMsg (tagged w (vp_all p)) @ [TransactionDistributionDone])"
    "D (ms_workers ma) (ms_pool ma) = Some (Inr p)"
proof -
  obtain p where p: "D (ms_workers ma) (ms_pool ma) = Some (Inr p)" "same_but_tags (ms_pool ma) p"
    "\<forall>tx\<in>set (vp_all p). \<exists>w\<in>set (ms_workers ma). tx_tag tx = Done w"
    using D unfolding distributes_to_def by blast
  let ?ma = "ma\<lparr>ms_pool := p\<rparr>"
  obtain xs where xs: "threads_and_txs ''A transaction has not been assigned. This is a bug in the distribution code''
      (vp_all p) = Inr xs" "map snd xs = vp_all p" "\<forall>(w, tx)\<in>set xs. tx_tag tx = Done w"
    using threads_and_txs_Inr p(3) by metis
  have "\<forall>(w, tx)\<in>set xs. tx_tag tx = Done w \<and> w \<in> set (ms_workers ?ma)"
  proof (intro ballI, clarify)
    fix w tx assume "(w, tx) \<in> set xs"
    then have "tx_tag tx = Done w" "snd (w, tx) \<in> set (map snd xs)"
      using xs(3) by (blast, simp only: set_map imageI)
    then show "tx_tag tx = Done w \<and> w \<in> set (ms_workers ?ma)"
      using p(3) unfolding xs(2) by auto
  qed
  from send_transactions_None[OF this, of wo] obtain wo1 where wo1:
    "send_transactions ?ma xs wo = (None, wo1)" "wo_state wo1 = wo_state wo" "to_master wo1 = to_master wo"
    "to_peer wo1 = to_peer wo"
    "\<forall>w. to_worker wo1 w = to_worker wo w
          @ map (\<lambda>tx. new_from_thread (ms_id ma) (TransactionMsg tx)) (tagged w (vp_all p))"
    using xs(2) by auto
  show thesis
  proof (rule that[of p "broadcast ?ma TransactionDistributionDone wo1"])
    show "concurrent_phase D ma wo = Some (?ma, broadcast ?ma TransactionDistributionDone wo1)"
      using p(1) xs(1) wo1(1) by (simp add: concurrent_phase_def distribute_transactions_def)
    show "map untagged (vp_all p) = map untagged (vp_all (ms_pool ma))"
      using p(2) by (simp add: same_but_tags_def untagged_def[abs_def])
  qed (use p(1,3) wo1 ws in \<open>simp_all add: broadcast_world broadcast_to_worker comp_def\<close>)
qed

lemma startable_starts:
  assumes c: "clean_system E mid ws c" and S: "startable E D ws txs"
  obtains P c' where "call_author E D txs c = Some c'" "map untagged P = map untagged txs"
    "distributed E ws P" "author_inv E mid ws P (wo_state (sy_world c)) [] c'"
    "to_master (sy_world c') = []" "D ws (vp_from txs) = Some (Inr (vp_from P))"
    "wo_state (sy_world c') = wo_state (sy_world c)"
proof -
  let ?ma = "sy_master c" and ?wo = "sy_world c"
  have m: "ms_phase ?ma = MReady" "ms_id ?ma = mid" "ms_workers ?ma = ws" "inner (ms_pool ?ma) = []"
    using c by (simp_all add: clean_system_def quiet_system_def vp_all_def)
  let ?ma1 = "?ma\<lparr>ms_pool := vp_from txs\<rparr>"
  have distinct: "distinct ws" using c by (simp add: clean_system_def)
  have "vp_push_batch (tx_verify E) txs q
      = Inr (q\<lparr>inner := inner q @ txs\<rparr>)" if "list_all (tx_verify E) txs" for q
    using that by (induction txs arbitrary: q) (simp_all add: vp_push_back_def)
  moreover have "list_all (tx_verify E) txs"
    using S by (simp add: startable_def list_all_iff)
  ultimately have push: "vp_push_batch (tx_verify E) txs (ms_pool ?ma) = Inr (vp_from txs)"
    using m(4) by (simp add: vp_from_def)
  have "distributes_to D (ms_workers ?ma1) (ms_pool ?ma1)" "distinct (ms_workers ?ma1)"
    using S c m by (simp_all add: startable_def clean_system_def)
  note cp = concurrent_phase_run[OF this, of "broadcast ?ma1 (Task Authoring) ?wo"]
  obtain p wo' where
    p: "concurrent_phase D ?ma1 (broadcast ?ma1 (Task Authoring) ?wo) = Some (?ma1\<lparr>ms_pool := p\<rparr>, wo')"
    "map untagged (vp_all p) = map untagged txs" "\<forall>tx\<in>set (vp_all p). \<exists>w\<in>set ws. tx_tag tx = Done w"
    "wo_state wo' = wo_state ?wo" "to_master wo' = to_master ?wo" "to_peer wo' = to_peer ?wo"
    "\<And>w. w \<in> set ws \<Longrightarrow> to_worker wo' w = to_worker ?wo w @ [new_from_thread mid (Task Authoring)]
       @ map (new_from_thread mid) (map TransactionMsg (tagged w (vp_all p)) @ [TransactionDistributionDone])"
    "D ws (vp_from txs) = Some (Inr p)"
    by (rule cp) (erule that, simp_all add: m distinct broadcast_world broadcast_to_worker vp_all_def vp_from_def)
  let ?P = "vp_all p"
  let ?col = "\<lparr>executed_workers = 0, executed_local = 0, forwarded = 0, reported = 0, total = length ?P\<rparr>"
  let ?c = "c\<lparr>sy_master := ?ma1\<lparr>ms_pool := p, ms_phase := MCollecting ?col\<rparr>, sy_world := wo', sy_result := None\<rparr>"
  have call: "call_author E D txs c = Some ?c"
    using m push p(1) by (simp add: call_author_def author_block_start_def Let_def vp_len_def vp_all_def)
  have sub: "sane E txs" "\<forall>tx\<in>set txs. tx_verify E tx \<and> tx_exec_status tx = Initial"
    "distinct (map tx_id txs)"
    using S by (simp_all add: startable_def)
  then have "distinct (map tx_id ?P)" "sane E ?P" "\<forall>tx\<in>set ?P. tx_verify E tx \<and> tx_exec_status tx = Initial"
    using same_untagged(1)[OF p(2)] same_untagged(2)[OF p(2) sub(1)] same_untagged(3)[OF p(2) sub(2)]
    by simp_all
  with c p(3) have dist: "distributed E ws ?P"
    by (simp add: distributed_def clean_system_def sane_def list_all_iff)
  have rep: "reporting ?c = {}"
    using p(7) m by (auto simp: reporting_def)
  have workers: "worker_inv mid ws ?P [] w (sy_workers ?c w) (to_worker (sy_world ?c) w)" if w: "w \<in> set ws" for w
  proof -
    obtain pre where "wk_id (sy_workers c w) = w" "wk_master_id (sy_workers c w) = mid"
      "quiet ws (sy_workers c w) pre" "to_worker ?wo w = map (new_from_thread mid) pre"
      using c w by (auto simp: clean_system_def quiet_system_def)
    with p(7)[OF w] show ?thesis
      unfolding worker_inv_def author_stage_def
      by (intro conjI exI[of _ "tagged w ?P"]
          exI[of _ "pre @ Task Authoring # map TransactionMsg (tagged w ?P) @ [TransactionDistributionDone]"])
        (auto simp: firsts_def)
  qed
  have "author_inv E mid ws ?P (wo_state ?wo) [] ?c"
    unfolding author_inv_def
  proof (intro conjI ballI)
    show "\<exists>col s'. ms_phase (sy_master ?c) = MCollecting col
        \<and> collect_all E (to_master (sy_world ?c)) (sy_master ?c, col) = Inr s'
        \<and> master_view ws ?P (reporting ?c) [] s'"
      using c m p(5) rep
      by (intro exI[of _ ?col]) (auto simp: clean_system_def quiet_system_def master_view_def log_parts)
    fix w assume w: "w \<in> set ws"
    show "peer_inv [] w (to_peer (sy_world ?c) w)"
      using c w p(6) by (simp add: clean_system_def quiet_system_def peer_inv_def log_parts)
  qed (use workers m c p(4) in \<open>simp_all add: log_ok_def log_parts settled_once_def state_inv_def clean_system_def no_dispatch begun_def\<close>)
  moreover have "to_master (sy_world ?c) = []"
    using c p(5) by (simp add: clean_system_def quiet_system_def)
  moreover have "D ws (vp_from txs) = Some (Inr (vp_from ?P))"
    using p(8) by (simp add: vp_from_all)
  moreover have "wo_state (sy_world ?c) = wo_state (sy_world c)" using p(4) by simp
  ultimately show thesis by (rule that[OF call p(2) dist])
qed

lemma author_starts:
  assumes "clean_system E mid ws c" "distributer_laws D" "submittable E txs"
  obtains P c' where "call_author E D txs c = Some c'" "map untagged P = map untagged txs"
    "distributed E ws P" "author_inv E mid ws P (wo_state (sy_world c)) [] c'"
    "to_master (sy_world c') = []" "D ws (vp_from txs) = Some (Inr (vp_from P))"
    "wo_state (sy_world c') = wo_state (sy_world c)"
  using startable_starts[OF assms(1) startableI[OF assms]] by blast

end
