(* ===== verification/Taint_Interleaving.thy ===== *)
theory Taint_Interleaving
  imports Taint_State
begin

text \<open>
  Several threads at one \<open>TaintState\<close>. A thread that finds a key without an owner drops the
  read lock before it takes the write lock, so another thread can own the key by the time it
  continues. The step relation interleaves the critical sections of all threads in any order;
  the theorems show that every call still behaves as one indivisible access at the moment its
  last critical section runs, and that the panics the code guards this window with are never
  reached.
\<close>

section \<open>Accesses and the interleaving of their critical sections\<close>

datatype ('k, 'v) access = ReadOf 'k | WriteOf 'k 'v
datatype 'v answer = Got 'v | Wrote

fun access_key :: "('k, 'v) access \<Rightarrow> 'k" where
  "access_key (ReadOf k) = k"
| "access_key (WriteOf k v) = k"

fun got :: "('v, 't) rs \<Rightarrow> ('v answer, 't) rs" where
  "got (Ok v) = Ok (Got v)"
| "got (Err t) = Err t"
| "got (Panic p) = Panic p"

fun wrote :: "(unit, 't) rs \<Rightarrow> ('v answer, 't) rs" where
  "wrote (Ok _) = Ok Wrote"
| "wrote (Err t) = Err t"
| "wrote (Panic p) = Panic p"

fun access_shared ::
  "('k, 'v) access \<Rightarrow> 't \<Rightarrow> ('k, 'v, 't) state_map
     \<Rightarrow> ('v answer, 't) rs \<times> ('k, 'v, 't) state_map + lock_path" where
  "access_shared (ReadOf k) t m = (case ts_read_shared k t m of
     Inl r \<Rightarrow> Inl (got r, m) | Inr p \<Rightarrow> Inr p)"
| "access_shared (WriteOf k v) t m = (case ts_write_shared k v t m of
     Inl (r, m') \<Rightarrow> Inl (wrote r, m') | Inr p \<Rightarrow> Inr p)"

fun access_excl ::
  "'v \<Rightarrow> lock_path \<Rightarrow> ('k, 'v) access \<Rightarrow> 't \<Rightarrow> ('k, 'v, 't) state_map
     \<Rightarrow> ('v answer, 't) rs \<times> ('k, 'v, 't) state_map" where
  "access_excl d p (ReadOf k) t m = map_prod got id (ts_read_excl d p k t m)"
| "access_excl d p (WriteOf k v) t m = map_prod wrote id (ts_write_excl p k v t m)"

fun run_access ::
  "'v \<Rightarrow> ('k, 'v) access \<Rightarrow> 't \<Rightarrow> ('k, 'v, 't) state_map
     \<Rightarrow> ('v answer, 't) rs \<times> ('k, 'v, 't) state_map" where
  "run_access d (ReadOf k) t m = map_prod got id (ts_read d k t m)"
| "run_access d (WriteOf k v) t m = map_prod wrote id (ts_write k v t m)"

text \<open>
  \<open>cf_pending t\<close>: the access thread \<open>t\<close> is in the middle of, with the branch it waits for the
  write lock on; \<open>cf_log\<close>: the calls that returned, in the order they did.
\<close>

record ('k, 'v, 't) config =
  cf_map :: "('k, 'v, 't) state_map"
  cf_pending :: "'t \<Rightarrow> (('k, 'v) access \<times> lock_path) option"
  cf_log :: "('t \<times> ('k, 'v) access \<times> ('v answer, 't) rs) list"

definition cf_init :: "('k, 'v, 't) state_map \<Rightarrow> ('k, 'v, 't) config" where
  "cf_init m = \<lparr>cf_map = m, cf_pending = (\<lambda>_. None), cf_log = []\<rparr>"

inductive ts_step :: "'v \<Rightarrow> ('k, 'v, 't) config \<Rightarrow> ('k, 'v, 't) config \<Rightarrow> bool" for d where
  shared_returns: "cf_pending c t = None \<Longrightarrow> access_shared a t (cf_map c) = Inl (r, m') \<Longrightarrow>
     ts_step d c (c\<lparr>cf_map := m', cf_log := cf_log c @ [(t, a, r)]\<rparr>)"
| shared_drops: "cf_pending c t = None \<Longrightarrow> access_shared a t (cf_map c) = Inr p \<Longrightarrow>
     ts_step d c (c\<lparr>cf_pending := (cf_pending c)(t := Some (a, p))\<rparr>)"
| excl_returns: "cf_pending c t = Some (a, p) \<Longrightarrow> access_excl d p a t (cf_map c) = (r, m') \<Longrightarrow>
     ts_step d c (c\<lparr>cf_map := m', cf_pending := (cf_pending c)(t := None),
                    cf_log := cf_log c @ [(t, a, r)]\<rparr>)"

inductive ts_reachable :: "'v \<Rightarrow> ('k, 'v, 't) state_map \<Rightarrow> ('k, 'v, 't) config \<Rightarrow> bool"
  for d m\<^sub>0 where
  start: "ts_reachable d m\<^sub>0 (cf_init m\<^sub>0)"
| step: "ts_reachable d m\<^sub>0 c \<Longrightarrow> ts_step d c c' \<Longrightarrow> ts_reachable d m\<^sub>0 c'"

text \<open>The specification: the log, replayed with one indivisible access per call.\<close>

fun replay ::
  "'v \<Rightarrow> ('t \<times> ('k, 'v) access \<times> ('v answer, 't) rs) list \<Rightarrow> ('k, 'v, 't) state_map
     \<Rightarrow> ('k, 'v, 't) state_map option" where
  "replay d [] m = Some m"
| "replay d ((t, a, r) # es) m =
     (if fst (run_access d a t m) = r then replay d es (snd (run_access d a t m)) else None)"

lemma replay_append:
  "replay d (es @ fs) m = Option.bind (replay d es m) (replay d fs)"
  by (induction d es m rule: replay.induct) auto

section \<open>What one critical section can change\<close>

text \<open>
  Whatever thread \<open>t\<close> does, an entry that changes ends up owned by \<open>t\<close>, and was unowned or
  owned by \<open>t\<close> before.
\<close>

definition changes_own_only :: "'t \<Rightarrow> ('k, 'v, 't) state_map \<Rightarrow> ('k, 'v, 't) state_map \<Rightarrow> bool" where
  "changes_own_only t m m' \<longleftrightarrow>
     (\<forall>k. fmlookup m' k = fmlookup m k
        \<or> (ts_owner m k = None \<or> ts_owner m k = Some t)
           \<and> (\<exists>e. fmlookup m' k = Some e \<and> sv_taint e = Some t))"

lemmas section_defs =
  ts_read_shared_def ts_read_excl_def ts_write_shared_def ts_write_excl_def

lemma access_shared_own:
  "access_shared a t m = Inl (r, m') \<Longrightarrow> changes_own_only t m m'"
  by (cases a) (auto simp: section_defs changes_own_only_def ts_owner_def
      split: option.splits sum.splits if_splits)

lemma access_excl_own:
  "access_excl d p a t m = (r, m') \<Longrightarrow> changes_own_only t m m'"
  by (cases a; cases p) (auto simp: section_defs changes_own_only_def ts_owner_def
      split: option.splits if_splits)

lemma run_access_own: "changes_own_only t m (snd (run_access d a t m))"
  by (cases a) (auto simp: ts_read_eq ts_write_eq changes_own_only_def ts_owner_def
      split: option.splits)

text \<open>What a thread that waits for the write lock relies on.\<close>

definition path_valid :: "'t \<Rightarrow> 'k \<Rightarrow> lock_path \<Rightarrow> ('k, 'v, 't) state_map \<Rightarrow> bool" where
  "path_valid t k p m = (case p of
     Untainted \<Rightarrow> fmlookup m k \<noteq> None \<and> ts_owner m k \<noteq> Some t
   | Missing \<Rightarrow> (case fmlookup m k of
       None \<Rightarrow> True
     | Some e \<Rightarrow> sv_taint e \<noteq> None \<and> sv_taint e \<noteq> Some t))"

lemma path_valid_start: "access_shared a t m = Inr p \<Longrightarrow> path_valid t (access_key a) p m"
  by (cases a) (auto simp: section_defs path_valid_def ts_owner_def
      split: option.splits sum.splits if_splits)

lemma path_valid_stable:
  assumes "path_valid t k p m" "changes_own_only u m m'" "u \<noteq> t"
  shows "path_valid t k p m'"
proof -
  from assms(2) consider "fmlookup m' k = fmlookup m k"
    | e where "ts_owner m k = None \<or> ts_owner m k = Some u" "fmlookup m' k = Some e"
        "sv_taint e = Some u"
    unfolding changes_own_only_def by blast
  then show ?thesis
    using assms(1,3) by cases (auto simp: path_valid_def ts_owner_def split: lock_path.splits)
qed

lemma excl_is_atomic:
  "path_valid t (access_key a) p m \<Longrightarrow> access_excl d p a t m = run_access d a t m"
  by (cases a; cases p) (auto simp: path_valid_def ts_owner_def section_defs ts_read_eq ts_write_eq
      split: option.splits)

lemma shared_is_atomic:
  "access_shared a t m = Inl (r, m') \<Longrightarrow> run_access d a t m = (r, m')"
  by (cases a) (auto simp: section_defs ts_read_eq ts_write_eq split: option.splits sum.splits)

section \<open>The invariant of the interleaving\<close>

definition ts_inv :: "'v \<Rightarrow> ('k, 'v, 't) state_map \<Rightarrow> ('k, 'v, 't) config \<Rightarrow> bool" where
  "ts_inv d m\<^sub>0 c \<longleftrightarrow>
     (\<forall>t a p. cf_pending c t = Some (a, p) \<longrightarrow> path_valid t (access_key a) p (cf_map c))
   \<and> replay d (cf_log c) m\<^sub>0 = Some (cf_map c)"

lemma ts_inv_step: "ts_step d c c' \<Longrightarrow> ts_inv d m\<^sub>0 c \<Longrightarrow> ts_inv d m\<^sub>0 c'"
proof (induction rule: ts_step.induct)
  case (shared_returns c t a r m')
  have own: "changes_own_only t (cf_map c) m'"
    using shared_returns by (blast intro: access_shared_own)
  have atomic: "run_access d a t (cf_map c) = (r, m')"
    using shared_returns by (blast intro: shared_is_atomic)
  show ?case
    unfolding ts_inv_def
  proof (intro conjI allI impI)
    fix u b p
    assume "cf_pending (c\<lparr>cf_map := m', cf_log := cf_log c @ [(t, a, r)]\<rparr>) u = Some (b, p)"
    then show "path_valid u (access_key b) p
        (cf_map (c\<lparr>cf_map := m', cf_log := cf_log c @ [(t, a, r)]\<rparr>))"
      using shared_returns path_valid_stable[OF _ own] by (cases "t = u") (auto simp: ts_inv_def)
  qed (use shared_returns atomic in \<open>simp add: ts_inv_def replay_append\<close>)
next
  case (shared_drops c t a p)
  then show ?case
    by (auto simp: ts_inv_def path_valid_start)
next
  case (excl_returns c t a p r m')
  have own: "changes_own_only t (cf_map c) m'"
    using excl_returns by (blast intro: access_excl_own)
  have atomic: "run_access d a t (cf_map c) = (r, m')"
    using excl_returns excl_is_atomic[of t a p "cf_map c" d] by (simp add: ts_inv_def)
  let ?c' = "c\<lparr>cf_map := m', cf_pending := (cf_pending c)(t := None),
               cf_log := cf_log c @ [(t, a, r)]\<rparr>"
  show ?case
    unfolding ts_inv_def
  proof (intro conjI allI impI)
    fix u b q
    assume "cf_pending ?c' u = Some (b, q)"
    then show "path_valid u (access_key b) q (cf_map ?c')"
      using excl_returns path_valid_stable[OF _ own] by (auto simp: ts_inv_def split: if_splits)
  qed (use excl_returns atomic in \<open>simp add: ts_inv_def replay_append\<close>)
qed

lemma ts_inv_reachable: "ts_reachable d m\<^sub>0 c \<Longrightarrow> ts_inv d m\<^sub>0 c"
proof (induction rule: ts_reachable.induct)
  case start
  show ?case by (simp add: ts_inv_def cf_init_def)
next
  case (step c c')
  then show ?case by (blast intro: ts_inv_step)
qed

section \<open>Ownership along a replay\<close>

lemma owner_kept: "ts_owner m k = Some u \<Longrightarrow> ts_owner (snd (run_access d a t m)) k = Some u"
proof -
  assume own: "ts_owner m k = Some u"
  have "fmlookup (snd (run_access d a t m)) k = fmlookup m k
      \<or> (ts_owner m k = None \<or> ts_owner m k = Some t)
        \<and> (\<exists>e. fmlookup (snd (run_access d a t m)) k = Some e \<and> sv_taint e = Some t)"
    using run_access_own[of t m d a] unfolding changes_own_only_def by blast
  with own show ?thesis
    by (auto simp: ts_owner_def)
qed

lemma granted_owner:
  assumes "fst (run_access d a t m) = Ok x"
  shows "ts_owner (snd (run_access d a t m)) (access_key a) = Some t"
  using assms
  by (cases a) (auto simp: ts_read_eq ts_write_eq ts_owner_def split: option.splits if_splits)

lemma replay_owner_kept:
  "replay d es m = Some m' \<Longrightarrow> ts_owner m k = Some u \<Longrightarrow> ts_owner m' k = Some u"
  by (induction d es m rule: replay.induct) (auto simp: owner_kept split: if_splits)

lemma replay_granted_owner:
  "replay d es m = Some m' \<Longrightarrow> (t, a, Ok x) \<in> set es \<Longrightarrow> ts_owner m' (access_key a) = Some t"
proof (induction d es m rule: replay.induct)
  case (2 d u b r es m)
  then show ?case
    using granted_owner[of d a t m x] replay_owner_kept by (fastforce split: if_splits)
qed simp

lemma run_access_no_panic: "\<not> is_Panic (fst (run_access d a t m))"
  by (cases a) (auto simp: ts_read_eq ts_write_eq split: option.splits)

lemma replay_no_panic:
  "replay d es m = Some m' \<Longrightarrow> (t, a, r) \<in> set es \<Longrightarrow> \<not> is_Panic r"
  by (induction d es m rule: replay.induct) (auto simp: run_access_no_panic split: if_splits)

lemma owned_outcome:
  assumes "ts_owner m (access_key a) = Some u"
  shows "if t = u then is_Ok (fst (run_access d a t m)) else fst (run_access d a t m) = Err u"
  using assms by (cases a) (auto simp: ts_read_eq ts_write_eq ts_owner_def split: option.splits)

lemma free_outcome:
  "ts_owner m (access_key a) = None \<Longrightarrow> is_Ok (fst (run_access d a t m))"
  by (cases a) (auto simp: ts_read_eq ts_write_eq ts_owner_def split: option.splits)

lemma other_key_owner: "access_key a \<noteq> k \<Longrightarrow> ts_owner (snd (run_access d a t m)) k = ts_owner m k"
  by (cases a) (auto simp: ts_read_eq ts_write_eq ts_owner_def split: option.splits)

lemma replay_owned:
  "replay d es m = Some m' \<Longrightarrow> ts_owner m (access_key a) = Some u \<Longrightarrow> (t, a, r) \<in> set es \<Longrightarrow>
     if t = u then is_Ok r else r = Err u"
proof (induction d es m rule: replay.induct)
  case (2 d t' b r' es m)
  then show ?case
    using owned_outcome[of m a u t d] owner_kept[of m "access_key a" u d b t'] by (auto split: if_splits)
qed simp

text \<open>The first call on a free key takes it; from then on its thread is granted and all others refused.\<close>

definition taken_by ::
  "'k \<Rightarrow> 't \<Rightarrow> ('t \<times> ('k, 'v) access \<times> ('v answer, 't) rs) list \<Rightarrow> bool" where
  "taken_by k u es \<longleftrightarrow> (\<exists>a x. (u, a, Ok x) \<in> set es \<and> access_key a = k)
     \<and> (\<forall>(t, a, r)\<in>set es. access_key a = k \<longrightarrow> (if t = u then is_Ok r else r = Err u))"

lemma replay_free:
  "replay d es m = Some m' \<Longrightarrow> ts_owner m k = None \<Longrightarrow> (t\<^sub>0, a\<^sub>0, r\<^sub>0) \<in> set es \<Longrightarrow> access_key a\<^sub>0 = k \<Longrightarrow>
     \<exists>u. taken_by k u es \<and> ts_owner m' k = Some u"
proof (induction d es m rule: replay.induct)
  case (2 d t b r es m)
  let ?m = "snd (run_access d b t m)"
  have r: "fst (run_access d b t m) = r" and rest: "replay d es ?m = Some m'"
    using 2(2) by (auto split: if_splits)
  show ?case
  proof (cases "access_key b = k")
    case True
    obtain x where x: "r = Ok x" using free_outcome[of m b d t] 2(3) True r by (cases r) auto
    have own: "ts_owner ?m k = Some t" using granted_owner[of d b t m x] r x True by simp
    then have "ts_owner m' k = Some t" using replay_owner_kept[OF rest] by blast
    moreover have "if t' = t then is_Ok r' else r' = Err t" if "(t', a, r') \<in> set es" "access_key a = k" for t' a r'
      using replay_owned[OF rest _ that(1), of t] own that(2) by simp
    ultimately show ?thesis unfolding taken_by_def using x True by auto
  next
    case False
    then obtain u where "taken_by k u es" "ts_owner m' k = Some u"
      using 2(1)[OF r rest] 2(3-5) other_key_owner[OF False, of d t m] by auto
    then show ?thesis unfolding taken_by_def using False by fastforce
  qed
qed simp

section \<open>Properties\<close>

text \<open>
  A run in which threads 1 and 2 both find key 7 absent and drop the read lock before either
  takes the write lock; thread 1 gets it first.
\<close>

definition race_map :: "(nat, nat, nat) state_map" where
  "race_map = fmupd 7 (sv_new_taint 0 1) fmempty"

definition race_end :: "(nat, nat, nat) config" where
  "race_end = \<lparr>cf_map = race_map, cf_pending = (\<lambda>_. None),
     cf_log = [(1, ReadOf 7, Ok (Got 0)), (2, WriteOf 7 5, Err 1), (1, ReadOf 7, Ok (Got 0))]\<rparr>"

lemma race_reachable: "ts_reachable 0 fmempty race_end"
proof -
  let ?c0 = "cf_init fmempty :: (nat, nat, nat) config"
  let ?c1 = "?c0\<lparr>cf_pending := (cf_pending ?c0)(1 := Some (ReadOf 7, Missing))\<rparr>"
  let ?c2 = "?c1\<lparr>cf_pending := (cf_pending ?c1)(2 := Some (WriteOf 7 5, Missing))\<rparr>"
  let ?c3 = "?c2\<lparr>cf_map := race_map, cf_pending := (cf_pending ?c2)(1 := None),
                 cf_log := cf_log ?c2 @ [(1, ReadOf 7, Ok (Got 0))]\<rparr>"
  let ?c4 = "?c3\<lparr>cf_map := race_map, cf_pending := (cf_pending ?c3)(2 := None),
                 cf_log := cf_log ?c3 @ [(2, WriteOf 7 5, Err 1)]\<rparr>"
  let ?c5 = "?c4\<lparr>cf_map := race_map, cf_log := cf_log ?c4 @ [(1, ReadOf 7, Ok (Got 0))]\<rparr>"
  note defs = section_defs cf_init_def race_map_def
  have s1: "ts_step 0 ?c0 ?c1" by (rule shared_drops) (simp_all add: defs)
  have s2: "ts_step 0 ?c1 ?c2" by (rule shared_drops) (simp_all add: defs)
  have s3: "ts_step 0 ?c2 ?c3" by (rule excl_returns[where p = Missing]) (simp_all add: defs)
  have s4: "ts_step 0 ?c3 ?c4" by (rule excl_returns[where p = Missing]) (simp_all add: defs)
  have s5: "ts_step 0 ?c4 ?c5" by (rule shared_returns) (simp_all add: defs)
  have "ts_reachable 0 fmempty ?c5"
    by (rule ts_reachable.step, rule ts_reachable.step, rule ts_reachable.step,
        rule ts_reachable.step, rule ts_reachable.step, rule ts_reachable.start)
      (rule s1 s2 s3 s4 s5)+
  moreover have "?c5 = race_end"
    by (simp add: race_end_def cf_init_def fun_eq_iff)
  ultimately show ?thesis by simp
qed

text \<open>C18. However the critical sections of any number of threads are interleaved, the calls that
  returned behaved as indivisible accesses, one after the other in the order they returned, and the
  shared map is what that sequence of accesses makes of the initial one; none of the
  panics that guard the window between the two locks is ever reached.\<close>

theorem taint_state_linearizable:
  assumes "ts_reachable d m\<^sub>0 c"
  shows "replay d (cf_log c) m\<^sub>0 = Some (cf_map c)
       \<and> list_all (\<lambda>(t, a, r). \<not> is_Panic r) (cf_log c)"
proof -
  have "replay d (cf_log c) m\<^sub>0 = Some (cf_map c)"
    using ts_inv_reachable[OF assms] by (simp add: ts_inv_def)
  then show ?thesis
    by (auto simp: list_all_iff dest: replay_no_panic)
qed

theorem taint_state_linearizable_witness:
  "replay 0 (cf_log race_end) fmempty = Some (cf_map race_end)"
  using taint_state_linearizable[OF race_reachable] by blast

text \<open>C36. As soon as a call on a key that had no owner has returned, exactly one thread has been granted
  that key, under every interleaving: it owns the key, every returned call of that thread on it was
  granted, and every returned call of another thread on it was refused with that owner.\<close>

theorem exactly_one_thread_is_granted:
  assumes "ts_reachable d m\<^sub>0 c" and "ts_owner m\<^sub>0 k = None"
    and "(t\<^sub>0, a\<^sub>0, r\<^sub>0) \<in> set (cf_log c)" and "access_key a\<^sub>0 = k"
  shows "\<exists>u. ts_owner (cf_map c) k = Some u
     \<and> (\<exists>a x. (u, a, Ok x) \<in> set (cf_log c) \<and> access_key a = k)
     \<and> (\<forall>(t, a, r)\<in>set (cf_log c). access_key a = k \<longrightarrow> (if t = u then is_Ok r else r = Err u))"
proof -
  have "replay d (cf_log c) m\<^sub>0 = Some (cf_map c)"
    using ts_inv_reachable[OF assms(1)] by (simp add: ts_inv_def)
  from replay_free[OF this assms(2-4)] show ?thesis unfolding taken_by_def by blast
qed

theorem exactly_one_thread_is_granted_witness:
  "\<exists>u. ts_owner race_map 7 = Some u
     \<and> (\<forall>(t, a, r)\<in>set (cf_log race_end). access_key a = 7 \<longrightarrow> (if t = u then is_Ok r else r = Err u))"
proof -
  have "(2, WriteOf 7 5, Err 1) \<in> set (cf_log race_end)" "ts_owner (fmempty :: (nat, nat, nat) state_map) 7 = None"
    by (simp_all add: race_end_def ts_owner_def)
  from exactly_one_thread_is_granted[OF race_reachable this(2,1)] show ?thesis
    by (simp add: race_end_def)
qed

end
