(* ===== verification/Interference.thy ===== *)
theory Interference
  imports Serializability Taint_Interleaving
begin

text \<open>
  A dispatch on the concurrent runtime between whose accesses other threads use the state. What the
  worker has seen so far stays true: the keys it was granted are its own and nobody else changes
  them, a key that was refused keeps its owner. So at any moment the accesses made so far could be
  made again, all at once, with the same answers.
\<close>

section \<open>One access\<close>

definition cr_at :: "runtime_state \<Rightarrow> (state_key, state_value) fmap \<Rightarrow> thread_id \<Rightarrow> concurrent_runtime" where
  "cr_at m c w = \<lparr>cr_state = m, cr_cache = c, cr_id = w\<rparr>"

lemma cr_at_sel [simp]:
  "cr_state (cr_at m c w) = m" "cr_cache (cr_at m c w) = c" "cr_id (cr_at m c w) = w"
  "(cr_at m c w)\<lparr>cr_state := m'\<rparr> = cr_at m' c w" "(cr_at m c w)\<lparr>cr_cache := c'\<rparr> = cr_at m c' w"
  by (simp_all add: cr_at_def)

lemma cr_new_at: "cr_new m w = cr_at m fmempty w"
  by (simp add: cr_new_def cr_at_def)

text \<open>
  \<open>ConcurrentRuntime::read\<close> and \<open>write\<close> once they know what the state answers, or that the key is
  in the cache.
\<close>

fun cr_answer ::
  "access_op \<Rightarrow> (state_value, thread_id) rs \<Rightarrow> (state_key, state_value) fmap
     \<Rightarrow> reply \<times> (state_key, state_value) fmap" where
  "cr_answer (OpRead k) r c = (ReadReply r, c)"
| "cr_answer (OpWrite k v) (Ok _) c = (WriteReply (Ok ()), fmupd k v c)"
| "cr_answer (OpWrite k v) (Err t) c = (WriteReply (Err t), c)"
| "cr_answer (OpWrite k v) (Panic p) c = (WriteReply (Panic p), c)"

definition cr_lookup ::
  "thread_id \<Rightarrow> state_key \<Rightarrow> (state_key, state_value) fmap \<Rightarrow> runtime_state
     \<Rightarrow> (state_value, thread_id) rs \<times> runtime_state" where
  "cr_lookup w k c m = (case fmlookup c k of
     Some v \<Rightarrow> (Ok v, m) | None \<Rightarrow> ts_read default_value k w m)"

lemma cr_read_at:
  "cr_read k (cr_at m c w) = (case cr_lookup w k c m of (r, m') \<Rightarrow> (r, cr_at m' c w))"
  by (simp add: cr_read_def cr_lookup_def split: option.split prod.split)

lemma perform_CR:
  "perform CR x (cr_at m c w) = (case cr_lookup w (op_key x) c m of (r, m') \<Rightarrow>
     (case cr_answer x r c of (rep, c') \<Rightarrow> (rep, cr_at m' c' w)))"
proof (cases x)
  case (OpRead k)
  then show ?thesis by (simp add: cr_read_at split: prod.split)
next
  case (OpWrite k v)
  obtain r m' where "cr_lookup w k c m = (r, m')" by fastforce
  then show ?thesis
    using OpWrite by (cases r) (simp_all add: cr_write_def bindC_def cr_read_at cache_insert_def)
qed

text \<open>A key that has an owner is read without a change.\<close>

lemma ts_read_owned:
  "ts_owner m k = Some u \<Longrightarrow> ts_read default_value k w m =
     (if u = w then Ok (values_of m k) else Err u, m)"
  by (auto simp: ts_read_eq ts_owner_def ts_view_def bind_eq_Some_conv)

lemma ts_read_free:
  "ts_owner m k = None \<Longrightarrow> ts_read default_value k w m = (Ok (values_of m k), touch w k m)"
  by (auto simp: ts_read_eq ts_owner_def ts_view_def touch_def split: option.splits bind_splits)

lemma ts_read_cases:
  obtains (free) "ts_owner m k = None" "ts_read default_value k w m = (Ok (values_of m k), touch w k m)"
  | (own) "ts_owner m k = Some w" "ts_read default_value k w m = (Ok (values_of m k), m)"
  | (taken) u where "ts_owner m k = Some u" "u \<noteq> w" "ts_read default_value k w m = (Err u, m)"
  by (cases "ts_owner m k") (auto simp: ts_read_free ts_read_owned split: if_splits)

lemma touch_lookup: "k' \<noteq> k \<Longrightarrow> fmlookup (touch w k m) k' = fmlookup m k'"
  by (simp add: touch_def ts_read_eq split: option.split)

section \<open>The accesses so far\<close>

text \<open>
  The accesses \<open>h\<close>, made again at once on \<open>m\<close> from cache \<open>c\<close>: same answers, no change of the state,
  and the cache afterwards.
\<close>

fun settles ::
  "thread_id \<Rightarrow> runtime_state \<Rightarrow> history \<Rightarrow> (state_key, state_value) fmap
     \<Rightarrow> (state_key, state_value) fmap option" where
  "settles w m [] c = Some c"
| "settles w m ((x, rep) # h) c = (case cr_lookup w (op_key x) c m of (r, m') \<Rightarrow>
     (case cr_answer x r c of (rep', c') \<Rightarrow>
        if rep' = rep \<and> m' = m then settles w m h c' else None))"

lemma settles_performs:
  "settles w m h c = Some c' \<Longrightarrow> performs CR h (cr_at m c w) = Some (cr_at m c' w)"
  by (induction w m h c rule: settles.induct)
    (auto simp: perform_CR split: prod.splits if_splits)

lemma settles_append:
  "settles w m (h @ h') c = Option.bind (settles w m h c) (settles w m h')"
  by (induction w m h c rule: settles.induct) (auto split: prod.splits)

text \<open>What a worker relies on.\<close>

definition spares :: "thread_id \<Rightarrow> runtime_state \<Rightarrow> runtime_state \<Rightarrow> bool" where
  "spares w m m' \<longleftrightarrow> (\<forall>k u. ts_owner m k = Some u \<longrightarrow>
     ts_owner m' k = Some u \<and> (u = w \<longrightarrow> values_of m' k = values_of m k))"

lemma cr_lookup_stable:
  assumes "spares w m m'" "cr_lookup w k c m = (r, m)"
  shows "cr_lookup w k c m' = (r, m')"
proof (cases "fmlookup c k")
  case None
  show ?thesis
  proof (cases rule: ts_read_cases[of m k w])
    case free
    then have "touch w k m = m" using assms(2) None by (simp add: cr_lookup_def)
    then have "ts_owner m k = Some w" using touch_facts(2)[OF free(1), of w] by (metis fun_upd_same)
    with free(1) show ?thesis by simp
  next
    case own
    then have "ts_owner m' k = Some w" "values_of m' k = values_of m k"
      using assms(1) by (simp_all add: spares_def)
    with own assms(2) None show ?thesis by (simp add: cr_lookup_def ts_read_owned)
  next
    case (taken u)
    then have "ts_owner m' k = Some u" using assms(1) by (simp add: spares_def)
    with taken assms(2) None show ?thesis by (simp add: cr_lookup_def ts_read_owned)
  qed
qed (use assms(2) in \<open>simp add: cr_lookup_def\<close>)

lemma settles_stable:
  assumes "spares w m m'" "settles w m h c = Some c'"
  shows "settles w m' h c = Some c'"
  using assms(2)
proof (induction h arbitrary: c)
  case (Cons y h)
  obtain x rep where y: "y = (x, rep)" by fastforce
  then obtain r c1 where l: "cr_lookup w (op_key x) c m = (r, m)" "cr_answer x r c = (rep, c1)"
    "settles w m h c1 = Some c'"
    using Cons.prems by (auto split: prod.splits if_splits)
  from cr_lookup_stable[OF assms(1) l(1)] l(2) Cons.IH[OF l(3)] y show ?case by simp
qed simp

lemma spares_refl: "spares w m m"
  by (simp add: spares_def)

lemma spares_touch: "ts_owner m k = None \<Longrightarrow> spares w m (touch v k m)"
  by (auto simp: spares_def touch_facts)

lemma spares_execute:
  assumes run: "execute_transaction E v tx m = (r, m')" and "v \<noteq> w"
  shows "spares w m m'"
  unfolding spares_def
proof (intro allI impI conjI)
  fix k u assume own: "ts_owner m k = Some u"
  note facts = execute_transaction_facts[OF run]
  show u: "ts_owner m' k = Some u" using facts(1)[of k] own by auto
  assume "u = w"
  with u assms(2) show "values_of m' k = values_of m k"
    using facts(2,3) by (cases "is_Ok r") auto
qed

text \<open>An access of the worker itself.\<close>

lemma cr_lookup_cases:
  assumes "cr_lookup w k c m = (r, m')"
  obtains (same) "m' = m" | (touches) "ts_owner m k = None" "m' = touch w k m" "fmlookup c k = None" "r = Ok (values_of m k)"
  using assms by (cases rule: ts_read_cases[of m k w]) (auto simp: cr_lookup_def split: option.splits)

lemma settles_access:
  assumes h: "settles w m h fmempty = Some c"
    and x: "cr_lookup w (op_key x) c m = (r, m')" "cr_answer x r c = (rep, c')"
  shows "settles w m' (h @ [(x, rep)]) fmempty = Some c'"
proof -
  from x(1) have "spares w m m' \<and> cr_lookup w (op_key x) c m' = (r, m')"
  proof (cases rule: cr_lookup_cases)
    case same
    with x(1) show ?thesis by (simp add: spares_refl)
  next
    case touches
    then have "ts_owner m' (op_key x) = Some w" "values_of m' = values_of m"
      using touch_facts[OF touches(1), of w] by simp_all
    with touches spares_touch[OF touches(1)] show ?thesis by (simp add: cr_lookup_def ts_read_owned)
  qed
  with settles_stable[OF _ h] x(2) show ?thesis by (simp add: settles_append)
qed

text \<open>Cached keys are the worker's own.\<close>

lemma settles_cached:
  assumes "settles w m h fmempty = Some c"
  shows "cr_inv (cr_at m c w)" "fmlookup c k = Some v \<Longrightarrow> ts_owner m k = Some w"
proof -
  have perform: "cr_inv s \<Longrightarrow> cr_inv (snd (perform CR x s))" for x s
    using conc_frame.read_keeps conc_frame.write_keeps
    by (cases x) (auto simp: keeps_def cr_frame_def)
  have mono: "performs CR h s = Some s' \<Longrightarrow> cr_inv s \<Longrightarrow> cr_inv s'" for s s'
  proof (induction h arbitrary: s)
    case (Cons y h)
    obtain x rep where y: "y = (x, rep)" by fastforce
    obtain q s1 where s1: "perform CR x s = (q, s1)" by fastforce
    have "cr_inv s1" using perform[OF Cons.prems(2), of x] s1 by simp
    moreover have "performs CR h s1 = Some s'" using Cons.prems(1) y s1 by (auto split: if_splits)
    ultimately show ?case using Cons.IH by blast
  qed simp
  show inv: "cr_inv (cr_at m c w)"
    by (rule mono[OF settles_performs[OF assms]]) (simp add: cr_inv_def)
  show "ts_owner m k = Some w" if "fmlookup c k = Some v"
    using cr_inv_cached[OF inv] that by (simp add: cr_mine_def)
qed

section \<open>The end of the call\<close>

text \<open>
  When the call has returned, dispatching the transaction at once on the present state does what
  the interrupted dispatch did, commit included.
\<close>

lemma settles_execute:
  assumes h: "settles w m h fmempty = Some c"
    and ret: "resume (outer_dispatch E HR (tx_function tx) (fst (tx_signature tx))) h = Returns r"
  shows "execute_transaction E w tx m = (to_runtime_dispatch_result r,
    if is_Ok r then fold (\<lambda>(k, v). fmupd k (sv_new v w)) (entries c) m else m)"
proof -
  have run: "outer_dispatch E CR (tx_function tx) (fst (tx_signature tx)) (cr_new m w) = (r, cr_at m c w)"
    using resume_Returns(1)[OF traced_outer_dispatch settles_performs[OF h] ret] by (simp add: cr_new_at)
  have own: "\<forall>(k, v)\<in>set (entries c). ts_owner (cr_state (cr_at m c w)) k = Some (cr_id (cr_at m c w))"
  proof clarify
    fix k v assume "(k, v) \<in> set (entries c)"
    then have "fmlookup c k = Some v"
      using map_of_is_SomeI[OF distinct_entries] by (fastforce simp: map_of_sorted_list)
    with settles_cached(2)[OF h] show "ts_owner (cr_state (cr_at m c w)) k = Some (cr_id (cr_at m c w))"
      by simp
  qed
  have "commit_cache (debug_build E) (cr_at m c w) =
      (Ok (), cr_at (fold (\<lambda>(k, v). fmupd k (sv_new v w)) (entries c) m) c w)"
    using commit_entries[OF own, of "debug_build E"] by (simp add: commit_cache_def)
  with run show ?thesis
    by (cases r)
      (auto simp: execute_transaction_def ConcurrentRuntime_dispatch_def cr_dispatch_def cr_new_def
        split: prod.splits)
qed

end
