(* ===== verification/Threads.thy ===== *)
theory Threads
  imports System Interference
begin

text \<open>
  The threads of the concurrent executor, one critical section at a time. \<open>System\<close> lets a worker
  dispatch a transaction in one step; here the dispatch is under way for many steps. While a block
  is authored, an access takes one step under the read lock of the state and, when the key has no
  owner yet, another one under the write lock; the commit of the cache takes a step for each entry.
  While a block is validated, every access of the sequential runtime is a step. What the code does
  before and after a dispatch is that of \<open>Worker\<close>. The master's steps are those of \<open>System\<close>: it
  uses the state only when no worker does.
\<close>

section \<open>Configurations\<close>

text \<open>
  Where a worker is in a dispatch: between accesses, with the accesses made, the cache and the
  branch of the access that waits for the write lock; in the commit, with the result of the call
  and the entries to come; in a dispatch on the sequential runtime.
\<close>

datatype activity =
    Resting
  | Accessing history "(state_key, state_value) fmap" "lock_path option"
  | Committing dispatch_result "(state_key \<times> state_value) list"
  | Replaying history

record 'p threads =
  th_sys :: "'p system"
  th_activity :: "thread_id \<Rightarrow> activity"

definition th_start :: "'p system \<Rightarrow> 'p threads" where
  "th_start c = \<lparr>th_sys = c, th_activity = (\<lambda>_. Resting)\<rparr>"

abbreviation th_state :: "'p threads \<Rightarrow> runtime_state" where
  "th_state t \<equiv> wo_state (sy_world (th_sys t))"

definition at_state :: "runtime_state \<Rightarrow> 'p system \<Rightarrow> 'p system" where
  "at_state m c = c\<lparr>sy_world := (sy_world c)\<lparr>wo_state := m\<rparr>\<rparr>"

section \<open>Before and after a dispatch\<close>

text \<open>
  The transaction a worker is about to dispatch: the oldest message of the queue it reads from, if
  that is a transaction and no assertion fails.
\<close>

definition head_tx :: "'p message list \<Rightarrow> ('p message \<Rightarrow> 'p transaction \<Rightarrow> bool) \<Rightarrow> 'p transaction option" where
  "head_tx msgs ok = (case msgs of [] \<Rightarrow> None
     | msg # _ \<Rightarrow> (case payload msg of TransactionMsg tx \<Rightarrow> if ok msg tx then Some tx else None | _ \<Rightarrow> None))"

definition dispatching ::
  "('p, 'z) staking_env_scheme \<Rightarrow> worker \<Rightarrow> 'p world \<Rightarrow> 'p transaction option" where
  "dispatching E wk wo = (case wk_phase wk of
     Depleting _ _ _ \<Rightarrow> head_tx (to_worker wo (wk_id wk))
       (\<lambda>msg _. \<not> debug_build E \<or> msg_from msg = wk_master_id wk)
   | Serving \<Rightarrow> map_option (\<lambda>tx. tx\<lparr>tx_exec_status := Forwarded\<rparr>)
       (head_tx (to_peer wo (wk_id wk)) (\<lambda>_ _. True))
   | Validation _ \<Rightarrow> head_tx (to_worker wo (wk_id wk))
       (\<lambda>msg tx. \<not> debug_build E \<or> msg_from msg = wk_master_id wk \<and> tx_tag tx = Done (wk_id wk))
   | _ \<Rightarrow> None)"

definition finish_dispatch ::
  "worker \<Rightarrow> 'p transaction \<Rightarrow> runtime_dispatch_result \<Rightarrow> 'p world \<Rightarrow> worker \<times> 'p world" where
  "finish_dispatch wk tx r wo =
     (let w = wk_id wk;
          from_master = wo\<lparr>to_worker := (to_worker wo)(w := tl (to_worker wo w))\<rparr>;
          from_peer = wo\<lparr>to_peer := (to_peer wo)(w := tl (to_peer wo w))\<rparr>
      in case wk_phase wk of
           Depleting ex fwd outputs \<Rightarrow>
             deplete_outcome ex fwd outputs wk (report_or_forward wk tx r from_master)
         | Serving \<Rightarrow> serve_outcome wk (report_or_forward wk tx r from_peer)
         | Validation outcomes \<Rightarrow> validate_outcome outcomes wk (r, from_master)
         | _ \<Rightarrow> (wk, wo))"

section \<open>Steps\<close>

text \<open>The part of an access under the read lock; the cache needs no lock.\<close>

definition cr_shared ::
  "thread_id \<Rightarrow> state_key \<Rightarrow> (state_key, state_value) fmap \<Rightarrow> runtime_state
     \<Rightarrow> (state_value, thread_id) rs + lock_path" where
  "cr_shared w k c m = (case fmlookup c k of Some v \<Rightarrow> Inl (Ok v) | None \<Rightarrow> ts_read_shared k w m)"

definition set_activity :: "thread_id \<Rightarrow> activity \<Rightarrow> runtime_state \<Rightarrow> 'p threads \<Rightarrow> 'p threads" where
  "set_activity w a m t =
     t\<lparr>th_sys := at_state m (th_sys t), th_activity := (th_activity t)(w := a)\<rparr>"

definition set_worker :: "thread_id \<Rightarrow> worker \<Rightarrow> 'p world \<Rightarrow> 'p system \<Rightarrow> 'p system" where
  "set_worker w wk wo c = c\<lparr>sy_workers := (sy_workers c)(w := wk), sy_world := wo\<rparr>"

text \<open>\<open>worker_in c w\<close>: the executor has the worker and it has not ended.\<close>

definition worker_in :: "'p system \<Rightarrow> thread_id \<Rightarrow> bool" where
  "worker_in c w \<longleftrightarrow> w \<in> set (ms_workers (sy_master c)) \<and> running (wk_phase (sy_workers c w))"

text \<open>The steps of one worker, with the dispatches that end, and their results, as the label.\<close>

inductive worker_step ::
  "('p, 'z) exec_env_scheme \<Rightarrow> thread_id \<Rightarrow> 'p threads \<Rightarrow> 'p logged list \<Rightarrow> 'p threads \<Rightarrow> bool"
  for E :: "('p, 'z) exec_env_scheme" and w :: thread_id where
  takes:
    "th_activity t w = Resting \<Longrightarrow> to_worker (sy_world (th_sys t)) w = msg # rest \<Longrightarrow>
     wk_phase (sy_workers (th_sys t) w) = Serving
       \<or> dispatching E (sy_workers (th_sys t) w) (sy_world (th_sys t)) = None \<Longrightarrow>
     worker_from_master E (sy_workers (th_sys t) w) (sy_world (th_sys t)) = (wk', wo') \<Longrightarrow>
     worker_step E w t [] (t\<lparr>th_sys := set_worker w wk' wo' (th_sys t)\<rparr>)"
| takes_peer:
    "th_activity t w = Resting \<Longrightarrow> wk_phase (sy_workers (th_sys t) w) = Serving \<Longrightarrow>
     to_peer (sy_world (th_sys t)) w = msg # rest \<Longrightarrow>
     dispatching E (sy_workers (th_sys t) w) (sy_world (th_sys t)) = None \<Longrightarrow>
     worker_from_others E (sy_workers (th_sys t) w) (sy_world (th_sys t)) = (wk', wo') \<Longrightarrow>
     worker_step E w t [] (t\<lparr>th_sys := set_worker w wk' wo' (th_sys t)\<rparr>)"
| begins:
    "th_activity t w = Resting \<Longrightarrow>
     dispatching E (sy_workers (th_sys t) w) (sy_world (th_sys t)) = Some tx \<Longrightarrow>
     a = (case wk_phase (sy_workers (th_sys t) w) of
            Validation _ \<Rightarrow> Replaying [] | _ \<Rightarrow> Accessing [] fmempty None) \<Longrightarrow>
     worker_step E w t [] (set_activity w a (th_state t) t)"
| shared_section:
    "th_activity t w = Accessing h c None \<Longrightarrow>
     dispatching E (sy_workers (th_sys t) w) (sy_world (th_sys t)) = Some tx \<Longrightarrow>
     resume (call_code E tx) h = Asks x \<Longrightarrow>
     a = (case cr_shared w (op_key x) c (th_state t) of
            Inl r \<Rightarrow> (case cr_answer x r c of (rep, c') \<Rightarrow> Accessing (h @ [(x, rep)]) c' None)
          | Inr p \<Rightarrow> Accessing h c (Some p)) \<Longrightarrow>
     worker_step E w t [] (set_activity w a (th_state t) t)"
| excl_section:
    "th_activity t w = Accessing h c (Some p) \<Longrightarrow>
     dispatching E (sy_workers (th_sys t) w) (sy_world (th_sys t)) = Some tx \<Longrightarrow>
     resume (call_code E tx) h = Asks x \<Longrightarrow>
     ts_read_excl default_value p (op_key x) w (th_state t) = (r, m') \<Longrightarrow>
     cr_answer x r c = (rep, c') \<Longrightarrow>
     worker_step E w t [] (set_activity w (Accessing (h @ [(x, rep)]) c' None) m' t)"
| call_returns:
    "th_activity t w = Accessing h c None \<Longrightarrow>
     dispatching E (sy_workers (th_sys t) w) (sy_world (th_sys t)) = Some tx \<Longrightarrow>
     resume (call_code E tx) h = Returns r \<Longrightarrow>
     worker_step E w t []
       (set_activity w (Committing r (if is_Ok r then entries c else [])) (th_state t) t)"
| commits:
    "th_activity t w = Committing r (e # es) \<Longrightarrow>
     commit_entry (debug_build E) e (cr_at (th_state t) fmempty w) = (q, s') \<Longrightarrow>
     a = (case q of Panic p \<Rightarrow> Committing (Panic p) [] | _ \<Rightarrow> Committing r es) \<Longrightarrow>
     worker_step E w t [] (set_activity w a (cr_state s') t)"
| finishes:
    "th_activity t w = Committing r [] \<Longrightarrow>
     dispatching E (sy_workers (th_sys t) w) (sy_world (th_sys t)) = Some tx \<Longrightarrow>
     finish_dispatch (sy_workers (th_sys t) w) tx (to_runtime_dispatch_result r) (sy_world (th_sys t))
       = (wk', wo') \<Longrightarrow>
     worker_step E w t [((w, tx), to_runtime_dispatch_result r)]
       (t\<lparr>th_sys := set_worker w wk' wo' (th_sys t), th_activity := (th_activity t)(w := Resting)\<rparr>)"
| replays:
    "th_activity t w = Replaying h \<Longrightarrow>
     dispatching E (sy_workers (th_sys t) w) (sy_world (th_sys t)) = Some tx \<Longrightarrow>
     resume (call_code E tx) h = Asks x \<Longrightarrow>
     perform SR x (sr_new (th_state t) w) = (rep, s') \<Longrightarrow>
     worker_step E w t [] (set_activity w (Replaying (h @ [(x, rep)])) (sr_state s') t)"
| replayed:
    "th_activity t w = Replaying h \<Longrightarrow>
     dispatching E (sy_workers (th_sys t) w) (sy_world (th_sys t)) = Some tx \<Longrightarrow>
     resume (call_code E tx) h = Returns r \<Longrightarrow>
     finish_dispatch (sy_workers (th_sys t) w) tx (to_runtime_dispatch_result r) (sy_world (th_sys t))
       = (wk', wo') \<Longrightarrow>
     worker_step E w t [((w, tx), to_runtime_dispatch_result r)]
       (t\<lparr>th_sys := set_worker w wk' wo' (th_sys t), th_activity := (th_activity t)(w := Resting)\<rparr>)"

inductive thread_step ::
  "('p, 'z) exec_env_scheme \<Rightarrow> 'p threads \<Rightarrow> 'p logged list \<Rightarrow> 'p threads \<Rightarrow> bool"
  for E :: "('p, 'z) exec_env_scheme" where
  worker: "worker_in (th_sys t) w \<Longrightarrow> worker_step E w t es t' \<Longrightarrow> thread_step E t es t'"
| master_collects:
    "ms_phase (sy_master (th_sys t)) = MCollecting col \<Longrightarrow>
     collection_iteration E col (sy_master (th_sys t)) (sy_world (th_sys t)) = ((ma', wo'), res) \<Longrightarrow>
     thread_step E t []
       (t\<lparr>th_sys := (th_sys t)\<lparr>sy_master := ma', sy_world := wo', sy_result := res\<rparr>\<rparr>)"
| master_validates:
    "ms_phase (sy_master (th_sys t)) = MValidating n \<Longrightarrow>
     validation_iteration E n (sy_master (th_sys t)) (sy_world (th_sys t)) = ((ma', wo'), res) \<Longrightarrow>
     thread_step E t []
       (t\<lparr>th_sys := (th_sys t)\<lparr>sy_master := ma', sy_world := wo', sy_result := res\<rparr>\<rparr>)"

inductive thread_run ::
  "('p, 'z) exec_env_scheme \<Rightarrow> 'p threads \<Rightarrow> 'p logged list \<Rightarrow> 'p threads \<Rightarrow> bool"
  for E :: "('p, 'z) exec_env_scheme" where
  trun_refl: "thread_run E t [] t"
| trun_step: "thread_run E t es t' \<Longrightarrow> thread_step E t' fs t'' \<Longrightarrow> thread_run E t (es @ fs) t''"

section \<open>The state and the rest of the world\<close>

lemma at_state_simps [simp]:
  "sy_workers (at_state m c) = sy_workers c" "sy_master (at_state m c) = sy_master c"
  "sy_result (at_state m c) = sy_result c" "sy_world (at_state m c) = (sy_world c)\<lparr>wo_state := m\<rparr>"
  "at_state m (at_state m' c) = at_state m c"
  by (simp_all add: at_state_def)

lemma at_state_same [simp]: "at_state (wo_state (sy_world c)) c = c"
  by (simp add: at_state_def)

lemma set_worker_simps [simp]:
  "sy_world (set_worker w wk wo c) = wo" "sy_workers (set_worker w wk wo c) = (sy_workers c)(w := wk)"
  "sy_master (set_worker w wk wo c) = sy_master c" "sy_result (set_worker w wk wo c) = sy_result c"
  "at_state m (set_worker w wk wo c) = set_worker w wk (wo\<lparr>wo_state := m\<rparr>) c"
  "set_worker w wk wo (at_state m c) = set_worker w wk wo c"
  by (simp_all add: set_worker_def at_state_def)

lemma set_activity_simps [simp]:
  "th_sys (set_activity w a m t) = at_state m (th_sys t)"
  "th_activity (set_activity w a m t) = (th_activity t)(w := a)"
  by (simp_all add: set_activity_def)

lemma dispatching_state [simp]: "dispatching E wk (wo\<lparr>wo_state := m\<rparr>) = dispatching E wk wo"
  by (simp add: dispatching_def cong: worker_phase.case_cong)

lemma report_or_forward_state:
  "report_or_forward wk tx r (wo\<lparr>wo_state := m\<rparr>) =
     map_prod id (\<lambda>wo. wo\<lparr>wo_state := m\<rparr>) (report_or_forward wk tx r wo)"
  by (cases r) (auto simp: report_or_forward_def Let_def send_defs split: runtime_dispatch_error.split)

lemma outcome_state:
  "deplete_outcome e f outs wk (map_prod id g r) = map_prod id g (deplete_outcome e f outs wk r)"
  "serve_outcome wk (map_prod id g r) = map_prod id g (serve_outcome wk r)"
  "validate_outcome outs' wk (map_prod id g r') = map_prod id g (validate_outcome outs' wk r')"
  by (auto simp: deplete_outcome_def serve_outcome_def validate_outcome_def
      split: prod.split rs.split execution_outcome.split)

lemma world_swap:
  "wo\<lparr>wo_state := m, to_worker := f\<rparr> = wo\<lparr>to_worker := f, wo_state := m\<rparr>"
  "wo\<lparr>wo_state := m, to_peer := f\<rparr> = wo\<lparr>to_peer := f, wo_state := m\<rparr>"
  by simp_all

lemma finish_dispatch_state:
  "finish_dispatch wk tx r (wo\<lparr>wo_state := m\<rparr>) =
     map_prod id (\<lambda>wo. wo\<lparr>wo_state := m\<rparr>) (finish_dispatch wk tx r wo)"
proof -
  have pair: "(r, wo'\<lparr>wo_state := m\<rparr>) = map_prod id (\<lambda>wo. wo\<lparr>wo_state := m\<rparr>) (r, wo')" for wo' :: "'a world"
    by simp
  show ?thesis
    unfolding finish_dispatch_def Let_def world_swap report_or_forward_state outcome_state
    by (simp add: pair outcome_state del: map_prod_simp split: worker_phase.split) simp
qed

lemma worker_from_master_state:
  assumes "wk_phase wk = Serving \<or> dispatching E wk wo = None"
  shows "worker_from_master E wk (wo\<lparr>wo_state := m\<rparr>) =
     map_prod id (\<lambda>wo. wo\<lparr>wo_state := m\<rparr>) (worker_from_master E wk wo)"
proof (cases "to_worker wo (wk_id wk)")
  case (Cons msg rest)
  show ?thesis
  proof (cases "wk_phase wk")
    case (Depleting e f outs)
    then show ?thesis
      using assms Cons
      by (cases "payload msg") (auto simp: worker_from_master_def deplete_master_queue_def dispatching_def
          head_tx_def send_master_def Let_def split: if_splits)
  next
    case (Validation outs)
    then show ?thesis
      using assms Cons
      by (cases "payload msg") (auto simp: worker_from_master_def run_validate_def dispatching_def
          head_tx_def send_master_def Let_def split: if_splits)
  qed (simp_all add: worker_from_master_def Cons Let_def)
qed (simp add: worker_from_master_def)

text \<open>A dispatch at once is the step of \<open>System\<close>.\<close>

lemma dispatch_at_once:
  assumes tx: "dispatching E wk wo = Some tx"
  shows "wk_phase wk = Depleting e f outs \<Longrightarrow> execute_transaction E (wk_id wk) tx (wo_state wo) = (r, m) \<Longrightarrow>
      worker_from_master E wk wo = finish_dispatch wk tx r (wo\<lparr>wo_state := m\<rparr>)"
    "wk_phase wk = Serving \<Longrightarrow> execute_transaction E (wk_id wk) tx (wo_state wo) = (r, m) \<Longrightarrow>
      worker_from_others E wk wo = finish_dispatch wk tx r (wo\<lparr>wo_state := m\<rparr>)"
    "wk_phase wk = Validation outs' \<Longrightarrow> validate_transaction E (wk_id wk) tx (wo_state wo) = (r, m) \<Longrightarrow>
      worker_from_master E wk wo = finish_dispatch wk tx r (wo\<lparr>wo_state := m\<rparr>)"
proof -
  have head: "\<exists>msg rest. msgs = msg # rest \<and> payload msg = TransactionMsg tx' \<and> ok msg tx'"
    if "head_tx msgs ok = Some tx'" for msgs :: "'a message list" and ok tx'
    using that by (auto simp: head_tx_def split: list.splits message_payload.splits if_splits)
  show "worker_from_master E wk wo = finish_dispatch wk tx r (wo\<lparr>wo_state := m\<rparr>)"
    if p: "wk_phase wk = Depleting e f outs" "execute_transaction E (wk_id wk) tx (wo_state wo) = (r, m)"
  proof -
    obtain msg rest where "to_worker wo (wk_id wk) = msg # rest" "payload msg = TransactionMsg tx"
      "\<not> (debug_build E \<and> msg_from msg \<noteq> wk_master_id wk)"
      using head tx p(1) by (fastforce simp: dispatching_def)
    with p show ?thesis
      by (simp only: worker_from_master_def deplete_master_queue_def finish_dispatch_def Let_def
          execute_or_forward_def list.case worker_phase.case message_payload.case if_False list.sel
          world.select_convs world_swap) simp
  qed
  show "worker_from_others E wk wo = finish_dispatch wk tx r (wo\<lparr>wo_state := m\<rparr>)"
    if p: "wk_phase wk = Serving" "execute_transaction E (wk_id wk) tx (wo_state wo) = (r, m)"
  proof -
    obtain msg rest tx' where "to_peer wo (wk_id wk) = msg # rest" "payload msg = TransactionMsg tx'"
      "tx = tx'\<lparr>tx_exec_status := Forwarded\<rparr>"
      using head tx p(1) by (fastforce simp: dispatching_def)
    with p show ?thesis
      by (simp add: worker_from_others_def author_from_others_def finish_dispatch_def Let_def
          execute_or_forward_def world_swap)
  qed
  show "worker_from_master E wk wo = finish_dispatch wk tx r (wo\<lparr>wo_state := m\<rparr>)"
    if p: "wk_phase wk = Validation outs'" "validate_transaction E (wk_id wk) tx (wo_state wo) = (r, m)"
  proof -
    obtain msg rest where "to_worker wo (wk_id wk) = msg # rest" "payload msg = TransactionMsg tx"
      "\<not> (debug_build E \<and> msg_from msg \<noteq> wk_master_id wk)" "\<not> (debug_build E \<and> tx_tag tx \<noteq> Done (wk_id wk))"
      using head tx p(1) by (fastforce simp: dispatching_def)
    with p show ?thesis
      by (auto simp: worker_from_master_def run_validate_def finish_dispatch_def Let_def world_swap)
  qed
qed

section \<open>What a step leaves to the other workers\<close>

text \<open>The queues of the others only grow at their ends.\<close>

definition grows :: "thread_id \<Rightarrow> 'p world \<Rightarrow> 'p world \<Rightarrow> bool" where
  "grows w wo wo' \<longleftrightarrow> (\<forall>v. v \<noteq> w \<longrightarrow> to_worker wo' v = to_worker wo v
     \<and> (\<exists>ext. to_peer wo' v = to_peer wo v @ ext))"

lemma growsI:
  "(\<And>v. v \<noteq> w \<Longrightarrow> to_worker wo' v = to_worker wo v \<and> (\<exists>ext. to_peer wo' v = to_peer wo v @ ext)) \<Longrightarrow>
     grows w wo wo'"
  by (simp add: grows_def)

lemma head_tx_append: "head_tx msgs ok = Some tx \<Longrightarrow> head_tx (msgs @ ext) ok = Some tx"
  by (cases msgs) (simp_all add: head_tx_def)

lemma dispatching_grows:
  assumes "grows w wo wo'" "wk_id wk \<noteq> w" "dispatching E wk wo = Some tx"
  shows "dispatching E wk wo' = Some tx"
proof -
  obtain ext where "to_worker wo' (wk_id wk) = to_worker wo (wk_id wk)"
    "to_peer wo' (wk_id wk) = to_peer wo (wk_id wk) @ ext"
    using assms(1,2) by (auto simp: grows_def)
  with assms(3) show ?thesis
    by (auto simp: dispatching_def head_tx_append split: worker_phase.splits)
qed

lemma report_or_forward_frame:
  "report_or_forward wk tx r wo = (q, wo') \<Longrightarrow> wo_state wo' = wo_state wo \<and> to_worker wo' = to_worker wo
     \<and> (\<exists>ext. to_peer wo' v = to_peer wo v @ ext)"
  by (cases r) (auto simp: report_or_forward_def Let_def send_defs split: runtime_dispatch_error.splits if_splits)

lemma outcome_world:
  "deplete_outcome e f outs wk (q, wo') = (wk', wo'') \<Longrightarrow> wo'' = wo'"
  "serve_outcome wk (q, wo') = (wk', wo'') \<Longrightarrow> wo'' = wo'"
  "validate_outcome outs' wk (q', wo') = (wk', wo'') \<Longrightarrow> wo'' = wo'"
  by (auto simp: deplete_outcome_def serve_outcome_def validate_outcome_def
      split: rs.splits execution_outcome.splits)

lemma finish_dispatch_frame:
  assumes "finish_dispatch wk tx r wo = (wk', wo')"
  shows "wo_state wo' = wo_state wo" "grows (wk_id wk) wo wo'"
proof -
  let ?w = "wk_id wk"
  let ?wo1 = "wo\<lparr>to_worker := (to_worker wo)(?w := tl (to_worker wo ?w))\<rparr>"
  let ?wo2 = "wo\<lparr>to_peer := (to_peer wo)(?w := tl (to_peer wo ?w))\<rparr>"
  obtain q1 wo1 where 1: "report_or_forward wk tx r ?wo1 = (q1, wo1)" by fastforce
  obtain q2 wo2 where 2: "report_or_forward wk tx r ?wo2 = (q2, wo2)" by fastforce
  have "wo' = wo1 \<or> wo' = wo2 \<or> wo' = ?wo1 \<or> wo' = wo"
    using assms 1 2 by (auto simp: finish_dispatch_def Let_def dest: outcome_world split: worker_phase.splits)
  moreover have "wo_state wo1 = wo_state wo" "wo_state wo2 = wo_state wo"
    using report_or_forward_frame[OF 1] report_or_forward_frame[OF 2] by simp_all
  moreover have "grows ?w wo wo1"
    by (rule growsI) (use report_or_forward_frame[OF 1] in simp)
  moreover have "grows ?w wo wo2"
  proof (rule growsI)
    show "to_worker wo2 v = to_worker wo v \<and> (\<exists>ext. to_peer wo2 v = to_peer wo v @ ext)" if "v \<noteq> ?w" for v
      using report_or_forward_frame[OF 2, of v] that by simp
  qed
  moreover have "grows ?w wo ?wo1" "grows ?w wo wo" by (auto intro!: growsI)
  ultimately show "wo_state wo' = wo_state wo" "grows ?w wo wo'" by auto
qed

lemma worker_from_master_frame:
  assumes "wk_phase wk = Serving \<or> dispatching E wk wo = None" "worker_from_master E wk wo = (wk', wo')"
  shows "wo_state wo' = wo_state wo" "grows (wk_id wk) wo wo'"
proof -
  have "wo_state wo' = wo_state wo \<and> grows (wk_id wk) wo wo'"
  proof (cases "to_worker wo (wk_id wk)")
    case Nil
    then show ?thesis using assms(2) by (simp add: worker_from_master_def grows_def)
  next
    case (Cons msg rest)
    show ?thesis
    proof (cases "wk_phase wk")
      case (Depleting e f outs)
      then show ?thesis
        using assms Cons
        by (cases "payload msg") (auto simp: worker_from_master_def deplete_master_queue_def dispatching_def
            head_tx_def send_master_def Let_def grows_def split: if_splits)
    next
      case (Validation outs)
      then show ?thesis
        using assms Cons
        by (cases "payload msg") (auto simp: worker_from_master_def run_validate_def dispatching_def
            head_tx_def send_master_def Let_def grows_def split: if_splits)
    qed (use assms(2) in \<open>auto simp: worker_from_master_def Cons Let_def grows_def\<close>)
  qed
  then show "wo_state wo' = wo_state wo" "grows (wk_id wk) wo wo'" by simp_all
qed

end
