(* ===== verification/Author_Threads.thy ===== *)
theory Author_Threads
  imports Block_Authoring Threads
begin

text \<open>
  Authoring, one critical section at a time, is authoring with dispatches at once. The state the
  threads share differs from the state of the abstract run in the commits that are under way; each
  dispatch under way could, by what it has seen, be made at once on the abstract state. An access
  that taints a key is a \<open>touch\<close> of the abstract run, the last step of a dispatch is its dispatch,
  and all other steps of a dispatch are none of its concern.
\<close>

section \<open>The two states\<close>

text \<open>\<open>dn w\<close>: the entries that \<open>w\<close> has committed of a dispatch that has not ended.\<close>

definition overlay ::
  "(thread_id \<Rightarrow> (state_key \<times> state_value) list) \<Rightarrow> runtime_state \<Rightarrow> runtime_state \<Rightarrow> bool" where
  "overlay dn m m' \<longleftrightarrow> (\<forall>k. fmlookup m' k = (case ts_owner m k of
     None \<Rightarrow> fmlookup m k
   | Some u \<Rightarrow> (case map_of (dn u) k of Some v \<Rightarrow> Some (sv_new v u) | None \<Rightarrow> fmlookup m k)))"

lemma overlayD:
  assumes "overlay dn m m'"
  shows "ts_owner m' k = ts_owner m k"
    "ts_owner m k = None \<Longrightarrow> fmlookup m' k = fmlookup m k"
    "ts_owner m k = Some w \<Longrightarrow> dn w = [] \<Longrightarrow> fmlookup m' k = fmlookup m k"
proof -
  have look: "fmlookup m' k = (case ts_owner m k of None \<Rightarrow> fmlookup m k
     | Some u \<Rightarrow> (case map_of (dn u) k of Some v \<Rightarrow> Some (sv_new v u) | None \<Rightarrow> fmlookup m k))"
    using assms by (simp add: overlay_def)
  show "ts_owner m k = None \<Longrightarrow> fmlookup m' k = fmlookup m k"
    "ts_owner m k = Some w \<Longrightarrow> dn w = [] \<Longrightarrow> fmlookup m' k = fmlookup m k"
    by (simp_all add: look)
  show "ts_owner m' k = ts_owner m k"
  proof (cases "ts_owner m k")
    case (Some u)
    then show ?thesis by (cases "map_of (dn u) k") (simp_all add: ts_owner_def look)
  qed (simp add: ts_owner_def look)
qed

lemma overlay_nothing: "overlay dn m m' \<Longrightarrow> (\<And>w. dn w = []) \<Longrightarrow> m' = m"
proof (rule fmap_ext)
  fix k assume "overlay dn m m'" "\<And>w. dn w = []"
  then show "fmlookup m' k = fmlookup m k"
    using overlayD(2,3) by (cases "ts_owner m k") blast+
qed

lemma overlay_refl: "(\<And>w. dn w = []) \<Longrightarrow> overlay dn m m"
  by (simp add: overlay_def split: option.split)

text \<open>A worker that is not committing sees the abstract state.\<close>

lemma overlay_read:
  assumes ov: "overlay dn m m'" and w: "dn w = []"
  obtains (same) r where "ts_read default_value k w m = (r, m)" "ts_read default_value k w m' = (r, m')"
      "ts_owner m k \<noteq> None"
  | (touches) "ts_owner m k = None" "ts_read default_value k w m = (Ok (values_of m k), touch w k m)"
      "ts_read default_value k w m' = (Ok (values_of m k), touch w k m')"
      "overlay dn (touch w k m) (touch w k m')"
proof (cases "ts_owner m k")
  case None
  note same = overlayD(2)[OF ov None]
  have free: "ts_owner m' k = None" using overlayD(1)[OF ov] None by simp
  have at_k: "fmlookup (touch w k m') k = fmlookup (touch w k m) k"
    by (simp add: touch_def ts_read_eq same split: option.split)
  have "overlay dn (touch w k m) (touch w k m')"
    unfolding overlay_def
  proof
    fix j
    show "fmlookup (touch w k m') j = (case ts_owner (touch w k m) j of None \<Rightarrow> fmlookup (touch w k m) j
       | Some u \<Rightarrow> (case map_of (dn u) j of Some v \<Rightarrow> Some (sv_new v u) | None \<Rightarrow> fmlookup (touch w k m) j))"
    proof (cases "j = k")
      case True
      then show ?thesis using at_k w touch_facts(2)[OF None, of w] by simp
    next
      case False
      then show ?thesis using ov touch_facts(2)[OF None, of w] by (simp add: touch_lookup overlay_def split: option.split)
    qed
  qed
  moreover have "values_of m' k = values_of m k" by (simp add: ts_view_def same)
  ultimately show thesis
    using touches None ts_read_free[OF None] ts_read_free[OF free] by simp
next
  case (Some u)
  have own: "ts_owner m' k = Some u" using overlayD(1)[OF ov] Some by simp
  have "values_of m' k = values_of m k" if "u = w"
    using overlayD(3)[OF ov _ w] Some that by (simp add: ts_view_def)
  with Some own that(1) show thesis by (simp add: ts_read_owned)
qed

text \<open>The read lock alone is enough for a key that has an owner.\<close>

lemma shared_owned:
  "ts_read_shared k w m = Inl r \<Longrightarrow> ts_read d k w m = (r, m) \<and> ts_owner m k \<noteq> None"
  by (auto simp: ts_read_shared_def ts_read_def ts_owner_def split: option.splits)

lemma shared_path: "ts_read_shared k w m = Inr p \<Longrightarrow> path_valid w k p m"
  by (auto simp: ts_read_shared_def path_valid_def ts_owner_def split: option.splits)

lemma excl_read: "path_valid w k p m \<Longrightarrow> ts_read_excl d p k w m = ts_read d k w m"
  by (cases p) (auto simp: path_valid_def ts_owner_def ts_read_excl_def ts_read_eq split: option.splits)

lemma own_touch: "ts_owner m k = None \<Longrightarrow> changes_own_only w m (touch w k m)"
  using run_access_own[of w m default_value "ReadOf k"] by (simp add: touch_def)

lemma own_refl: "changes_own_only w m m"
  by (simp add: changes_own_only_def)

lemma own_commit: "ts_owner m k = Some w \<Longrightarrow> changes_own_only w m (fmupd k (sv_new v w) m)"
  by (simp add: changes_own_only_def)

lemma overlay_commit:
  assumes ov: "overlay dn m m'" and k: "ts_owner m k = Some w" "k \<notin> fst ` set (dn w)"
  shows "overlay (dn(w := dn w @ [(k, v)])) m (fmupd k (sv_new v w) m')"
  unfolding overlay_def
proof
  fix j
  have at_j: "fmlookup m' j = (case ts_owner m j of None \<Rightarrow> fmlookup m j
     | Some u \<Rightarrow> (case map_of (dn u) j of Some v \<Rightarrow> Some (sv_new v u) | None \<Rightarrow> fmlookup m j))"
    using ov by (simp add: overlay_def)
  have "map_of (dn w) k = None" using k(2) by (simp add: map_of_eq_None_iff)
  then show "fmlookup (fmupd k (sv_new v w) m') j = (case ts_owner m j of None \<Rightarrow> fmlookup m j
     | Some u \<Rightarrow> (case map_of ((dn(w := dn w @ [(k, v)])) u) j of
         Some v \<Rightarrow> Some (sv_new v u) | None \<Rightarrow> fmlookup m j))"
    using at_j k(1) by (cases "j = k") (auto simp: map_add_def split: option.splits)
qed

lemma overlay_end:
  assumes ov: "overlay dn m m'" and c: "dn w = entries c"
    and own: "\<And>k v. fmlookup c k = Some v \<Longrightarrow> ts_owner m k = Some w"
  shows "overlay (dn(w := [])) (fold (\<lambda>(k, v). fmupd k (sv_new v w)) (entries c) m) m'"
proof -
  let ?m = "fold (\<lambda>(k, v). fmupd k (sv_new v w)) (entries c) m"
  have look: "fmlookup ?m k = (case fmlookup c k of Some v \<Rightarrow> Some (sv_new v w) | None \<Rightarrow> fmlookup m k)" for k
    by (rule fold_entries_lookup)
  have owner: "ts_owner ?m k = ts_owner m k" for k
    using own[of k] by (simp add: ts_owner_def look split: option.split)
  show ?thesis
    unfolding overlay_def
  proof
    fix k
    have at_k: "fmlookup m' k = (case ts_owner m k of None \<Rightarrow> fmlookup m k
       | Some u \<Rightarrow> (case map_of (dn u) k of Some v \<Rightarrow> Some (sv_new v u) | None \<Rightarrow> fmlookup m k))"
      using ov by (simp add: overlay_def)
    show "fmlookup m' k = (case ts_owner ?m k of None \<Rightarrow> fmlookup ?m k
       | Some u \<Rightarrow> (case map_of ((dn(w := [])) u) k of Some v \<Rightarrow> Some (sv_new v u) | None \<Rightarrow> fmlookup ?m k))"
    proof (cases "ts_owner m k = Some w")
      case True
      then show ?thesis by (simp add: at_k owner look c map_of_sorted_list split: option.split)
    next
      case False
      then have "fmlookup c k = None" using own[of k] by (cases "fmlookup c k") auto
      with False show ?thesis by (auto simp: at_k owner look split: option.split)
    qed
  qed
qed

section \<open>The simulation relation\<close>

fun authoring :: "worker_phase \<Rightarrow> bool" where
  "authoring (Depleting _ _ _) = True"
| "authoring Serving = True"
| "authoring _ = False"

text \<open>What a worker's activity says, for the abstract state \<open>m\<close>.\<close>

definition activity_ok ::
  "('p, 'z) staking_env_scheme \<Rightarrow> thread_id list \<Rightarrow> 'p threads \<Rightarrow> runtime_state
     \<Rightarrow> (thread_id \<Rightarrow> (state_key \<times> state_value) list) \<Rightarrow> thread_id \<Rightarrow> bool" where
  "activity_ok E ws t m dn w \<longleftrightarrow> (case th_activity t w of
     Resting \<Rightarrow> dn w = []
   | Accessing h c p \<Rightarrow> w \<in> set ws \<and> dn w = [] \<and> settles w m h fmempty = Some c
       \<and> authoring (wk_phase (sy_workers (th_sys t) w))
       \<and> (\<exists>tx. dispatching E (sy_workers (th_sys t) w) (sy_world (th_sys t)) = Some tx
            \<and> resume (call_code E tx) h \<noteq> Stuck
            \<and> (\<forall>lp. p = Some lp \<longrightarrow> (\<exists>x. resume (call_code E tx) h = Asks x
                 \<and> fmlookup c (op_key x) = None \<and> path_valid w (op_key x) lp (th_state t))))
   | Committing r es \<Rightarrow> w \<in> set ws \<and> authoring (wk_phase (sy_workers (th_sys t) w))
       \<and> (\<exists>tx h c. dispatching E (sy_workers (th_sys t) w) (sy_world (th_sys t)) = Some tx
            \<and> settles w m h fmempty = Some c \<and> resume (call_code E tx) h = Returns r
            \<and> dn w @ es = (if is_Ok r then entries c else []))
   | Replaying h \<Rightarrow> False)"

definition author_sim ::
  "('p, 'z) exec_env_scheme \<Rightarrow> thread_id \<Rightarrow> thread_id list \<Rightarrow> 'p transaction list \<Rightarrow> runtime_state
     \<Rightarrow> 'p logged list \<Rightarrow> 'p threads \<Rightarrow> bool" where
  "author_sim E mid ws P m\<^sub>0 L t \<longleftrightarrow> (\<exists>m dn. author_inv E mid ws P m\<^sub>0 L (at_state m (th_sys t))
     \<and> overlay dn m (th_state t) \<and> (\<forall>w. activity_ok E ws t m dn w))"

text \<open>A dispatch under way is not disturbed by what the other workers do.\<close>

lemma activity_ok_other:
  assumes ok: "activity_ok E ws t m dn v" and v: "v \<noteq> w"
    and same: "th_activity t' v = th_activity t v" "sy_workers (th_sys t') v = sy_workers (th_sys t) v" "dn' v = dn v"
    and id: "v \<in> set ws \<Longrightarrow> wk_id (sy_workers (th_sys t) v) = v"
    and state: "spares v m m'" "changes_own_only w (th_state t) (th_state t')"
    and grow: "grows w (sy_world (th_sys t)) (sy_world (th_sys t'))"
  shows "activity_ok E ws t' m' dn' v"
proof -
  have tx: "dispatching E (sy_workers (th_sys t') v) (sy_world (th_sys t')) = Some tx"
    if "dispatching E (sy_workers (th_sys t) v) (sy_world (th_sys t)) = Some tx" "v \<in> set ws" for tx
    using dispatching_grows[OF grow _ that(1)] id[OF that(2)] v same(2) by simp
  show ?thesis
  proof (cases "th_activity t v")
    case Resting
    with ok same show ?thesis by (simp add: activity_ok_def)
  next
    case (Accessing h c p)
    then have v': "v \<in> set ws" and c: "settles v m h fmempty = Some c"
      using ok by (simp_all add: activity_ok_def)
    obtain tx where "dispatching E (sy_workers (th_sys t) v) (sy_world (th_sys t)) = Some tx"
      "resume (call_code E tx) h \<noteq> Stuck" "\<forall>lp. p = Some lp \<longrightarrow> (\<exists>x. resume (call_code E tx) h = Asks x
                 \<and> fmlookup c (op_key x) = None \<and> path_valid v (op_key x) lp (th_state t))"
      using ok Accessing by (auto simp: activity_ok_def)
    moreover from this have "\<forall>lp. p = Some lp \<longrightarrow> (\<exists>x. resume (call_code E tx) h = Asks x
                 \<and> fmlookup c (op_key x) = None \<and> path_valid v (op_key x) lp (th_state t'))"
      using path_valid_stable[OF _ state(2)] v by metis
    ultimately show ?thesis
      using ok Accessing same settles_stable[OF state(1) c] tx[OF _ v'] by (simp add: activity_ok_def)
  next
    case (Committing r es)
    then obtain tx h c where o: "v \<in> set ws" "authoring (wk_phase (sy_workers (th_sys t) v))"
      "dispatching E (sy_workers (th_sys t) v) (sy_world (th_sys t)) = Some tx"
      "settles v m h fmempty = Some c" "resume (call_code E tx) h = Returns r"
      "dn v @ es = (if is_Ok r then entries c else [])"
      using ok by (auto simp: activity_ok_def)
    with Committing same settles_stable[OF state(1) o(4)] tx[OF o(3,1)] show ?thesis
      by (auto simp: activity_ok_def)
  next
    case (Replaying h)
    with ok show ?thesis by (simp add: activity_ok_def)
  qed
qed

lemma author_sim_update:
  assumes old: "author_inv E mid ws P m\<^sub>0 L (at_state m (th_sys t))" "\<And>v. activity_ok E ws t m dn v"
    and new: "author_inv E mid ws P m\<^sub>0 L' (at_state m' (th_sys t'))" "overlay dn' m' (th_state t')"
      "activity_ok E ws t' m' dn' w"
    and same: "\<And>v. v \<noteq> w \<Longrightarrow> th_activity t' v = th_activity t v
      \<and> sy_workers (th_sys t') v = sy_workers (th_sys t) v \<and> dn' v = dn v"
    and state: "\<And>v. v \<noteq> w \<Longrightarrow> spares v m m'" "changes_own_only w (th_state t) (th_state t')"
    and grow: "grows w (sy_world (th_sys t)) (sy_world (th_sys t'))"
  shows "author_sim E mid ws P m\<^sub>0 L' t'"
proof -
  have "activity_ok E ws t' m' dn' v" for v
  proof (cases "v = w")
    case False
    have "v \<in> set ws \<Longrightarrow> wk_id (sy_workers (th_sys t) v) = v"
      using author_invD(4)[OF old(1), of v] by (simp add: worker_inv_def)
    with activity_ok_other[OF old(2) False _ _ _ _ state(1)[OF False] state(2) grow] same[OF False]
    show ?thesis by blast
  qed (use new(3) in simp)
  with new show ?thesis unfolding author_sim_def by blast
qed

text \<open>A step that changes nothing but the worker's own activity and, alike, both states.\<close>

lemma author_sim_activity:
  assumes old: "author_inv E mid ws P m\<^sub>0 L (at_state m (th_sys t))" "\<And>v. activity_ok E ws t m dn v"
    and new: "author_inv E mid ws P m\<^sub>0 L (at_state m' (th_sys t))" "overlay dn' m' s"
      "activity_ok E ws (set_activity w a s t) m' dn' w"
    and same: "\<And>v. v \<noteq> w \<Longrightarrow> dn' v = dn v"
    and state: "\<And>v. v \<noteq> w \<Longrightarrow> spares v m m'" "changes_own_only w (th_state t) s"
  shows "author_sim E mid ws P m\<^sub>0 L (set_activity w a s t)"
  by (rule author_sim_update[OF old _ _ new(3)])
    (use new(1,2) same state in \<open>auto simp: grows_def\<close>)

section \<open>The steps of the workers\<close>

text \<open>A worker that dispatches has begun its task.\<close>

lemma dispatching_started:
  assumes inv: "author_inv E mid ws P m\<^sub>0 L c" and w: "w \<in> set ws"
    and tx: "dispatching E (sy_workers c w) (sy_world c) = Some tx"
  shows "authoring (wk_phase (sy_workers c w))" "w \<in> started_workers c"
proof -
  have wi: "worker_inv mid ws P L w (sy_workers c w) (to_worker (sy_world c) w)"
    by (rule author_invD(4)[OF inv w])
  then have id: "wk_id (sy_workers c w) = w" by (simp add: worker_inv_def)
  have ph: "\<And>outs. wk_phase (sy_workers c w) \<noteq> Validation outs"
    using wi by (auto simp: worker_inv_def author_stage_def quiet_def)
  then show a: "authoring (wk_phase (sy_workers c w))"
    using tx by (auto simp: dispatching_def split: worker_phase.splits)
  show "w \<in> started_workers c"
  proof (cases "wk_phase (sy_workers c w)")
    case (Depleting e f outs)
    then show ?thesis using w author_invD(6)[OF inv] by (simp add: started_workers_def started_def)
  next
    case Serving
    then obtain tx' where tx': "head_tx (to_peer (sy_world c) w) (\<lambda>_ _. True) = Some tx'"
      using tx id by (auto simp: dispatching_def)
    then obtain msg rest where "to_peer (sy_world c) w = msg # rest"
      by (auto simp: head_tx_def split: list.splits)
    then have "forwards_to w L \<noteq> []"
      using author_invD(5)[OF inv w] by (auto simp: peer_inv_def)
    then obtain x where "x \<in> set L" "sent_to w x" by (auto simp: forwards_to_def filter_empty_conv)
    then show ?thesis by (rule begunD(3)[OF author_invD(9)[OF inv]])
  qed (use a in simp_all)
qed

text \<open>A worker that dispatches nothing takes a message that is not a transaction.\<close>

lemma no_dispatch_event:
  assumes inv: "author_inv E mid ws P m\<^sub>0 L c" and w: "w \<in> set ws"
    and none: "wk_phase (sy_workers c w) = Serving \<or> dispatching E (sy_workers c w) (sy_world c) = None"
    and queue: "to_worker (sy_world c) w = msg # rest"
  shows "master_event (sy_workers c w) msg = []"
proof -
  let ?wk = "sy_workers c w"
  obtain q todo where wi: "wk_id ?wk = w" "wk_master_id ?wk = mid" "map (new_from_thread mid) q = msg # rest"
    "author_stage ws L w todo ?wk q"
    using author_invD(4)[OF inv w] unfolding worker_inv_def queue
    by (elim exE conjE) (rule that, simp_all only:)
  have "\<And>outs. wk_phase ?wk \<noteq> Validation outs"
    using wi(4) by (auto simp: author_stage_def quiet_def)
  moreover have "msg_from msg = mid" using wi(3) by (auto simp: new_from_thread_def)
  ultimately show ?thesis using none queue wi(1,2)
    by (auto simp: master_event_def dispatching_def head_tx_def
        split: worker_phase.splits message_payload.splits if_splits)
qed

lemma sim_takes:
  assumes inv: "author_inv E mid ws P m\<^sub>0 L (at_state m (th_sys t))" "overlay dn m (th_state t)"
      "\<And>v. activity_ok E ws t m dn v"
    and P: "distributed E ws P" and E: "staking_ok E" and w: "w \<in> set ws"
    and rest: "th_activity t w = Resting" and queue: "to_worker (sy_world (th_sys t)) w = msg # rest"
    and none: "wk_phase (sy_workers (th_sys t) w) = Serving
       \<or> dispatching E (sy_workers (th_sys t) w) (sy_world (th_sys t)) = None"
    and step: "worker_from_master E (sy_workers (th_sys t) w) (sy_world (th_sys t)) = (wk', wo')"
  shows "author_sim E mid ws P m\<^sub>0 L (t\<lparr>th_sys := set_worker w wk' wo' (th_sys t)\<rparr>)"
proof -
  let ?c = "at_state m (th_sys t)"
  have id: "wk_id (sy_workers (th_sys t) w) = w"
    using author_invD(4)[OF inv(1) w] by (simp add: worker_inv_def)
  note frame = worker_from_master_frame[OF none step, unfolded id]
  have "worker_from_master E (sy_workers ?c w) (sy_world ?c) = (wk', wo'\<lparr>wo_state := m\<rparr>)"
    using worker_from_master_state[OF none, of m] step by simp
  moreover have "to_worker (sy_world ?c) w = msg # rest" using queue by simp
  ultimately obtain xs where xs: "map fst xs = master_event (sy_workers ?c w) msg"
    "author_inv E mid ws P m\<^sub>0 (L @ xs) (?c\<lparr>sy_workers := (sy_workers ?c)(w := wk'), sy_world := wo'\<lparr>wo_state := m\<rparr>\<rparr>)"
    using author_inv_from_master[OF inv(1) w P E] by blast
  have "master_event (sy_workers ?c w) msg = []"
    by (rule no_dispatch_event[OF inv(1) w]) (use none queue in simp_all)
  then have "author_inv E mid ws P m\<^sub>0 L (at_state m (set_worker w wk' wo' (th_sys t)))"
    using xs by (simp add: set_worker_def at_state_def)
  then show ?thesis
    by (intro author_sim_update[OF inv(1,3), where m' = m and dn' = dn and w = w])
      (use inv(2) inv(3)[of w] rest frame in \<open>simp_all add: activity_ok_def spares_refl own_refl\<close>)
qed

lemma accessingD:
  assumes "activity_ok E ws t m dn w" "th_activity t w = Accessing h c p"
    "dispatching E (sy_workers (th_sys t) w) (sy_world (th_sys t)) = Some tx"
  shows "w \<in> set ws" "dn w = []" "settles w m h fmempty = Some c"
    "authoring (wk_phase (sy_workers (th_sys t) w))" "resume (call_code E tx) h \<noteq> Stuck"
    "p = Some lp \<Longrightarrow> resume (call_code E tx) h = Asks x \<Longrightarrow>
       fmlookup c (op_key x) = None \<and> path_valid w (op_key x) lp (th_state t)"
  using assms by (auto simp: activity_ok_def)

text \<open>An answered access; \<open>m'\<close> and \<open>s\<close> are the two states afterwards.\<close>

lemma sim_answered:
  assumes inv: "author_inv E mid ws P m\<^sub>0 L (at_state m (th_sys t))" "\<And>v. activity_ok E ws t m dn v"
    and act: "th_activity t w = Accessing h c p"
    and tx: "dispatching E (sy_workers (th_sys t) w) (sy_world (th_sys t)) = Some tx"
    and x: "resume (call_code E tx) h = Asks x" "cr_answer x r c = (rep, c')"
    and look: "cr_lookup w (op_key x) c m = (r, m')"
    and new: "author_inv E mid ws P m\<^sub>0 L (at_state m' (th_sys t))" "overlay dn m' s"
    and state: "\<And>v. spares v m m'" "changes_own_only w (th_state t) s"
  shows "author_sim E mid ws P m\<^sub>0 L (set_activity w (Accessing (h @ [(x, rep)]) c' None) s t)"
proof -
  note a = accessingD[OF inv(2) act tx]
  have set: "settles w m' (h @ [(x, rep)]) fmempty = Some c'"
    by (rule settles_access[OF a(3) look x(2)])
  have "resume (call_code E tx) (h @ [(x, rep)]) \<noteq> Stuck"
    by (rule resume_step(1)[OF traced_outer_dispatch x(1) settles_performs[OF set]])
  then show ?thesis
    by (intro author_sim_activity[OF inv new _ _ state])
      (use a set tx in \<open>simp_all add: activity_ok_def\<close>)
qed

lemma sim_shared:
  assumes inv: "author_inv E mid ws P m\<^sub>0 L (at_state m (th_sys t))" "overlay dn m (th_state t)"
      "\<And>v. activity_ok E ws t m dn v"
    and act: "th_activity t w = Accessing h c None"
    and tx: "dispatching E (sy_workers (th_sys t) w) (sy_world (th_sys t)) = Some tx"
    and x: "resume (call_code E tx) h = Asks x"
    and a: "a = (case cr_shared w (op_key x) c (th_state t) of
            Inl r \<Rightarrow> (case cr_answer x r c of (rep, c') \<Rightarrow> Accessing (h @ [(x, rep)]) c' None)
          | Inr p \<Rightarrow> Accessing h c (Some p))"
  shows "author_sim E mid ws P m\<^sub>0 L (set_activity w a (th_state t) t)"
proof (cases "cr_shared w (op_key x) c (th_state t)")
  case (Inl r)
  obtain rep c' where rep: "cr_answer x r c = (rep, c')" by fastforce
  have "cr_lookup w (op_key x) c m = (r, m)"
  proof (cases "fmlookup c (op_key x)")
    case None
    then have "ts_read_shared (op_key x) w (th_state t) = Inl r" using Inl by (simp add: cr_shared_def)
    note sh = shared_owned[OF this, of default_value]
    from inv(2) accessingD(2)[OF inv(3) act tx] show ?thesis
    proof (cases rule: overlay_read[where k = "op_key x"])
      case (same q)
      with sh None show ?thesis by (simp add: cr_lookup_def)
    next
      case touches
      with sh overlayD(1)[OF inv(2), of "op_key x"] show ?thesis by simp
    qed
  qed (use Inl in \<open>simp add: cr_shared_def cr_lookup_def\<close>)
  from sim_answered[OF inv(1,3) act tx x rep this inv(1,2) spares_refl own_refl] a Inl rep
  show ?thesis by simp
next
  case (Inr p)
  then have "fmlookup c (op_key x) = None" "ts_read_shared (op_key x) w (th_state t) = Inr p"
    by (auto simp: cr_shared_def split: option.splits)
  with accessingD[OF inv(3) act tx] tx x shared_path
  have "activity_ok E ws (set_activity w (Accessing h c (Some p)) (th_state t) t) m dn w"
    by (simp add: activity_ok_def)
  from author_sim_activity[OF inv(1,3) inv(1,2) this _ spares_refl own_refl] a Inr
  show ?thesis by simp
qed

lemma sim_excl:
  assumes inv: "author_inv E mid ws P m\<^sub>0 L (at_state m (th_sys t))" "overlay dn m (th_state t)"
      "\<And>v. activity_ok E ws t m dn v"
    and act: "th_activity t w = Accessing h c (Some p)"
    and tx: "dispatching E (sy_workers (th_sys t) w) (sy_world (th_sys t)) = Some tx"
    and x: "resume (call_code E tx) h = Asks x" "cr_answer x r c = (rep, c')"
    and read: "ts_read_excl default_value p (op_key x) w (th_state t) = (r, s)"
  shows "author_sim E mid ws P m\<^sub>0 L (set_activity w (Accessing (h @ [(x, rep)]) c' None) s t)"
proof -
  let ?k = "op_key x"
  note a = accessingD[OF inv(3) act tx]
  have p: "fmlookup c ?k = None" "path_valid w ?k p (th_state t)"
    using a(6)[OF refl x(1)] by simp_all
  have rd: "ts_read default_value ?k w (th_state t) = (r, s)"
    using excl_read[OF p(2)] read by simp
  from inv(2) a(2) show ?thesis
  proof (cases rule: overlay_read[where k = ?k])
    case (same q)
    with rd have "cr_lookup w ?k c m = (r, m)" "s = th_state t"
      by (simp_all add: cr_lookup_def p(1))
    with sim_answered[OF inv(1,3) act tx x _ inv(1,2) spares_refl own_refl] show ?thesis by simp
  next
    case touches
    then have look: "cr_lookup w ?k c m = (r, touch w ?k m)" and s: "s = touch w ?k (th_state t)"
      using rd by (simp_all add: cr_lookup_def p(1))
    have "w \<in> started_workers (at_state m (th_sys t))"
      by (rule dispatching_started(2)[OF inv(1) a(1)]) (use tx in simp)
    from author_inv_touch[OF inv(1) this, of ?k] touches(1)
    have "author_inv E mid ws P m\<^sub>0 L (at_state (touch w ?k m) (th_sys t))"
      by (simp add: touch_system_def at_state_def)
    moreover have "ts_owner (th_state t) ?k = None"
      using overlayD(1)[OF inv(2)] touches(1) by simp
    ultimately show ?thesis
      unfolding s
      by (intro sim_answered[OF inv(1,3) act tx x look] touches(4) spares_touch[OF touches(1)] own_touch)
  qed
qed

lemma sim_returns:
  assumes inv: "author_inv E mid ws P m\<^sub>0 L (at_state m (th_sys t))" "overlay dn m (th_state t)"
      "\<And>v. activity_ok E ws t m dn v"
    and act: "th_activity t w = Accessing h c None"
    and tx: "dispatching E (sy_workers (th_sys t) w) (sy_world (th_sys t)) = Some tx"
    and r: "resume (call_code E tx) h = Returns r"
  shows "author_sim E mid ws P m\<^sub>0 L
    (set_activity w (Committing r (if is_Ok r then entries c else [])) (th_state t) t)"
  by (rule author_sim_activity[OF inv(1,3) inv(1,2) _ _ spares_refl own_refl])
    (use accessingD[OF inv(3) act tx] tx r in \<open>auto simp: activity_ok_def\<close>)

lemma sim_begins:
  assumes inv: "author_inv E mid ws P m\<^sub>0 L (at_state m (th_sys t))" "overlay dn m (th_state t)"
      "\<And>v. activity_ok E ws t m dn v"
    and w: "w \<in> set ws" and act: "th_activity t w = Resting"
    and tx: "dispatching E (sy_workers (th_sys t) w) (sy_world (th_sys t)) = Some tx"
    and a: "a = (case wk_phase (sy_workers (th_sys t) w) of
            Validation _ \<Rightarrow> Replaying [] | _ \<Rightarrow> Accessing [] fmempty None)"
  shows "author_sim E mid ws P m\<^sub>0 L (set_activity w a (th_state t) t)"
proof -
  have au: "authoring (wk_phase (sy_workers (th_sys t) w))"
    using dispatching_started(1)[OF inv(1) w, of tx] tx by simp
  then have "a = Accessing [] fmempty None"
    using a by (cases "wk_phase (sy_workers (th_sys t) w)") simp_all
  moreover have "dn w = []" using inv(3)[of w] act by (simp add: activity_ok_def)
  moreover note resume_start[OF traced_outer_dispatch, of E "tx_function tx" "fst (tx_signature tx)"]
  ultimately show ?thesis
    by (intro author_sim_activity[OF inv(1,3) inv(1,2) _ _ spares_refl own_refl])
      (use w au tx in \<open>simp_all add: activity_ok_def\<close>)
qed

lemma sim_commits:
  assumes inv: "author_inv E mid ws P m\<^sub>0 L (at_state m (th_sys t))" "overlay dn m (th_state t)"
      "\<And>v. activity_ok E ws t m dn v"
    and act: "th_activity t w = Committing r (e # es)"
    and step: "commit_entry dbg e (cr_at (th_state t) fmempty w) = (q, s')"
    and a: "a = (case q of Panic p \<Rightarrow> Committing (Panic p) [] | _ \<Rightarrow> Committing r es)"
  shows "author_sim E mid ws P m\<^sub>0 L (set_activity w a (cr_state s') t)"
proof -
  obtain k v where e: "e = (k, v)" by fastforce
  obtain tx h c where c: "w \<in> set ws" "authoring (wk_phase (sy_workers (th_sys t) w))"
    "dispatching E (sy_workers (th_sys t) w) (sy_world (th_sys t)) = Some tx"
    "settles w m h fmempty = Some c" "resume (call_code E tx) h = Returns r" "is_Ok r"
    "dn w @ (k, v) # es = entries c"
    using inv(3)[of w] act e by (auto simp: activity_ok_def split: if_splits)
  have "(k, v) \<in> set (entries c)" unfolding c(7)[symmetric] by simp
  then have "fmlookup c k = Some v"
    using map_of_is_SomeI[OF distinct_entries] by (fastforce simp: map_of_sorted_list)
  then have own: "ts_owner m k = Some w" by (rule settles_cached(2)[OF c(4)])
  then have own': "ts_owner (th_state t) k = Some w" using overlayD(1)[OF inv(2)] by simp
  then have "unsafe_read_taint k (th_state t) = Some w"
    by (simp add: unsafe_read_taint_def unsafe_read_def ts_owner_def)
  then have s': "q = Ok ()" "cr_state s' = fmupd k (sv_new v w) (th_state t)"
    using step by (auto simp: commit_entry_def e unsafe_insert_def)
  have "distinct (map fst (dn w @ (k, v) # es))" unfolding c(7) by (rule distinct_entries)
  then have "k \<notin> fst ` set (dn w)" by auto
  from overlay_commit[OF inv(2) own this, of v]
  have "overlay (dn(w := dn w @ [(k, v)])) m (cr_state s')" unfolding s'(2) .
  moreover have "activity_ok E ws (set_activity w a (cr_state s') t) m (dn(w := dn w @ [(k, v)])) w"
    using c a s'(1) unfolding activity_ok_def by auto
  moreover note own_commit[OF own', of v]
  ultimately show ?thesis
    by (intro author_sim_activity[OF inv(1,3) inv(1), where dn' = "dn(w := dn w @ [(k, v)])"])
      (simp_all add: spares_refl s'(2))
qed

lemma sim_finishes:
  assumes inv: "author_inv E mid ws P m\<^sub>0 L (at_state m (th_sys t))" "overlay dn m (th_state t)"
      "\<And>v. activity_ok E ws t m dn v"
    and P: "distributed E ws P" and E: "staking_ok E"
    and act: "th_activity t w = Committing r []"
    and tx: "dispatching E (sy_workers (th_sys t) w) (sy_world (th_sys t)) = Some tx"
    and fin: "finish_dispatch (sy_workers (th_sys t) w) tx (to_runtime_dispatch_result r) (sy_world (th_sys t)) = (wk', wo')"
  shows "author_sim E mid ws P m\<^sub>0 (L @ [((w, tx), to_runtime_dispatch_result r)])
    (t\<lparr>th_sys := set_worker w wk' wo' (th_sys t), th_activity := (th_activity t)(w := Resting)\<rparr>)"
proof -
  let ?c = "at_state m (th_sys t)" and ?q = "to_runtime_dispatch_result r"
  obtain h c where c: "w \<in> set ws" "authoring (wk_phase (sy_workers (th_sys t) w))"
    "settles w m h fmempty = Some c" "resume (call_code E tx) h = Returns r"
    "dn w = (if is_Ok r then entries c else [])"
    using inv(3)[of w] act tx by (auto simp: activity_ok_def)
  define m' where "m' = (if is_Ok r then fold (\<lambda>(k, v). fmupd k (sv_new v w)) (entries c) m else m)"
  have run: "execute_transaction E w tx m = (?q, m')"
    unfolding m'_def by (rule settles_execute[OF c(3,4)])
  have id: "wk_id (sy_workers (th_sys t) w) = w"
    using author_invD(4)[OF inv(1) c(1)] by (simp add: worker_inv_def)
  note frame = finish_dispatch_frame[OF fin, unfolded id]
  have fin': "finish_dispatch (sy_workers ?c w) tx ?q ((sy_world ?c)\<lparr>wo_state := m'\<rparr>) = (wk', wo'\<lparr>wo_state := m'\<rparr>)"
    using fin by (simp add: finish_dispatch_state)
  have tx': "dispatching E (sy_workers ?c w) (sy_world ?c) = Some tx" using tx by simp
  have run': "execute_transaction E (wk_id (sy_workers ?c w)) tx (wo_state (sy_world ?c)) = (?q, m')"
    using run id by simp
  have new: "author_inv E mid ws P m\<^sub>0 (L @ [((w, tx), ?q)])
      (?c\<lparr>sy_workers := (sy_workers ?c)(w := wk'), sy_world := wo'\<lparr>wo_state := m'\<rparr>\<rparr>)"
  proof (cases "wk_phase (sy_workers ?c w)")
    case (Depleting e f outs)
    obtain msg rest where q: "to_worker (sy_world ?c) w = msg # rest" "payload msg = TransactionMsg tx"
      using tx' Depleting id
      by (auto simp: dispatching_def head_tx_def split: list.splits message_payload.splits if_splits)
    have "worker_from_master E (sy_workers ?c w) (sy_world ?c) = (wk', wo'\<lparr>wo_state := m'\<rparr>)"
      using dispatch_at_once(1)[OF tx' Depleting run'] fin' by simp
    from author_inv_from_master[OF inv(1) c(1) P E q(1) this] obtain xs where xs:
      "map fst xs = master_event (sy_workers ?c w) msg"
      "\<forall>x\<in>set xs. snd x = fst (execute_transaction E (who x) (snd (fst x)) (wo_state (sy_world ?c)))"
      "author_inv E mid ws P m\<^sub>0 (L @ xs) (?c\<lparr>sy_workers := (sy_workers ?c)(w := wk'), sy_world := wo'\<lparr>wo_state := m'\<rparr>\<rparr>)"
      by (elim exE conjE) (rule that)
    have "map fst xs = [(w, tx)]"
      using xs(1) Depleting id q(2) by (simp add: master_event_def)
    with xs(2) run have "xs = [((w, tx), ?q)]" by (auto simp: who_def)
    with xs(3) show ?thesis by simp
  next
    case Serving
    obtain msg rest tx1 where q: "to_peer (sy_world ?c) w = msg # rest" "payload msg = TransactionMsg tx1"
      "tx = tx1\<lparr>tx_exec_status := Forwarded\<rparr>"
      using tx' Serving id
      by (auto simp: dispatching_def head_tx_def split: list.splits message_payload.splits if_splits)
    have "worker_from_others E (sy_workers ?c w) (sy_world ?c) = (wk', wo'\<lparr>wo_state := m'\<rparr>)"
      using dispatch_at_once(2)[OF tx' Serving run'] fin' by simp
    from author_inv_later[OF inv(1) c(1) P E Serving q(1) this] show ?thesis
      using q(2,3) id run by (auto simp: peer_event_def)
  qed (use c(2) in simp_all)
  let ?t = "t\<lparr>th_sys := set_worker w wk' wo' (th_sys t), th_activity := (th_activity t)(w := Resting)\<rparr>"
  have "overlay (dn(w := [])) m' (th_state t)"
  proof (cases "is_Ok r")
    case True
    then show ?thesis
      using overlay_end[where w = w, OF inv(2) _ settles_cached(2)[OF c(3)]] c(5) by (simp add: m'_def)
  next
    case False
    then have "dn(w := []) = dn" using c(5) by auto
    with False inv(2) show ?thesis by (simp add: m'_def)
  qed
  then have ov: "overlay (dn(w := [])) m' (th_state ?t)" using frame(1) by simp
  have "author_inv E mid ws P m\<^sub>0 (L @ [((w, tx), ?q)]) (at_state m' (th_sys ?t))"
    using new by (simp add: set_worker_def at_state_def)
  from author_sim_update[OF inv(1,3) this ov, of w] show ?thesis
    using frame spares_execute[OF run] by (simp add: activity_ok_def own_refl)
qed

section \<open>The steps of the master\<close>

lemma collection_state:
  assumes "collection_iteration E col ma wo = ((ma', wo'), res)" "ms_phase ma' = MCollecting col'"
  shows "collection_iteration E col ma (wo\<lparr>wo_state := m\<rparr>) = ((ma', wo'\<lparr>wo_state := m\<rparr>), res)"
    "wo_state wo' = wo_state wo" "to_worker wo' = to_worker wo"
proof -
  have ended: "ms_phase ma2 \<noteq> MCollecting col'"
    if "author_block_end E c1 ma1 wo1 = ((ma2, wo2), res2)" for c1 ma1 wo1 ma2 wo2 res2
  proof -
    obtain ma3 wo3 where r: "execute_orphan_pool E ma1 (broadcast ma1 TaskDone wo1) = (ma3, wo3)" by fastforce
    have "ms_phase ma3 = MReady \<or> (\<exists>p. ms_phase ma3 = MCrashed p)"
      using r execute_orphans_no_Err[of E "ms_orphans ma1"]
      by (auto simp: execute_orphan_pool_def mcrash_def split: prod.splits rs.splits)
    with that r show ?thesis by (auto simp: author_block_end_def mcrash_def split: if_splits)
  qed
  obtain q wo1 where q: "(case to_master wo of
              [] \<Rightarrow> (Inr (ma, col), wo)
            | msg # rest \<Rightarrow> (collect_message E msg (ma, col), wo\<lparr>to_master := rest\<rparr>)) = (q, wo1)"
    by fastforce
  then have q': "(case to_master (wo\<lparr>wo_state := m\<rparr>) of
              [] \<Rightarrow> (Inr (ma, col), wo\<lparr>wo_state := m\<rparr>)
            | msg # rest \<Rightarrow> (collect_message E msg (ma, col), wo\<lparr>wo_state := m, to_master := rest\<rparr>))
        = (q, wo1\<lparr>wo_state := m\<rparr>)"
    by (auto split: list.splits)
  have wo1: "wo_state wo1 = wo_state wo" "to_worker wo1 = to_worker wo"
    using q by (auto split: list.splits)
  have "collection_iteration E col ma (wo\<lparr>wo_state := m\<rparr>) = ((ma', wo'\<lparr>wo_state := m\<rparr>), res) \<and> wo' = wo1"
  proof (cases q)
    case (Inl p)
    then show ?thesis
      using assms q unfolding collection_iteration_def by (auto simp: mcrash_def)
  next
    case (Inr s)
    then show ?thesis
      using assms q q' ended unfolding collection_iteration_def by (fastforce split: prod.splits if_splits)
  qed
  with wo1 show "collection_iteration E col ma (wo\<lparr>wo_state := m\<rparr>) = ((ma', wo'\<lparr>wo_state := m\<rparr>), res)"
    "wo_state wo' = wo_state wo" "to_worker wo' = to_worker wo" by simp_all
qed

lemma collection_peers:
  assumes "collection_iteration E col ma wo = ((ma', wo'), res)"
  shows "to_peer wo' = to_peer wo"
proof -
  have ended: "to_peer wo2 = to_peer wo1" if "author_block_end E c1 ma1 wo1 = ((ma2, wo2), res2)"
    for c1 ma1 wo1 ma2 wo2 res2
    using that by (auto simp: author_block_end_def execute_orphan_pool_def broadcast_world
        split: if_splits prod.splits rs.splits)
  show ?thesis
    using assms unfolding collection_iteration_def
    by (auto split: list.splits sum.splits prod.splits if_splits dest: ended)
qed

text \<open>A worker in a dispatch keeps the master from ending the block.\<close>

lemma busy_not_quiet:
  fixes c c' :: "'p system"
  assumes "w \<in> set ws" "authoring (wk_phase (sy_workers c w))" "dispatching E (sy_workers c w) (sy_world c) = Some tx"
    and "sy_workers c' w = sy_workers c w" "to_peer (sy_world c') = to_peer (sy_world c)"
  shows "\<not> quiet_system mid ws c'"
proof
  assume "quiet_system mid ws c'"
  then obtain pre :: "'p message_payload list" where pre: "wk_id (sy_workers c w) = w" "to_peer (sy_world c) w = []"
    "quiet ws (sy_workers c w) pre"
    using assms(1,4,5) unfolding quiet_system_def by (metis (no_types, lifting))
  with assms(2,3) show False
    by (cases "wk_phase (sy_workers c w)") (auto simp: quiet_def dispatching_def head_tx_def)
qed

lemma sim_collects:
  assumes sim: "author_sim E mid ws P m\<^sub>0 L t" and P: "distributed E ws P" and E: "staking_ok E"
    and phase: "ms_phase (sy_master (th_sys t)) = MCollecting col"
    and run: "collection_iteration E col (sy_master (th_sys t)) (sy_world (th_sys t)) = ((ma', wo'), res)"
  defines "t' \<equiv> t\<lparr>th_sys := (th_sys t)\<lparr>sy_master := ma', sy_world := wo', sy_result := res\<rparr>\<rparr>"
  shows "author_sim E mid ws P m\<^sub>0 L t'
    \<or> author_done E mid ws P m\<^sub>0 L (th_sys t') \<and> (\<forall>w. th_activity t' w = Resting)"
proof -
  obtain m dn where inv: "author_inv E mid ws P m\<^sub>0 L (at_state m (th_sys t))" "overlay dn m (th_state t)"
    and ok: "\<And>v. activity_ok E ws t m dn v"
    using sim unfolding author_sim_def by blast
  show ?thesis
  proof (cases "\<forall>w. th_activity t w = Resting")
    case True
    then have dn: "dn w = []" for w using ok[of w] by (simp add: activity_ok_def)
    then have "th_state t = m" by (rule overlay_nothing[OF inv(2)])
    with inv(1) have "author_inv E mid ws P m\<^sub>0 L (th_sys t)" by auto
    from author_inv_collects[OF this P E phase run]
    have "author_inv E mid ws P m\<^sub>0 L (th_sys t') \<or> author_done E mid ws P m\<^sub>0 L (th_sys t')"
      by (simp add: t'_def)
    moreover have "author_sim E mid ws P m\<^sub>0 L t'" if i: "author_inv E mid ws P m\<^sub>0 L (th_sys t')"
    proof -
      have "author_inv E mid ws P m\<^sub>0 L (at_state (th_state t') (th_sys t'))" using i by simp
      moreover have "activity_ok E ws t' (th_state t') dn w" for w
        using True dn by (simp add: activity_ok_def t'_def)
      ultimately show ?thesis
        using overlay_refl[of dn, OF dn] unfolding author_sim_def by blast
    qed
    ultimately show ?thesis using True by (auto simp: t'_def)
  next
    case False
    then obtain w where w: "th_activity t w \<noteq> Resting" by blast
    let ?c = "at_state m (th_sys t)"
    obtain tx where busy: "w \<in> set ws" "authoring (wk_phase (sy_workers (th_sys t) w))"
      "dispatching E (sy_workers (th_sys t) w) (sy_world (th_sys t)) = Some tx"
      using w ok[of w] by (cases "th_activity t w") (auto simp: activity_ok_def)
    obtain ma2 wo2 res2 where run2: "collection_iteration E col (sy_master ?c) (sy_world ?c) = ((ma2, wo2), res2)"
      by (metis prod.exhaust)
    let ?c2 = "?c\<lparr>sy_master := ma2, sy_world := wo2, sy_result := res2\<rparr>"
    have "author_inv E mid ws P m\<^sub>0 L ?c2 \<or> author_done E mid ws P m\<^sub>0 L ?c2"
      by (rule author_inv_collects[OF inv(1) P E _ run2]) (simp add: phase)
    moreover have "\<not> quiet_system mid ws ?c2"
      by (rule busy_not_quiet[OF busy]) (use collection_peers[OF run2] in simp_all)
    ultimately have inv2: "author_inv E mid ws P m\<^sub>0 L ?c2"
      by (auto simp: author_done_def)
    then obtain col2 where col2: "ms_phase ma2 = MCollecting col2" by (auto simp: author_inv_def)
    note same = collection_state[OF run2 col2]
    have "collection_iteration E col (sy_master (th_sys t)) (sy_world (th_sys t))
        = ((ma2, wo2\<lparr>wo_state := th_state t\<rparr>), res2)"
      using same(1)[of "th_state t"] by simp
    with run have eq: "ma' = ma2" "wo' = wo2\<lparr>wo_state := th_state t\<rparr>" "res = res2" by simp_all
    have wo2: "wo_state wo2 = m" "to_worker wo2 = to_worker (sy_world (th_sys t))"
      "to_peer wo2 = to_peer (sy_world (th_sys t))"
      using same(2,3) collection_peers[OF run2] by simp_all
    have "at_state m (th_sys t') = ?c2"
      by (simp add: t'_def eq at_state_def wo2(1)[symmetric])
    with inv2 have "author_inv E mid ws P m\<^sub>0 L (at_state m (th_sys t'))" by simp
    moreover have "overlay dn m (th_state t')" using inv(2) by (simp add: t'_def eq)
    moreover have "activity_ok E ws t' m dn v" for v
    proof -
      have "dispatching E (sy_workers (th_sys t) v) wo2 = dispatching E (sy_workers (th_sys t) v) (sy_world (th_sys t))"
        by (simp add: dispatching_def wo2 cong: worker_phase.case_cong)
      with ok[of v] show ?thesis
        unfolding activity_ok_def t'_def by (simp add: eq cong: activity.case_cong)
    qed
    ultimately show ?thesis unfolding author_sim_def by blast
  qed
qed

section \<open>Runs\<close>

lemma author_thread_step:
  assumes sim: "author_sim E mid ws P m\<^sub>0 L t" and P: "distributed E ws P" and E: "staking_ok E"
    and step: "thread_step E t es t'"
  shows "author_sim E mid ws P m\<^sub>0 (L @ es) t'
    \<or> author_done E mid ws P m\<^sub>0 (L @ es) (th_sys t') \<and> (\<forall>w. th_activity t' w = Resting)"
proof -
  obtain m dn where inv: "author_inv E mid ws P m\<^sub>0 L (at_state m (th_sys t))" "overlay dn m (th_state t)"
    and ok: "\<And>v. activity_ok E ws t m dn v"
    using sim unfolding author_sim_def by blast
  have master: "ms_workers (sy_master (th_sys t)) = ws" "\<And>n. ms_phase (sy_master (th_sys t)) \<noteq> MValidating n"
    using inv(1) by (auto simp: author_inv_def)
  from step show ?thesis
  proof cases
    case (worker w)
    then have w: "w \<in> set ws" using master by (simp add: worker_in_def)
    have id: "wk_id (sy_workers (th_sys t) w) = w"
      using author_invD(4)[OF inv(1) w] by (simp add: worker_inv_def)
    from worker(2) show ?thesis
    proof cases
      case (takes msg rest wk' wo')
      then show ?thesis using sim_takes[OF inv ok P E w takes(3,4,5,6)] by simp
    next
      case (takes_peer msg rest wk' wo')
      have "peer_inv L w (msg # rest)"
        using author_invD(5)[OF inv(1) w] takes_peer by simp
      then obtain tx where "payload msg = TransactionMsg tx" by (auto simp: peer_inv_def)
      with takes_peer id show ?thesis by (simp add: dispatching_def head_tx_def)
    next
      case (begins tx a)
      then show ?thesis using sim_begins[OF inv ok w begins(3,4,5)] by simp
    next
      case (shared_section h c tx x a)
      then show ?thesis using sim_shared[OF inv ok shared_section(3-6)] by simp
    next
      case (excl_section h c p tx x r m' rep c')
      then show ?thesis using sim_excl[OF inv ok excl_section(3-5,7,6)] by simp
    next
      case (call_returns h c tx r)
      then show ?thesis using sim_returns[OF inv ok call_returns(3-5)] by simp
    next
      case (commits r e es q s' a)
      then show ?thesis using sim_commits[OF inv ok commits(3-5)] by simp
    next
      case (finishes r tx wk' wo')
      then show ?thesis using sim_finishes[OF inv ok P E finishes(3-5)] by simp
    next
      case (replays h tx x rep s')
      then show ?thesis using ok[of w] by (simp add: activity_ok_def)
    next
      case (replayed h tx r wk' wo')
      then show ?thesis using ok[of w] by (simp add: activity_ok_def)
    qed
  next
    case (master_collects col ma' wo' res)
    from sim_collects[OF sim P E master_collects(3,4)] master_collects(1,2) show ?thesis by simp
  next
    case (master_validates n ma' wo' res)
    with master(2) show ?thesis by blast
  qed
qed

text \<open>When a task has ended, no worker begins a dispatch.\<close>

lemma quiet_not_dispatching:
  fixes c :: "'p system"
  assumes "quiet_system mid ws c" "w \<in> set ws"
  shows "dispatching E (sy_workers c w) (sy_world c) = None"
proof (rule ccontr)
  assume "dispatching E (sy_workers c w) (sy_world c) \<noteq> None"
  then obtain tx where tx: "dispatching E (sy_workers c w) (sy_world c) = Some tx" by blast
  obtain pre :: "'p message_payload list" where "quiet ws (sy_workers c w) pre"
    using assms unfolding quiet_system_def by blast
  then have "authoring (wk_phase (sy_workers c w))"
    using tx by (auto simp: quiet_def dispatching_def)
  from busy_not_quiet[OF assms(2) this tx] assms(1) show False by blast
qed

lemma quiet_thread_step:
  assumes quiet: "quiet_system mid ws (th_sys t)" and rest: "\<And>w. th_activity t w = Resting"
    and step: "thread_step E t es t'"
  shows "es = [] \<and> (\<forall>w. th_activity t' w = Resting) \<and> sys_step E (th_sys t) [] (th_sys t')"
  using step
proof cases
  case (worker w)
  then have w: "w \<in> set ws" using quiet by (simp add: worker_in_def quiet_system_def)
  have run: "w \<in> set (ms_workers (sy_master (th_sys t)))" "running (wk_phase (sy_workers (th_sys t) w))"
    using worker(1) by (simp_all add: worker_in_def)
  note none = quiet_not_dispatching[OF quiet w, where E = E]
  have peers: "to_peer (sy_world (th_sys t)) w = []" using quiet w by (simp add: quiet_system_def)
  from worker(2) show ?thesis
  proof cases
    case (takes msg rest wk' wo')
    then have "sys_step E (th_sys t) (master_event (sy_workers (th_sys t) w) msg) (th_sys t')"
      using sys_step.from_master[OF run takes(4,6)] by (simp add: set_worker_def)
    moreover from quiet_system_step[OF quiet this] have "master_event (sy_workers (th_sys t) w) msg = []" by simp
    ultimately show ?thesis using rest takes by simp
  qed (use none peers rest in simp_all)
qed (use quiet in \<open>simp_all add: quiet_system_def\<close>)

theorem author_thread_run:
  assumes "thread_run E t es t'" "author_sim E mid ws P m\<^sub>0 [] t" and P: "distributed E ws P" and E: "staking_ok E"
  shows "author_sim E mid ws P m\<^sub>0 es t'
    \<or> author_done E mid ws P m\<^sub>0 es (th_sys t') \<and> (\<forall>w. th_activity t' w = Resting)"
  using assms(1,2)
proof (induction rule: thread_run.induct)
  case (trun_step t es t' fs t'')
  from trun_step.IH[OF trun_step.prems] show ?case
  proof
    assume "author_sim E mid ws P m\<^sub>0 es t'"
    from author_thread_step[OF this P E trun_step(2)] show ?thesis .
  next
    assume d: "author_done E mid ws P m\<^sub>0 es (th_sys t') \<and> (\<forall>w. th_activity t' w = Resting)"
    then have "quiet_system mid ws (th_sys t')" by (simp add: author_done_def)
    from quiet_thread_step[OF this _ trun_step(2)] d
    have q: "fs = []" "\<forall>w. th_activity t'' w = Resting" "sys_step E (th_sys t') [] (th_sys t'')" by simp_all
    with author_done_step[OF _ q(3)] d show ?thesis by simp
  qed
qed simp

lemma author_sim_start:
  assumes "author_inv E mid ws P m\<^sub>0 [] c"
  shows "author_sim E mid ws P m\<^sub>0 [] (th_start c)"
proof -
  let ?m = "wo_state (sy_world c)"
  have "activity_ok E ws (th_start c) ?m (\<lambda>_. []) w" for w
    by (simp add: activity_ok_def th_start_def)
  with assms overlay_refl[of "\<lambda>_. []" ?m] show ?thesis
    unfolding author_sim_def
    by (intro exI[of _ ?m] exI[of _ "\<lambda>_. []"] conjI allI) (simp_all add: th_start_def)
qed

end
