(* ===== verification/Block_Validation.thy ===== *)
theory Block_Validation
  imports Block_Authoring
begin

text \<open>
  Validating a block on the threads of the concurrent executor: the workers execute the
  transactions tagged with their ids on sequential runtimes that share the state, the master waits
  for all of them and executes the orphans. The invariant is a function of the log of dispatches.
\<close>

section \<open>The invariant\<close>

definition done_by :: "thread_id \<Rightarrow> 'p event list \<Rightarrow> 'p transaction list" where
  "done_by w L = map snd (filter (\<lambda>e. fst e = w) L)"

lemma done_by_append [simp]: "done_by w (L @ [(v, tx)]) = done_by w L @ (if v = w then [tx] else [])"
  by (simp add: done_by_def)

definition orphans_of :: "'p transaction list \<Rightarrow> 'p transaction list" where
  "orphans_of = filter (\<lambda>tx. tx_tag tx = Orphan)"

definition valid_stage ::
  "thread_id list \<Rightarrow> 'p transaction list \<Rightarrow> worker \<Rightarrow> 'p message_payload list \<Rightarrow> bool" where
  "valid_stage ws todo wk queue \<longleftrightarrow>
     (\<exists>pre. quiet ws wk pre
        \<and> queue = pre @ Task Validating # map TransactionMsg todo @ [TransactionDistributionDone])
   \<or> (\<exists>outcomes. wk_phase wk = Validation outcomes \<and> wk_others wk = ws
        \<and> queue = map TransactionMsg todo @ [TransactionDistributionDone])
   \<or> wk_phase wk = Idle \<and> wk_others wk = ws \<and> queue = [] \<and> todo = []"

definition validator_inv ::
  "thread_id \<Rightarrow> thread_id list \<Rightarrow> 'p transaction list \<Rightarrow> 'p event list \<Rightarrow> thread_id \<Rightarrow> worker
     \<Rightarrow> 'p message list \<Rightarrow> bool" where
  "validator_inv mid ws P L w wk msgs \<longleftrightarrow> wk_id wk = w \<and> wk_master_id wk = mid
     \<and> (\<exists>todo queue. msgs = map (new_from_thread mid) queue \<and> done_by w L @ todo = tagged w P
          \<and> valid_stage ws todo wk queue)"

definition finished_workers :: "'p system \<Rightarrow> thread_id set" where
  "finished_workers c = {w \<in> set (ms_workers (sy_master c)).
     wk_phase (sy_workers c w) = Idle \<and> to_worker (sy_world c) w = []}"

definition replay_inv ::
  "('p, 'z) staking_env_scheme \<Rightarrow> runtime_state \<Rightarrow> 'p event list \<Rightarrow> runtime_state \<Rightarrow> bool" where
  "replay_inv E m\<^sub>0 L m \<longleftrightarrow> (\<exists>rs. sequential_run E L m\<^sub>0 = (rs, m)) \<and> well_formed E m"

definition valid_inv ::
  "('p, 'z) exec_env_scheme \<Rightarrow> thread_id \<Rightarrow> thread_id list \<Rightarrow> 'p transaction list \<Rightarrow> runtime_state
     \<Rightarrow> 'p event list \<Rightarrow> 'p system \<Rightarrow> bool" where
  "valid_inv E mid ws P m\<^sub>0 L c \<longleftrightarrow>
     replay_inv E m\<^sub>0 L (wo_state (sy_world c)) \<and> (\<forall>e\<in>set L. fst e \<in> set ws)
   \<and> ms_id (sy_master c) = mid \<and> ms_workers (sy_master c) = ws \<and> sy_result c = None
   \<and> ms_orphans (sy_master c) = orphans_of P
   \<and> (\<forall>w\<in>set ws. validator_inv mid ws P L w (sy_workers c w) (to_worker (sy_world c) w)
        \<and> to_peer (sy_world c) w = [])
   \<and> (\<forall>msg\<in>set (to_master (sy_world c)). payload msg = ValidationReport)
   \<and> (\<exists>n. ms_phase (sy_master c) = MValidating n
        \<and> n + length (to_master (sy_world c)) = card (finished_workers c))"

lemma valid_invD:
  assumes "valid_inv E mid ws P m\<^sub>0 L c"
  shows "replay_inv E m\<^sub>0 L (wo_state (sy_world c))" "\<forall>e\<in>set L. fst e \<in> set ws"
    "ms_id (sy_master c) = mid" "ms_workers (sy_master c) = ws" "sy_result c = None"
    "ms_orphans (sy_master c) = orphans_of P"
    "w \<in> set ws \<Longrightarrow> validator_inv mid ws P L w (sy_workers c w) (to_worker (sy_world c) w)"
    "w \<in> set ws \<Longrightarrow> to_peer (sy_world c) w = []"
    "\<forall>msg\<in>set (to_master (sy_world c)). payload msg = ValidationReport"
  using assms unfolding valid_inv_def by blast+

definition replayable ::
  "('p, 'z) exec_env_scheme \<Rightarrow> thread_id list \<Rightarrow> 'p transaction list \<Rightarrow> bool" where
  "replayable E ws P \<longleftrightarrow> distinct ws \<and> sane E P
     \<and> (\<forall>tx\<in>set P. tx_tag tx = Orphan \<or> (\<exists>w\<in>set ws. tx_tag tx = Done w))"

section \<open>Steps\<close>

lemma sequential_run_append:
  "sequential_run E es m = (rs, m1) \<Longrightarrow>
   SequentialRuntime_dispatch E (tx_function tx) (fst (tx_signature tx)) (sr_new m1 w) = (r, s) \<Longrightarrow>
     sequential_run E (es @ [(w, tx)]) m = (rs @ [r], sr_state s)"
  by (induction es arbitrary: m rs) (auto split: prod.splits)

lemma replay_inv_step:
  assumes inv: "replay_inv E m\<^sub>0 L m" and E: "staking_ok E"
    and tx: "\<not> names_default_controller E (tx_function tx)"
  obtains ok s where
    "SequentialRuntime_dispatch E (tx_function tx) (fst (tx_signature tx)) (sr_new m w) = (Ok ok, s)"
    "replay_inv E m\<^sub>0 (L @ [(w, tx)]) (sr_state s)"
proof -
  have chain: "chain_readable E (sr_view (sr_new m w))" "chain_inv E (chain_of E (sr_view (sr_new m w)))"
    using inv by (simp_all add: replay_inv_def well_formed_def view_of_new)
  obtain ok s where s:
    "SequentialRuntime_dispatch E (tx_function tx) (fst (tx_signature tx)) (sr_new m w) = (Ok ok, s)"
    "chain_readable E (sr_view s)" "chain_inv E (chain_of E (sr_view s))"
    using sequential_transaction[OF E chain tx] by metis
  moreover have "replay_inv E m\<^sub>0 (L @ [(w, tx)]) (sr_state s)"
    using inv sequential_run_append[OF _ s(1)] s(2,3) unfolding replay_inv_def well_formed_sr by blast
  ultimately show thesis using that by blast
qed

text \<open>A step of a worker takes a message; one that finishes reports.\<close>

lemma valid_inv_update:
  assumes inv: "valid_inv E mid ws P m\<^sub>0 L c" and w: "w \<in> set ws"
    and queue: "to_worker (sy_world c) w = msg # rest"
    and log: "L' = L \<or> (\<exists>tx. L' = L @ [(w, tx)])"
    and mine: "validator_inv mid ws P L' w wk' rest"
    and state: "replay_inv E m\<^sub>0 L' (wo_state wo')"
    and world: "to_worker wo' = (to_worker (sy_world c))(w := rest)" "to_peer wo' = to_peer (sy_world c)"
      "to_master wo' = to_master (sy_world c)
         @ (if wk_phase wk' = Idle \<and> rest = [] then [new_from_thread w ValidationReport] else [])"
  shows "valid_inv E mid ws P m\<^sub>0 L' (c\<lparr>sy_workers := (sy_workers c)(w := wk'), sy_world := wo'\<rparr>)"
proof -
  let ?c = "c\<lparr>sy_workers := (sy_workers c)(w := wk'), sy_world := wo'\<rparr>"
  have fin: "finished_workers ?c = (if wk_phase wk' = Idle \<and> rest = []
      then insert w (finished_workers c) else finished_workers c)"
    using w queue valid_invD(4)[OF inv] by (auto simp: finished_workers_def world(1) split: if_splits)
  have "w \<notin> finished_workers c" "finite (finished_workers c)"
    using queue by (simp_all add: finished_workers_def)
  then have card: "card (finished_workers ?c) =
      card (finished_workers c) + (if wk_phase wk' = Idle \<and> rest = [] then 1 else 0)"
    by (simp add: fin)
  have workers: "validator_inv mid ws P L' v (sy_workers ?c v) (to_worker wo' v) \<and> to_peer wo' v = []"
    if "v \<in> set ws" for v
  proof (cases "v = w")
    case False
    have "validator_inv mid ws P L v (sy_workers c v) (to_worker (sy_world c) v)"
      by (rule valid_invD(7)[OF inv that])
    moreover have "done_by v L' = done_by v L" using log False by auto
    ultimately show ?thesis
      using False valid_invD(8)[OF inv that] by (simp add: validator_inv_def world)
  qed (use mine w valid_invD(8)[OF inv] in \<open>simp add: world\<close>)
  have "\<forall>e\<in>set L'. fst e \<in> set ws"
    using log w valid_invD(2)[OF inv] by auto
  moreover have "\<exists>n. ms_phase (sy_master c) = MValidating n
      \<and> n + length (to_master wo') = card (finished_workers ?c)"
    using inv card unfolding valid_inv_def by (auto simp: world(3))
  moreover have "\<forall>msg\<in>set (to_master wo'). payload msg = ValidationReport"
    using valid_invD(9)[OF inv] by (auto simp: world(3) new_from_thread_def)
  ultimately show ?thesis
    using workers state valid_invD(3-6)[OF inv] unfolding valid_inv_def by simp
qed

lemma valid_inv_from_master:
  assumes inv: "valid_inv E mid ws P m\<^sub>0 L c" and w: "w \<in> set ws" and P: "replayable E ws P"
    and E: "staking_ok E" and queue: "to_worker (sy_world c) w = msg # rest"
    and step: "worker_from_master E (sy_workers c w) (sy_world c) = (wk', wo')"
  shows "valid_inv E mid ws P m\<^sub>0 (L @ master_event (sy_workers c w) msg)
      (c\<lparr>sy_workers := (sy_workers c)(w := wk'), sy_world := wo'\<rparr>)"
proof -
  let ?wk = "sy_workers c w" and ?wo = "sy_world c"
  let ?wo1 = "?wo\<lparr>to_worker := (to_worker ?wo)(w := rest)\<rparr>"
  obtain todo qu where wi: "wk_id ?wk = w" "wk_master_id ?wk = mid"
    "map (new_from_thread mid) qu = msg # rest" "done_by w L @ todo = tagged w P" "valid_stage ws todo ?wk qu"
    using valid_invD(7)[OF inv w] unfolding queue validator_inv_def
    by (elim exE conjE) (rule that, simp_all only:)
  have silent: "valid_inv E mid ws P m\<^sub>0 L (c\<lparr>sy_workers := (sy_workers c)(w := wk'), sy_world := ?wo1\<rparr>)"
    if "validator_inv mid ws P L w wk' rest" "wk_phase wk' \<noteq> Idle \<or> rest \<noteq> []" for wk'
    by (rule valid_inv_update[OF inv w queue _ that(1)]) (use that(2) valid_invD(1)[OF inv] in auto)
  from wi(5) consider (quiet) pre where "quiet ws ?wk pre"
      "qu = pre @ Task Validating # map TransactionMsg todo @ [TransactionDistributionDone]"
    | (busy) outs where "wk_phase ?wk = Validation outs" "wk_others ?wk = ws"
      "qu = map TransactionMsg todo @ [TransactionDistributionDone]"
    using wi(3) by (auto simp: valid_stage_def)
  then show ?thesis
  proof cases
    case quiet
    show ?thesis
    proof (cases pre)
      case Nil
      have msg: "msg = new_from_thread mid (Task Validating)"
        "rest = map (new_from_thread mid) (map TransactionMsg todo @ [TransactionDistributionDone])"
        using wi(3) quiet(2) Nil by auto
      have phase: "wk_phase ?wk = Idle" "wk_others ?wk = ws"
        using quiet(1) Nil by (auto simp: quiet_def)
      have wk': "wk' = ?wk\<lparr>wk_phase := Validation []\<rparr>" "wo' = ?wo1"
        using step queue phase wi(1) msg(1)
        by (auto simp: worker_from_master_def run_task_def new_from_thread_def Let_def)
      have "validator_inv mid ws P L w wk' rest"
        unfolding validator_inv_def valid_stage_def using wi phase msg(2) wk'(1)
        by (intro conjI exI[of _ todo] exI[of _ "map TransactionMsg todo @ [TransactionDistributionDone]"]) simp_all
      from silent[OF this] wk' phase msg(1) show ?thesis
        by (simp add: master_event_def new_from_thread_def)
    next
      case (Cons p pre')
      have msg: "msg = new_from_thread mid p"
        "rest = map (new_from_thread mid) (pre' @ Task Validating # map TransactionMsg todo @ [TransactionDistributionDone])"
        using wi(3) quiet(2) Cons by auto
      obtain wk2 where wk2: "quiet ws wk2 pre'" "wk_id wk2 = w" "wk_master_id wk2 = mid"
        "worker_from_master E ?wk ?wo = (wk2, ?wo1)" "master_event ?wk msg = []"
        using quiet_step[OF quiet(1)[unfolded Cons] wi(1), of mid] queue msg(1) wi(2) by blast
      have "validator_inv mid ws P L w wk2 rest"
        unfolding validator_inv_def valid_stage_def using wi wk2 msg(2)
        by (intro conjI exI[of _ todo]
            exI[of _ "pre' @ Task Validating # map TransactionMsg todo @ [TransactionDistributionDone]"]) auto
      from silent[OF this] wk2(4,5) step msg(2) show ?thesis by simp
    qed
  next
    case busy
    show ?thesis
    proof (cases todo)
      case Nil
      have msg: "msg = new_from_thread mid TransactionDistributionDone" "rest = []"
        using wi(3) busy(3) Nil by auto
      have wk': "wk' = ?wk\<lparr>wk_phase := Idle\<rparr>" "wo' = send_master w ValidationReport ?wo1"
        using step queue busy(1) wi(1,2) msg
        by (auto simp: worker_from_master_def run_validate_def validate_outcome_def validate_transaction_def new_from_thread_def)
      have "validator_inv mid ws P L w wk' rest"
        unfolding validator_inv_def valid_stage_def using wi busy Nil wk'(1) msg(2)
        by (intro conjI exI[of _ "[]"]) simp_all
      then have "valid_inv E mid ws P m\<^sub>0 L (c\<lparr>sy_workers := (sy_workers c)(w := wk'), sy_world := wo'\<rparr>)"
        by (intro valid_inv_update[OF inv w queue])
          (use wk' msg(2) valid_invD(1)[OF inv] in \<open>simp_all add: send_master_def\<close>)
      then show ?thesis by (simp add: msg(1) master_event_def new_from_thread_def)
    next
      case (Cons tx todo')
      have msg: "msg = new_from_thread mid (TransactionMsg tx)"
        "rest = map (new_from_thread mid) (map TransactionMsg todo' @ [TransactionDistributionDone])"
        using wi(3) busy(3) Cons by auto
      have event: "master_event ?wk msg = [(w, tx)]"
        using busy(1) wi(1) msg(1) by (simp add: master_event_def new_from_thread_def)
      have "tx \<in> set (tagged w P)" unfolding wi(4)[symmetric] Cons by simp
      then have tx: "tx_tag tx = Done w" "\<not> names_default_controller E (tx_function tx)"
        using P by (auto simp: tagged_set replayable_def sane_def list_all_iff)
      obtain ok s where s:
        "SequentialRuntime_dispatch E (tx_function tx) (fst (tx_signature tx)) (sr_new (wo_state ?wo) w) = (Ok ok, s)"
        "replay_inv E m\<^sub>0 (L @ [(w, tx)]) (sr_state s)"
        by (rule replay_inv_step[OF valid_invD(1)[OF inv] E tx(2)])
      have wk': "wk' = ?wk\<lparr>wk_phase := Validation (outs @ [ok])\<rparr>" "wo' = ?wo1\<lparr>wo_state := sr_state s\<rparr>"
        using step queue busy(1) wi(1,2) msg(1) tx(1) s(1)
        by (auto simp: worker_from_master_def run_validate_def validate_outcome_def validate_transaction_def new_from_thread_def)
      have "validator_inv mid ws P (L @ [(w, tx)]) w wk' rest"
        unfolding validator_inv_def valid_stage_def using wi busy Cons wk'(1) msg(2)
        by (intro conjI exI[of _ todo'] exI[of _ "map TransactionMsg todo' @ [TransactionDistributionDone]"]) simp_all
      then show ?thesis
        unfolding event by (intro valid_inv_update[OF inv w queue]) (use wk' s(2) in auto)
    qed
  qed
qed

section \<open>The end\<close>

definition valid_done ::
  "('p, 'z) exec_env_scheme \<Rightarrow> thread_id \<Rightarrow> thread_id list \<Rightarrow> 'p transaction list \<Rightarrow> runtime_state
     \<Rightarrow> 'p event list \<Rightarrow> 'p system \<Rightarrow> bool" where
  "valid_done E mid ws P m\<^sub>0 L c \<longleftrightarrow>
     (\<forall>e\<in>set L. fst e \<in> set ws) \<and> (\<forall>w\<in>set ws. done_by w L = tagged w P)
   \<and> quiet_system mid ws c \<and> well_formed E (wo_state (sy_world c))
   \<and> sy_result c = Some (Validated (wo_state (sy_world c)))
   \<and> (\<exists>m oks s. replay_inv E m\<^sub>0 L m
        \<and> execute_orphans E (orphans_of P) (sr_new m mid) = (Ok oks, s) \<and> wo_state (sy_world c) = sr_state s)"

lemma valid_finishes:
  assumes inv: "valid_inv E mid ws P m\<^sub>0 L c" and P: "replayable E ws P" and E: "staking_ok E"
    and all: "card (finished_workers c) = length ws"
    and run: "execute_orphan_pool E (sy_master c) ((sy_world c)\<lparr>to_master := []\<rparr>) = (ma', wo')"
    and res: "res = (if ms_phase ma' = MReady then Some (Validated (dump (wo_state wo'))) else None)"
  shows "valid_done E mid ws P m\<^sub>0 L (c\<lparr>sy_master := ma', sy_world := wo', sy_result := res\<rparr>)"
proof -
  let ?m = "wo_state (sy_world c)"
  have dist: "distinct ws" using P by (simp add: replayable_def)
  have "finished_workers c \<subseteq> set ws"
    using valid_invD(4)[OF inv] by (auto simp: finished_workers_def)
  then have fin: "finished_workers c = set ws"
    using all distinct_card[OF dist] by (intro card_subset_eq) simp_all
  have wk: "wk_phase (sy_workers c w) = Idle" "to_worker (sy_world c) w = []" "done_by w L = tagged w P"
    "wk_id (sy_workers c w) = w" "wk_master_id (sy_workers c w) = mid" "wk_others (sy_workers c w) = ws"
    if "w \<in> set ws" for w
  proof -
    show "wk_phase (sy_workers c w) = Idle" "to_worker (sy_world c) w = []"
      using that fin by (auto simp: finished_workers_def)
    with valid_invD(7)[OF inv that] show "done_by w L = tagged w P" "wk_id (sy_workers c w) = w"
      "wk_master_id (sy_workers c w) = mid" "wk_others (sy_workers c w) = ws"
      by (auto simp: validator_inv_def valid_stage_def quiet_def)
  qed
  have orphs: "\<forall>tx\<in>set (orphans_of P). tx_tag tx = Orphan \<and> \<not> names_default_controller E (tx_function tx)"
    using P by (auto simp: orphans_of_def replayable_def sane_def list_all_iff)
  have "well_formed E (sr_state (sr_new ?m mid))"
    using valid_invD(1)[OF inv] by (simp add: replay_inv_def sr_new_def)
  then obtain oks s2 where s2: "execute_orphans E (orphans_of P) (sr_new ?m mid) = (Ok oks, s2)"
    "well_formed E (sr_state s2)"
    using execute_orphans_run[OF E _ orphs] by blast
  have ends: "ma' = (sy_master c)\<lparr>ms_phase := MReady\<rparr>"
    "wo' = (sy_world c)\<lparr>to_master := [], wo_state := sr_state s2\<rparr>"
    "res = Some (Validated (sr_state s2))"
    using run s2(1) valid_invD(3,6)[OF inv] res by (auto simp: execute_orphan_pool_def dump_def)
  have "quiet_system mid ws (c\<lparr>sy_master := ma', sy_world := wo', sy_result := res\<rparr>)"
    using wk valid_invD(3,4,8)[OF inv] by (auto simp: quiet_system_def ends quiet_def)
  then show ?thesis
    using valid_invD(1,2)[OF inv] wk(3) s2 unfolding valid_done_def by (auto simp: ends)
qed

lemma valid_inv_validates:
  assumes inv: "valid_inv E mid ws P m\<^sub>0 L c" and P: "replayable E ws P" and E: "staking_ok E"
    and phase: "ms_phase (sy_master c) = MValidating n"
    and run: "validation_iteration E n (sy_master c) (sy_world c) = ((ma', wo'), res)"
  defines "c' \<equiv> c\<lparr>sy_master := ma', sy_world := wo', sy_result := res\<rparr>"
  shows "valid_inv E mid ws P m\<^sub>0 L c' \<or> valid_done E mid ws P m\<^sub>0 L c'"
proof -
  let ?wo = "sy_world c"
  define n1 where "n1 = (if to_master ?wo = [] then n else n + 1)"
  have count: "n + length (to_master ?wo) = card (finished_workers c)"
    using inv phase by (auto simp: valid_inv_def)
  have iter: "(case to_master ?wo of
              [] \<Rightarrow> (Inr n, ?wo)
            | msg # rest \<Rightarrow>
                (case payload msg of
                   ValidationReport \<Rightarrow> Inr (n + 1)
                 | _ \<Rightarrow> Inl ''Unexpected message type'', ?wo\<lparr>to_master := rest\<rparr>))
     = (Inr n1, ?wo\<lparr>to_master := tl (to_master ?wo)\<rparr>)"
    using valid_invD(9)[OF inv] by (auto simp: n1_def split: list.split)
  have n1: "n1 + length (tl (to_master ?wo)) = card (finished_workers c)"
    using count by (cases "to_master ?wo") (simp_all add: n1_def)
  have sub: "finished_workers c \<subseteq> set ws"
    using valid_invD(4)[OF inv] by (auto simp: finished_workers_def)
  show ?thesis
  proof (cases "n1 = length ws")
    case True
    have "card (finished_workers c) \<le> length ws"
      using card_mono[OF finite_set sub] card_length[of ws] by linarith
    then have "tl (to_master ?wo) = []" "card (finished_workers c) = length ws"
      using n1 True by (simp_all flip: length_0_conv)
    with run True valid_invD(4)[OF inv] have "valid_done E mid ws P m\<^sub>0 L c'"
      unfolding c'_def validation_iteration_def iter
      by (intro valid_finishes[OF inv P E]) (auto split: prod.splits)
    then show ?thesis ..
  next
    case False
    then have "ma' = (sy_master c)\<lparr>ms_phase := MValidating n1\<rparr>"
      "wo' = ?wo\<lparr>to_master := tl (to_master ?wo)\<rparr>" "res = None"
      using run valid_invD(4)[OF inv] unfolding validation_iteration_def iter by auto
    moreover from this have "finished_workers c' = finished_workers c"
      by (simp add: finished_workers_def c'_def)
    moreover have "\<forall>msg\<in>set (tl (to_master ?wo)). payload msg = ValidationReport"
      using valid_invD(9)[OF inv] by (cases "to_master ?wo") simp_all
    ultimately have "valid_inv E mid ws P m\<^sub>0 L c'"
      using inv n1 unfolding valid_inv_def by (simp add: c'_def)
    then show ?thesis ..
  qed
qed

section \<open>After the end, and the start\<close>

lemma valid_done_step:
  assumes "valid_done E mid ws P m\<^sub>0 L c" "sys_step E c fs c'"
  shows "fs = [] \<and> valid_done E mid ws P m\<^sub>0 L c'"
proof -
  have "quiet_system mid ws c" using assms(1) by (simp add: valid_done_def)
  from quiet_system_step[OF this assms(2)] assms(1) show ?thesis
    unfolding valid_done_def by simp
qed

lemma hand_out_run:
  assumes "\<forall>tx\<in>set txs. tx_tag tx = Orphan \<or> (\<exists>w\<in>set (ms_workers ma). tx_tag tx = Done w)"
    and "distinct (ms_workers ma)"
  shows "\<exists>wo'. hand_out txs ma wo =
      (ma\<lparr>ms_orphans := ms_orphans ma @ orphans_of txs, ms_phase := MValidating 0\<rparr>, wo')
    \<and> wo_state wo' = wo_state wo \<and> to_master wo' = to_master wo \<and> to_peer wo' = to_peer wo
    \<and> (\<forall>w\<in>set (ms_workers ma). to_worker wo' w = to_worker wo w
         @ map (new_from_thread (ms_id ma)) (map TransactionMsg (tagged w txs) @ [TransactionDistributionDone]))"
  using assms
proof (induction txs arbitrary: ma wo)
  case Nil
  then show ?case
    by (simp add: orphans_of_def tagged_def broadcast_world broadcast_to_worker)
next
  case (Cons tx txs)
  have txs: "\<forall>tx\<in>set txs. tx_tag tx = Orphan \<or> (\<exists>w\<in>set (ms_workers ma). tx_tag tx = Done w)"
    using Cons.prems(1) by simp
  show ?case
  proof (cases "tx_tag tx")
    case (Done w)
    then have "w \<in> set (ms_workers ma)" using Cons.prems(1) by auto
    with Done Cons.IH[OF txs Cons.prems(2), of "send_worker (ms_id ma) w (TransactionMsg tx) wo"]
    show ?thesis by (auto simp: orphans_of_def tagged_def send_worker_def)
  next
    case Orphan
    let ?ma = "ma\<lparr>ms_orphans := ms_orphans ma @ [tx]\<rparr>"
    from Orphan Cons.IH[of ?ma wo] txs Cons.prems(2) show ?thesis
      by (auto simp: orphans_of_def tagged_def)
  next
    case NotExecuted
    then show ?thesis using Cons.prems(1) by auto
  qed
qed

lemma validation_starts:
  assumes quiet: "quiet_system mid ws c" "ms_orphans (sy_master c) = []" "ws \<noteq> []"
    and wf: "well_formed E (wo_state (sy_world c))" and P: "replayable E ws (transactions blk)"
  obtains c' where "call_validate blk c = Some c'"
    "valid_inv E mid ws (transactions blk) (wo_state (sy_world c)) [] c'" "to_master (sy_world c') = []"
proof -
  let ?ma = "sy_master c" and ?wo = "sy_world c" and ?P = "transactions blk"
  have m: "ms_phase ?ma = MReady" "ms_id ?ma = mid" "ms_workers ?ma = ws" "to_master ?wo = []"
    using quiet by (simp_all add: quiet_system_def)
  have d: "distinct ws" using P by (simp add: replayable_def)
  have "\<forall>tx\<in>set ?P. tx_tag tx = Orphan \<or> (\<exists>w\<in>set (ms_workers ?ma). tx_tag tx = Done w)"
    "distinct (ms_workers ?ma)"
    using P m by (simp_all add: replayable_def)
  note ho = hand_out_run[OF this, of "broadcast ?ma (Task Validating) ?wo"]
  have "\<exists>wo'. validate_block_start blk ?ma ?wo =
      (?ma\<lparr>ms_orphans := orphans_of ?P, ms_phase := MValidating 0\<rparr>, wo')
    \<and> wo_state wo' = wo_state ?wo \<and> to_master wo' = [] \<and> to_peer wo' = to_peer ?wo
    \<and> (\<forall>w\<in>set ws. to_worker wo' w = to_worker ?wo w @ new_from_thread mid (Task Validating)
         # map (new_from_thread mid) (map TransactionMsg (tagged w ?P) @ [TransactionDistributionDone]))"
    using ho m d quiet(2)
    by (simp add: validate_block_start_def broadcast_world broadcast_to_worker)
  then obtain wo' where wo': "validate_block_start blk ?ma ?wo =
      (?ma\<lparr>ms_orphans := orphans_of ?P, ms_phase := MValidating 0\<rparr>, wo')"
    "wo_state wo' = wo_state ?wo" "to_master wo' = []" "to_peer wo' = to_peer ?wo"
    "\<And>w. w \<in> set ws \<Longrightarrow> to_worker wo' w = to_worker ?wo w @ new_from_thread mid (Task Validating)
         # map (new_from_thread mid) (map TransactionMsg (tagged w ?P) @ [TransactionDistributionDone])"
    by blast
  let ?c = "c\<lparr>sy_master := ?ma\<lparr>ms_orphans := orphans_of ?P, ms_phase := MValidating 0\<rparr>, sy_world := wo', sy_result := None\<rparr>"
  have call: "call_validate blk c = Some ?c"
    using m wo'(1) by (simp add: call_validate_def)
  have workers: "validator_inv mid ws ?P [] w (sy_workers ?c w) (to_worker (sy_world ?c) w)"
    if w: "w \<in> set ws" for w
  proof -
    obtain pre where "wk_id (sy_workers c w) = w" "wk_master_id (sy_workers c w) = mid"
      "quiet ws (sy_workers c w) pre" "to_worker ?wo w = map (new_from_thread mid) pre"
      using quiet(1) w by (auto simp: quiet_system_def)
    with wo'(5)[OF w] show ?thesis
      unfolding validator_inv_def valid_stage_def
      by (intro conjI exI[of _ "tagged w ?P"]
          exI[of _ "pre @ Task Validating # map TransactionMsg (tagged w ?P) @ [TransactionDistributionDone]"])
        (auto simp: done_by_def)
  qed
  have "finished_workers ?c = {}"
    using wo'(5) m by (auto simp: finished_workers_def)
  then have "valid_inv E mid ws ?P (wo_state ?wo) [] ?c"
    using workers m wo'(2-4) wf quiet(1) unfolding valid_inv_def
    by (simp add: replay_inv_def quiet_system_def)
  moreover have "to_master (sy_world ?c) = []" using wo'(3) by simp
  ultimately show thesis using that call by blast
qed

end
