(* ===== verification/Valid_Threads.thy ===== *)
theory Valid_Threads
  imports Author_Threads Block_Validation
begin

text \<open>
  Validation, one access at a time. The sequential runtimes of the workers write to the shared state
  at once and look at no taints, so nothing but the block keeps them apart. For a block whose
  transactions, worker by worker, stay within disjoint parts of the keys, as those of an authored
  block do, validation with interleaved accesses is validation with dispatches at once: on its part
  each worker is ahead of the abstract state by the accesses of the dispatch it is in.
\<close>

section \<open>The simulation relation\<close>

definition parted :: "(thread_id \<Rightarrow> state_key set) \<Rightarrow> bool" where
  "parted W \<longleftrightarrow> (\<forall>u v. u \<noteq> v \<longrightarrow> W u \<inter> W v = {})"

lemma partedD: "parted W \<Longrightarrow> u \<noteq> v \<Longrightarrow> k \<in> W u \<Longrightarrow> k \<notin> W v"
  unfolding parted_def by blast

text \<open>What a worker has not executed yet.\<close>

definition todo_of :: "'p transaction list \<Rightarrow> 'p event list \<Rightarrow> thread_id \<Rightarrow> 'p event list" where
  "todo_of P V w = map (Pair w) (drop (length (done_by w V)) (tagged w P))"

definition replay_ok ::
  "('p, 'z) staking_env_scheme \<Rightarrow> thread_id list \<Rightarrow> (thread_id \<Rightarrow> state_key set) \<Rightarrow> 'p threads
     \<Rightarrow> runtime_state \<Rightarrow> thread_id \<Rightarrow> bool" where
  "replay_ok E ws W t m w \<longleftrightarrow> (case th_activity t w of
     Resting \<Rightarrow> \<forall>k\<in>W w. fmlookup (th_state t) k = fmlookup m k
   | Replaying h \<Rightarrow> w \<in> set ws \<and> (\<exists>outs. wk_phase (sy_workers (th_sys t) w) = Validation outs)
       \<and> confined (W w) h
       \<and> (\<exists>tx s. dispatching E (sy_workers (th_sys t) w) (sy_world (th_sys t)) = Some tx
            \<and> resume (call_code E tx) h \<noteq> Stuck \<and> performs SR h (sr_new m w) = Some s
            \<and> (\<forall>k\<in>W w. fmlookup (th_state t) k = fmlookup (sr_state s) k))
   | _ \<Rightarrow> False)"

definition valid_sim ::
  "('p, 'z) exec_env_scheme \<Rightarrow> thread_id \<Rightarrow> thread_id list \<Rightarrow> 'p transaction list \<Rightarrow> runtime_state
     \<Rightarrow> (thread_id \<Rightarrow> state_key set) \<Rightarrow> view \<Rightarrow> 'p event list \<Rightarrow> 'p threads \<Rightarrow> bool" where
  "valid_sim E mid ws P m\<^sub>0 W g V t \<longleftrightarrow> (\<exists>m. valid_inv E mid ws P m\<^sub>0 V (at_state m (th_sys t))
     \<and> (\<forall>w. solo E (W w) (todo_of P V w) (values_of m) g)
     \<and> (\<forall>w. replay_ok E ws W t m w)
     \<and> (\<forall>k. (\<forall>w. k \<notin> W w) \<longrightarrow> fmlookup (th_state t) k = fmlookup m k))"

lemma replay_ok_other:
  assumes ok: "replay_ok E ws W t m v" and v: "v \<noteq> w" and W: "parted W"
    and same: "th_activity t' v = th_activity t v" "sy_workers (th_sys t') v = sy_workers (th_sys t) v"
    and id: "v \<in> set ws \<Longrightarrow> wk_id (sy_workers (th_sys t) v) = v"
    and state: "\<And>k. k \<notin> W w \<Longrightarrow> fmlookup (th_state t') k = fmlookup (th_state t) k"
      "\<And>k. k \<notin> W w \<Longrightarrow> fmlookup m' k = fmlookup m k"
    and grow: "grows w (sy_world (th_sys t)) (sy_world (th_sys t'))"
  shows "replay_ok E ws W t' m' v"
proof -
  have mine: "fmlookup (th_state t') k = fmlookup (th_state t) k" "fmlookup m' k = fmlookup m k"
    if "k \<in> W v" for k
    using state[of k] partedD[OF W v that] by simp_all
  show ?thesis
  proof (cases "th_activity t v")
    case (Replaying h)
    then have h: "v \<in> set ws" "\<exists>outs. wk_phase (sy_workers (th_sys t) v) = Validation outs" "confined (W v) h"
      using ok by (simp_all add: replay_ok_def)
    obtain tx s where s: "dispatching E (sy_workers (th_sys t) v) (sy_world (th_sys t)) = Some tx"
      "resume (call_code E tx) h \<noteq> Stuck" "performs SR h (sr_new m v) = Some s"
      "\<forall>k\<in>W v. fmlookup (th_state t) k = fmlookup (sr_state s) k"
      using ok Replaying by (auto simp: replay_ok_def)
    have "dispatching E (sy_workers (th_sys t') v) (sy_world (th_sys t')) = Some tx"
      using dispatching_grows[OF grow _ s(1)] id[OF h(1)] v same(2) by simp
    moreover have "\<forall>k\<in>W v. fmlookup (sr_state (sr_new m' v)) k = fmlookup (sr_state (sr_new m v)) k"
      using mine(2) by (simp add: sr_new_def)
    then obtain s' where "performs SR h (sr_new m' v) = Some s'"
      "\<forall>k. fmlookup (sr_state s') k = fmlookup (if k \<in> W v then sr_state s else sr_state (sr_new m' v)) k"
      using performs_SR_local[OF s(3) h(3)] by blast
    ultimately show ?thesis
      using Replaying same h s(2,4) mine(1) by (simp add: replay_ok_def)
  qed (use ok same mine in \<open>simp_all add: replay_ok_def\<close>)
qed

lemma valid_sim_update:
  assumes old: "valid_inv E mid ws P m\<^sub>0 V (at_state m (th_sys t))" "\<And>v. replay_ok E ws W t m v"
      "\<And>k. (\<And>w. k \<notin> W w) \<Longrightarrow> fmlookup (th_state t) k = fmlookup m k"
    and W: "parted W"
    and new: "valid_inv E mid ws P m\<^sub>0 V' (at_state m' (th_sys t'))"
      "\<And>v. solo E (W v) (todo_of P V' v) (values_of m') g" "replay_ok E ws W t' m' w"
    and same: "\<And>v. v \<noteq> w \<Longrightarrow> th_activity t' v = th_activity t v
      \<and> sy_workers (th_sys t') v = sy_workers (th_sys t) v"
    and state: "\<And>k. k \<notin> W w \<Longrightarrow> fmlookup (th_state t') k = fmlookup (th_state t) k \<and> fmlookup m' k = fmlookup m k"
    and grow: "grows w (sy_world (th_sys t)) (sy_world (th_sys t'))"
  shows "valid_sim E mid ws P m\<^sub>0 W g V' t'"
proof -
  have "replay_ok E ws W t' m' v" for v
  proof (cases "v = w")
    case False
    have id: "v \<in> set ws \<Longrightarrow> wk_id (sy_workers (th_sys t) v) = v"
      using valid_invD(7)[OF old(1), of v] by (simp add: validator_inv_def)
    show ?thesis
      by (rule replay_ok_other[OF old(2) False W _ _ id _ _ grow]) (use same[OF False] state in simp_all)
  qed (use new(3) in simp)
  moreover have "fmlookup (th_state t') k = fmlookup m' k" if "\<forall>w. k \<notin> W w" for k
    using old(3)[of k] state[of k] that by simp
  ultimately show ?thesis using new(1,2) unfolding valid_sim_def by blast
qed

section \<open>The steps of the workers\<close>

lemma valid_dispatching:
  assumes inv: "valid_inv E mid ws P m\<^sub>0 V c" and w: "w \<in> set ws"
    and tx: "dispatching E (sy_workers c w) (sy_world c) = Some tx"
  obtains outs todo rest where "wk_phase (sy_workers c w) = Validation outs"
    "done_by w V @ tx # todo = tagged w P"
    "to_worker (sy_world c) w = new_from_thread mid (TransactionMsg tx) # rest"
proof -
  obtain todo qu where wi: "wk_id (sy_workers c w) = w" "wk_master_id (sy_workers c w) = mid"
    "to_worker (sy_world c) w = map (new_from_thread mid) qu" "done_by w V @ todo = tagged w P"
    "valid_stage ws todo (sy_workers c w) qu"
    using valid_invD(7)[OF inv w] unfolding validator_inv_def by (elim exE conjE) (rule that, simp_all only:)
  have "\<exists>outs. wk_phase (sy_workers c w) = Validation outs"
    using wi(1,5) tx valid_invD(8)[OF inv w]
    by (auto simp: valid_stage_def quiet_def dispatching_def head_tx_def)
  then obtain outs where outs: "wk_phase (sy_workers c w) = Validation outs" by blast
  then have qu: "qu = map TransactionMsg todo @ [TransactionDistributionDone]"
    using wi(5) by (auto simp: valid_stage_def quiet_def)
  have "todo \<noteq> []"
    using tx outs wi(1,3) qu by (auto simp: dispatching_def head_tx_def new_from_thread_def)
  then obtain tx' todo' where todo: "todo = tx' # todo'" by (cases todo) auto
  have "tx' = tx"
    using tx outs wi(1,3) qu todo by (auto simp: dispatching_def head_tx_def new_from_thread_def split: if_splits)
  with that[OF outs] wi(3,4) qu todo show thesis by simp
qed

lemma valid_silent:
  assumes inv: "valid_inv E mid ws P m\<^sub>0 V c" and w: "w \<in> set ws" and P: "replayable E ws P"
    and none: "wk_phase (sy_workers c w) = Serving \<or> dispatching E (sy_workers c w) (sy_world c) = None"
    and queue: "to_worker (sy_world c) w = msg # rest"
  shows "master_event (sy_workers c w) msg = []"
proof -
  obtain todo qu where wi: "wk_id (sy_workers c w) = w" "wk_master_id (sy_workers c w) = mid"
    "msg # rest = map (new_from_thread mid) qu" "done_by w V @ todo = tagged w P"
    "valid_stage ws todo (sy_workers c w) qu"
    using valid_invD(7)[OF inv w] unfolding validator_inv_def queue by (elim exE conjE) (rule that, simp_all only:)
  have "\<And>a b d. wk_phase (sy_workers c w) \<noteq> Depleting a b d"
    using wi(5) by (auto simp: valid_stage_def quiet_def)
  moreover have "payload msg \<noteq> TransactionMsg tx" if v: "wk_phase (sy_workers c w) = Validation outs" for outs tx
  proof
    assume p: "payload msg = TransactionMsg tx"
    have "qu = map TransactionMsg todo @ [TransactionDistributionDone]"
      using wi(5) v by (auto simp: valid_stage_def quiet_def)
    then obtain todo' where "todo = tx # todo'" "msg_from msg = mid"
      using wi(3) p by (cases todo) (auto simp: new_from_thread_def)
    then have "tx \<in> set (tagged w P)" "msg_from msg = mid" unfolding wi(4)[symmetric] by simp_all
    then show False
      using none v queue p wi(1,2) by (auto simp: tagged_set dispatching_def head_tx_def split: if_splits)
  qed
  ultimately show ?thesis
    by (auto simp: master_event_def split: message_payload.split worker_phase.split)
qed

lemma vsim_takes:
  assumes inv: "valid_inv E mid ws P m\<^sub>0 V (at_state m (th_sys t))" "\<And>v. replay_ok E ws W t m v"
      "\<And>k. (\<And>w. k \<notin> W w) \<Longrightarrow> fmlookup (th_state t) k = fmlookup m k"
    and W: "parted W" and solo: "\<And>v. solo E (W v) (todo_of P V v) (values_of m) g"
    and P: "replayable E ws P" and E: "staking_ok E" and w: "w \<in> set ws"
    and rest: "th_activity t w = Resting" and queue: "to_worker (sy_world (th_sys t)) w = msg # rest"
    and none: "wk_phase (sy_workers (th_sys t) w) = Serving
       \<or> dispatching E (sy_workers (th_sys t) w) (sy_world (th_sys t)) = None"
    and step: "worker_from_master E (sy_workers (th_sys t) w) (sy_world (th_sys t)) = (wk', wo')"
  shows "valid_sim E mid ws P m\<^sub>0 W g V (t\<lparr>th_sys := set_worker w wk' wo' (th_sys t)\<rparr>)"
proof -
  let ?c = "at_state m (th_sys t)"
  have id: "wk_id (sy_workers (th_sys t) w) = w"
    using valid_invD(7)[OF inv(1) w] by (simp add: validator_inv_def)
  note frame = worker_from_master_frame[OF none step, unfolded id]
  have run: "worker_from_master E (sy_workers ?c w) (sy_world ?c) = (wk', wo'\<lparr>wo_state := m\<rparr>)"
    using worker_from_master_state[OF none, of m] step by simp
  have q: "to_worker (sy_world ?c) w = msg # rest" using queue by simp
  have "master_event (sy_workers ?c w) msg = []"
    by (rule valid_silent[OF inv(1) w P _ q]) (use none in simp)
  with valid_inv_from_master[OF inv(1) w P E q run]
  have "valid_inv E mid ws P m\<^sub>0 V (at_state m (set_worker w wk' wo' (th_sys t)))"
    by (simp add: set_worker_def at_state_def)
  then show ?thesis
    by (intro valid_sim_update[OF inv W, where m' = m and w = w])
      (use solo inv(2)[of w] rest frame in \<open>simp_all add: replay_ok_def\<close>)
qed

lemma vsim_begins:
  assumes inv: "valid_inv E mid ws P m\<^sub>0 V (at_state m (th_sys t))" "\<And>v. replay_ok E ws W t m v"
      "\<And>k. (\<And>w. k \<notin> W w) \<Longrightarrow> fmlookup (th_state t) k = fmlookup m k"
    and W: "parted W" and solo: "\<And>v. solo E (W v) (todo_of P V v) (values_of m) g"
    and w: "w \<in> set ws" and act: "th_activity t w = Resting"
    and tx: "dispatching E (sy_workers (th_sys t) w) (sy_world (th_sys t)) = Some tx"
    and a: "a = (case wk_phase (sy_workers (th_sys t) w) of
            Validation _ \<Rightarrow> Replaying [] | _ \<Rightarrow> Accessing [] fmempty None)"
  shows "valid_sim E mid ws P m\<^sub>0 W g V (set_activity w a (th_state t) t)"
proof -
  have tx': "dispatching E (sy_workers (at_state m (th_sys t)) w) (sy_world (at_state m (th_sys t))) = Some tx"
    using tx by simp
  obtain outs where outs: "wk_phase (sy_workers (th_sys t) w) = Validation outs"
    by (rule valid_dispatching[OF inv(1) w tx']) simp
  have "replay_ok E ws W (set_activity w a (th_state t) t) m w"
    using a outs w tx inv(2)[of w] act resume_start[OF traced_outer_dispatch, of E "tx_function tx" "fst (tx_signature tx)"]
    by (simp add: replay_ok_def sr_new_def)
  then show ?thesis
    by (intro valid_sim_update[OF inv W, where m' = m and w = w])
      (use inv(1) solo in \<open>simp_all add: grows_def\<close>)
qed

text \<open>What a replaying worker has done, and that its next access stays in its part.\<close>

lemma SR_never_refuses: "performs SR h s = Some s' \<Longrightarrow> \<forall>x\<in>set h. \<not> refused (snd x)"
proof (induction h arbitrary: s)
  case (Cons y h)
  obtain x rep where y: "y = (x, rep)" by fastforce
  obtain s1 where "perform SR x s = (rep, s1)" "performs SR h s1 = Some s'"
    using Cons.prems y by (auto split: prod.splits if_splits)
  with Cons.IH y show ?case by (cases x) (auto simp: sr_read_eq sr_write_def)
qed simp

lemma SR_values:
  assumes "performs SR h (sr_new m w) = Some s"
  shows "performs AR h (values_of m) = Some (sr_view s)"
  using seq.granted_history[OF assms _ SR_never_refuses[OF assms]] by (simp add: view_of_new)

lemma replayingD:
  assumes "replay_ok E ws W t m w" "th_activity t w = Replaying h"
    "dispatching E (sy_workers (th_sys t) w) (sy_world (th_sys t)) = Some tx"
  obtains outs s where "w \<in> set ws" "wk_phase (sy_workers (th_sys t) w) = Validation outs" "confined (W w) h"
    "resume (call_code E tx) h \<noteq> Stuck" "performs SR h (sr_new m w) = Some s"
    "\<forall>k\<in>W w. fmlookup (th_state t) k = fmlookup (sr_state s) k"
  using assms by (auto simp: replay_ok_def)

lemma next_in_part:
  assumes part: "on_part E W (values_of m) h' (w, tx)" and h: "performs SR h (sr_new m w) = Some s"
  shows "resume (call_code E tx) h = Asks x \<Longrightarrow> op_key x \<in> W"
    "resume (call_code E tx) h = Returns r \<Longrightarrow> \<forall>k\<in>W. sr_view s k = h' k"
proof -
  obtain u out f' where u: "resume (call_code E tx) u = Returns out" "confined W u"
    "performs AR u (values_of m) = Some f'" "\<forall>k\<in>W. f' k = h' k"
    using part by (auto simp: on_part_def)
  note full = resume_Returns[OF traced_outer_dispatch u(3,1)] and ar = SR_values[OF h]
  show "op_key x \<in> W" if x: "resume (call_code E tx) h = Asks x"
  proof -
    obtain rep rest where "trace AR is_taint max_accesses (call_code E tx)
        (outer_dispatch E AR (tx_function tx) (fst (tx_signature tx))) (values_of m) (h @ (x, rep) # rest)"
      by (rule resume_Asks[OF traced_outer_dispatch ar x])
    from trace_unique[OF this u(3,1)] u(2) show ?thesis by simp
  qed
  show "\<forall>k\<in>W. sr_view s k = h' k" if r: "resume (call_code E tx) h = Returns r"
    using trace_unique[OF full(2) ar r] ar u(3,4) by simp
qed

text \<open>The next transaction of a worker, seen from its part.\<close>

lemma todo_next:
  assumes inv: "valid_inv E mid ws P m\<^sub>0 V c" and w: "w \<in> set ws"
    and tx: "dispatching E (sy_workers c w) (sy_world c) = Some tx"
  shows "todo_of P V w = (w, tx) # todo_of P (V @ [(w, tx)]) w"
    "v \<noteq> w \<Longrightarrow> todo_of P (V @ [(w, tx)]) v = todo_of P V v"
proof -
  obtain todo where todo: "done_by w V @ tx # todo = tagged w P"
    by (rule valid_dispatching[OF inv w tx]) simp
  then show "todo_of P V w = (w, tx) # todo_of P (V @ [(w, tx)]) w"
    by (simp add: todo_of_def flip: todo)
  show "v \<noteq> w \<Longrightarrow> todo_of P (V @ [(w, tx)]) v = todo_of P V v"
    by (simp add: todo_of_def)
qed

lemma vsim_replays:
  assumes inv: "valid_inv E mid ws P m\<^sub>0 V (at_state m (th_sys t))" "\<And>v. replay_ok E ws W t m v"
      "\<And>k. (\<And>w. k \<notin> W w) \<Longrightarrow> fmlookup (th_state t) k = fmlookup m k"
    and W: "parted W" and solo: "\<And>v. solo E (W v) (todo_of P V v) (values_of m) g"
    and act: "th_activity t w = Replaying h"
    and tx: "dispatching E (sy_workers (th_sys t) w) (sy_world (th_sys t)) = Some tx"
    and x: "resume (call_code E tx) h = Asks x"
    and step: "perform SR x (sr_new (th_state t) w) = (rep, s')"
  shows "valid_sim E mid ws P m\<^sub>0 W g V (set_activity w (Replaying (h @ [(x, rep)])) (sr_state s') t)"
proof -
  obtain outs s where r: "w \<in> set ws" "wk_phase (sy_workers (th_sys t) w) = Validation outs" "confined (W w) h"
    "performs SR h (sr_new m w) = Some s" "\<forall>k\<in>W w. fmlookup (th_state t) k = fmlookup (sr_state s) k"
    by (rule replayingD[OF inv(2) act tx])
  have tx': "dispatching E (sy_workers (at_state m (th_sys t)) w) (sy_world (at_state m (th_sys t))) = Some tx"
    using tx by simp
  have "solo E (W w) ((w, tx) # todo_of P (V @ [(w, tx)]) w) (values_of m) g"
    using solo[of w] unfolding todo_next(1)[OF inv(1) r(1) tx'] .
  then obtain h' where "on_part E (W w) (values_of m) h' (w, tx)" by (rule solo_ConsE)
  from next_in_part(1)[OF this r(4) x] have k: "confined (W w) [(x, rep)]" by simp
  have one: "performs SR [(x, rep)] (sr_new (th_state t) w) = Some s'" using step by simp
  have "\<forall>k\<in>W w. fmlookup (sr_state s) k = fmlookup (sr_state (sr_new (th_state t) w)) k"
    using r(5) by (simp add: sr_new_def)
  from performs_SR_local[OF one k this] obtain s1 where s1: "performs SR [(x, rep)] s = Some s1"
    "\<forall>k. fmlookup (sr_state s1) k = fmlookup (if k \<in> W w then sr_state s' else sr_state s) k" by blast
  obtain s2 where "performs SR [(x, rep)] (sr_new (th_state t) w) = Some s2"
    "\<forall>k. fmlookup (sr_state s2) k = fmlookup (if k \<in> W w then sr_state s' else th_state t) k"
    using performs_SR_local[OF one k, of "sr_new (th_state t) w"] by (auto simp: sr_new_def)
  with one have frame: "fmlookup (sr_state s') k = fmlookup (th_state t) k" if "k \<notin> W w" for k
    using that by (metis option.inject)
  have run: "performs SR (h @ [(x, rep)]) (sr_new m w) = Some s1"
    using r(4) s1(1) by (simp add: performs_append)
  have "replay_ok E ws W (set_activity w (Replaying (h @ [(x, rep)])) (sr_state s') t) m w"
    using r(1-3) k tx run resume_step(1)[OF traced_outer_dispatch x run] s1(2)
    by (simp add: replay_ok_def)
  then show ?thesis
    by (intro valid_sim_update[OF inv W, where m' = m and w = w])
      (use inv(1) solo frame in \<open>simp_all add: grows_def\<close>)
qed

lemma vsim_replayed:
  assumes inv: "valid_inv E mid ws P m\<^sub>0 V (at_state m (th_sys t))" "\<And>v. replay_ok E ws W t m v"
      "\<And>k. (\<And>w. k \<notin> W w) \<Longrightarrow> fmlookup (th_state t) k = fmlookup m k"
    and W: "parted W" and solo: "\<And>v. solo E (W v) (todo_of P V v) (values_of m) g"
    and P: "replayable E ws P" and E: "staking_ok E"
    and act: "th_activity t w = Replaying h"
    and tx: "dispatching E (sy_workers (th_sys t) w) (sy_world (th_sys t)) = Some tx"
    and ret: "resume (call_code E tx) h = Returns r"
    and fin: "finish_dispatch (sy_workers (th_sys t) w) tx (to_runtime_dispatch_result r) (sy_world (th_sys t)) = (wk', wo')"
  shows "valid_sim E mid ws P m\<^sub>0 W g (V @ [(w, tx)])
    (t\<lparr>th_sys := set_worker w wk' wo' (th_sys t), th_activity := (th_activity t)(w := Resting)\<rparr>)"
proof -
  let ?c = "at_state m (th_sys t)" and ?q = "to_runtime_dispatch_result r"
  obtain outs s where a: "w \<in> set ws" "wk_phase (sy_workers (th_sys t) w) = Validation outs" "confined (W w) h"
    "performs SR h (sr_new m w) = Some s" "\<forall>k\<in>W w. fmlookup (th_state t) k = fmlookup (sr_state s) k"
    by (rule replayingD[OF inv(2) act tx])
  let ?m = "sr_state s"
  have tx': "dispatching E (sy_workers ?c w) (sy_world ?c) = Some tx" using tx by simp
  have id: "wk_id (sy_workers (th_sys t) w) = w"
    using valid_invD(7)[OF inv(1) a(1)] by (simp add: validator_inv_def)
  note frame = finish_dispatch_frame[OF fin, unfolded id]
  have "outer_dispatch E SR (tx_function tx) (fst (tx_signature tx)) (sr_new m w) = (r, s)"
    by (rule resume_Returns(1)[OF traced_outer_dispatch a(4) ret])
  then have run: "validate_transaction E (wk_id (sy_workers ?c w)) tx (wo_state (sy_world ?c)) = (?q, ?m)"
    by (simp add: validate_transaction_def SequentialRuntime_dispatch_def sr_dispatch_def id)
  have phase: "wk_phase (sy_workers ?c w) = Validation outs" using a(2) by simp
  have step: "worker_from_master E (sy_workers ?c w) (sy_world ?c) = (wk', wo'\<lparr>wo_state := ?m\<rparr>)"
    using dispatch_at_once(3)[OF tx' phase run] fin by (simp add: finish_dispatch_state)
  obtain rest where q: "to_worker (sy_world ?c) w = new_from_thread mid (TransactionMsg tx) # rest"
    by (rule valid_dispatching[OF inv(1) a(1) tx'])
  have "master_event (sy_workers ?c w) (new_from_thread mid (TransactionMsg tx)) = [(w, tx)]"
    using phase id by (simp add: master_event_def new_from_thread_def)
  with valid_inv_from_master[OF inv(1) a(1) P E q step]
  have inv': "valid_inv E mid ws P m\<^sub>0 (V @ [(w, tx)]) (at_state ?m (set_worker w wk' wo' (th_sys t)))"
    by (simp add: set_worker_def at_state_def)
  note todo = todo_next[OF inv(1) a(1) tx']
  have "solo E (W w) ((w, tx) # todo_of P (V @ [(w, tx)]) w) (values_of m) g"
    using solo[of w] unfolding todo(1) .
  then obtain h' where h': "on_part E (W w) (values_of m) h' (w, tx)"
    "solo E (W w) (todo_of P (V @ [(w, tx)]) w) h' g" by (rule solo_ConsE)
  have "\<forall>k\<in>W w. values_of ?m k = h' k"
    using next_in_part(2)[OF h'(1) a(4) ret] by (simp add: sr_view_def)
  from solo_cong[OF h'(2) this] have mine: "solo E (W w) (todo_of P (V @ [(w, tx)]) w) (values_of ?m) g" .
  obtain s2 where "performs SR h (sr_new m w) = Some s2"
    "\<forall>k. fmlookup (sr_state s2) k = fmlookup (if k \<in> W w then ?m else m) k"
    using performs_SR_local[OF a(4,3), of "sr_new m w"] by (auto simp: sr_new_def)
  with a(4) have others: "fmlookup ?m k = fmlookup m k" if "k \<notin> W w" for k
    using that by (metis option.inject)
  have "solo E (W v) (todo_of P (V @ [(w, tx)]) v) (values_of ?m) g" for v
  proof (cases "v = w")
    case False
    have "\<forall>k\<in>W v. values_of ?m k = values_of m k"
      using others partedD[OF W False] by (simp add: ts_view_def)
    from solo_cong[OF solo[of v] this] show ?thesis using todo(2)[OF False] by simp
  qed (use mine in simp)
  then show ?thesis
    by (intro valid_sim_update[OF inv W, where m' = ?m and w = w])
      (use inv' a(5) others frame in \<open>simp_all add: replay_ok_def\<close>)
qed

section \<open>The steps of the master\<close>

lemma validation_state:
  assumes "validation_iteration E n ma wo = ((ma', wo'), res)" "ms_phase ma' = MValidating n'"
  shows "validation_iteration E n ma (wo\<lparr>wo_state := m\<rparr>) = ((ma', wo'\<lparr>wo_state := m\<rparr>), res)"
    "wo_state wo' = wo_state wo" "to_worker wo' = to_worker wo" "to_peer wo' = to_peer wo"
proof -
  have orphans: "ms_phase ma2 \<noteq> MValidating n'" if "execute_orphan_pool E ma wo1 = (ma2, wo2)" for wo1 ma2 wo2
    using that execute_orphans_no_Err[of E "ms_orphans ma"]
    by (auto simp: execute_orphan_pool_def mcrash_def split: prod.splits rs.splits)
  obtain q wo1 where q: "(case to_master wo of
              [] \<Rightarrow> (Inr n, wo)
            | msg # rest \<Rightarrow>
                (case payload msg of
                   ValidationReport \<Rightarrow> Inr (n + 1)
                 | _ \<Rightarrow> Inl ''Unexpected message type'', wo\<lparr>to_master := rest\<rparr>)) = (q, wo1)"
    by fastforce
  then have q': "(case to_master (wo\<lparr>wo_state := m\<rparr>) of
              [] \<Rightarrow> (Inr n, wo\<lparr>wo_state := m\<rparr>)
            | msg # rest \<Rightarrow>
                (case payload msg of
                   ValidationReport \<Rightarrow> Inr (n + 1)
                 | _ \<Rightarrow> Inl ''Unexpected message type'', wo\<lparr>wo_state := m, to_master := rest\<rparr>))
        = (q, wo1\<lparr>wo_state := m\<rparr>)"
    by (auto split: list.splits)
  have wo1: "wo_state wo1 = wo_state wo" "to_worker wo1 = to_worker wo" "to_peer wo1 = to_peer wo"
    using q by (auto split: list.splits)
  have "validation_iteration E n ma (wo\<lparr>wo_state := m\<rparr>) = ((ma', wo'\<lparr>wo_state := m\<rparr>), res) \<and> wo' = wo1"
  proof (cases q)
    case (Inl p)
    then show ?thesis using assms q unfolding validation_iteration_def by (auto simp: mcrash_def)
  next
    case (Inr i)
    then show ?thesis
      using assms q q' orphans unfolding validation_iteration_def by (auto split: prod.splits if_splits)
  qed
  with wo1 show "validation_iteration E n ma (wo\<lparr>wo_state := m\<rparr>) = ((ma', wo'\<lparr>wo_state := m\<rparr>), res)"
    "wo_state wo' = wo_state wo" "to_worker wo' = to_worker wo" "to_peer wo' = to_peer wo" by simp_all
qed

lemma vsim_validates:
  assumes inv: "valid_inv E mid ws P m\<^sub>0 V (at_state m (th_sys t))" "\<And>v. replay_ok E ws W t m v"
      "\<And>k. (\<And>w. k \<notin> W w) \<Longrightarrow> fmlookup (th_state t) k = fmlookup m k"
    and solo: "\<And>v. solo E (W v) (todo_of P V v) (values_of m) g"
    and P: "replayable E ws P" and E: "staking_ok E"
    and phase: "ms_phase (sy_master (th_sys t)) = MValidating n"
    and run: "validation_iteration E n (sy_master (th_sys t)) (sy_world (th_sys t)) = ((ma', wo'), res)"
  defines "t' \<equiv> t\<lparr>th_sys := (th_sys t)\<lparr>sy_master := ma', sy_world := wo', sy_result := res\<rparr>\<rparr>"
  shows "valid_sim E mid ws P m\<^sub>0 W g V t'
    \<or> valid_done E mid ws P m\<^sub>0 V (th_sys t') \<and> (\<forall>w. th_activity t' w = Resting)"
proof -
  let ?c = "at_state m (th_sys t)"
  obtain ma2 wo2 res2 where run2: "validation_iteration E n (sy_master ?c) (sy_world ?c) = ((ma2, wo2), res2)"
    by (metis prod.exhaust)
  let ?c2 = "?c\<lparr>sy_master := ma2, sy_world := wo2, sy_result := res2\<rparr>"
  have "valid_inv E mid ws P m\<^sub>0 V ?c2 \<or> valid_done E mid ws P m\<^sub>0 V ?c2"
    by (rule valid_inv_validates[OF inv(1) P E _ run2]) (simp add: phase)
  then show ?thesis
  proof
    assume inv2: "valid_inv E mid ws P m\<^sub>0 V ?c2"
    then obtain n2 where n2: "ms_phase ma2 = MValidating n2" by (auto simp: valid_inv_def)
    note same = validation_state[OF run2 n2]
    have "validation_iteration E n (sy_master (th_sys t)) (sy_world (th_sys t))
        = ((ma2, wo2\<lparr>wo_state := th_state t\<rparr>), res2)"
      using same(1)[of "th_state t"] by simp
    with run have eq: "ma' = ma2" "wo' = wo2\<lparr>wo_state := th_state t\<rparr>" "res = res2" by simp_all
    have wo2: "wo_state wo2 = m" "to_worker wo2 = to_worker (sy_world (th_sys t))"
      "to_peer wo2 = to_peer (sy_world (th_sys t))"
      using same(2-4) by simp_all
    have "at_state m (th_sys t') = ?c2"
      by (simp add: t'_def eq at_state_def wo2(1)[symmetric])
    with inv2 have "valid_inv E mid ws P m\<^sub>0 V (at_state m (th_sys t'))" by simp
    moreover have "replay_ok E ws W t' m v" for v
    proof -
      have "dispatching E (sy_workers (th_sys t) v) wo2 = dispatching E (sy_workers (th_sys t) v) (sy_world (th_sys t))"
        by (simp add: dispatching_def wo2 cong: worker_phase.case_cong)
      with inv(2)[of v] show ?thesis
        unfolding replay_ok_def t'_def by (simp add: eq cong: activity.case_cong)
    qed
    ultimately show ?thesis
      using solo inv(3) unfolding valid_sim_def by (auto simp: t'_def eq)
  next
    assume d: "valid_done E mid ws P m\<^sub>0 V ?c2"
    have rest: "th_activity t w = Resting" for w
    proof (rule ccontr)
      assume "th_activity t w \<noteq> Resting"
      then have "w \<in> set ws" "\<exists>outs. wk_phase (sy_workers (th_sys t) w) = Validation outs"
        using inv(2)[of w] by (auto simp: replay_ok_def split: activity.splits)
      with d show False by (auto simp: valid_done_def quiet_system_def quiet_def)
    qed
    have "fmlookup (th_state t) k = fmlookup m k" for k
      using inv(2,3) rest by (cases "\<exists>w. k \<in> W w") (auto simp: replay_ok_def)
    then have "th_state t = m" by (rule fmap_ext)
    then have "?c = th_sys t" by auto
    with run run2 d have "valid_done E mid ws P m\<^sub>0 V (th_sys t')" by (simp add: t'_def)
    with rest show ?thesis by (simp add: t'_def)
  qed
qed

section \<open>Runs\<close>

lemma valid_thread_step:
  assumes sim: "valid_sim E mid ws P m\<^sub>0 W g V t" and W: "parted W" and P: "replayable E ws P" and E: "staking_ok E"
    and step: "thread_step E t es t'"
  shows "valid_sim E mid ws P m\<^sub>0 W g (V @ map fst es) t'
    \<or> valid_done E mid ws P m\<^sub>0 (V @ map fst es) (th_sys t') \<and> (\<forall>w. th_activity t' w = Resting)"
proof -
  obtain m where inv: "valid_inv E mid ws P m\<^sub>0 V (at_state m (th_sys t))" "\<And>v. replay_ok E ws W t m v"
    "\<And>k. (\<And>w. k \<notin> W w) \<Longrightarrow> fmlookup (th_state t) k = fmlookup m k"
    and solo: "\<And>v. solo E (W v) (todo_of P V v) (values_of m) g"
    using sim unfolding valid_sim_def by blast
  have master: "ms_workers (sy_master (th_sys t)) = ws" "\<And>c. ms_phase (sy_master (th_sys t)) \<noteq> MCollecting c"
    using inv(1) by (auto simp: valid_inv_def)
  from step show ?thesis
  proof cases
    case (worker w)
    then have w: "w \<in> set ws" using master by (simp add: worker_in_def)
    from worker(2) show ?thesis
    proof cases
      case (takes msg rest wk' wo')
      then show ?thesis using vsim_takes[OF inv W solo P E w takes(3,4,5,6)] by simp
    next
      case (takes_peer msg rest wk' wo')
      then show ?thesis using valid_invD(8)[OF inv(1) w] by simp
    next
      case (begins tx a)
      then show ?thesis using vsim_begins[OF inv W solo w begins(3,4,5)] by simp
    next
      case (replays h tx x rep s')
      then show ?thesis using vsim_replays[OF inv W solo replays(3-6)] by simp
    next
      case (replayed h tx r wk' wo')
      then show ?thesis using vsim_replayed[OF inv W solo P E replayed(3-6)] by simp
    qed (use inv(2)[of w] in \<open>simp_all add: replay_ok_def\<close>)
  next
    case (master_collects col ma' wo' res)
    with master(2) show ?thesis by blast
  next
    case (master_validates n ma' wo' res)
    from vsim_validates[OF inv solo P E master_validates(3,4)] master_validates(1,2) show ?thesis by simp
  qed
qed

lemma valid_thread_run:
  assumes "thread_run E t es t'" "valid_sim E mid ws P m\<^sub>0 W g [] t" and W: "parted W" and P: "replayable E ws P"
    and E: "staking_ok E"
  shows "valid_sim E mid ws P m\<^sub>0 W g (map fst es) t'
    \<or> valid_done E mid ws P m\<^sub>0 (map fst es) (th_sys t') \<and> (\<forall>w. th_activity t' w = Resting)"
  using assms(1,2)
proof (induction rule: thread_run.induct)
  case (trun_step t es t' fs t'')
  from trun_step.IH[OF trun_step.prems] show ?case
  proof
    assume "valid_sim E mid ws P m\<^sub>0 W g (map fst es) t'"
    from valid_thread_step[OF this W P E trun_step(2)] show ?thesis by simp
  next
    assume d: "valid_done E mid ws P m\<^sub>0 (map fst es) (th_sys t') \<and> (\<forall>w. th_activity t' w = Resting)"
    then have "quiet_system mid ws (th_sys t')" by (simp add: valid_done_def)
    from quiet_thread_step[OF this _ trun_step(2)] d
    have q: "fs = []" "\<forall>w. th_activity t'' w = Resting" "sys_step E (th_sys t') [] (th_sys t'')" by simp_all
    with valid_done_step[OF _ q(3)] d show ?thesis by simp
  qed
qed simp

lemma valid_sim_start:
  assumes "valid_inv E mid ws P m\<^sub>0 [] c" "\<And>w. solo E (W w) (map (Pair w) (tagged w P)) (values_of (wo_state (sy_world c))) g"
  shows "valid_sim E mid ws P m\<^sub>0 W g [] (th_start c)"
  using assms unfolding valid_sim_def
  by (intro exI[of _ "wo_state (sy_world c)"] conjI allI impI)
    (simp_all add: th_start_def replay_ok_def todo_of_def done_by_def)

end
