(* ===== verification/Concurrent_Executor.thy ===== *)
theory Concurrent_Executor
  imports Valid_Threads
begin

text \<open>
  What the concurrent executor promises, under every interleaving of the critical sections of its
  threads: authoring never panics and loses no transaction, and the block it returns leads
  validators, under any schedule of theirs, to the same value of every key.
\<close>

section \<open>The values after sequential dispatches depend on the values before\<close>

lemma dispatch_values:
  assumes "sr_view s = sr_view t"
  shows "fst (SequentialRuntime_dispatch E call origin s) = fst (SequentialRuntime_dispatch E call origin t)"
    "sr_view (snd (SequentialRuntime_dispatch E call origin s)) =
     sr_view (snd (SequentialRuntime_dispatch E call origin t))"
proof -
  have "(fst (outer_dispatch E SR call origin s), sr_view (snd (outer_dispatch E SR call origin s)))
      = (fst (outer_dispatch E SR call origin t), sr_view (snd (outer_dispatch E SR call origin t)))"
    using seq_runs[OF seq.sim_outer, of E call origin] assms by metis
  then show "fst (SequentialRuntime_dispatch E call origin s) = fst (SequentialRuntime_dispatch E call origin t)"
    "sr_view (snd (SequentialRuntime_dispatch E call origin s)) =
     sr_view (snd (SequentialRuntime_dispatch E call origin t))"
    by (auto simp: SequentialRuntime_dispatch_def sr_dispatch_def split: prod.split)
qed

lemma execute_orphans_values:
  assumes "execute_orphans E txs s = (Ok oks, s')" "execute_orphans E txs t = (Ok oks', t')"
    and "sr_view s = sr_view t"
  shows "sr_view s' = sr_view t'"
  using assms
proof (induction txs arbitrary: s t oks oks')
  case (Cons tx txs)
  let ?d = "SequentialRuntime_dispatch E (tx_function tx) (fst (tx_signature tx))"
  obtain ok s1 oks1 where s1: "?d s = (Ok ok, s1)" "execute_orphans E txs s1 = (Ok oks1, s')"
    using Cons.prems(1) by (auto simp: comp_iffs split: if_splits)
  obtain ok2 t1 oks2 where t1: "?d t = (Ok ok2, t1)" "execute_orphans E txs t1 = (Ok oks2, t')"
    using Cons.prems(2) by (auto simp: comp_iffs split: if_splits)
  have "sr_view s1 = sr_view t1"
    using dispatch_values(2)[OF Cons.prems(3), of E "tx_function tx" "fst (tx_signature tx)"] s1(1) t1(1)
    by simp
  with Cons.IH s1(2) t1(2) show ?case by blast
qed (simp add: comp_simps)

section \<open>Blocks\<close>

definition crashed :: "'p system \<Rightarrow> bool" where
  "crashed c \<longleftrightarrow> (\<exists>w\<in>set (ms_workers (sy_master c)). \<exists>p. wk_phase (sy_workers c w) = Crashed p)
     \<or> (\<exists>p. ms_phase (sy_master c) = MCrashed p)"

lemma quiet_not_crashed: "quiet_system mid ws c \<Longrightarrow> \<not> crashed c"
  by (auto simp: crashed_def quiet_system_def quiet_def)

lemma author_not_crashed: "author_inv E mid ws P m\<^sub>0 L c \<Longrightarrow> \<not> crashed c"
  unfolding author_inv_def crashed_def by (auto simp: worker_inv_def author_stage_def quiet_def)

lemma valid_not_crashed: "valid_inv E mid ws P m\<^sub>0 L c \<Longrightarrow> \<not> crashed c"
  unfolding valid_inv_def crashed_def by (auto simp: validator_inv_def valid_stage_def quiet_def)

lemma crashed_at_state [simp]: "crashed (at_state m c) = crashed c"
  by (simp add: crashed_def)

lemma author_simD:
  assumes "author_sim E mid ws P m\<^sub>0 L t"
  shows "\<not> crashed (th_sys t)" "sy_result (th_sys t) = None"
proof -
  obtain m where "author_inv E mid ws P m\<^sub>0 L (at_state m (th_sys t))"
    using assms unfolding author_sim_def by blast
  from author_not_crashed[OF this] author_invD(8)[OF this]
  show "\<not> crashed (th_sys t)" "sy_result (th_sys t) = None" by simp_all
qed

lemma valid_simD:
  assumes "valid_sim E mid ws P m\<^sub>0 W g V t"
  shows "\<not> crashed (th_sys t)" "sy_result (th_sys t) = None"
proof -
  obtain m where "valid_inv E mid ws P m\<^sub>0 V (at_state m (th_sys t))"
    using assms unfolding valid_sim_def by blast
  from valid_not_crashed[OF this] valid_invD(5)[OF this]
  show "\<not> crashed (th_sys t)" "sy_result (th_sys t) = None" by simp_all
qed

text \<open>The block of a finished log.\<close>

lemma tagged_append: "tagged w (xs @ ys) = tagged w xs @ tagged w ys"
  by (simp add: tagged_def)

lemma block_parts:
  assumes ok: "log_ok ws P L" and P: "distributed E ws P"
  shows "tagged w (pool_after P L @ orphans_after L) = tagged w (pool_after P L)"
    "orphans_of (pool_after P L @ orphans_after L) = orphans_after L"
    "replayable E ws (pool_after P L @ orphans_after L)"
proof -
  have orph: "tx_tag tx = Orphan" if "tx \<in> set (orphans_after L)" for tx
    by (rule orphans_after_mem(1)[OF ok P that])
  have pool: "\<exists>w\<in>set ws. tx_tag tx = Done w" if "tx \<in> set (pool_after P L)" for tx
    by (rule tagged_pool_member[OF ok distributedD(3)[OF P] that])
  have "tagged w (orphans_after L) = []"
    using orph by (auto simp: tagged_def filter_empty_conv)
  then show "tagged w (pool_after P L @ orphans_after L) = tagged w (pool_after P L)"
    by (simp add: tagged_append)
  have "orphans_of (pool_after P L) = []" "orphans_of (orphans_after L) = orphans_after L"
    using orph pool by (fastforce simp: orphans_of_def filter_empty_conv filter_id_conv)+
  then show "orphans_of (pool_after P L @ orphans_after L) = orphans_after L"
    by (simp add: orphans_of_def)
  have "\<not> names_default_controller E (tx_function tx)" if "tx \<in> set (pool_after P L)" for tx
    using that log_okD(2)[OF ok] distributedD(6)[OF P] by (auto simp: pool_after_def)
  with orph pool orphans_after_mem(2)[OF ok P] show "replayable E ws (pool_after P L @ orphans_after L)"
    using distributedD(1)[OF P] by (auto simp: replayable_def sane_def list_all_iff)
qed

lemma pool_after_untagged:
  assumes "log_ok ws P L" "tx \<in> set (pool_after P L @ orphans_after L)"
  shows "untagged tx \<in> untagged ` set P"
  using assms log_okD(2)[OF assms(1)] by (auto simp: pool_after_def orphans_after_def)

lemma calls_of_log:
  "calls_of w (executed L)
     = map (\<lambda>x. tx_call (snd (fst x))) (filter (\<lambda>x. who x = w \<and> succeeded x) L)"
  by (induction L) (auto simp: calls_of_def executed_def who_def succeeded_def)

text \<open>The calls that a block lists for a worker are those the worker executed.\<close>

lemma block_calls:
  assumes ok: "log_ok ws P L" and full: "complete ws P L" and P: "distributed E ws P"
  shows "map tx_call (tagged w (pool_after P L @ orphans_after L)) = calls_of w (executed L)"
proof (cases "w \<in> set ws")
  case True
  then show ?thesis
    using complete_order[OF ok full distributedD(2)[OF P] True] block_parts(1)[OF ok P]
    by (simp add: calls_of_log)
next
  case False
  have "tagged w (pool_after P L) = []"
    using tagged_pool_member[OF ok distributedD(3)[OF P]] False by (fastforce simp: tagged_def filter_empty_conv)
  moreover have "filter (\<lambda>x. who x = w \<and> succeeded x) L = []"
    using log_okD(1)[OF ok] False by (auto simp: filter_empty_conv)
  ultimately show ?thesis using block_parts(1)[OF ok P] by (simp add: calls_of_log)
qed

text \<open>So what a worker is to validate stays within the keys it owned in the end.\<close>

lemma block_solo:
  assumes "log_ok ws P L" "complete ws P L" "distributed E ws P" and run: "shared_run E m\<^sub>0 L m"
  shows "solo E {k. ts_owner m k = Some w} (map (Pair w) (tagged w (pool_after P L @ orphans_after L)))
    (values_of m\<^sub>0) (values_of m)"
proof (rule solo_calls[OF shared_run_solo[OF run]])
  show "map (\<lambda>(_, tx). tx_call tx) (filter (\<lambda>e. fst e = w) (executed L))
      = map (\<lambda>(_, tx). tx_call tx) (map (Pair w) (tagged w (pool_after P L @ orphans_after L)))"
    using block_calls[OF assms(1-3), of w] by (simp add: calls_of_def split_def comp_def)
qed

text \<open>Validating what was authored, on logs.\<close>

lemma replay_same_values:
  assumes ok: "log_ok ws P L" and full: "complete ws P L" and P: "distributed E ws P"
    and author: "shared_run E m\<^sub>0 L m"
    and valid: "sequential_run E V m\<^sub>1 = (rs, n)" and start: "values_of m\<^sub>1 = values_of m\<^sub>0"
    and replay: "\<forall>e\<in>set V. fst e \<in> set ws'"
      "\<forall>w\<in>set ws'. done_by w V = tagged w (pool_after P L @ orphans_after L)" "set ws \<subseteq> set ws'"
  shows "values_of n = values_of m"
proof -
  have "calls_of w V = calls_of w (executed L)" for w
  proof -
    have V: "calls_of w V = map tx_call (done_by w V)"
      by (simp add: calls_of_def done_by_def split_def comp_def)
    show ?thesis
    proof (cases "w \<in> set ws'")
      case True
      then show ?thesis using V replay(2) block_calls[OF ok full P, of w] by simp
    next
      case False
      then have "done_by w V = []" "w \<notin> set ws"
        using replay(1,3) by (auto simp: done_by_def filter_empty_conv)
      moreover from this have "filter (\<lambda>x. who x = w \<and> succeeded x) L = []"
        using log_okD(1)[OF ok] by (auto simp: filter_empty_conv)
      ultimately show ?thesis using V by (simp add: calls_of_log)
    qed
  qed
  from serializable[OF author start this] valid show ?thesis by auto
qed

text \<open>The simulation of the validation of an authored block.\<close>

lemma authored_validation_starts:
  assumes E: "staking_ok E" and c: "clean_system E mid ws c" and P: "distributed E ws P"
    and L: "author_done E mid ws P (wo_state (sy_world c)) L d" "sy_result d = Some (Authored st blk)"
    and v: "quiet_system mid' ws' v" "ms_orphans (sy_master v) = []" "distinct ws'" "set ws \<subseteq> set ws'"
    and start: "values_of (wo_state (sy_world v)) = values_of (wo_state (sy_world c))"
  obtains v' W g where "call_validate blk v = Some v'" "replayable E ws' (transactions blk)" "parted W"
    "valid_inv E mid' ws' (transactions blk) (wo_state (sy_world v)) [] v'"
    "valid_sim E mid' ws' (transactions blk) (wo_state (sy_world v)) W g [] (th_start v')"
    "to_master (sy_world v') = []"
proof -
  let ?m = "wo_state (sy_world c)"
  obtain m where st: "log_ok ws P L" "complete ws P L" "shared_run E ?m L m"
    and blk: "transactions blk = pool_after P L @ orphans_after L"
    using L by (auto simp: author_done_def state_inv_def block_from_def)
  have wf: "well_formed E (wo_state (sy_world v))"
    using c start by (simp add: clean_system_def well_formed_def)
  have ws': "ws' \<noteq> []" using c v(4) by (auto simp: clean_system_def)
  have rep: "replayable E ws' (transactions blk)"
    using block_parts(3)[OF st(1) P] v(3,4) unfolding blk replayable_def by blast
  obtain v' where v': "call_validate blk v = Some v'"
    "valid_inv E mid' ws' (transactions blk) (wo_state (sy_world v)) [] v'" "to_master (sy_world v') = []"
    by (rule validation_starts[OF v(1,2) ws' wf rep])
  have "wo_state (sy_world v') = wo_state (sy_world v)"
    using valid_invD(1)[OF v'(2)] by (simp add: replay_inv_def)
  then have "valid_sim E mid' ws' (transactions blk) (wo_state (sy_world v))
      (\<lambda>w. {k. ts_owner m k = Some w}) (values_of m) [] (th_start v')"
    using block_solo[OF st(1,2) P st(3)] v'(2) start by (intro valid_sim_start) (simp_all add: blk)
  moreover have "parted (\<lambda>w. {k. ts_owner m k = Some w})" by (auto simp: parted_def)
  ultimately show thesis using that v' rep by blast
qed

text \<open>What validation makes of an authored block.\<close>

lemma authored_validates:
  assumes "staking_ok E" "clean_system E mid ws c" "startable E D ws txs"
    and "call_author E D txs c = Some c'" "thread_run E (th_start c') L t"
    and "sy_result (th_sys t) = Some (Authored st blk)"
    and v: "quiet_system mid' ws' v" "ms_orphans (sy_master v) = []" "distinct ws'" "set ws \<subseteq> set ws'"
    and start: "values_of (wo_state (sy_world v)) = values_of (wo_state (sy_world c))"
  shows "\<exists>v'. call_validate blk v = Some v'
    \<and> (\<forall>V u. thread_run E (th_start v') V u \<longrightarrow> \<not> crashed (th_sys u)
         \<and> (sy_result (th_sys u) = None
            \<or> (\<exists>st'. sy_result (th_sys u) = Some (Validated st') \<and> values_of st' = values_of st)))"
proof -
  obtain P where P: "distributed E ws P" "author_inv E mid ws P (wo_state (sy_world c)) [] c'"
    using startable_starts[OF assms(2,3)] assms(4) by (metis option.inject)
  have L: "author_done E mid ws P (wo_state (sy_world c)) L (th_sys t)"
    using author_thread_run[OF assms(5) author_sim_start[OF P(2)] P(1) assms(1)] author_simD(2) assms(6) by fastforce
  obtain m oks s where st: "log_ok ws P L" "complete ws P L" "st = sr_state s"
    "shared_run E (wo_state (sy_world c)) L m"
    "execute_orphans E (orphans_after L) (sr_new m mid) = (Ok oks, s)"
    and blk: "transactions blk = pool_after P L @ orphans_after L"
    using L assms(6) by (auto simp: author_done_def state_inv_def block_from_def)
  obtain v' W g where v': "call_validate blk v = Some v'" "replayable E ws' (transactions blk)" "parted W"
    "valid_sim E mid' ws' (transactions blk) (wo_state (sy_world v)) W g [] (th_start v')"
    by (rule authored_validation_starts[OF assms(1,2) P(1) L assms(6) v start])
  have "\<not> crashed (th_sys u) \<and> (sy_result (th_sys u) = None
      \<or> (\<exists>st'. sy_result (th_sys u) = Some (Validated st') \<and> values_of st' = values_of st))"
    if run: "thread_run E (th_start v') V u" for V u
    using valid_thread_run[OF run v'(4,3,2) assms(1)]
  proof (elim disjE conjE)
    assume "valid_sim E mid' ws' (transactions blk) (wo_state (sy_world v)) W g (map fst V) u"
    then show ?thesis using valid_simD by blast
  next
    assume d: "valid_done E mid' ws' (transactions blk) (wo_state (sy_world v)) (map fst V) (th_sys u)"
    then obtain n rs oks' q where n: "sequential_run E (map fst V) (wo_state (sy_world v)) = (rs, n)"
      "execute_orphans E (orphans_of (transactions blk)) (sr_new n mid') = (Ok oks', q)"
      "sy_result (th_sys u) = Some (Validated (sr_state q))"
      "\<forall>e\<in>set (map fst V). fst e \<in> set ws'" "\<forall>w\<in>set ws'. done_by w (map fst V) = tagged w (transactions blk)"
      unfolding valid_done_def replay_inv_def by auto
    have "values_of n = values_of m"
      by (rule replay_same_values[OF st(1,2) P(1) st(4) n(1) start n(4) n(5)[unfolded blk] v(4)])
    then have "sr_view (sr_new n mid') = sr_view (sr_new m mid)" by (simp add: view_of_new)
    from execute_orphans_values[OF n(2)[unfolded blk block_parts(2)[OF st(1) P(1)]] st(5) this]
    have "values_of (sr_state q) = values_of st"
      by (simp add: sr_view_def st(3))
    with n(3) d quiet_not_crashed show ?thesis by (auto simp: valid_done_def)
  qed
  with v'(1) show ?thesis by blast
qed


section \<open>Properties\<close>

text \<open>C3. Authoring is safe. On a clean executor with at least one worker, with any distribution
  that gives every transaction to a worker, and for transactions that verify, have different
  ids and do not name the default account as controller: however the critical sections of the threads interleave, no worker and not the master ever
  panics. So no worker is ever asked to forward to a thread without a queue, the master finds every
  transaction it is told about, no assertion of the collection phase or of a commit fails, and no
  orphan fails to execute.\<close>

theorem authoring_never_panics:
  assumes "staking_ok E" "clean_system E mid ws c" "distributer_laws D" "submittable E txs"
  shows "\<exists>c'. call_author E D txs c = Some c'
    \<and> (\<forall>L t. thread_run E (th_start c') L t \<longrightarrow> \<not> crashed (th_sys t))"
proof -
  obtain P c' where c': "call_author E D txs c = Some c'" "distributed E ws P"
    "author_inv E mid ws P (wo_state (sy_world c)) [] c'"
    by (rule author_starts[OF assms(2-4)])
  have "\<not> crashed (th_sys t)" if "thread_run E (th_start c') L t" for L t
    using author_thread_run[OF that author_sim_start[OF c'(3)] c'(2) assms(1)] author_simD(1) quiet_not_crashed
    unfolding author_done_def by blast
  with c'(1) show ?thesis by blast
qed

text \<open>C4. The block that authoring submittable transactions (none of which names the default account as
  controller) on a well-formed chain returns contains the submitted transactions, each exactly once
  and unchanged but for its tag; each is tagged with a worker or as an orphan. For every worker it
  lists the calls that worker executed, in the order in which it executed them, among all the
  dispatches \<open>L\<close> of the run. The state returned is well formed.\<close>

theorem authored_block_lists_executions:
  assumes "staking_ok E" "clean_system E mid ws c" "distributer_laws D" "submittable E txs"
    and "call_author E D txs c = Some c'" "thread_run E (th_start c') L t"
    and "sy_result (th_sys t) = Some (Authored st blk)"
  shows "mset (map tx_id (transactions blk)) = mset (map tx_id txs)
    \<and> (\<forall>tx\<in>set (transactions blk). untagged tx \<in> untagged ` set txs
         \<and> (tx_tag tx = Orphan \<or> (\<exists>w\<in>set ws. tx_tag tx = Done w)))
    \<and> (\<forall>w. map tx_call (tagged w (transactions blk)) = calls_of w (executed L))
    \<and> well_formed E st"
proof -
  obtain P where P: "map untagged P = map untagged txs" "distributed E ws P"
    "author_inv E mid ws P (wo_state (sy_world c)) [] c'"
    using author_starts[OF assms(2-4)] assms(5) by (metis option.inject)
  have L: "author_done E mid ws P (wo_state (sy_world c)) L (th_sys t)"
    using author_thread_run[OF assms(6) author_sim_start[OF P(3)] P(2) assms(1)] author_simD(2) assms(7) by fastforce
  have ok: "log_ok ws P L" "settled_once L" "complete ws P L" and st: "well_formed E st"
    and blk: "transactions blk = pool_after P L @ orphans_after L"
    using L assms(7) by (auto simp: author_done_def block_from_def)
  have "mset (map tx_id (transactions blk)) = mset (map tx_id txs)"
    using pool_and_orphans[OF ok(1,2) distributedD(2)[OF P(2)]] same_untagged(1)[OF P(1)] by (simp add: blk)
  moreover have "untagged tx \<in> untagged ` set txs \<and> (tx_tag tx = Orphan \<or> (\<exists>w\<in>set ws. tx_tag tx = Done w))"
    if "tx \<in> set (transactions blk)" for tx
  proof -
    have "untagged ` set P = untagged ` set txs"
      using P(1) by (metis list.set_map)
    with that pool_after_untagged[OF ok(1)] block_parts(3)[OF ok(1) P(2)] show ?thesis
      by (auto simp: blk replayable_def)
  qed
  ultimately show ?thesis using st block_calls[OF ok(1,3) P(2)] by (auto simp: blk)
qed

text \<open>C1. Every authored block validates. Take the block and the state that any run of authoring
  submittable transactions (none of which names the default account as controller) from a well-formed
  chain returned, and any executor that is not busy, has at least the workers the block names, and
  starts from the same values. Then however the accesses of the validating workers interleave, no
  thread panics, and when the validation returns, every key has the value it has in the authored
  state.\<close>

theorem authored_blocks_validate:
  assumes "staking_ok E" "clean_system E mid ws c" "distributer_laws D" "submittable E txs"
    and "call_author E D txs c = Some c'" "thread_run E (th_start c') L t"
    and "sy_result (th_sys t) = Some (Authored st blk)"
    and v: "quiet_system mid' ws' v" "ms_orphans (sy_master v) = []" "distinct ws'" "set ws \<subseteq> set ws'"
    and start: "values_of (wo_state (sy_world v)) = values_of (wo_state (sy_world c))"
  shows "\<exists>v'. call_validate blk v = Some v'
    \<and> (\<forall>V u. thread_run E (th_start v') V u \<longrightarrow> \<not> crashed (th_sys u)
         \<and> (sy_result (th_sys u) = None
            \<or> (\<exists>st'. sy_result (th_sys u) = Some (Validated st') \<and> values_of st' = values_of st)))"
  by (rule authored_validates[OF assms(1,2) startableI[OF assms(2-4)] assms(5-12)])

end
