(* ===== verification/Progress.thy ===== *)
theory Progress
  imports Concurrent_Executor
begin

text \<open>
  The weight of the messages under way. Whatever a thread does with a message (it may also poll an
  empty queue) lowers it, and as long as the block is not finished some thread has something to do.
\<close>

section \<open>The weight of the messages\<close>

definition load :: "thread_id list \<Rightarrow> 'p world \<Rightarrow> nat" where
  "load ws wo = (\<Sum>w\<in>set ws. 3 * length (to_worker wo w)) + (\<Sum>w\<in>set ws. 2 * length (to_peer wo w))
     + length (to_master wo)"

definition weight :: "'p system \<Rightarrow> nat" where
  "weight c = load (ms_workers (sy_master c)) (sy_world c)
     + (case ms_phase (sy_master c) of
          MCollecting _ \<Rightarrow> 3 * length (ms_workers (sy_master c)) + 1 | MValidating _ \<Rightarrow> 1 | _ \<Rightarrow> 0)"

lemma sum_upd:
  fixes g :: "'a \<Rightarrow> nat"
  assumes "finite A"
  shows "(\<Sum>a\<in>A. k * length ((f(x := y)) a)) + (if x \<in> A then k * length (f x) else 0)
     = (\<Sum>a\<in>A. k * length (f a)) + (if x \<in> A then k * length y else (0::nat))"
proof (cases "x \<in> A")
  case True
  then show ?thesis
    using assms by (simp add: sum.remove[of A x])
next
  case False
  then have "(\<Sum>a\<in>A. k * length ((f(x := y)) a)) = (\<Sum>a\<in>A. k * length (f a))"
    by (intro sum.cong) auto
  with False show ?thesis by simp
qed

lemma load_send:
  "load ws (send_master i p wo) = load ws wo + 1"
  "load ws (send_peer i u p wo) \<le> load ws wo + 2"
  "load ws (wo\<lparr>wo_state := m\<rparr>) = load ws wo"
  using sum_upd[of "set ws" 2 "to_peer wo" u "to_peer wo u @ [new_from_thread i p]"]
  by (auto simp: load_def send_defs split: if_splits)

lemma load_take:
  "w \<in> set ws \<Longrightarrow> to_worker wo w = msg # rest \<Longrightarrow>
     load ws (wo\<lparr>to_worker := (to_worker wo)(w := rest)\<rparr>) + 3 = load ws wo"
  "w \<in> set ws \<Longrightarrow> to_peer wo w = msg # rest \<Longrightarrow>
     load ws (wo\<lparr>to_peer := (to_peer wo)(w := rest)\<rparr>) + 2 = load ws wo"
  using sum_upd[of "set ws" 3 "to_worker wo" w rest] sum_upd[of "set ws" 2 "to_peer wo" w rest]
  by (simp_all add: load_def)

lemma load_report:
  assumes "report_or_forward wk tx r wo = (q, wo')"
  shows "load ws wo' \<le> load ws wo + 2" "tx_exec_status tx = Forwarded \<Longrightarrow> load ws wo' \<le> load ws wo + 1"
proof -
  have "load ws wo' \<le> load ws wo + (if tx_exec_status tx = Forwarded then 1 else 2)"
    using assms load_send(1,2)[of ws]
    by (cases r) (auto simp: report_or_forward_def Let_def load_send(1) split: runtime_dispatch_error.splits if_splits
        execution_status.splits)
  then show "load ws wo' \<le> load ws wo + 2" "tx_exec_status tx = Forwarded \<Longrightarrow> load ws wo' \<le> load ws wo + 1"
    by (auto split: if_splits)
qed

lemma load_execute:
  assumes "execute_or_forward E wk tx wo = (r, wo')"
  shows "load ws wo' \<le> load ws wo + 2" "tx_exec_status tx = Forwarded \<Longrightarrow> load ws wo' \<le> load ws wo + 1"
  using assms load_report[of wk tx _ "wo\<lparr>wo_state := _\<rparr>" r wo' ws]
  by (auto simp: execute_or_forward_def load_send(3) split: prod.splits)

lemma load_from_master:
  assumes step: "worker_from_master E wk wo = (wk', wo')" and w: "wk_id wk \<in> set ws"
    and queue: "to_worker wo (wk_id wk) = msg # rest" and "running (wk_phase wk)"
  shows "load ws wo' < load ws wo"
proof -
  let ?wo1 = "wo\<lparr>to_worker := (to_worker wo)(wk_id wk := rest)\<rparr>"
  have pop: "load ws ?wo1 + 3 = load ws wo" by (rule load_take(1)[OF w queue])
  have "load ws wo' \<le> load ws ?wo1 + 2"
  proof (cases "wk_phase wk")
    case (Depleting ex fw outs)
    then have "deplete_master_queue E msg ex fw outs wk ?wo1 = (wk', wo')"
      using step queue by (simp add: worker_from_master_def)
    then show ?thesis
      using load_execute(1)[of E wk _ ?wo1 _ _ ws]
      by (auto simp: deplete_master_queue_def deplete_outcome_def load_send split: if_splits message_payload.splits
          prod.splits rs.splits execution_outcome.splits)
  next
    case (Validation outs)
    then have "run_validate E msg outs wk ?wo1 = (wk', wo')"
      using step queue by (simp add: worker_from_master_def)
    then show ?thesis
      by (auto simp: run_validate_def validate_outcome_def validate_transaction_def load_send split: if_splits message_payload.splits prod.splits rs.splits)
  qed (use step queue assms(4) in \<open>auto simp: worker_from_master_def Let_def\<close>)
  with pop show ?thesis by linarith
qed

lemma load_from_peer:
  assumes step: "worker_from_others E wk wo = (wk', wo')" and w: "wk_id wk \<in> set ws"
    and queue: "to_peer wo (wk_id wk) = msg # rest" and serving: "wk_phase wk = Serving"
  shows "load ws wo' < load ws wo"
proof -
  let ?wo1 = "wo\<lparr>to_peer := (to_peer wo)(wk_id wk := rest)\<rparr>"
  have pop: "load ws ?wo1 + 2 = load ws wo" by (rule load_take(2)[OF w queue])
  have run: "author_from_others E msg wk ?wo1 = (wk', wo')"
    using step queue serving by (simp add: worker_from_others_def)
  have "load ws wo' \<le> load ws ?wo1 + 1"
  proof (cases "payload msg")
    case (TransactionMsg tx)
    let ?tx = "tx\<lparr>tx_exec_status := Forwarded\<rparr>"
    obtain r wo2 where r: "execute_or_forward E wk ?tx ?wo1 = (r, wo2)" by fastforce
    then have "wo' = wo2"
      using run TransactionMsg by (auto simp: author_from_others_def serve_outcome_def split: rs.splits)
    with load_execute(2)[OF r] show ?thesis by simp
  qed (use run in \<open>auto simp: author_from_others_def serve_outcome_def\<close>)
  with pop show ?thesis by linarith
qed

lemma load_broadcast:
  assumes "distinct (ms_workers ma)"
  shows "load (ms_workers ma) (broadcast ma p wo) = load (ms_workers ma) wo + 3 * length (ms_workers ma)"
proof -
  let ?ws = "ms_workers ma"
  have "(\<Sum>w\<in>set ?ws. 3 * length (to_worker (broadcast ma p wo) w))
      = (\<Sum>w\<in>set ?ws. 3 * length (to_worker wo w) + 3)"
    by (rule sum.cong) (simp_all add: broadcast_to_worker[OF assms])
  then show ?thesis
    by (simp add: load_def broadcast_world sum.distrib distinct_card[OF assms])
qed

section \<open>Every step that does something lowers the weight\<close>

lemma orphan_pool_world:
  assumes "execute_orphan_pool E ma wo = (ma', wo')"
  shows "ms_workers ma' = ms_workers ma" "load ws wo' = load ws wo"
    "ms_phase ma' = MReady \<or> (\<exists>p. ms_phase ma' = MCrashed p)"
  using assms execute_orphans_no_Err[of E "ms_orphans ma" "sr_new (wo_state wo) (ms_id ma)"]
  by (auto simp: execute_orphan_pool_def load_send mcrash_def split: prod.splits rs.splits)

lemma author_end_world:
  assumes "author_block_end E col ma wo = ((ma', wo'), res)" "distinct (ms_workers ma)"
  shows "ms_workers ma' = ms_workers ma"
    "load (ms_workers ma) wo' \<le> load (ms_workers ma) wo + 3 * length (ms_workers ma)"
    "ms_phase ma' = MReady \<or> (\<exists>p. ms_phase ma' = MCrashed p)"
proof -
  obtain ma1 wo1 where r: "execute_orphan_pool E ma (broadcast ma TaskDone wo) = (ma1, wo1)" by fastforce
  note o = orphan_pool_world[OF r] and b = load_broadcast[OF assms(2), of TaskDone wo]
  show "ms_workers ma' = ms_workers ma"
    "load (ms_workers ma) wo' \<le> load (ms_workers ma) wo + 3 * length (ms_workers ma)"
    "ms_phase ma' = MReady \<or> (\<exists>p. ms_phase ma' = MCrashed p)"
    using assms(1) r o(1,3) o(2)[of "ms_workers ma"] b
    by (auto simp: author_block_end_def mcrash_def split: if_splits)
qed

lemma collection_weight:
  assumes run: "collection_iteration E col ma wo = ((ma', wo'), res)" and d: "distinct (ms_workers ma)"
    and phase: "ms_phase ma = MCollecting col"
  shows "ms_workers ma' = ms_workers ma"
    "to_master wo = [] \<and> \<not> collection_finished ma col \<and> ma' = ma \<and> wo' = wo \<and> res = None
     \<or> load (ms_workers ma) wo' + (case ms_phase ma' of
          MCollecting _ \<Rightarrow> 3 * length (ms_workers ma) + 1 | MValidating _ \<Rightarrow> 1 | _ \<Rightarrow> 0)
       < load (ms_workers ma) wo + (3 * length (ms_workers ma) + 1)"
proof -
  have "ms_workers ma' = ms_workers ma \<and> (to_master wo = [] \<and> \<not> collection_finished ma col
      \<and> ma' = ma \<and> wo' = wo \<and> res = None
     \<or> load (ms_workers ma) wo' + (case ms_phase ma' of
          MCollecting _ \<Rightarrow> 3 * length (ms_workers ma) + 1 | MValidating _ \<Rightarrow> 1 | _ \<Rightarrow> 0)
       < load (ms_workers ma) wo + (3 * length (ms_workers ma) + 1))"
  proof (cases "to_master wo")
    case Nil
    show ?thesis
    proof (cases "collection_finished ma col")
      case True
      then have "author_block_end E col ma wo = ((ma', wo'), res)"
        using run Nil by (simp add: collection_iteration_def)
      from author_end_world[OF this d] show ?thesis by auto
    next
      case False
      then have "ma' = ma\<lparr>ms_phase := MCollecting col\<rparr>" "wo' = wo" "res = None"
        using run Nil by (auto simp: collection_iteration_def)
      with False Nil phase show ?thesis by simp
    qed
  next
    case (Cons msg rest)
    let ?wo = "wo\<lparr>to_master := rest\<rparr>"
    have pop: "load ws ?wo + 1 = load ws wo" for ws using Cons by (simp add: load_def)
    show ?thesis
    proof (cases "collect_message E msg (ma, col)")
      case (Inl m)
      with run Cons pop[of "ms_workers ma"] show ?thesis
        by (auto simp: collection_iteration_def mcrash_def)
    next
      case (Inr s)
      obtain ma1 col1 where s: "s = (ma1, col1)" by fastforce
      note f = collect_message_frame(2)[OF Inr[unfolded s]]
      show ?thesis
      proof (cases "collection_finished ma1 col1")
        case True
        then have "author_block_end E col1 ma1 ?wo = ((ma', wo'), res)"
          using run Cons Inr s by (simp add: collection_iteration_def)
        from author_end_world[OF this] d f pop[of "ms_workers ma"] show ?thesis by auto
      next
        case False
        then have "ma' = ma1\<lparr>ms_phase := MCollecting col1\<rparr>" "wo' = ?wo"
          using run Cons Inr s by (auto simp: collection_iteration_def)
        with f pop[of "ms_workers ma"] show ?thesis by simp
      qed
    qed
  qed
  then show "ms_workers ma' = ms_workers ma"
    "to_master wo = [] \<and> \<not> collection_finished ma col \<and> ma' = ma \<and> wo' = wo \<and> res = None
     \<or> load (ms_workers ma) wo' + (case ms_phase ma' of
          MCollecting _ \<Rightarrow> 3 * length (ms_workers ma) + 1 | MValidating _ \<Rightarrow> 1 | _ \<Rightarrow> 0)
       < load (ms_workers ma) wo + (3 * length (ms_workers ma) + 1)"
    by blast+
qed

lemma validation_weight:
  assumes run: "validation_iteration E n ma wo = ((ma', wo'), res)"
    and phase: "ms_phase ma = MValidating n"
  shows "ms_workers ma' = ms_workers ma"
    "to_master wo = [] \<and> n \<noteq> length (ms_workers ma) \<and> ma' = ma \<and> wo' = wo \<and> res = None
     \<or> load ws wo' + (case ms_phase ma' of MCollecting _ \<Rightarrow> k | MValidating _ \<Rightarrow> 1 | _ \<Rightarrow> 0)
       < load ws wo + 1"
proof -
  have "ms_workers ma' = ms_workers ma \<and>
    (to_master wo = [] \<and> n \<noteq> length (ms_workers ma) \<and> ma' = ma \<and> wo' = wo \<and> res = None
     \<or> load ws wo' + (case ms_phase ma' of MCollecting _ \<Rightarrow> k | MValidating _ \<Rightarrow> 1 | _ \<Rightarrow> 0)
       < load ws wo + 1)"
  proof -
    have finish: ?thesis
      if r: "execute_orphan_pool E ma wo1 = (ma', wo')" and "load ws wo1 \<le> load ws wo" for wo1
      using orphan_pool_world(1,3)[OF r] orphan_pool_world(2)[OF r, of ws] that(2) by auto
    show ?thesis
    proof (cases "to_master wo")
      case Nil
      with run phase finish[of wo] show ?thesis
        by (auto simp: validation_iteration_def split: if_splits prod.splits)
    next
      case (Cons msg rest)
      let ?wo = "wo\<lparr>to_master := rest\<rparr>"
      have pop: "load ws ?wo + 1 = load ws wo" using Cons by (simp add: load_def)
      with run Cons finish[of ?wo] show ?thesis
        by (cases "payload msg = ValidationReport")
          (auto simp: validation_iteration_def mcrash_def split: if_splits prod.splits message_payload.splits)
    qed
  qed
  then show "ms_workers ma' = ms_workers ma"
    "to_master wo = [] \<and> n \<noteq> length (ms_workers ma) \<and> ma' = ma \<and> wo' = wo \<and> res = None
     \<or> load ws wo' + (case ms_phase ma' of MCollecting _ \<Rightarrow> k | MValidating _ \<Rightarrow> 1 | _ \<Rightarrow> 0)
       < load ws wo + 1" by blast+
qed

section \<open>Some thread can do something\<close>

lemma step_from_master:
  assumes w: "w \<in> set (ms_workers (sy_master c))" "running (wk_phase (sy_workers c w))"
    and id: "wk_id (sy_workers c w) = w" and queue: "to_worker (sy_world c) w \<noteq> []"
  shows "\<exists>fs c'. sys_step E c fs c' \<and> c' \<noteq> c"
proof -
  obtain msg rest where q: "to_worker (sy_world c) w = msg # rest" using queue by (cases "to_worker (sy_world c) w") auto
  obtain wk' wo' where r: "worker_from_master E (sy_workers c w) (sy_world c) = (wk', wo')" by fastforce
  have "load (ms_workers (sy_master c)) wo' < load (ms_workers (sy_master c)) (sy_world c)"
    by (rule load_from_master[OF r]) (use w id q in simp_all)
  then have "c\<lparr>sy_workers := (sy_workers c)(w := wk'), sy_world := wo'\<rparr> \<noteq> c"
    by (metis less_irrefl system.select_convs(1) system.surjective system.update_convs(1,2))
  with sys_step.from_master[OF w q r] show ?thesis by blast
qed

lemma step_from_peer:
  assumes w: "w \<in> set (ms_workers (sy_master c))" "wk_phase (sy_workers c w) = Serving"
    and id: "wk_id (sy_workers c w) = w" and queue: "to_peer (sy_world c) w \<noteq> []"
  shows "\<exists>fs c'. sys_step E c fs c' \<and> c' \<noteq> c"
proof -
  obtain msg rest where q: "to_peer (sy_world c) w = msg # rest" using queue by (cases "to_peer (sy_world c) w") auto
  obtain wk' wo' where r: "worker_from_others E (sy_workers c w) (sy_world c) = (wk', wo')" by fastforce
  have "load (ms_workers (sy_master c)) wo' < load (ms_workers (sy_master c)) (sy_world c)"
    by (rule load_from_peer[OF r]) (use w id q in simp_all)
  then have "c\<lparr>sy_workers := (sy_workers c)(w := wk'), sy_world := wo'\<rparr> \<noteq> c"
    by (metis less_irrefl system.select_convs(1) system.surjective system.update_convs(1,2))
  with sys_step.from_peer[OF w q r] show ?thesis by blast
qed

lemma step_collects:
  assumes phase: "ms_phase (sy_master c) = MCollecting col" and d: "distinct (ms_workers (sy_master c))"
    and more: "to_master (sy_world c) \<noteq> [] \<or> collection_finished (sy_master c) col"
  shows "\<exists>fs c'. sys_step E c fs c' \<and> c' \<noteq> c"
proof -
  obtain ma' wo' res where r: "collection_iteration E col (sy_master c) (sy_world c) = ((ma', wo'), res)"
    by (metis surj_pair)
  let ?c = "c\<lparr>sy_master := ma', sy_world := wo', sy_result := res\<rparr>"
  have "weight ?c < weight c"
    using collection_weight[OF r d phase] more phase
    by (auto simp: weight_def split: master_phase.splits)
  then have "?c \<noteq> c" by auto
  with sys_step.collects[OF phase r] show ?thesis by blast
qed

lemma step_validates:
  assumes phase: "ms_phase (sy_master c) = MValidating n"
    and more: "to_master (sy_world c) \<noteq> [] \<or> n = length (ms_workers (sy_master c))"
  shows "\<exists>fs c'. sys_step E c fs c' \<and> c' \<noteq> c"
proof -
  obtain ma' wo' res where r: "validation_iteration E n (sy_master c) (sy_world c) = ((ma', wo'), res)"
    by (metis surj_pair)
  let ?c = "c\<lparr>sy_master := ma', sy_world := wo', sy_result := res\<rparr>"
  have "weight ?c < weight c"
    using validation_weight(1)[OF r phase] more phase
      validation_weight(2)[OF r phase, of "ms_workers (sy_master c)" "3 * length (ms_workers (sy_master c)) + 1"]
    by (auto simp: weight_def split: master_phase.splits)
  then have "?c \<noteq> c" by auto
  with sys_step.validates[OF phase r] show ?thesis by blast
qed

lemma author_progress:
  assumes inv: "author_inv E mid ws P m\<^sub>0 L c" and P: "distributed E ws P"
  shows "\<exists>fs c'. sys_step E c fs c' \<and> c' \<noteq> c"
proof -
  note ws = author_invD(6)[OF inv]
  have wk: "wk_id (sy_workers c w) = w" "running (wk_phase (sy_workers c w))"
    "to_worker (sy_world c) w = [] \<Longrightarrow> wk_phase (sy_workers c w) = Serving"
    if "w \<in> set ws" for w
    using author_invD(4)[OF inv that] by (auto simp: worker_inv_def author_stage_def quiet_def)
  consider (master) w where "w \<in> set ws" "to_worker (sy_world c) w \<noteq> []"
    | (peer) w where "w \<in> set ws" "to_worker (sy_world c) w = []" "to_peer (sy_world c) w \<noteq> []"
    | (idle) "\<forall>w\<in>set ws. to_worker (sy_world c) w = [] \<and> to_peer (sy_world c) w = []" by blast
  then show ?thesis
  proof cases
    case master
    show ?thesis by (rule step_from_master[of w]) (use master wk ws in simp_all)
  next
    case peer
    show ?thesis by (rule step_from_peer[of w]) (use peer wk ws in simp_all)
  next
    case idle
    obtain col s where s: "ms_phase (sy_master c) = MCollecting col"
      "collect_all E (to_master (sy_world c)) (sy_master c, col) = Inr s" "master_view ws P (reporting c) L s"
      using inv unfolding author_inv_def by blast
    have "collection_finished (sy_master c) col" if "to_master (sy_world c) = []"
    proof -
      note ok = author_invD(1)[OF inv]
      have s': "s = (sy_master c, col)" using s(2) that by simp
      have rep: "reporting c = set ws" using idle wk(3) ws by (auto simp: reporting_def)
      have "handled u L = forwards_to u L" if "u \<in> set ws" for u
        using author_invD(5)[OF inv that] idle that by (simp add: peer_inv_def)
      then have "(\<Sum>u\<in>set ws. length (handled u L)) = (\<Sum>u\<in>set ws. length (forwards_to u L))"
        by (intro sum.cong) auto
      moreover have "(\<Sum>w\<in>set ws. own_first w False L) = length (filter (\<lambda>x. first x \<and> \<not> succeeded x) L)"
        unfolding own_first_def
        using count_by_worker[of "set ws" L "\<lambda>x. first x \<and> \<not> succeeded x" who] log_okD(1)[OF ok] by simp
      ultimately show ?thesis
        using s(3) unsettled_in_flight[OF ok] ws distinct_card[OF distributedD(1)[OF P]]
        by (simp add: s' rep master_view_def collection_finished_def orphans_after_def)
    qed
    then show ?thesis
      using step_collects[OF s(1)] ws distributedD(1)[OF P] by blast
  qed
qed

lemma valid_progress:
  assumes inv: "valid_inv E mid ws P m\<^sub>0 L c" and "distinct ws"
  shows "\<exists>fs c'. sys_step E c fs c' \<and> c' \<noteq> c"
proof -
  note ws = valid_invD(4)[OF inv]
  have wk: "wk_id (sy_workers c w) = w" "running (wk_phase (sy_workers c w))"
    "to_worker (sy_world c) w = [] \<Longrightarrow> wk_phase (sy_workers c w) = Idle"
    if "w \<in> set ws" for w
    using valid_invD(7)[OF inv that] by (auto simp: validator_inv_def valid_stage_def quiet_def)
  show ?thesis
  proof (cases "\<exists>w\<in>set ws. to_worker (sy_world c) w \<noteq> []")
    case True
    then obtain w where w: "w \<in> set ws" "to_worker (sy_world c) w \<noteq> []" by blast
    show ?thesis by (rule step_from_master[of w]) (use w wk ws in simp_all)
  next
    case False
    obtain n where n: "ms_phase (sy_master c) = MValidating n"
      "n + length (to_master (sy_world c)) = card (finished_workers c)"
      using inv unfolding valid_inv_def by blast
    have "finished_workers c = set ws" using False wk(3) ws by (auto simp: finished_workers_def)
    then have "to_master (sy_world c) \<noteq> [] \<or> n = length (ms_workers (sy_master c))"
      using n(2) ws distinct_card[OF assms(2)] by auto
    then show ?thesis by (rule step_validates[OF n(1)])
  qed
qed

end
