(* ===== verification/Termination.thy ===== *)
theory Termination
  imports Progress
begin

text \<open>
  Authoring and validating come to an end under every interleaving. A dispatch under way has a
  rank, the critical sections it still needs at most; taking a message outweighs the rank of the
  dispatch it starts. So every step but an idle poll of an empty queue lowers one number, and as
  long as the block is not finished some thread can make such a step.
\<close>

section \<open>The weight of a configuration\<close>

fun rank :: "activity \<Rightarrow> nat" where
  "rank Resting = 3 * max_accesses + 3"
| "rank (Accessing h c p) = max_accesses + 1 + 2 * (max_accesses - length h) + (if p = None then 1 else 0)"
| "rank (Committing r es) = length es"
| "rank (Replaying h) = max_accesses - length h"

definition thread_weight :: "'p threads \<Rightarrow> nat" where
  "thread_weight t = (3 * max_accesses + 4) * weight (th_sys t)
     + (\<Sum>w\<in>set (ms_workers (sy_master (th_sys t))). rank (th_activity t w))"

text \<open>What a dispatch under way keeps, in both tasks.\<close>

definition sound :: "('p, 'z) staking_env_scheme \<Rightarrow> 'p threads \<Rightarrow> thread_id \<Rightarrow> bool" where
  "sound E t w \<longleftrightarrow> (case th_activity t w of
     Resting \<Rightarrow> True
   | Accessing h c p \<Rightarrow> worker_in (th_sys t) w \<and> length (entries c) \<le> length h
       \<and> (\<exists>s s'. performs CR h s = Some s')
       \<and> (\<exists>tx. dispatching E (sy_workers (th_sys t) w) (sy_world (th_sys t)) = Some tx
            \<and> resume (call_code E tx) h \<noteq> Stuck
            \<and> (p \<noteq> None \<longrightarrow> (\<exists>x. resume (call_code E tx) h = Asks x)))
   | Committing r es \<Rightarrow> worker_in (th_sys t) w
       \<and> (\<exists>tx. dispatching E (sy_workers (th_sys t) w) (sy_world (th_sys t)) = Some tx)
   | Replaying h \<Rightarrow> worker_in (th_sys t) w \<and> (\<exists>s s'. performs SR h s = Some s')
       \<and> (\<exists>tx. dispatching E (sy_workers (th_sys t) w) (sy_world (th_sys t)) = Some tx
            \<and> resume (call_code E tx) h \<noteq> Stuck))"

text \<open>What makes the weight count: the ids of the workers, and no result while one is computed.\<close>

definition weighable :: "('p, 'z) staking_env_scheme \<Rightarrow> thread_id list \<Rightarrow> 'p threads \<Rightarrow> bool" where
  "weighable E ws t \<longleftrightarrow> ms_workers (sy_master (th_sys t)) = ws \<and> distinct ws
     \<and> (\<forall>w\<in>set ws. wk_id (sy_workers (th_sys t) w) = w)
     \<and> (sy_result (th_sys t) = None \<or> ms_phase (sy_master (th_sys t)) = MReady) \<and> (\<forall>w. sound E t w)"

lemma cache_size: "length (entries (fmupd k v c)) \<le> length (entries c) + 1"
proof -
  have "length (entries m) = fcard (fmdom m)" for m :: "('a::linorder, 'b) fmap"
    by (simp add: sorted_list_of_fmap_def sorted_list_of_fset.rep_eq fcard.rep_eq)
  then show ?thesis by (simp add: fcard_finsert_if)
qed

lemma settles_size:
  "settles w m h c = Some c' \<Longrightarrow> length (entries c') \<le> length (entries c) + length h"
proof (induction h arbitrary: c)
  case (Cons y h)
  obtain x rep where y: "y = (x, rep)" by fastforce
  then obtain r c1 where c1: "cr_answer x r c = (rep, c1)" "settles w m h c1 = Some c'"
    using Cons.prems by (auto split: prod.splits if_splits)
  have "length (entries c1) \<le> length (entries c) + 1"
    using c1(1) cache_size by (cases "(x, r, c)" rule: cr_answer.cases) auto
  with Cons.IH[OF c1(2)] show ?case by simp
qed simp

lemma entries_empty: "entries fmempty = []"
  by (simp add: sorted_list_of_fmap_def sorted_list_of_fset.rep_eq)

section \<open>The end of a dispatch\<close>

lemma load_finish:
  assumes fin: "finish_dispatch wk tx r wo = (wk', wo')" and w: "wk_id wk \<in> set ws"
    and tx: "dispatching E wk wo = Some tx"
  shows "load ws wo' < load ws wo"
proof -
  let ?w = "wk_id wk"
  let ?wo1 = "wo\<lparr>to_worker := (to_worker wo)(?w := tl (to_worker wo ?w))\<rparr>"
  let ?wo2 = "wo\<lparr>to_peer := (to_peer wo)(?w := tl (to_peer wo ?w))\<rparr>"
  obtain q1 wo1 where 1: "report_or_forward wk tx r ?wo1 = (q1, wo1)" by fastforce
  obtain q2 wo2 where 2: "report_or_forward wk tx r ?wo2 = (q2, wo2)" by fastforce
  have head: "\<exists>msg rest. msgs = msg # rest" if "head_tx msgs ok = Some x" for msgs :: "'a message list" and ok x
    using that by (auto simp: head_tx_def split: list.splits)
  have one: "load ws ?wo1 + 3 = load ws wo" if "to_worker wo ?w \<noteq> []"
    using that load_take(1)[OF w] by (cases "to_worker wo ?w") auto
  have two: "load ws ?wo2 + 2 = load ws wo" if "to_peer wo ?w \<noteq> []"
    using that load_take(2)[OF w] by (cases "to_peer wo ?w") auto
  show ?thesis
  proof (cases "wk_phase wk")
    case (Depleting ex fw outs)
    then have "to_worker wo ?w \<noteq> []" using tx head by (fastforce simp: dispatching_def)
    moreover have "wo' = wo1" using fin 1 Depleting by (auto simp: finish_dispatch_def Let_def dest: outcome_world)
    ultimately show ?thesis using load_report(1)[OF 1, of ws] one by simp
  next
    case Serving
    then have "to_peer wo ?w \<noteq> []" using tx head by (fastforce simp: dispatching_def)
    moreover have "wo' = wo2" using fin 2 Serving by (auto simp: finish_dispatch_def Let_def dest: outcome_world)
    moreover have "tx_exec_status tx = Forwarded" using tx Serving by (auto simp: dispatching_def)
    ultimately show ?thesis using load_report(2)[OF 2, of ws] two by simp
  next
    case (Validation outs)
    then have "to_worker wo ?w \<noteq> []" using tx head by (fastforce simp: dispatching_def)
    moreover have "wo' = ?wo1" using fin Validation by (auto simp: finish_dispatch_def Let_def dest: outcome_world)
    ultimately show ?thesis using one by simp
  qed (use tx in \<open>simp_all add: dispatching_def\<close>)
qed

section \<open>Every step that does something lowers the weight\<close>

lemma weight_at_state [simp]: "weight (at_state m c) = weight c"
  by (simp add: weight_def load_send(3) cong: master_phase.case_cong)

lemma weight_worker:
  "load (ms_workers (sy_master c)) wo < load (ms_workers (sy_master c)) (sy_world c) \<Longrightarrow>
     weight (set_worker w wk wo c) < weight c"
  by (simp add: weight_def split: master_phase.split)

lemma rank_sum:
  assumes "w \<in> set ws"
  shows "(\<Sum>v\<in>set ws. rank ((f(w := a)) v)) + rank (f w) = (\<Sum>v\<in>set ws. rank (f v)) + rank a"
  using assms by (simp add: sum.remove[of "set ws" w])

lemma less_by_weight:
  assumes "weight (th_sys t') < weight (th_sys t)"
    and "ms_workers (sy_master (th_sys t')) = ms_workers (sy_master (th_sys t))"
    and "(\<Sum>v\<in>set (ms_workers (sy_master (th_sys t))). rank (th_activity t' v))
      \<le> (\<Sum>v\<in>set (ms_workers (sy_master (th_sys t))). rank (th_activity t v)) + (3 * max_accesses + 3)"
  shows "thread_weight t' < thread_weight t"
proof -
  have "(3 * max_accesses + 4) * (weight (th_sys t') + 1) \<le> (3 * max_accesses + 4) * weight (th_sys t)"
    using assms(1) by (intro mult_le_mono2) simp
  with assms(2,3) show ?thesis by (simp add: thread_weight_def distrib_left)
qed

lemma less_by_rank:
  assumes "w \<in> set (ms_workers (sy_master (th_sys t)))" "rank a < rank (th_activity t w)"
  shows "thread_weight (set_activity w a m t) < thread_weight t"
  using rank_sum[OF assms(1), of "th_activity t" a] assms(2) by (simp add: thread_weight_def)

lemma less_by_end:
  assumes "load (ms_workers (sy_master (th_sys t))) wo < load (ms_workers (sy_master (th_sys t))) (sy_world (th_sys t))"
    and "w \<in> set (ms_workers (sy_master (th_sys t)))"
  shows "thread_weight (t\<lparr>th_sys := set_worker w wk wo (th_sys t), th_activity := (th_activity t)(w := Resting)\<rparr>)
    < thread_weight t"
  using rank_sum[OF assms(2), of "th_activity t" Resting] weight_worker[OF assms(1)]
  by (intro less_by_weight) simp_all

lemma access_room:
  "performs R h s = Some s' \<Longrightarrow> resume (call_code E tx) h = Asks x \<Longrightarrow> length h < max_accesses"
  by (erule resume_Asks[OF traced_outer_dispatch], assumption, drule traceD(2)) simp

lemma access_length:
  "performs R h s = Some s' \<Longrightarrow> resume (call_code E tx) h \<noteq> Stuck \<Longrightarrow> length h \<le> max_accesses"
  by (rule resume_length[OF traced_outer_dispatch])

lemma worker_step_weight:
  assumes ok: "weighable E ws t" and w: "w \<in> set ws" "running (wk_phase (sy_workers (th_sys t) w))"
    and step: "worker_step E w t es t'"
  shows "thread_weight t' < thread_weight t"
proof -
  have ws: "ms_workers (sy_master (th_sys t)) = ws" and id: "wk_id (sy_workers (th_sys t) w) = w"
    and s: "sound E t w"
    using ok w(1) by (auto simp: weighable_def)
  note rank = less_by_rank[where w = w and t = t, unfolded ws, OF w(1)]
  from step show ?thesis
  proof cases
    case (takes msg rest wk' wo')
    have "load ws wo' < load ws (sy_world (th_sys t))"
      by (rule load_from_master[OF takes(6)]) (use w takes(4) id in simp_all)
    then show ?thesis unfolding takes(2) by (intro less_by_weight) (simp_all add: ws weight_worker)
  next
    case (takes_peer msg rest wk' wo')
    have "load ws wo' < load ws (sy_world (th_sys t))"
      by (rule load_from_peer[OF takes_peer(7)]) (use w takes_peer(4,5) id in simp_all)
    then show ?thesis unfolding takes_peer(2) by (intro less_by_weight) (simp_all add: ws weight_worker)
  next
    case (begins tx a)
    then show ?thesis by (auto intro!: rank split: worker_phase.split)
  next
    case (shared_section h c tx x a)
    then have "length h < max_accesses"
      using s access_room by (auto simp: sound_def)
    then show ?thesis
      unfolding shared_section(2)
      by (intro rank) (auto simp: shared_section(3,6) split: sum.split prod.split)
  next
    case (excl_section h c p tx x r m' rep c')
    then have "length h < max_accesses"
      using s access_room by (auto simp: sound_def)
    then show ?thesis
      unfolding excl_section(2) by (intro rank) (simp add: excl_section(3))
  next
    case (call_returns h c tx r)
    then obtain s1 s2 where "length (entries c) \<le> length h" "performs CR h s1 = Some s2"
      using s by (auto simp: sound_def)
    with access_length[of CR h s1 s2 E tx] call_returns(5) have "length (entries c) \<le> max_accesses" by simp
    then show ?thesis
      unfolding call_returns(2) by (intro rank) (simp add: call_returns(3))
  next
    case (commits r e es' q s' a)
    then show ?thesis unfolding commits(2) by (intro rank) (simp split: rs.split)
  next
    case (finishes r tx wk' wo')
    have "load ws wo' < load ws (sy_world (th_sys t))"
      by (rule load_finish[OF finishes(5) _ finishes(4)]) (use w id in simp)
    then show ?thesis unfolding finishes(2) by (intro less_by_end) (simp_all add: ws w(1))
  next
    case (replays h tx x rep s')
    then have "length h < max_accesses"
      using s access_room by (auto simp: sound_def)
    then show ?thesis unfolding replays(2) by (intro rank) (simp add: replays(3))
  next
    case (replayed h tx r wk' wo')
    have "load ws wo' < load ws (sy_world (th_sys t))"
      by (rule load_finish[OF replayed(6) _ replayed(4)]) (use w id in simp)
    then show ?thesis unfolding replayed(2) by (intro less_by_end) (simp_all add: ws w(1))
  qed
qed

lemma thread_step_weight:
  assumes ok: "weighable E ws t" and step: "thread_step E t es t'"
  shows "t' = t \<or> thread_weight t' < thread_weight t"
proof -
  have ws: "ms_workers (sy_master (th_sys t)) = ws" "distinct ws"
    "sy_result (th_sys t) = None \<or> ms_phase (sy_master (th_sys t)) = MReady"
    using ok by (auto simp: weighable_def)
  from step show ?thesis
  proof cases
    case (worker w)
    with worker_step_weight[OF ok _ _ worker(2)] show ?thesis by (simp add: worker_in_def ws)
  next
    case (master_collects col ma' wo' res)
    note c = collection_weight[OF master_collects(4) _ master_collects(3), unfolded ws(1), OF ws(2)]
    from c(2) show ?thesis
    proof
      assume "to_master (sy_world (th_sys t)) = [] \<and> \<not> collection_finished (sy_master (th_sys t)) col
        \<and> ma' = sy_master (th_sys t) \<and> wo' = sy_world (th_sys t) \<and> res = None"
      then show ?thesis using master_collects(2,3) ws(3) by simp
    next
      assume "load ws wo' + (case ms_phase ma' of
          MCollecting _ \<Rightarrow> 3 * length ws + 1 | MValidating _ \<Rightarrow> 1 | _ \<Rightarrow> 0)
        < load ws (sy_world (th_sys t)) + (3 * length ws + 1)"
      then have "weight (th_sys t') < weight (th_sys t)"
        using c(1) master_collects(2,3) ws(1) by (simp add: weight_def split: master_phase.splits)
      then show ?thesis
        using c(1) master_collects(2) ws(1) by (intro disjI2 less_by_weight) simp_all
    qed
  next
    case (master_validates n ma' wo' res)
    note c = validation_weight[OF master_validates(4,3)]
    from c(2)[of ws "3 * length ws + 1"] show ?thesis
    proof
      assume "to_master (sy_world (th_sys t)) = [] \<and> n \<noteq> length (ms_workers (sy_master (th_sys t)))
        \<and> ma' = sy_master (th_sys t) \<and> wo' = sy_world (th_sys t) \<and> res = None"
      then show ?thesis using master_validates(2,3) ws(3) by simp
    next
      assume "load ws wo' + (case ms_phase ma' of
          MCollecting _ \<Rightarrow> 3 * length ws + 1 | MValidating _ \<Rightarrow> 1 | _ \<Rightarrow> 0)
        < load ws (sy_world (th_sys t)) + 1"
      then have "weight (th_sys t') < weight (th_sys t)"
        using c(1) master_validates(2,3) ws(1) by (simp add: weight_def split: master_phase.splits)
      then show ?thesis
        using c(1) master_validates(2) ws(1) by (intro disjI2 less_by_weight) simp_all
    qed
  qed
qed

section \<open>Both tasks keep what the weight needs\<close>

lemma authoring_running: "authoring p \<Longrightarrow> running p"
  by (cases p) simp_all

lemma author_weighable:
  assumes sim: "author_sim E mid ws P m\<^sub>0 L t" and d: "distinct ws"
  shows "weighable E ws t"
proof -
  obtain m dn where inv: "author_inv E mid ws P m\<^sub>0 L (at_state m (th_sys t))"
    and ok: "\<And>w. activity_ok E ws t m dn w"
    using sim unfolding author_sim_def by blast
  have ws: "ms_workers (sy_master (th_sys t)) = ws" "sy_result (th_sys t) = None"
    using author_invD(6,8)[OF inv] by simp_all
  have "sound E t w" for w
  proof (cases "th_activity t w")
    case (Accessing h c p)
    then have a: "w \<in> set ws" "settles w m h fmempty = Some c" "authoring (wk_phase (sy_workers (th_sys t) w))"
      "\<exists>tx. dispatching E (sy_workers (th_sys t) w) (sy_world (th_sys t)) = Some tx
            \<and> resume (call_code E tx) h \<noteq> Stuck
            \<and> (p \<noteq> None \<longrightarrow> (\<exists>x. resume (call_code E tx) h = Asks x))"
      using ok[of w] by (auto simp: activity_ok_def)
    have "length (entries c) \<le> length h" using settles_size[OF a(2)] by (simp add: entries_empty)
    with Accessing a settles_performs[OF a(2)] ws show ?thesis
      by (auto simp: sound_def worker_in_def authoring_running)
  next
    case (Committing r es)
    with ok[of w] ws show ?thesis
      by (auto simp: sound_def activity_ok_def worker_in_def authoring_running)
  qed (use ok[of w] in \<open>simp_all add: sound_def activity_ok_def\<close>)
  moreover have "\<forall>w\<in>set ws. wk_id (sy_workers (th_sys t) w) = w"
    using author_invD(4)[OF inv] by (simp add: worker_inv_def)
  ultimately show ?thesis using ws d by (simp add: weighable_def)
qed

lemma valid_weighable:
  assumes sim: "valid_sim E mid ws P m\<^sub>0 W g V t" and d: "distinct ws"
  shows "weighable E ws t"
proof -
  obtain m where inv: "valid_inv E mid ws P m\<^sub>0 V (at_state m (th_sys t))"
    and ok: "\<And>w. replay_ok E ws W t m w"
    using sim unfolding valid_sim_def by blast
  have ws: "ms_workers (sy_master (th_sys t)) = ws" "sy_result (th_sys t) = None"
    using valid_invD(4,5)[OF inv] by simp_all
  have "sound E t w" for w
  proof (cases "th_activity t w")
    case (Replaying h)
    with ok[of w] ws show ?thesis
      by (auto simp: sound_def replay_ok_def worker_in_def)
  qed (use ok[of w] in \<open>simp_all add: sound_def replay_ok_def\<close>)
  moreover have "\<forall>w\<in>set ws. wk_id (sy_workers (th_sys t) w) = w"
    using valid_invD(7)[OF inv] by (simp add: validator_inv_def)
  ultimately show ?thesis using ws d by (simp add: weighable_def)
qed

lemma quiet_weighable:
  assumes "quiet_system mid ws (th_sys t)" "\<forall>w. th_activity t w = Resting" "distinct ws"
  shows "weighable E ws t"
  using assms by (simp add: weighable_def quiet_system_def sound_def)

section \<open>Some thread can do something\<close>

text \<open>A worker in a dispatch can always go on.\<close>

lemma other_activity: "th_activity t' w \<noteq> th_activity t w \<Longrightarrow> t' \<noteq> t"
  by auto

lemma activity_step:
  assumes s: "sound E t w" and busy: "th_activity t w \<noteq> Resting"
  shows "\<exists>es t'. thread_step E t es t' \<and> t' \<noteq> t"
proof -
  have w: "worker_in (th_sys t) w"
    using s busy by (auto simp: sound_def split: activity.splits)
  obtain tx where tx: "dispatching E (sy_workers (th_sys t) w) (sy_world (th_sys t)) = Some tx"
    and live: "\<And>h c p. th_activity t w = Accessing h c p \<Longrightarrow> resume (call_code E tx) h \<noteq> Stuck
        \<and> (p \<noteq> None \<longrightarrow> (\<exists>x. resume (call_code E tx) h = Asks x))"
      "\<And>h. th_activity t w = Replaying h \<Longrightarrow> resume (call_code E tx) h \<noteq> Stuck"
    using s busy by (cases "th_activity t w") (auto simp: sound_def)
  have fin: "\<exists>wk' wo'. finish_dispatch (sy_workers (th_sys t) w) tx r (sy_world (th_sys t)) = (wk', wo')" for r
    by (metis surj_pair)
  have go: ?thesis if "worker_step E w t es t'" "th_activity t' w \<noteq> th_activity t w" for es t'
    using thread_step.worker[OF w that(1)] other_activity[OF that(2)] by blast
  show ?thesis
  proof (cases "th_activity t w")
    case (Accessing h c p)
    show ?thesis
    proof (cases p)
      case None
      show ?thesis
      proof (cases "resume (call_code E tx) h")
        case (Asks x)
        show ?thesis
          by (rule go[OF shared_section[OF Accessing[unfolded None] tx Asks refl]])
            (auto simp: Accessing None split: sum.split prod.split)
      next
        case (Returns r)
        show ?thesis
          by (rule go[OF call_returns[OF Accessing[unfolded None] tx Returns]]) (simp add: Accessing)
      qed (use live(1)[OF Accessing] in simp)
    next
      case (Some lp)
      then obtain x where x: "resume (call_code E tx) h = Asks x" using live(1)[OF Accessing] by auto
      obtain r m' where r: "ts_read_excl default_value lp (op_key x) w (th_state t) = (r, m')" by fastforce
      obtain rep c' where rep: "cr_answer x r c = (rep, c')" by fastforce
      show ?thesis
        by (rule go[OF excl_section[OF Accessing[unfolded Some] tx x r rep]]) (simp add: Accessing Some)
    qed
  next
    case (Committing r es)
    show ?thesis
    proof (cases es)
      case Nil
      obtain wk' wo' where "finish_dispatch (sy_workers (th_sys t) w) tx (to_runtime_dispatch_result r)
          (sy_world (th_sys t)) = (wk', wo')" using fin by blast
      from go[OF finishes[OF Committing[unfolded Nil] tx this]] show ?thesis by (simp add: Committing)
    next
      case (Cons e es')
      obtain q s' where q: "commit_entry (debug_build E) e (cr_at (th_state t) fmempty w) = (q, s')" by fastforce
      show ?thesis
        by (rule go[OF commits[OF Committing[unfolded Cons] q refl]]) (simp add: Committing Cons split: rs.split)
    qed
  next
    case (Replaying h)
    show ?thesis
    proof (cases "resume (call_code E tx) h")
      case (Asks x)
      obtain rep s' where "perform SR x (sr_new (th_state t) w) = (rep, s')" by fastforce
      from go[OF replays[OF Replaying tx Asks this]] show ?thesis by (simp add: Replaying)
    next
      case (Returns r)
      obtain wk' wo' where "finish_dispatch (sy_workers (th_sys t) w) tx (to_runtime_dispatch_result r)
          (sy_world (th_sys t)) = (wk', wo')" using fin by blast
      from go[OF replayed[OF Replaying tx Returns this]] show ?thesis by (simp add: Replaying)
    qed (use live(2)[OF Replaying] in simp)
  qed (use busy in simp)
qed

text \<open>If no worker is in a dispatch, what \<open>System\<close> can do, the threads can do or begin to do.\<close>

lemma resting_step:
  assumes rest: "\<forall>w. th_activity t w = Resting" and step: "sys_step E (th_sys t) fs c'" and c': "c' \<noteq> th_sys t"
  shows "\<exists>es t'. thread_step E t es t' \<and> t' \<noteq> t"
proof -
  have moved: "t\<lparr>th_sys := c'\<rparr> \<noteq> t" using c' by (metis threads.select_convs(1) threads.surjective threads.update_convs(1))
  have start: ?thesis if "worker_in (th_sys t) w"
    and tx: "dispatching E (sy_workers (th_sys t) w) (sy_world (th_sys t)) = Some tx" for w tx
  proof -
    have "worker_step E w t [] (set_activity w (case wk_phase (sy_workers (th_sys t) w) of
        Validation _ \<Rightarrow> Replaying [] | _ \<Rightarrow> Accessing [] fmempty None) (th_state t) t)"
      by (rule begins[OF _ tx refl]) (use rest in simp)
    from thread_step.worker[OF that(1) this] show ?thesis
      by (intro exI conjI, assumption) (rule other_activity[where w = w], use rest in \<open>simp split: worker_phase.split\<close>)
  qed
  from step show ?thesis
  proof cases
    case (from_master w msg rest' wk' wo')
    have w: "worker_in (th_sys t) w" using from_master(3,4) by (simp add: worker_in_def)
    show ?thesis
    proof (cases "wk_phase (sy_workers (th_sys t) w) = Serving
        \<or> dispatching E (sy_workers (th_sys t) w) (sy_world (th_sys t)) = None")
      case True
      have "worker_step E w t [] (t\<lparr>th_sys := set_worker w wk' wo' (th_sys t)\<rparr>)"
        by (rule takes[OF _ from_master(5) True from_master(6)]) (use rest in simp)
      moreover have "set_worker w wk' wo' (th_sys t) = c'" by (simp add: set_worker_def from_master(2))
      ultimately show ?thesis using thread_step.worker[OF w] moved by blast
    next
      case False
      then show ?thesis using start[OF w] by blast
    qed
  next
    case (from_peer w msg rest' wk' wo')
    have w: "worker_in (th_sys t) w" using from_peer(3,4) by (simp add: worker_in_def)
    show ?thesis
    proof (cases "dispatching E (sy_workers (th_sys t) w) (sy_world (th_sys t))")
      case None
      have "worker_step E w t [] (t\<lparr>th_sys := set_worker w wk' wo' (th_sys t)\<rparr>)"
        by (rule takes_peer[OF _ from_peer(4,5) None from_peer(6)]) (use rest in simp)
      moreover have "set_worker w wk' wo' (th_sys t) = c'" by (simp add: set_worker_def from_peer(2))
      ultimately show ?thesis using thread_step.worker[OF w] moved by blast
    qed (use start[OF w] in blast)
  next
    case (collects col ma' wo' res)
    from master_collects[OF collects(3,4)] moved show ?thesis unfolding collects(2) by blast
  next
    case (validates n ma' wo' res)
    from master_validates[OF validates(3,4)] moved show ?thesis unfolding validates(2) by blast
  qed
qed

lemma author_thread_progress:
  assumes sim: "author_sim E mid ws P m\<^sub>0 L t" and P: "distributed E ws P"
  shows "\<exists>es t'. thread_step E t es t' \<and> t' \<noteq> t"
proof (cases "\<forall>w. th_activity t w = Resting")
  case True
  obtain m dn where inv: "author_inv E mid ws P m\<^sub>0 L (at_state m (th_sys t))" "overlay dn m (th_state t)"
    and ok: "\<And>w. activity_ok E ws t m dn w"
    using sim unfolding author_sim_def by blast
  have "dn w = []" for w using ok[of w] True by (simp add: activity_ok_def)
  then have "th_state t = m" by (rule overlay_nothing[OF inv(2)])
  with inv(1) have "author_inv E mid ws P m\<^sub>0 L (th_sys t)" by auto
  from author_progress[OF this P] resting_step[OF True] show ?thesis by blast
next
  case False
  then obtain w where w: "th_activity t w \<noteq> Resting" by blast
  have "sound E t w" using author_weighable[OF sim distributedD(1)[OF P]] by (simp add: weighable_def)
  from activity_step[OF this w] show ?thesis .
qed

lemma valid_thread_progress:
  assumes sim: "valid_sim E mid ws P m\<^sub>0 W g V t" and d: "distinct ws"
  shows "\<exists>es t'. thread_step E t es t' \<and> t' \<noteq> t"
proof (cases "\<forall>w. th_activity t w = Resting")
  case True
  obtain m where inv: "valid_inv E mid ws P m\<^sub>0 V (at_state m (th_sys t))"
    and ok: "\<And>w. replay_ok E ws W t m w" "\<And>k. (\<And>w. k \<notin> W w) \<Longrightarrow> fmlookup (th_state t) k = fmlookup m k"
    using sim unfolding valid_sim_def by blast
  have "fmlookup (th_state t) k = fmlookup m k" for k
    using ok True by (cases "\<exists>w. k \<in> W w") (auto simp: replay_ok_def)
  then have "th_state t = m" by (rule fmap_ext)
  with inv have "valid_inv E mid ws P m\<^sub>0 V (th_sys t)" by auto
  from valid_progress[OF this d] resting_step[OF True] show ?thesis by blast
next
  case False
  then obtain w where w: "th_activity t w \<noteq> Resting" by blast
  have "sound E t w" using valid_weighable[OF sim d] by (simp add: weighable_def)
  from activity_step[OF this w] show ?thesis .
qed

section \<open>Runs in which every step does something\<close>

inductive active_run ::
  "('p, 'z) exec_env_scheme \<Rightarrow> 'p threads \<Rightarrow> 'p logged list \<Rightarrow> nat \<Rightarrow> 'p threads \<Rightarrow> bool"
  for E :: "('p, 'z) exec_env_scheme" where
  active_refl: "active_run E t [] 0 t"
| active_step: "active_run E t es n t' \<Longrightarrow> thread_step E t' fs t'' \<Longrightarrow> t'' \<noteq> t' \<Longrightarrow>
    active_run E t (es @ fs) (Suc n) t''"

lemma active_is_run: "active_run E t es n t' \<Longrightarrow> thread_run E t es t'"
  by (induction rule: active_run.induct) (auto intro: thread_run.intros)

lemma active_run_bound:
  assumes "active_run E t es n t'" "\<And>es t'. thread_run E t es t' \<Longrightarrow> weighable E ws t'"
  shows "n + thread_weight t' \<le> thread_weight t"
  using assms
proof (induction rule: active_run.induct)
  case (active_step t es n t' fs t'')
  have "weighable E ws t'" using active_step.prems active_is_run[OF active_step.hyps(1)] by blast
  then have "thread_weight t'' < thread_weight t'"
    using thread_step_weight[OF _ active_step.hyps(2)] active_step.hyps(3) by blast
  moreover have "n + thread_weight t' \<le> thread_weight t" by (rule active_step.IH[OF active_step.prems])
  ultimately show ?case by simp
qed simp

text \<open>So a run that always does something when it can reaches any goal that only the end misses.\<close>

lemma active_run_reaches:
  assumes weigh: "\<And>es t'. thread_run E t es t' \<Longrightarrow> weighable E ws t'"
    and progress: "\<And>es t'. thread_run E t es t' \<Longrightarrow> \<not> goal t' \<Longrightarrow> \<exists>fs t''. thread_step E t' fs t'' \<and> t'' \<noteq> t'"
  shows "\<exists>es t'. thread_run E t es t' \<and> goal t'"
proof -
  have "\<exists>es' d. thread_run E t es' d \<and> goal d" if "thread_run E t es t'" for es t'
    using that
  proof (induction "thread_weight t'" arbitrary: es t' rule: less_induct)
    case less
    show ?case
    proof (cases "goal t'")
      case False
      then obtain fs t'' where s: "thread_step E t' fs t''" "t'' \<noteq> t'" using progress[OF less(2)] by blast
      then have "thread_weight t'' < thread_weight t'"
        using thread_step_weight[OF weigh[OF less(2)]] by blast
      from less(1)[OF this trun_step[OF less(2) s(1)]] show ?thesis .
    qed (use less(2) in blast)
  qed
  from this[OF trun_refl] show ?thesis .
qed

section \<open>The two tasks\<close>

lemma author_weight:
  assumes inv: "author_inv E mid ws P m\<^sub>0 [] c" and P: "distributed E ws P"
    and "to_master (sy_world c) = []"
  shows "weight c \<le> 3 * length P + 12 * length ws + 1"
proof -
  have "length (to_worker (sy_world c) w) \<le> length (tagged w P) + 3" if "w \<in> set ws" for w
    using author_invD(4)[OF inv that]
    by (auto simp: worker_inv_def author_stage_def quiet_def firsts_def)
  then have "(\<Sum>w\<in>set ws. 3 * length (to_worker (sy_world c) w)) \<le> (\<Sum>w\<in>set ws. 3 * length (tagged w P) + 9)"
    by (intro sum_mono) force
  moreover have "(\<Sum>w\<in>set ws. 3 * length (tagged w P) + 9) = 3 * length P + 9 * length ws"
    using sum_tagged[OF P] distinct_card[OF distributedD(1)[OF P]]
    by (simp add: sum.distrib flip: sum_distrib_left)
  moreover have "(\<Sum>w\<in>set ws. 2 * length (to_peer (sy_world c) w)) = 0"
    using author_invD(5)[OF inv] by (simp add: peer_inv_def handled_def forwards_to_def)
  moreover obtain col where "ms_phase (sy_master c) = MCollecting col"
    using inv unfolding author_inv_def by blast
  ultimately show ?thesis
    using author_invD(6)[OF inv] assms(3) by (simp add: weight_def load_def)
qed

lemma sum_tagged_le:
  assumes "distinct ws"
  shows "(\<Sum>w\<in>set ws. length (tagged w P)) \<le> length P"
proof (induction P)
  case (Cons tx P)
  have "(\<Sum>w\<in>set ws. length (tagged w (tx # P)))
      = (\<Sum>w\<in>set ws. length (tagged w P)) + (\<Sum>w\<in>set ws. if tx_tag tx = Done w then 1 else 0)"
    by (simp add: tagged_def if_distrib flip: sum.distrib cong: if_cong)
  moreover have "(\<Sum>w\<in>set ws. if tx_tag tx = Done w then 1 else (0::nat)) \<le> 1"
    by (cases "tx_tag tx") (simp_all add: sum.If_cases Int_def card_Suc_eq_finite)
  ultimately show ?case using Cons.IH by simp
qed (simp add: tagged_def)

lemma valid_weight:
  assumes inv: "valid_inv E mid ws P m\<^sub>0 [] c" and d: "distinct ws" and "to_master (sy_world c) = []"
  shows "weight c \<le> 3 * length P + 9 * length ws + 1"
proof -
  have "length (to_worker (sy_world c) w) \<le> length (tagged w P) + 3" if "w \<in> set ws" for w
    using valid_invD(7)[OF inv that]
    by (auto simp: validator_inv_def valid_stage_def quiet_def done_by_def)
  then have "(\<Sum>w\<in>set ws. 3 * length (to_worker (sy_world c) w)) \<le> (\<Sum>w\<in>set ws. 3 * length (tagged w P) + 9)"
    by (intro sum_mono) force
  moreover have "(\<Sum>w\<in>set ws. 3 * length (tagged w P) + 9) \<le> 3 * length P + 9 * length ws"
    using sum_tagged_le[OF d, of P] distinct_card[OF d]
    by (simp add: sum.distrib flip: sum_distrib_left)
  moreover have "(\<Sum>w\<in>set ws. 2 * length (to_peer (sy_world c) w)) = 0"
    using valid_invD(8)[OF inv] by simp
  moreover obtain n where "ms_phase (sy_master c) = MValidating n"
    using inv unfolding valid_inv_def by blast
  ultimately show ?thesis
    using valid_invD(4)[OF inv] assms(3) by (simp add: weight_def load_def)
qed

lemma start_weight:
  assumes "ms_workers (sy_master c) = ws" "distinct ws"
  shows "thread_weight (th_start c) = 19 * weight c + 18 * length ws"
  using assms by (simp add: thread_weight_def th_start_def distinct_card max_accesses_def)

lemma author_runs_weighable:
  assumes "author_inv E mid ws P m\<^sub>0 [] c" and P: "distributed E ws P" and "staking_ok E"
    and run: "thread_run E (th_start c) es t"
  shows "weighable E ws t"
  using author_thread_run[OF run author_sim_start[OF assms(1)] P assms(3)] author_weighable quiet_weighable
    distributedD(1)[OF P] unfolding author_done_def by blast

lemma author_run_result:
  assumes "author_inv E mid ws P m\<^sub>0 [] c" "distributed E ws P" "staking_ok E" "thread_run E (th_start c) es t"
  shows "sy_result (th_sys t) = None \<and> author_sim E mid ws P m\<^sub>0 es t
     \<or> (\<exists>st blk. sy_result (th_sys t) = Some (Authored st blk))"
  using author_thread_run[OF assms(4) author_sim_start[OF assms(1)] assms(2,3)] author_simD(2)
  unfolding author_done_def by blast

lemma author_block_returns:
  assumes "author_inv E mid ws P m\<^sub>0 [] c" and P: "distributed E ws P" and "staking_ok E"
  shows "\<exists>es t st blk. thread_run E (th_start c) es t \<and> sy_result (th_sys t) = Some (Authored st blk)"
proof -
  have "\<exists>es t. thread_run E (th_start c) es t \<and> sy_result (th_sys t) \<noteq> None"
  proof (rule active_run_reaches[OF author_runs_weighable[OF assms]])
    show "\<exists>fs t'. thread_step E t fs t' \<and> t' \<noteq> t"
      if "thread_run E (th_start c) es t" "\<not> sy_result (th_sys t) \<noteq> None" for es t
      using author_run_result[OF assms that(1)] that(2) author_thread_progress[OF _ P] by auto
  qed
  with author_run_result[OF assms] show ?thesis by (metis option.distinct(1))
qed

lemma valid_block_returns:
  assumes sim: "valid_sim E mid ws P m\<^sub>0 W g [] t" and W: "parted W" and P: "replayable E ws P" and E: "staking_ok E"
  shows "thread_run E t V u \<Longrightarrow> weighable E ws u"
    "thread_run E t V u \<Longrightarrow> sy_result (th_sys u) = None \<and> (\<exists>fs u'. thread_step E u fs u' \<and> u' \<noteq> u)
       \<or> (\<exists>st. sy_result (th_sys u) = Some (Validated st))"
    "\<exists>V u st. thread_run E t V u \<and> sy_result (th_sys u) = Some (Validated st)"
proof -
  have d: "distinct ws" using P by (simp add: replayable_def)
  note run = valid_thread_run[OF _ sim W P E]
  have both: "weighable E ws u \<and> (sy_result (th_sys u) = None \<and> (\<exists>fs u'. thread_step E u fs u' \<and> u' \<noteq> u)
       \<or> (\<exists>st. sy_result (th_sys u) = Some (Validated st)))" if "thread_run E t V u" for V u
    using run[OF that]
  proof
    assume s: "valid_sim E mid ws P m\<^sub>0 W g (map fst V) u"
    from valid_weighable[OF this d] valid_simD(2)[OF this] valid_thread_progress[OF this d]
    show ?thesis by blast
  next
    assume f: "valid_done E mid ws P m\<^sub>0 (map fst V) (th_sys u) \<and> (\<forall>w. th_activity u w = Resting)"
    then have "weighable E ws u"
      by (intro quiet_weighable[where mid = mid, OF _ _ d]) (simp_all add: valid_done_def)
    with f show ?thesis by (simp add: valid_done_def)
  qed
  then show w: "thread_run E t V u \<Longrightarrow> weighable E ws u"
    and p: "thread_run E t V u \<Longrightarrow> sy_result (th_sys u) = None \<and> (\<exists>fs u'. thread_step E u fs u' \<and> u' \<noteq> u)
       \<or> (\<exists>st. sy_result (th_sys u) = Some (Validated st))" for V u
    by blast+
  have "\<exists>V u. thread_run E t V u \<and> sy_result (th_sys u) \<noteq> None"
    by (rule active_run_reaches[OF w]) (use p in blast)+
  with p show "\<exists>V u st. thread_run E t V u \<and> sy_result (th_sys u) = Some (Validated st)"
    by (metis option.distinct(1))
qed

section \<open>Total correctness of a task\<close>

text \<open>
  A task that was started makes at most \<open>bound\<close> steps that are not idle polls, no thread ever panics,
  and until there is a result some thread has such a step to make; the result is as required. So
  every schedule that keeps making steps ends with a result.
\<close>

definition always_returns ::
  "('p, 'z) exec_env_scheme \<Rightarrow> nat \<Rightarrow> ('p threads \<Rightarrow> 'p returned \<Rightarrow> bool) \<Rightarrow> 'p system \<Rightarrow> bool" where
  "always_returns E bound goal c \<longleftrightarrow> (\<forall>L n t. active_run E (th_start c) L n t \<longrightarrow>
     n \<le> bound \<and> \<not> crashed (th_sys t)
   \<and> (case sy_result (th_sys t) of None \<Rightarrow> \<exists>es u. thread_step E t es u \<and> u \<noteq> t | Some r \<Rightarrow> goal t r))"

lemma always_returns_mono:
  assumes "always_returns E bound goal c"
    and "\<And>L t r. thread_run E (th_start c) L t \<Longrightarrow> sy_result (th_sys t) = Some r \<Longrightarrow> goal t r \<Longrightarrow> goal' t r"
  shows "always_returns E bound goal' c"
  unfolding always_returns_def
proof (intro allI impI)
  fix L n t assume run: "active_run E (th_start c) L n t"
  with assms(1) have "n \<le> bound \<and> \<not> crashed (th_sys t)
      \<and> (case sy_result (th_sys t) of None \<Rightarrow> \<exists>es u. thread_step E t es u \<and> u \<noteq> t | Some r \<Rightarrow> goal t r)"
    unfolding always_returns_def by blast
  then show "n \<le> bound \<and> \<not> crashed (th_sys t)
      \<and> (case sy_result (th_sys t) of None \<Rightarrow> \<exists>es u. thread_step E t es u \<and> u \<noteq> t | Some r \<Rightarrow> goal' t r)"
    using assms(2)[OF active_is_run[OF run]] by (auto split: option.splits)
qed

lemma always_returnsD:
  assumes "always_returns E bound goal c" "active_run E (th_start c) L n t"
  shows "n \<le> bound" "sy_result (th_sys t) = None \<and> (\<exists>es u. thread_step E t es u \<and> u \<noteq> t)
    \<or> (\<exists>r. sy_result (th_sys t) = Some r \<and> goal t r)"
  using assms unfolding always_returns_def by (cases "sy_result (th_sys t)"; fastforce)+

lemma authoring_returns:
  assumes E: "staking_ok E" and c: "clean_system E mid ws c" and S: "startable E D ws txs"
  obtains c' where "call_author E D txs c = Some c'"
    "always_returns E (57 * length txs + 246 * length ws + 19) (\<lambda>t r. \<exists>st blk. r = Authored st blk) c'"
proof -
  obtain P c' where c': "call_author E D txs c = Some c'" and P: "map untagged P = map untagged txs" "distributed E ws P"
    "author_inv E mid ws P (wo_state (sy_world c)) [] c'" "to_master (sy_world c') = []"
    by (rule startable_starts[OF c S])
  have "n \<le> 57 * length txs + 246 * length ws + 19 \<and> \<not> crashed (th_sys t)
      \<and> (case sy_result (th_sys t) of None \<Rightarrow> \<exists>es u. thread_step E t es u \<and> u \<noteq> t | Some r \<Rightarrow> \<exists>st blk. r = Authored st blk)"
    if run: "active_run E (th_start c') L n t" for L n t
  proof -
    have "n + thread_weight t \<le> thread_weight (th_start c')"
      by (rule active_run_bound[OF run]) (rule author_runs_weighable[OF P(3,2) E])
    moreover have "weight c' \<le> 3 * length txs + 12 * length ws + 1"
      using author_weight[OF P(3,2,4)] same_untagged(1)[OF P(1)] by (metis length_map)
    ultimately have "n \<le> 57 * length txs + 246 * length ws + 19"
      using start_weight[OF author_invD(6)[OF P(3)] distributedD(1)[OF P(2)]] by linarith
    moreover have "\<not> crashed (th_sys t)"
      using author_thread_run[OF active_is_run[OF run] author_sim_start[OF P(3)] P(2) E] author_simD(1) quiet_not_crashed
      unfolding author_done_def by blast
    ultimately show ?thesis
      using author_run_result[OF P(3,2) E active_is_run[OF run]] author_thread_progress[OF _ P(2)] by auto
  qed
  with c' that show thesis by (simp add: always_returns_def)
qed

lemma validation_returns:
  assumes E: "staking_ok E" and c: "clean_system E mid ws c" and S: "startable E D ws txs"
    and author: "call_author E D txs c = Some c'" "thread_run E (th_start c') L t"
      "sy_result (th_sys t) = Some (Authored st blk)"
    and v: "quiet_system mid' ws' v" "ms_orphans (sy_master v) = []" "distinct ws'" "set ws \<subseteq> set ws'"
    and start: "values_of (wo_state (sy_world v)) = values_of (wo_state (sy_world c))"
  obtains v' where "call_validate blk v = Some v'"
    "always_returns E (57 * length (transactions blk) + 189 * length ws' + 19) (\<lambda>u r. \<exists>st'. r = Validated st') v'"
proof -
  obtain P where P: "distributed E ws P" "author_inv E mid ws P (wo_state (sy_world c)) [] c'"
    using startable_starts[OF c S] author(1) by (metis option.inject)
  have L: "author_done E mid ws P (wo_state (sy_world c)) L (th_sys t)"
    using author_thread_run[OF author(2) author_sim_start[OF P(2)] P(1) E] author_simD(2) author(3) by fastforce
  obtain v' W g where v': "call_validate blk v = Some v'" "replayable E ws' (transactions blk)" "parted W"
    "valid_inv E mid' ws' (transactions blk) (wo_state (sy_world v)) [] v'"
    "valid_sim E mid' ws' (transactions blk) (wo_state (sy_world v)) W g [] (th_start v')"
    "to_master (sy_world v') = []"
    by (rule authored_validation_starts[OF E c P(1) L author(3) v start])
  note returns = valid_block_returns[OF v'(5,3,2) E]
  have "n \<le> 57 * length (transactions blk) + 189 * length ws' + 19 \<and> \<not> crashed (th_sys u)
      \<and> (case sy_result (th_sys u) of None \<Rightarrow> \<exists>es u'. thread_step E u es u' \<and> u' \<noteq> u | Some r \<Rightarrow> \<exists>st'. r = Validated st')"
    if run: "active_run E (th_start v') V n u" for V n u
  proof -
    have "n + thread_weight u \<le> thread_weight (th_start v')"
      by (rule active_run_bound[OF run]) (rule returns(1))
    then have "n \<le> 57 * length (transactions blk) + 189 * length ws' + 19"
      using valid_weight[OF v'(4) v(3) v'(6)] start_weight[OF valid_invD(4)[OF v'(4)] v(3)] by linarith
    moreover have "\<not> crashed (th_sys u)"
      using valid_thread_run[OF active_is_run[OF run] v'(5,3,2) E] valid_simD(1) quiet_not_crashed
      unfolding valid_done_def by blast
    ultimately show ?thesis
      using returns(2)[OF active_is_run[OF run]] by (elim disjE conjE exE) (simp_all, blast)
  qed
  with v'(1) that show thesis by (simp add: always_returns_def)
qed

section \<open>Properties\<close>

text \<open>C5. Authoring submittable transactions (none of which names the default account as controller) on
  a well-formed chain ends, however the critical sections of the threads interleave. Of \<open>n\<close>
  transactions on \<open>k\<close> workers, at most \<open>57 n + 246 k + 19\<close> steps are not idle polls of an empty queue;
  as long as the block has not been returned some thread has such a step to make; and what is
  returned is a block. So there is no deadlock between workers that forward transactions to each
  other, and no livelock.\<close>

theorem authoring_terminates:
  assumes "staking_ok E" "clean_system E mid ws c" "distributer_laws D" "submittable E txs"
    and "call_author E D txs c = Some c'" "active_run E (th_start c') L n t"
  shows "n \<le> 57 * length txs + 246 * length ws + 19
    \<and> (sy_result (th_sys t) = None \<and> (\<exists>es u. thread_step E t es u \<and> u \<noteq> t)
       \<or> (\<exists>st blk. sy_result (th_sys t) = Some (Authored st blk)))"
proof -
  obtain c1 where "call_author E D txs c = Some c1"
    "always_returns E (57 * length txs + 246 * length ws + 19) (\<lambda>t r. \<exists>st blk. r = Authored st blk) c1"
    by (rule authoring_returns[OF assms(1,2) startableI[OF assms(2-4)]])
  with assms(5) have "always_returns E (57 * length txs + 246 * length ws + 19) (\<lambda>t r. \<exists>st blk. r = Authored st blk) c'"
    by simp
  from always_returnsD[OF this assms(6)] show ?thesis by blast
qed

text \<open>C20. Validating a block authored from submittable transactions (none of which names the default
  account as controller) on a well-formed chain, on an executor that is not busy, has at least the
  workers of the block and starts from the same values, ends as well, whatever was the schedule of the authoring and
  however the accesses of the validating workers interleave.\<close>

theorem validation_terminates:
  assumes "staking_ok E" "clean_system E mid ws c" "distributer_laws D" "submittable E txs"
    and "call_author E D txs c = Some c'" "thread_run E (th_start c') L t"
    and "sy_result (th_sys t) = Some (Authored st blk)"
    and v: "quiet_system mid' ws' v" "ms_orphans (sy_master v) = []" "distinct ws'" "set ws \<subseteq> set ws'"
    and start: "values_of (wo_state (sy_world v)) = values_of (wo_state (sy_world c))"
  shows "\<exists>v'. call_validate blk v = Some v' \<and> (\<forall>V n u. active_run E (th_start v') V n u \<longrightarrow>
      n \<le> 57 * length (transactions blk) + 189 * length ws' + 19
      \<and> (sy_result (th_sys u) = None \<and> (\<exists>es u'. thread_step E u es u' \<and> u' \<noteq> u)
         \<or> (\<exists>st'. sy_result (th_sys u) = Some (Validated st'))))"
proof -
  obtain v' where v': "call_validate blk v = Some v'"
    "always_returns E (57 * length (transactions blk) + 189 * length ws' + 19) (\<lambda>u r. \<exists>st'. r = Validated st') v'"
    by (rule validation_returns[OF assms(1,2) startableI[OF assms(2-4)] assms(5-7) v start])
  from v'(1) always_returnsD[OF v'(2)] show ?thesis by blast
qed

end
