(* ===== verification/Example_System.thy ===== *)
theory Example_System
  imports Termination
begin

text \<open>
  Setting up the concurrent executor, cleaning it between two blocks, and the theorems about it
  applied to a concrete executor with two workers.
\<close>

section \<open>A new executor and a cleaned one\<close>

lemma concurrent_new_clean:
  assumes "well_formed E m" "\<forall>k. ts_owner m k = None" "ids \<noteq> []"
  shows "case concurrent_new me ids (Some m) of
      Inl msg \<Rightarrow> \<not> distinct ids
    | Inr c \<Rightarrow> distinct ids \<and> clean_system E me (sorted_list_of_set (set ids)) c \<and> wo_state (sy_world c) = m"
proof -
  let ?ws = "sorted_list_of_set (set ids)"
  have len: "length ?ws \<noteq> length ids \<longleftrightarrow> \<not> distinct ids"
    by (metis card_distinct distinct_card length_sorted_list_of_set)
  have "?ws \<noteq> []" using assms(3) by simp
  then show ?thesis
    using len assms
    by (auto simp: concurrent_new_def Let_def clean_system_def quiet_system_def broadcast_world
        broadcast_to_worker worker_new_def master_new_def quiet_def vp_new_def vp_all_def)
qed

text \<open>C25. \<open>ConcurrentExecutor::new\<close> makes an executor that is ready for a block: no thread is busy,
  nothing but the setup is under way, and pool and orphans are empty, whatever ids the threads got
  as long as they differ. If two were equal, it would panic.\<close>

theorem new_executor_is_clean:
  assumes "well_formed E m" "\<forall>k. ts_owner m k = None" "ids \<noteq> []"
  shows "case concurrent_new me ids (Some m) of
      Inl msg \<Rightarrow> \<not> distinct ids
    | Inr c \<Rightarrow> distinct ids \<and> clean_system E me (sorted_list_of_set (set ids)) c \<and> wo_state (sy_world c) = m"
  by (rule concurrent_new_clean[OF assms])

lemma clean_again:
  assumes "quiet_system mid ws c" "ws \<noteq> []" "distinct ws"
    and "well_formed E m" "\<forall>k. ts_owner m k = None"
  shows "clean_system E mid ws (call_apply_state m (call_clean c))
    \<and> wo_state (sy_world (call_apply_state m (call_clean c))) = m"
proof -
  have "wo_state (sy_world (call_apply_state m (call_clean c))) = m"
    by (simp add: call_apply_state_def call_clean_def ce_clean_def ce_apply_state_def
        unsafe_clean_def apply_to_empty)
  with assms show ?thesis
    by (simp add: clean_system_def quiet_system_def call_apply_state_def call_clean_def ce_clean_def
        ce_apply_state_def vp_clear_def vp_all_def)
qed

text \<open>After a block, \<open>clean\<close> and \<open>apply_state\<close> make the executor ready for the next one, on
  exactly the state that was applied.\<close>

theorem cleaned_executor_is_clean:
  assumes "quiet_system mid ws c" "ws \<noteq> []" "distinct ws"
    and "well_formed E m" "\<forall>k. ts_owner m k = None"
  shows "clean_system E mid ws (call_apply_state m (call_clean c))
    \<and> wo_state (sy_world (call_apply_state m (call_clean c))) = m"
  by (rule clean_again[OF assms])

section \<open>A transfer that fails\<close>

text \<open>
  Reading a key that is not in the state makes an entry for it, so that the key can be tainted. A
  sequential runtime makes none.
\<close>

lemma failing_transfer:
  fixes m :: runtime_state and tx :: "'p transaction"
  assumes E: "balances_ok E" and tx: "tx_function tx = BalancesCall (Transfer dest val)" "val \<noteq> 0"
  defines "k \<equiv> key_for (BalanceOf E) (fst (tx_signature tx))"
  assumes default: "values_of m k = default_value"
  shows "execute_transaction E w tx m = (Ok (RtLogicError ''Does not have enough funds.''), touch w k m) \<and> ts_owner m k = None
    \<or> execute_transaction E w tx m = (Ok (RtLogicError ''Does not have enough funds.''), m) \<and> ts_owner m k = Some w
    \<or> (\<exists>u. execute_transaction E w tx m = (Err (RtTainted u False), m))"
    "fmlookup m k = None \<Longrightarrow> SequentialRuntime_dispatch E (tx_function tx) (fst (tx_signature tx)) (sr_new m v)
      = (Ok (RtLogicError ''Does not have enough funds.''), sr_new m v)"
proof -
  obtain e where e: "dec_account_balance E [] = Err e" using E by (auto simp: balances_ok_def)
  have dec: "sm_dec (BalanceOf E) [] = Err e" "sm_default (BalanceOf E) = ab_default"
    using e by (simp_all add: BalanceOf_def)
  have poor: "checked_sub (ab_free ab_default) val = None"
    using tx(2) by (simp add: checked_sub_def ab_default_def word_less_nat_alt unat_gt_0)
  have run: "execute_transaction E w tx m = (case ts_read default_value k w m of
      (Ok v, m') \<Rightarrow> (Ok (RtLogicError ''Does not have enough funds.''), m')
    | (Err u, m') \<Rightarrow> (Err (RtTainted u False), m') | (Panic p, m') \<Rightarrow> (Panic p, m'))"
    if "fst (ts_read default_value k w m) = Ok default_value \<or> (\<exists>u. fst (ts_read default_value k w m) = Err u)"
    using that dec poor tx(1)
    by (cases "ts_read default_value k w m")
      (auto simp: k_def execute_transaction_def ConcurrentRuntime_dispatch_def cr_dispatch_def cr_new_def
        transfer_def or_forward_def map_read_def CR_def cr_read_def default_value_def
        comp_simps bindC_def map_err_def liftP_def throw_def)
  show "execute_transaction E w tx m = (Ok (RtLogicError ''Does not have enough funds.''), touch w k m) \<and> ts_owner m k = None
    \<or> execute_transaction E w tx m = (Ok (RtLogicError ''Does not have enough funds.''), m) \<and> ts_owner m k = Some w
    \<or> (\<exists>u. execute_transaction E w tx m = (Err (RtTainted u False), m))"
    by (cases rule: ts_read_cases[of m k w]) (use run default in auto)
  show "SequentialRuntime_dispatch E (tx_function tx) (fst (tx_signature tx)) (sr_new m v)
      = (Ok (RtLogicError ''Does not have enough funds.''), sr_new m v)" if "fmlookup m k = None"
    using that dec poor tx(1)
    by (simp add: k_def SequentialRuntime_dispatch_def sr_dispatch_def sr_new_def transfer_def
        or_forward_def map_read_def SR_def sr_read_def unsafe_read_value_def unsafe_read_def
        default_value_def comp_simps bindC_def map_err_def liftP_def throw_def)
qed

lemma failing_run:
  fixes m :: runtime_state and tx :: "'p transaction"
  assumes run: "shared_run E m L m'" and E: "balances_ok E"
    and tx: "tx_function tx = BalancesCall (Transfer dest val)" "val \<noteq> 0"
    and default: "values_of m (key_for (BalanceOf E) (fst (tx_signature tx))) = default_value"
  shows "L = [] \<longrightarrow> values_of m' = values_of m"
    "L = [((w, tx), q)] \<longrightarrow> (\<exists>u. q = Err (RtTainted u False))
       \<or> q = Ok (RtLogicError ''Does not have enough funds.'') \<and> values_of m' = values_of m
         \<and> ts_owner m' (key_for (BalanceOf E) (fst (tx_signature tx))) = Some w"
proof -
  let ?k = "key_for (BalanceOf E) (fst (tx_signature tx))"
  have none: "shared_run E m L m' \<Longrightarrow> L = [] \<Longrightarrow> values_of m' = values_of m" for m m' :: runtime_state and L
    by (induction rule: shared_run.induct) (auto simp: touch_facts)
  with run show "L = [] \<longrightarrow> values_of m' = values_of m" by blast
  show "L = [((w, tx), q)] \<longrightarrow> (\<exists>u. q = Err (RtTainted u False))
       \<or> q = Ok (RtLogicError ''Does not have enough funds.'') \<and> values_of m' = values_of m
         \<and> ts_owner m' ?k = Some w"
    using run default
  proof (induction rule: shared_run.induct)
    case (dispatch v x m r m1 L m')
    show ?case
    proof (intro impI)
      assume "((v, x), r) # L = [((w, tx), q)]"
      then have e: "v = w" "x = tx" "r = q" "L = []" by simp_all
      have "(\<exists>u. q = Err (RtTainted u False)) \<or> q = Ok (RtLogicError ''Does not have enough funds.'')
          \<and> values_of m1 = values_of m \<and> ts_owner m1 ?k = Some w"
        using failing_transfer(1)[OF E tx dispatch.prems, of w] dispatch.hyps(1) touch_facts[of m ?k w]
        by (auto simp: e)
      then show "(\<exists>u. q = Err (RtTainted u False)) \<or> q = Ok (RtLogicError ''Does not have enough funds.'')
          \<and> values_of m' = values_of m \<and> ts_owner m' ?k = Some w"
        using none[OF dispatch.hyps(2) e(4)] shared_run_owners[OF dispatch.hyps(2)] by auto
    qed
  qed (simp_all add: touch_facts)
qed

text \<open>With one worker nothing is forwarded.\<close>

lemma single_worker_log:
  assumes ok: "log_ok [w] P L" and full: "complete [w] P L" and P: "map untagged P = [untagged tx]" "distributed E [w] P"
  obtains q x where "L = [((w, x), q)]" "first ((w, x), q)" "untagged x = untagged tx"
    "\<And>u. \<not> sent_to u ((w, x), q)"
proof -
  obtain p where p: "P = [p]" "untagged p = untagged tx" using P(1) by auto
  have tag: "tx_tag p = Done w" using distributedD(3)[OF P(2)] p(1) by simp
  have who: "who x = w" if "x \<in> set L" for x using log_okD(1)[OF ok that] by simp
  have unsent: "\<not> sent_to u x" if "x \<in> set L" for u x
    using log_okD(5,6)[OF ok that, of u] who[OF that] by auto
  have firsts: "first x" if "x \<in> set L" for x
    using handled_was_sent[OF ok that] unsent by metis
  have "map the_tx L = firsts w L"
    using firsts who by (simp add: firsts_def)
  also have "\<dots> = [p]"
    using full p(1) tag by (simp add: complete_def tagged_def)
  finally obtain z where z: "L = [z]" "the_tx z = p" by auto
  obtain x q where zx: "z = ((w, x), q)"
    using who[of z] z(1) by (cases z) (auto simp: who_def)
  have "x = p"
    using z zx firsts[of z] by (cases x) (auto simp: the_tx_def first_def)
  with that z zx firsts[of z] unsent[of z] p(2) show thesis by simp
qed

text \<open>What the run leaves: an entry for the key that was read, and nothing else.\<close>

lemma failing_author:
  assumes E: "staking_ok E" and c: "clean_system E mid [w] c" and D: "distributer_laws D"
    and txs: "submittable E [tx]"
    and tx: "tx_function tx = BalancesCall (Transfer dest val)" "val \<noteq> 0"
      "fmlookup (wo_state (sy_world c)) (key_for (BalanceOf E) (fst (tx_signature tx))) = None"
    and author: "call_author E D [tx] c = Some c'" "thread_run E (th_start c') L t"
      "sy_result (th_sys t) = Some (Authored st blk)"
  obtains P where "map untagged P = [untagged tx]" "distributed E [w] P" "transactions blk = P"
    "author_done E mid [w] P (wo_state (sy_world c)) L (th_sys t)"
    "fmlookup st (key_for (BalanceOf E) (fst (tx_signature tx))) \<noteq> None"
    "values_of st = values_of (wo_state (sy_world c))"
proof -
  let ?m = "wo_state (sy_world c)" and ?k = "key_for (BalanceOf E) (fst (tx_signature tx))"
  obtain P where P: "map untagged P = map untagged [tx]" "distributed E [w] P" "author_inv E mid [w] P ?m [] c'"
    using author_starts[OF c D txs] author(1) by (metis option.inject)
  have L: "author_done E mid [w] P ?m L (th_sys t)"
    using author_thread_run[OF author(2) author_sim_start[OF P(3)] P(2) E] author_simD(2) author(3) by fastforce
  have ok: "log_ok [w] P L" "complete [w] P L" using L by (simp_all add: author_done_def)
  obtain m oks s where a: "state_inv E ?m L m" "st = sr_state s"
    "execute_orphans E (orphans_after L) (sr_new m mid) = (Ok oks, s)"
    "transactions blk = pool_after P L @ orphans_after L"
    using L author(3) by (auto simp: author_done_def block_from_def)
  obtain q x where x: "L = [((w, x), q)]" "first ((w, x), q)" "untagged x = untagged tx"
    "\<And>u. \<not> sent_to u ((w, x), q)"
    by (rule single_worker_log[OF ok _ P(2)]) (use P(1) in simp_all)
  have fx: "tx_function x = tx_function tx" "tx_signature x = tx_signature tx"
    using arg_cong[OF x(3), of tx_function] arg_cong[OF x(3), of tx_signature] by simp_all
  have start: "values_of ?m ?k = default_value" using tx(3) by (simp add: ts_view_def)
  have "(\<exists>u. q = Err (RtTainted u False)) \<or> q = Ok (RtLogicError ''Does not have enough funds.'')
      \<and> values_of m = values_of ?m \<and> ts_owner m ?k = Some w"
    using failing_run(2)[of E ?m L m x dest val w q] a(1) E tx fx start x(1) by (simp add: state_inv_def staking_ok_def)
  moreover have "\<not> (\<exists>u. q = Err (RtTainted u False))"
    using x(2,4) by (auto simp: sent_to_def)
  ultimately have q: "q = Ok (RtLogicError ''Does not have enough funds.'')"
    "values_of m = values_of ?m" "ts_owner m ?k = Some w" by blast+
  have none: "orphans_after L = []" "gone L = {}"
    using x(2) by (auto simp: x(1) q(1) log_parts logged_defs)
  then have st: "st = m" using a(2,3) by (auto simp: comp_simps sr_new_def)
  show thesis
  proof (rule that[OF _ P(2) _ L])
    show "map untagged P = [untagged tx]" using P(1) by simp
    show "transactions blk = P" using a(4) none x(2) by (simp add: pool_after_def x(1))
    show "fmlookup st ?k \<noteq> None" using q(3) st by (auto simp: ts_owner_def bind_eq_Some_conv)
    show "values_of st = values_of ?m" by (simp add: st q(2))
  qed
qed

text \<open>Validating it does not change the state at all, since the sequential runtime makes no entry.\<close>

lemma failing_validation:
  assumes E: "staking_ok E" and tx: "tx_function p = BalancesCall (Transfer dest val)" "val \<noteq> 0"
      "fmlookup m (key_for (BalanceOf E) (fst (tx_signature p))) = None" "tx_tag p = Done w"
    and valid: "valid_done E mid [w] [p] m L c" "sy_result c = Some (Validated st')"
  shows "st' = m"
proof -
  have start: "values_of m (key_for (BalanceOf E) (fst (tx_signature p))) = default_value"
    using tx(3) by (simp add: ts_view_def)
  obtain n rs oks s where n: "sequential_run E L m = (rs, n)" "done_by w L = [p]" "\<forall>e\<in>set L. fst e \<in> {w}"
    "execute_orphans E (orphans_of [p]) (sr_new n mid) = (Ok oks, s)" "st' = sr_state s"
    using valid tx(4) unfolding valid_done_def replay_inv_def by (auto simp: tagged_def)
  have "map snd L = [p]"
    using n(2,3) by (simp add: done_by_def filter_True del: map_map)
  then have "L = [(w, p)]" using n(3) by (cases L) auto
  then have "n = m"
    using n(1) failing_transfer(2)[OF _ tx(1,2) start] E tx(3) by (simp add: sr_new_def staking_ok_def)
  moreover have "orphans_of [p] = []" using tx(4) by (simp add: orphans_of_def)
  ultimately show ?thesis using n(4,5) by (auto simp: comp_simps sr_new_def)
qed

text \<open>C22. The test with which the executor compares authoring and validation is too strict. Author
  a block with one transfer from an account that has no entry in the state, then validate it on
  the same initial state: every run of both returns states with the same values, and yet
  \<open>state_eq\<close> tells them apart, since the authored one has an entry more.\<close>

theorem state_eq_rejects_correct_runs:
  assumes E: "staking_ok E" and c: "clean_system E mid [w] c" and D: "distributer_laws D"
    and txs: "submittable E [tx]"
    and tx: "tx_function tx = BalancesCall (Transfer dest val)" "val \<noteq> 0"
      "fmlookup (wo_state (sy_world c)) (key_for (BalanceOf E) (fst (tx_signature tx))) = None"
    and author: "call_author E D [tx] c = Some c'" "thread_run E (th_start c') L t"
      "sy_result (th_sys t) = Some (Authored st blk)"
    and v: "quiet_system mid [w] v" "ms_orphans (sy_master v) = []"
      "wo_state (sy_world v) = wo_state (sy_world c)" "call_validate blk v = Some v'"
      "thread_run E (th_start v') V u" "sy_result (th_sys u) = Some (Validated st')"
  shows "\<not> state_eq st' st \<and> values_of st' = values_of st"
proof -
  let ?m = "wo_state (sy_world c)" and ?k = "key_for (BalanceOf E) (fst (tx_signature tx))"
  obtain P where P: "map untagged P = [untagged tx]" "distributed E [w] P" "transactions blk = P"
    "author_done E mid [w] P ?m L (th_sys t)" and st: "fmlookup st ?k \<noteq> None" "values_of st = values_of ?m"
    by (rule failing_author[OF E c D txs tx author])
  obtain p where p: "P = [p]" "untagged p = untagged tx" using P(1) by auto
  have fp: "tx_function p = tx_function tx" "tx_signature p = tx_signature tx"
    using arg_cong[OF p(2), of tx_function] arg_cong[OF p(2), of tx_signature] by simp_all
  have tag: "tx_tag p = Done w" using distributedD(3)[OF P(2)] p(1) by simp
  obtain v1 W g where v1: "call_validate blk v = Some v1" "replayable E [w] (transactions blk)" "parted W"
    "valid_sim E mid [w] (transactions blk) ?m W g [] (th_start v1)"
    by (rule authored_validation_starts[OF E c P(2,4) author(3) v(1,2), unfolded v(3)]) simp_all
  have "v1 = v'" using v(4) v1(1) by simp
  then have V: "valid_done E mid [w] [p] ?m (map fst V) (th_sys u)"
    using valid_thread_run[OF v(5) _ v1(3,2) E] v1(4) valid_simD(2) v(6) P(3) p(1) by fastforce
  have st': "st' = ?m"
    by (rule failing_validation[OF E _ tx(2) _ tag V v(6), where dest = dest]) (simp_all add: fp tx)
  have "fmlookup (fmmap sv_data st) ?k \<noteq> None" "fmlookup (fmmap sv_data st') ?k = None"
    using st(1) tx(3) by (simp_all add: st')
  then have "\<not> state_eq st' st" unfolding state_eq_data by metis
  then show ?thesis by (simp add: st st')
qed

section \<open>A concrete executor\<close>

definition ex_exec :: "u8 exec_env" where
  "ex_exec = staking_env.extend ex_env
     (exec_env.fields (\<lambda>p msg sig. sig = [p])
       (\<lambda>call. case call of BalancesCall _ \<Rightarrow> [0] | StakingCall _ \<Rightarrow> [1]))"

lemma ex_exec_ok: "staking_ok ex_exec"
  using ex_staking_ok
  by (simp add: staking_ok_def balances_ok_def edc_ok_def ex_exec_def staking_env.extend_def
      ex_env_def exec_env.fields_def)

definition ex_system :: "u8 system" where
  "ex_system = projr (concurrent_new 0 [1, 2] (Some (funded ex_exec 1 1000)))"

definition ex_block :: "u8 transaction list" where
  "ex_block = [tx_new 1 (BalancesCall (Transfer 2 300)) 1 [1], tx_new 2 (StakingCall (TxBond 100 9)) 2 [2],
     tx_new 3 (BalancesCall (Transfer 3 5)) 1 [1]]"

definition poor_tx :: "u8 transaction" where
  "poor_tx = tx_new 1 (BalancesCall (Transfer 2 10)) 5 [5]"

lemma funded_untainted: "ts_owner (funded E account amount) k = None"
  by (simp add: funded_def unsafe_insert_genesis_value_def ts_new_def state_simps)

lemma ex_state: "well_formed ex_exec (funded ex_exec 1 1000)"
  using chain_funded(2)[OF ex_exec_ok] chain_inv_funded[OF ex_exec_ok] by (simp add: well_formed_def)

lemma ex_untainted: "\<forall>k. ts_owner (funded ex_exec 1 1000) k = None"
  by (intro allI) (rule funded_untainted)

lemma ex_ids: "sorted_list_of_set (set [1, 2 :: thread_id]) = [1, 2]" "sorted_list_of_set (set [2, 1 :: thread_id]) = [1, 2]"
  "sorted_list_of_set (set [1 :: thread_id]) = [1]"
  by (simp_all add: word_le_nat_alt)

lemma ex_clean: "clean_system ex_exec 0 [1, 2] ex_system" "wo_state (sy_world ex_system) = funded ex_exec 1 1000"
  using concurrent_new_clean[OF ex_state ex_untainted, of "[1, 2]" 0] unfolding ex_ids
  by (simp_all add: ex_system_def split: sum.splits)

lemma ex_submittable: "submittable ex_exec ex_block" "submittable ex_exec [poor_tx]"
  by (simp_all add: submittable_def ex_block_def poor_tx_def tx_new_def sane_def tx_verify_def ex_exec_def
      staking_env.extend_def ex_env_def exec_env.fields_def)

text \<open>A complete run of authoring, cleaning and validating.\<close>

lemma startable_run:
  assumes E: "staking_ok E" and c: "clean_system E mid ws c" and S: "startable E D ws txs"
  obtains c' L t st blk v v' V u st' where
    "call_author E D txs c = Some c'" "thread_run E (th_start c') L t"
    "sy_result (th_sys t) = Some (Authored st blk)"
    "v = call_apply_state (wo_state (sy_world c)) (call_clean (th_sys t))" "clean_system E mid ws v"
    "wo_state (sy_world v) = wo_state (sy_world c)" "quiet_system mid ws v" "ms_orphans (sy_master v) = []"
    "call_validate blk v = Some v'" "thread_run E (th_start v') V u"
    "sy_result (th_sys u) = Some (Validated st')"
proof -
  let ?m = "wo_state (sy_world c)"
  obtain P c' where P: "call_author E D txs c = Some c'" "distributed E ws P" "author_inv E mid ws P ?m [] c'"
    by (rule startable_starts[OF c S])
  obtain L t st blk where run: "thread_run E (th_start c') L t" "sy_result (th_sys t) = Some (Authored st blk)"
    using author_block_returns[OF P(3,2) E] by blast
  have L: "author_done E mid ws P ?m L (th_sys t)"
    using author_thread_run[OF run(1) author_sim_start[OF P(3)] P(2) E] author_simD(2) run(2) by fastforce
  define v where "v = call_apply_state ?m (call_clean (th_sys t))"
  have "quiet_system mid ws (th_sys t)" using L by (simp add: author_done_def)
  from clean_again[OF this, of E ?m] c
  have v: "clean_system E mid ws v" "wo_state (sy_world v) = ?m"
    by (simp_all add: v_def clean_system_def)
  then have quiet: "quiet_system mid ws v" "ms_orphans (sy_master v) = []" by (simp_all add: clean_system_def)
  obtain v' W g where v': "call_validate blk v = Some v'" "replayable E ws (transactions blk)" "parted W"
    "valid_sim E mid ws (transactions blk) ?m W g [] (th_start v')"
    by (rule authored_validation_starts[OF E c P(2) L run(2) quiet distributedD(1)[OF P(2)] subset_refl, unfolded v(2)]) simp_all
  obtain V u st' where "thread_run E (th_start v') V u" "sy_result (th_sys u) = Some (Validated st')"
    using valid_block_returns(3)[OF v'(4,3,2) E] by blast
  with that[OF P(1) run v_def v quiet v'(1)] show thesis by blast
qed

lemma full_run:
  assumes E: "staking_ok E" and c: "clean_system E mid ws c" and D: "distributer_laws D" and txs: "submittable E txs"
  obtains c' L t st blk v v' V u st' where
    "call_author E D txs c = Some c'" "thread_run E (th_start c') L t"
    "sy_result (th_sys t) = Some (Authored st blk)"
    "v = call_apply_state (wo_state (sy_world c)) (call_clean (th_sys t))" "clean_system E mid ws v"
    "wo_state (sy_world v) = wo_state (sy_world c)" "quiet_system mid ws v" "ms_orphans (sy_master v) = []"
    "call_validate blk v = Some v'" "thread_run E (th_start v') V u"
    "sy_result (th_sys u) = Some (Validated st')"
  using startable_run[OF E c startableI[OF c D txs]] .

section \<open>The theorems on it\<close>

theorem new_executor_is_clean_witness:
  "clean_system ex_exec 0 [1, 2] (projr (concurrent_new 0 [2, 1] (Some (funded ex_exec 1 1000))))"
  using new_executor_is_clean[OF ex_state ex_untainted, of "[2, 1]" 0] unfolding ex_ids
  by (simp split: sum.splits)

theorem cleaned_executor_is_clean_witness:
  "clean_system ex_exec 0 [1, 2] (call_apply_state (funded ex_exec 1 1000) (call_clean ex_system))"
  using cleaned_executor_is_clean[of 0 "[1, 2]" ex_system ex_exec "funded ex_exec 1 1000"] ex_clean ex_state
    ex_untainted by (simp add: clean_system_def)

theorem authoring_never_panics_witness:
  "\<exists>c' L t st blk. call_author ex_exec round_robin ex_block ex_system = Some c'
     \<and> thread_run ex_exec (th_start c') L t \<and> sy_result (th_sys t) = Some (Authored st blk)
     \<and> \<not> crashed (th_sys t)"
proof (rule full_run[OF ex_exec_ok ex_clean(1) rr.distributer_laws_axioms ex_submittable(1)])
  fix c' L t st and blk :: "u8 block"
  assume run: "call_author ex_exec round_robin ex_block ex_system = Some c'" "thread_run ex_exec (th_start c') L t"
    "sy_result (th_sys t) = Some (Authored st blk)"
  with authoring_never_panics[OF ex_exec_ok ex_clean(1) rr.distributer_laws_axioms ex_submittable(1)]
  show ?thesis by fastforce
qed

theorem authored_block_lists_executions_witness:
  "\<exists>c' L t st blk. call_author ex_exec round_robin ex_block ex_system = Some c'
     \<and> thread_run ex_exec (th_start c') L t \<and> sy_result (th_sys t) = Some (Authored st blk)
     \<and> mset (map tx_id (transactions blk)) = {#1, 2, 3#}"
proof (rule full_run[OF ex_exec_ok ex_clean(1) rr.distributer_laws_axioms ex_submittable(1)])
  fix c' L t st and blk :: "u8 block"
  assume run: "call_author ex_exec round_robin ex_block ex_system = Some c'" "thread_run ex_exec (th_start c') L t"
    "sy_result (th_sys t) = Some (Authored st blk)"
  from authored_block_lists_executions[OF ex_exec_ok ex_clean(1) rr.distributer_laws_axioms
      ex_submittable(1) run]
  have "mset (map tx_id (transactions blk)) = {#1, 2, 3#}" by (simp add: ex_block_def tx_new_def)
  with run show ?thesis by blast
qed

theorem authored_blocks_validate_witness:
  "\<exists>c' L t st blk v' V u st'. call_author ex_exec round_robin ex_block ex_system = Some c'
     \<and> thread_run ex_exec (th_start c') L t \<and> sy_result (th_sys t) = Some (Authored st blk)
     \<and> call_validate blk (call_apply_state (funded ex_exec 1 1000) (call_clean (th_sys t))) = Some v'
     \<and> thread_run ex_exec (th_start v') V u \<and> sy_result (th_sys u) = Some (Validated st')
     \<and> values_of st' = values_of st"
proof (rule full_run[OF ex_exec_ok ex_clean(1) rr.distributer_laws_axioms ex_submittable(1)])
  fix c' L t st v v' V u st' and blk :: "u8 block"
  assume run: "call_author ex_exec round_robin ex_block ex_system = Some c'" "thread_run ex_exec (th_start c') L t"
    "sy_result (th_sys t) = Some (Authored st blk)"
    and v: "v = call_apply_state (wo_state (sy_world ex_system)) (call_clean (th_sys t))"
    "wo_state (sy_world v) = wo_state (sy_world ex_system)" "quiet_system 0 [1, 2] v" "ms_orphans (sy_master v) = []"
    and v': "call_validate blk v = Some v'" "thread_run ex_exec (th_start v') V u"
    "sy_result (th_sys u) = Some (Validated st')"
  from authored_blocks_validate[OF ex_exec_ok ex_clean(1) rr.distributer_laws_axioms
      ex_submittable(1) run v(3,4)] v(2) v' have "values_of st' = values_of st" by fastforce
  with run v' show ?thesis unfolding v(1) ex_clean(2) by blast
qed

theorem authoring_terminates_witness:
  "\<exists>c'. call_author ex_exec round_robin ex_block ex_system = Some c'
     \<and> (\<exists>es t. thread_step ex_exec (th_start c') es t \<and> t \<noteq> th_start c')"
proof (rule full_run[OF ex_exec_ok ex_clean(1) rr.distributer_laws_axioms ex_submittable(1)])
  fix c'
  assume c': "call_author ex_exec round_robin ex_block ex_system = Some c'"
  then have "sy_result (th_sys (th_start c')) = None"
    by (auto simp: call_author_def th_start_def split: if_splits option.splits)
  with authoring_terminates[OF ex_exec_ok ex_clean(1) rr.distributer_laws_axioms ex_submittable(1) c' active_refl] c'
  show ?thesis by auto
qed

theorem validation_terminates_witness:
  "\<exists>c' L t st blk v'. call_author ex_exec round_robin ex_block ex_system = Some c'
     \<and> thread_run ex_exec (th_start c') L t \<and> sy_result (th_sys t) = Some (Authored st blk)
     \<and> call_validate blk (call_apply_state (funded ex_exec 1 1000) (call_clean (th_sys t))) = Some v'
     \<and> (\<exists>es u. thread_step ex_exec (th_start v') es u \<and> u \<noteq> th_start v')"
proof (rule full_run[OF ex_exec_ok ex_clean(1) rr.distributer_laws_axioms ex_submittable(1)])
  fix c' L t st v v' and blk :: "u8 block"
  assume run: "call_author ex_exec round_robin ex_block ex_system = Some c'" "thread_run ex_exec (th_start c') L t"
    "sy_result (th_sys t) = Some (Authored st blk)"
    and v: "v = call_apply_state (wo_state (sy_world ex_system)) (call_clean (th_sys t))"
    "wo_state (sy_world v) = wo_state (sy_world ex_system)" "quiet_system 0 [1, 2] v" "ms_orphans (sy_master v) = []"
    and v': "call_validate blk v = Some v'"
  obtain v1 where v1: "call_validate blk v = Some v1" "\<And>V n u. active_run ex_exec (th_start v1) V n u \<Longrightarrow>
      sy_result (th_sys u) = None \<and> (\<exists>es u'. thread_step ex_exec u es u' \<and> u' \<noteq> u)
         \<or> (\<exists>st'. sy_result (th_sys u) = Some (Validated st'))"
    using validation_terminates[OF ex_exec_ok ex_clean(1) rr.distributer_laws_axioms
        ex_submittable(1) run v(3,4)] v(2) by fastforce
  have "v1 = v'" "sy_result (th_sys (th_start v')) = None"
    using v1(1) v' by (auto simp: call_validate_def th_start_def split: if_splits prod.splits)
  with v1(2)[OF active_refl] have "\<exists>es u. thread_step ex_exec (th_start v') es u \<and> u \<noteq> th_start v'" by auto
  with run v' show ?thesis unfolding v(1) ex_clean(2) by blast
qed

theorem state_eq_rejects_correct_runs_witness:
  "\<exists>st st'. \<not> state_eq st' st \<and> values_of (st' :: runtime_state) = values_of st"
proof -
  define c :: "u8 system" where "c = projr (concurrent_new 0 [1] (Some (funded ex_exec 1 1000)))"
  have c: "clean_system ex_exec 0 [1] c" "wo_state (sy_world c) = funded ex_exec 1 1000"
    using concurrent_new_clean[OF ex_state ex_untainted, of "[1]" 0] unfolding ex_ids
    by (simp_all add: c_def split: sum.splits)
  show ?thesis
  proof (rule full_run[OF ex_exec_ok c(1) rr.distributer_laws_axioms ex_submittable(2)])
    fix c' L t st v v' V u st' and blk :: "u8 block"
    assume run: "call_author ex_exec round_robin [poor_tx] c = Some c'" "thread_run ex_exec (th_start c') L t"
      "sy_result (th_sys t) = Some (Authored st blk)"
      and v: "wo_state (sy_world v) = wo_state (sy_world c)" "quiet_system 0 [1] v" "ms_orphans (sy_master v) = []"
      and v': "call_validate blk v = Some v'" "thread_run ex_exec (th_start v') V u"
      "sy_result (th_sys u) = Some (Validated st')"
    have tx: "tx_function poor_tx = BalancesCall (Transfer 2 10)" "fst (tx_signature poor_tx) = 5"
      by (simp_all add: poor_tx_def tx_new_def)
    have "key_for (BalanceOf ex_exec) 1 \<noteq> key_for (BalanceOf ex_exec) 5"
      by (simp add: key_for_def BalanceOf_def ex_exec_def staking_env.extend_def ex_env_def
          public_encode_def)
    then have "fmlookup (wo_state (sy_world c)) (key_for (BalanceOf ex_exec) (fst (tx_signature poor_tx))) = None"
      by (simp add: c(2) tx(2) funded_def unsafe_insert_genesis_value_def ts_new_def)
    from state_eq_rejects_correct_runs[OF ex_exec_ok c(1) rr.distributer_laws_axioms ex_submittable(2) tx(1) _ this
        run v(2,3,1) v'] show ?thesis by auto
  qed
qed

end
