(* ===== verification/Accesses.thy ===== *)
theory Accesses
  imports Serializability
begin

text \<open>
  Which keys a call can access at all. \<open>asks_within K\<close> is a check of the code of a call, run on the
  runtime \<open>HR\<close> of histories: whatever answers it got so far, the access it stops at is to a key of
  \<open>K\<close>. The rules follow the combinators. With them the keys a call announces to the distribution
  (the attribute \<open>access\<close> of its declaration) are compared with the keys it accesses.
\<close>

section \<open>Static accesses\<close>

definition asks_within :: "state_key set \<Rightarrow> (script, 'a, 'e) comp \<Rightarrow> bool" where
  "asks_within K c \<longleftrightarrow> (\<forall>h. case c (h, None) of
     (r, (h', None)) \<Rightarrow> True | (r, (h', Some x)) \<Rightarrow> is_Panic r \<and> op_key x \<in> K)"

lemma asks_withinI:
  "(\<And>h r h' x. c (h, None) = (r, (h', Some x)) \<Longrightarrow> is_Panic r \<and> op_key x \<in> K) \<Longrightarrow> asks_within K c"
  by (auto simp: asks_within_def split: prod.split option.split)

lemma asks_withinD:
  "asks_within K c \<Longrightarrow> c (h, None) = (r, (h', Some x)) \<Longrightarrow> is_Panic r \<and> op_key x \<in> K"
  unfolding asks_within_def by (drule spec[of _ h]) simp

lemma asks_within_mono: "asks_within K c \<Longrightarrow> K \<subseteq> K' \<Longrightarrow> asks_within K' c"
  by (rule asks_withinI) (use asks_withinD in blast)

lemma asks_pure:
  "asks_within K (ret x)" "asks_within K (throw e)" "asks_within K (panic p)"
  "asks_within K (liftR r)" "asks_within K (liftP y)"
  by (auto intro!: asks_withinI simp: liftP_def split: sum.splits)

lemma asks_read: "k \<in> K \<Longrightarrow> asks_within K (hr_read k)"
proof (rule asks_withinI)
  fix h r h' x
  assume "k \<in> K" "hr_read k (h, None) = (r, (h', Some x))"
  then show "is_Panic r \<and> op_key x \<in> K"
    by (cases "(k, (h, None :: access_op option))" rule: hr_read.cases) (auto split: if_splits)
qed

lemma asks_write: "k \<in> K \<Longrightarrow> asks_within K (hr_write k v)"
proof (rule asks_withinI)
  fix h r h' x
  assume "k \<in> K" "hr_write k v (h, None) = (r, (h', Some x))"
  then show "is_Panic r \<and> op_key x \<in> K"
    by (cases "(k, v, (h, None :: access_op option))" rule: hr_write.cases) (auto split: if_splits)
qed

lemma asks_bind:
  assumes c: "asks_within K c" and f: "\<And>x. asks_within K (f x)"
  shows "asks_within K (bindC c f)"
proof (rule asks_withinI)
  fix h r h' x
  assume run: "bindC c f (h, None) = (r, (h', Some x))"
  obtain q h1 z where q: "c (h, None) = (q, (h1, z))" by (metis prod_cases3)
  have z: "is_Ok q \<Longrightarrow> z = None"
    using asks_withinD[OF c, of h q h1] q by (cases z; cases q) auto
  show "is_Panic r \<and> op_key x \<in> K"
  proof (cases q)
    case (Ok y)
    then have "f y (h1, None) = (r, (h', Some x))" using run q z by (simp add: bindC_def)
    then show ?thesis by (rule asks_withinD[OF f])
  qed (use run q asks_withinD[OF c, of h q h1] in \<open>auto simp: bindC_def\<close>)
qed

lemma asks_wrap:
  assumes "asks_within K c"
  shows "asks_within K (map_err g c)" "asks_within K (expectC msg c)"
proof -
  show "asks_within K (map_err g c)"
  proof (rule asks_withinI)
    fix h r h' x
    assume r: "map_err g c (h, None) = (r, (h', Some x))"
    then obtain q where "c (h, None) = (q, (h', Some x))"
      by (cases "c (h, None)") (auto simp: map_err_def split: rs.splits)
    with r asks_withinD[OF assms this] show "is_Panic r \<and> op_key x \<in> K"
      by (cases q) (auto simp: map_err_def)
  qed
  show "asks_within K (expectC msg c)"
  proof (rule asks_withinI)
    fix h r h' x
    assume r: "expectC msg c (h, None) = (r, (h', Some x))"
    then obtain q where "c (h, None) = (q, (h', Some x))"
      by (cases "c (h, None)") (auto simp: expectC_def split: rs.splits)
    with r asks_withinD[OF assms this] show "is_Panic r \<and> op_key x \<in> K"
      by (cases q) (auto simp: expectC_def)
  qed
qed

lemma asks_branch:
  "asks_within K c1 \<Longrightarrow> asks_within K c2 \<Longrightarrow> asks_within K (if b then c1 else c2)"
  "asks_within K c0 \<Longrightarrow> (\<And>x. asks_within K (c x)) \<Longrightarrow> asks_within K (case z of None \<Rightarrow> c0 | Some x \<Rightarrow> c x)"
  by (auto split: option.split)

lemma asks_maps:
  assumes "key_for M k \<in> K"
  shows "asks_within K (map_read HR M k)" "asks_within K (map_write HR M k v)"
    "asks_within K (map_mutate HR M k f)" "asks_within K (map_clear HR M k)" "asks_within K (map_exists HR M k)"
  unfolding map_read_def map_write_def map_mutate_def map_clear_def map_exists_def HR_sel
  by (rule asks_bind asks_pure asks_read[OF assms] asks_write[OF assms])+

lemma asks_reported:
  "asks_within K c \<Longrightarrow> asks_within K (or_forward c)" "asks_within K c \<Longrightarrow> asks_within K (or_orphan c)"
  unfolding or_forward_def or_orphan_def by (rule asks_wrap, assumption)+

lemmas asks_rules = asks_pure asks_bind asks_branch asks_wrap asks_reported asks_maps

text \<open>What a call accesses when it is run, on any runtime.\<close>

lemma resume_asks: "asks_within K c \<Longrightarrow> resume c h = Asks x \<Longrightarrow> op_key x \<in> K"
  by (auto simp: resume_def split: prod.splits list.splits option.splits dest: asks_withinD)

lemma trace_confined:
  assumes c: "asks_within K hc" and u: "trace R T n hc c s u"
  shows "confined K u"
  unfolding confined_def
proof
  fix y assume "y \<in> set u"
  then obtain p rest where "u = p @ (fst y, snd y) # rest" by (auto dest: split_list)
  from resume_asks[OF c trace_resume(2)[OF u this]] show "op_key (fst y) \<in> K" .
qed

section \<open>Announced accesses\<close>

text \<open>
  The calls that announce all their accesses. A call by a controller announces only the key that
  leads to its stash, and \<open>tx_set_controller\<close> not the controller that is replaced.
\<close>

fun announces_all :: "'p outer_call \<Rightarrow> bool" where
  "announces_all (BalancesCall _) = True"
| "announces_all (StakingCall (TxBond _ _)) = True"
| "announces_all (StakingCall (TxBondExtra _)) = True"
| "announces_all (StakingCall (TxUnbond _)) = True"
| "announces_all (StakingCall _) = False"

lemma announced_accesses:
  assumes "announces_all call"
  shows "asks_within (set (outer_validate False E call origin)) (outer_dispatch E HR call origin)"
proof (cases call)
  case (BalancesCall inner)
  have "asks_within {key_for (BalanceOf E) origin, key_for (BalanceOf E) dest} (transfer E HR origin dest val)" for dest val
    unfolding transfer_def by (rule asks_rules | simp)+
  with BalancesCall show ?thesis by (cases inner) (simp add: balances_validate_def)
next
  case (StakingCall inner)
  have "asks_within {key_for (BalanceOf E) origin, key_for (Ledger E) origin, key_for (Bonded E) controller}
      (tx_bond E HR origin amount controller)"
    "asks_within {key_for (BalanceOf E) origin, key_for (Ledger E) origin} (tx_bond_extra E HR origin amount)"
    "asks_within {key_for (BalanceOf E) origin, key_for (Ledger E) origin} (tx_unbond E HR origin amount)"
    for amount controller
    unfolding tx_bond_def tx_bond_extra_def tx_unbond_def by (rule asks_rules | simp)+
  with assms StakingCall show ?thesis
    by (cases inner) (simp_all add: staking_validate_def)
qed

end
