(* ===== verification/Confinement.thy ===== *)
theory Confinement
  imports Concurrent_Executor Accesses
begin

text \<open>
  Runs of the concurrent executor whose calls have static bounds on their accesses. If worker \<open>w\<close>
  only dispatches calls that access keys of \<open>KW w\<close>, then it owns no other key, and no key outside
  comes into the state. This holds for every interleaving, while a block is authored and while one
  is validated.
\<close>

section \<open>The invariant\<close>

definition activity_within :: "state_key set \<Rightarrow> activity \<Rightarrow> bool" where
  "activity_within K a \<longleftrightarrow> (case a of
     Accessing h c p \<Rightarrow> fmdom' c \<subseteq> K | Committing r es \<Rightarrow> fst ` set es \<subseteq> K | _ \<Rightarrow> True)"

definition state_within ::
  "(thread_id \<Rightarrow> state_key set) \<Rightarrow> runtime_state \<Rightarrow> runtime_state \<Rightarrow> bool" where
  "state_within KW m\<^sub>0 m \<longleftrightarrow> fmdom' m\<^sub>0 \<subseteq> fmdom' m \<and> fmdom' m \<subseteq> fmdom' m\<^sub>0 \<union> (\<Union>w. KW w)
     \<and> (\<forall>k u. ts_owner m k = Some u \<longrightarrow> k \<in> KW u)"

definition within :: "(thread_id \<Rightarrow> state_key set) \<Rightarrow> runtime_state \<Rightarrow> 'p threads \<Rightarrow> bool" where
  "within KW m\<^sub>0 t \<longleftrightarrow> state_within KW m\<^sub>0 (th_state t) \<and> (\<forall>w. activity_within (KW w) (th_activity t w))"

lemma withinD:
  assumes "within KW m\<^sub>0 t"
  shows "state_within KW m\<^sub>0 (th_state t)" "activity_within (KW w) (th_activity t w)"
  using assms by (simp_all add: within_def)

lemma within_start:
  "(\<And>k. ts_owner (wo_state (sy_world c)) k = None) \<Longrightarrow> within KW (wo_state (sy_world c)) (th_start c)"
  by (auto simp: within_def state_within_def activity_within_def th_start_def)

lemma state_within_upd:
  assumes "state_within KW m\<^sub>0 m" "sv_taint e = Some w \<and> k \<in> KW w \<or> sv_taint e = None \<and> k \<in> (\<Union>w. KW w)"
  shows "state_within KW m\<^sub>0 (fmupd k e m)"
  using assms by (auto simp: state_within_def state_simps)

lemma within_activity:
  assumes "within KW m\<^sub>0 t" "state_within KW m\<^sub>0 m" "activity_within (KW w) a"
  shows "within KW m\<^sub>0 (set_activity w a m t)"
  using assms by (simp add: within_def)

lemma within_resting:
  assumes "within KW m\<^sub>0 t" "th_activity t' = th_activity t \<or> th_activity t' = (th_activity t)(w := Resting)"
    and "th_state t' = th_state t"
  shows "within KW m\<^sub>0 t'"
  using assms by (auto simp: within_def activity_within_def)

lemma answer_cache: "cr_answer x r c = (rep, c') \<Longrightarrow> fmdom' c' \<subseteq> insert (op_key x) (fmdom' c)"
  by (cases "(x, r, c)" rule: cr_answer.cases) auto

lemma state_within_excl:
  assumes "state_within KW m\<^sub>0 m" "k \<in> KW w" "ts_read_excl d p k w m = (r, m')"
  shows "state_within KW m\<^sub>0 m'"
proof -
  have "m' = m \<or> (\<exists>e. m' = fmupd k e m \<and> sv_taint e = Some w)"
    using assms(3)
    by (cases p; cases "fmlookup m k") (auto simp: ts_read_excl_def state_simps sv_new_taint_def split: option.splits if_splits)
  then show ?thesis
  proof (elim disjE exE conjE)
    fix e assume "m' = fmupd k e m" "sv_taint e = Some w"
    with state_within_upd[OF assms(1), of e w k] assms(2) show ?thesis by simp
  qed (use assms(1) in simp)
qed

lemma state_within_commit:
  assumes "state_within KW m\<^sub>0 m" "fst e \<in> KW w" "commit_entry dbg e (cr_at m c w) = (q, s)"
  shows "state_within KW m\<^sub>0 (cr_state s)"
proof -
  have "cr_state s = m \<or> cr_state s = fmupd (fst e) (sv_new (snd e) w) m"
    using assms(3) by (cases e) (auto simp: commit_entry_def unsafe_insert_def split: if_splits)
  with state_within_upd[OF assms(1), of "sv_new (snd e) w" w "fst e"] assms(1,2) show ?thesis
    by (auto simp: sv_new_def)
qed

lemma state_within_perform:
  assumes "state_within KW m\<^sub>0 (sr_state s)" "op_key x \<in> (\<Union>w. KW w)" "perform SR x s = (rep, s')"
  shows "state_within KW m\<^sub>0 (sr_state s')"
proof (cases x)
  case (OpWrite k v)
  then have "\<exists>e. sr_state s' = fmupd k e (sr_state s) \<and> sv_taint e = None"
    using assms(3) by (auto simp: sr_write_def unsafe_insert_genesis_value_def state_simps)
  then obtain e where "sr_state s' = fmupd k e (sr_state s)" "sv_taint e = None" by blast
  with state_within_upd[OF assms(1), of e undefined k] assms(2) OpWrite show ?thesis by simp
qed (use assms in \<open>auto simp: sr_read_eq\<close>)

section \<open>Steps of the workers\<close>

lemma within_worker_step:
  assumes inv: "within KW m\<^sub>0 t" and step: "worker_step E w t es t'"
    and id: "wk_id (sy_workers (th_sys t) w) = w"
    and peers: "\<And>msg rest. to_peer (sy_world (th_sys t)) w = msg # rest \<Longrightarrow> \<exists>tx. payload msg = TransactionMsg tx"
    and tx: "\<And>tx. dispatching E (sy_workers (th_sys t) w) (sy_world (th_sys t)) = Some tx \<Longrightarrow>
      asks_within (KW w) (call_code E tx)"
  shows "within KW m\<^sub>0 t'"
  using step
proof cases
  case (takes msg rest wk' wo')
  from worker_from_master_frame(1)[OF takes(5,6)] show ?thesis
    by (intro within_resting[OF inv, where w = w]) (simp_all add: takes)
next
  case (takes_peer msg rest wk' wo')
  then obtain tx where "payload msg = TransactionMsg tx" using peers by blast
  with takes_peer id show ?thesis by (simp add: dispatching_def head_tx_def)
next
  case (begins tx a)
  then have "activity_within (KW w) a"
    by (auto simp: activity_within_def split: worker_phase.split)
  then show ?thesis using within_activity[OF inv withinD(1)[OF inv]] begins by simp
next
  case (shared_section h c tx' x a)
  have k: "op_key x \<in> KW w" using resume_asks[OF tx] shared_section by blast
  have c: "fmdom' c \<subseteq> KW w" using withinD(2)[OF inv, of w] shared_section by (simp add: activity_within_def)
  have "activity_within (KW w) a"
  proof (cases "cr_shared w (op_key x) c (th_state t)")
    case (Inl r)
    obtain rep c' where rep: "cr_answer x r c = (rep, c')" by fastforce
    from answer_cache[OF rep] k c Inl rep shared_section show ?thesis by (auto simp: activity_within_def)
  qed (use c shared_section in \<open>simp add: activity_within_def\<close>)
  then show ?thesis using within_activity[OF inv withinD(1)[OF inv]] shared_section by simp
next
  case (excl_section h c p tx' x r m' rep c')
  have k: "op_key x \<in> KW w" using resume_asks[OF tx] excl_section by blast
  have c: "fmdom' c \<subseteq> KW w" using withinD(2)[OF inv, of w] excl_section by (simp add: activity_within_def)
  have "activity_within (KW w) (Accessing (h @ [(x, rep)]) c' None)"
    using answer_cache[OF excl_section(7)] k c by (auto simp: activity_within_def)
  with state_within_excl[OF withinD(1)[OF inv] k excl_section(6)] show ?thesis
    using within_activity[OF inv] excl_section by simp
next
  case (call_returns h c tx' r)
  have "fmdom' c \<subseteq> KW w" using withinD(2)[OF inv, of w] call_returns by (simp add: activity_within_def)
  moreover have "fst ` set (entries c) = fmdom' c"
    by (simp add: sorted_list_of_fmap_def image_comp fmdom'_alt_def)
  ultimately have "activity_within (KW w) (Committing r (if is_Ok r then entries c else []))"
    by (auto simp: activity_within_def)
  then show ?thesis using within_activity[OF inv withinD(1)[OF inv]] call_returns by simp
next
  case (commits r e es' q s' a)
  have e: "fst e \<in> KW w" "fst ` set es' \<subseteq> KW w"
    using withinD(2)[OF inv, of w] commits by (simp_all add: activity_within_def)
  then have "activity_within (KW w) a"
    using commits by (auto simp: activity_within_def split: rs.split)
  with state_within_commit[OF withinD(1)[OF inv] e(1) commits(4)] show ?thesis
    using within_activity[OF inv] commits by simp
next
  case (finishes r tx' wk' wo')
  from finish_dispatch_frame(1)[OF finishes(5)] show ?thesis
    by (intro within_resting[OF inv, where w = w]) (simp_all add: finishes)
next
  case (replays h tx' x rep s')
  have k: "op_key x \<in> KW w" using resume_asks[OF tx] replays by blast
  have "state_within KW m\<^sub>0 (sr_state (sr_new (th_state t) w))"
    using withinD(1)[OF inv] by (simp add: sr_new_def)
  from state_within_perform[OF this _ replays(6)] k have "state_within KW m\<^sub>0 (sr_state s')" by blast
  from within_activity[OF inv this, of w "Replaying (h @ [(x, rep)])"] show ?thesis
    by (simp add: replays activity_within_def)
next
  case (replayed h tx' r wk' wo')
  from finish_dispatch_frame(1)[OF replayed(6)] show ?thesis
    by (intro within_resting[OF inv, where w = w]) (simp_all add: replayed)
qed

section \<open>Sequential calls\<close>

lemma state_within_dispatch:
  assumes "SequentialRuntime_dispatch E call origin s = (r, s')" "state_within KW m\<^sub>0 (sr_state s)"
    and "asks_within (\<Union>w. KW w) (outer_dispatch E HR call origin)"
  shows "state_within KW m\<^sub>0 (sr_state s')"
proof -
  obtain out where out: "outer_dispatch E SR call origin s = (out, s')"
    by (rule SequentialRuntime_dispatch_cases[OF assms(1)])
  obtain u where u: "trace SR is_taint max_accesses (outer_dispatch E HR call origin) (outer_dispatch E SR call origin) s u"
    using traced_outer_dispatch[of SR E call origin] unfolding traced_def by blast
  have "performs SR u s = Some s'" using traceD(1)[OF u] out by simp
  with trace_confined[OF assms(3) u] assms(2) show ?thesis
  proof (induction u arbitrary: s)
    case (Cons y u)
    obtain x rep where y: "y = (x, rep)" by fastforce
    obtain s1 where s1: "perform SR x s = (rep, s1)" "performs SR u s1 = Some s'"
      using Cons.prems(3) y by (auto split: prod.splits if_splits)
    from Cons.IH[OF _ state_within_perform[OF Cons.prems(2) _ s1(1)] s1(2)] Cons.prems(1) y
    show ?case by simp
  qed simp
qed

lemma state_within_orphans:
  assumes "execute_orphans E txs s = (r, s')" "state_within KW m\<^sub>0 (sr_state s)"
    and "\<forall>tx\<in>set txs. asks_within (\<Union>w. KW w) (call_code E tx)"
  shows "state_within KW m\<^sub>0 (sr_state s')"
  using assms
proof (induction txs arbitrary: s r)
  case (Cons tx txs)
  let ?d = "SequentialRuntime_dispatch E (tx_function tx) (fst (tx_signature tx))"
  obtain q s1 where q: "?d s = (q, s1)" by fastforce
  have s1: "state_within KW m\<^sub>0 (sr_state s1)"
    using state_within_dispatch[OF q Cons.prems(2)] Cons.prems(3) by simp
  have "s' = s \<or> s' = s1 \<or> (\<exists>r1. execute_orphans E txs s1 = (r1, s'))"
    using Cons.prems(1) q by (auto simp: bindC_def expectC_def split: if_splits rs.splits prod.splits)
  with s1 Cons.IH[OF _ s1] Cons.prems(2,3) show ?case by auto
qed (simp add: comp_simps)

text \<open>The master changes the state only by the orphans it executes.\<close>

lemma orphan_pool:
  assumes "execute_orphan_pool E ma wo = (ma', wo')"
  shows "ms_orphans ma' = ms_orphans ma"
    "\<exists>r s i. execute_orphans E (ms_orphans ma) (sr_new (wo_state wo) i) = (r, s) \<and> wo_state wo' = sr_state s"
proof -
  obtain r s where s: "execute_orphans E (ms_orphans ma) (sr_new (wo_state wo) (ms_id ma)) = (r, s)" by fastforce
  then have "ms_orphans ma' = ms_orphans ma \<and> wo_state wo' = sr_state s"
    using assms by (cases r) (auto simp: execute_orphan_pool_def mcrash_def)
  with s show "ms_orphans ma' = ms_orphans ma"
    "\<exists>r s i. execute_orphans E (ms_orphans ma) (sr_new (wo_state wo) i) = (r, s) \<and> wo_state wo' = sr_state s"
    by blast+
qed

lemma collection_orphans:
  assumes "collection_iteration E col ma wo = ((ma', wo'), res)"
  shows "wo_state wo' = wo_state wo
    \<or> (\<exists>r s i. execute_orphans E (ms_orphans ma') (sr_new (wo_state wo) i) = (r, s) \<and> wo_state wo' = sr_state s)"
proof -
  have ended: "wo_state wo2 = wo_state wo1
    \<or> (\<exists>r s i. execute_orphans E (ms_orphans ma2) (sr_new (wo_state wo1) i) = (r, s) \<and> wo_state wo2 = sr_state s)"
    if "author_block_end E c1 ma1 wo1 = ((ma2, wo2), res2)" for c1 ma1 wo1 ma2 wo2 res2
  proof (cases "debug_build E \<and> total c1 \<noteq> executed_local c1 + executed_workers c1 + length (ms_orphans ma1)")
    case True
    with that show ?thesis by (simp add: author_block_end_def)
  next
    case False
    obtain ma3 wo3 where r: "execute_orphan_pool E ma1 (broadcast ma1 TaskDone wo1) = (ma3, wo3)" by fastforce
    have "ma2 = ma3" "wo2 = wo3" using that False r by (simp_all add: author_block_end_def)
    with orphan_pool[OF r] show ?thesis by (simp add: broadcast_world)
  qed
  obtain q wo1 where q: "(case to_master wo of
              [] \<Rightarrow> (Inr (ma, col), wo)
            | msg # rest \<Rightarrow> (collect_message E msg (ma, col), wo\<lparr>to_master := rest\<rparr>)) = (q, wo1)"
    by fastforce
  then have "wo_state wo1 = wo_state wo" by (auto split: list.splits)
  moreover have "wo_state wo' = wo_state wo1
    \<or> (\<exists>r s i. execute_orphans E (ms_orphans ma') (sr_new (wo_state wo1) i) = (r, s) \<and> wo_state wo' = sr_state s)"
  proof (cases q)
    case (Inr y)
    obtain ma1 c1 where y: "y = (ma1, c1)" by fastforce
    show ?thesis
    proof (cases "collection_finished ma1 c1")
      case True
      then have "author_block_end E c1 ma1 wo1 = ((ma', wo'), res)"
        using assms q Inr y unfolding collection_iteration_def by simp
      then show ?thesis by (rule ended)
    qed (use assms q Inr y in \<open>auto simp: collection_iteration_def\<close>)
  qed (use assms q in \<open>auto simp: collection_iteration_def\<close>)
  ultimately show ?thesis by simp
qed

lemma validation_orphans:
  assumes "validation_iteration E n ma wo = ((ma', wo'), res)"
  shows "wo_state wo' = wo_state wo
    \<or> (\<exists>r s i. execute_orphans E (ms_orphans ma) (sr_new (wo_state wo) i) = (r, s) \<and> wo_state wo' = sr_state s)"
proof -
  obtain q wo1 where q: "(case to_master wo of
              [] \<Rightarrow> (Inr n, wo)
            | msg # rest \<Rightarrow>
                (case payload msg of
                   ValidationReport \<Rightarrow> Inr (n + 1)
                 | _ \<Rightarrow> Inl ''Unexpected message type'', wo\<lparr>to_master := rest\<rparr>)) = (q, wo1)"
    by fastforce
  then have "wo_state wo1 = wo_state wo" by (auto split: list.splits)
  moreover have "wo_state wo' = wo_state wo1
    \<or> (\<exists>r s i. execute_orphans E (ms_orphans ma) (sr_new (wo_state wo1) i) = (r, s) \<and> wo_state wo' = sr_state s)"
  proof (cases q)
    case (Inr i)
    obtain ma3 wo3 where r: "execute_orphan_pool E ma wo1 = (ma3, wo3)" by fastforce
    have "wo' = wo1 \<or> wo' = wo3"
      using assms q Inr r by (auto simp: validation_iteration_def split: if_splits)
    with orphan_pool(2)[OF r] show ?thesis by auto
  qed (use assms q in \<open>auto simp: validation_iteration_def\<close>)
  ultimately show ?thesis by simp
qed

section \<open>Authoring\<close>

lemma asks_call: "tx_call tx = tx_call tx' \<Longrightarrow> asks_within K (call_code E tx) = asks_within K (call_code E tx')"
  by (simp add: tx_call_def)

text \<open>What a worker dispatches was distributed to it, or sent by a worker that was refused a key.\<close>

lemma author_dispatched:
  assumes inv: "author_inv E mid ws P m\<^sub>0 L c" and w: "w \<in> set ws"
    and tx: "dispatching E (sy_workers c w) (sy_world c) = Some tx"
  obtains (own) "tx \<in> set (tagged w P)"
  | (peer) x where "x \<in> set L" "sent_to w x" "tx_call tx = tx_call (the_tx x)"
proof -
  obtain todo queue where wi: "wk_id (sy_workers c w) = w" "to_worker (sy_world c) w = map (new_from_thread mid) queue"
    "firsts w L @ todo = tagged w P" "author_stage ws L w todo (sy_workers c w) queue"
    using author_invD(4)[OF inv w] unfolding worker_inv_def by (elim exE conjE) (rule that)
  show thesis
  proof (cases "wk_phase (sy_workers c w)")
    case (Depleting e f outs)
    then have queue: "queue = map TransactionMsg todo @ [TransactionDistributionDone]"
      using wi(4) by (auto simp: author_stage_def quiet_def)
    then have "tx \<in> set todo"
      using tx Depleting wi(1,2)
      by (cases todo) (auto simp: dispatching_def head_tx_def new_from_thread_def split: if_splits)
    then have "tx \<in> set (tagged w P)" unfolding wi(3)[symmetric] by simp
    then show thesis by (rule own)
  next
    case Serving
    then obtain tx' where tx': "head_tx (to_peer (sy_world c) w) (\<lambda>_ _. True) = Some tx'"
      "tx = tx'\<lparr>tx_exec_status := Forwarded\<rparr>"
      using tx wi(1) by (auto simp: dispatching_def)
    obtain q where q: "map payload (to_peer (sy_world c) w) = map TransactionMsg q" "handled w L @ q = forwards_to w L"
      using author_invD(5)[OF inv w] by (auto simp: peer_inv_def)
    have "tx' \<in> set q"
      using tx'(1) q(1) by (cases q) (auto simp: head_tx_def split: list.splits message_payload.splits)
    then have "tx' \<in> set (forwards_to w L)" unfolding q(2)[symmetric] by simp
    then obtain x where "x \<in> set L" "sent_to w x" "tx' = the_tx x" by (auto simp: forwards_to_def)
    then show thesis using peer tx'(2) by (simp add: tx_call_def)
  next
    case (Validation outs)
    then show thesis using wi(4) by (auto simp: author_stage_def quiet_def)
  qed (use tx in \<open>simp_all add: dispatching_def\<close>)
qed

lemma within_author_step:
  assumes inv: "within KW m\<^sub>0 t" and step: "thread_step E t es t'"
    and sim: "author_sim E mid ws P m\<^sub>0 L t" and P: "distributed E ws P" and E: "staking_ok E"
    and own: "\<And>w tx. tx \<in> set (tagged w P) \<Longrightarrow> asks_within (KW w) (call_code E tx)"
    and peer: "\<And>w x. x \<in> set L \<Longrightarrow> sent_to w x \<Longrightarrow> asks_within (KW w) (call_code E (the_tx x))"
  shows "within KW m\<^sub>0 t'"
proof -
  obtain m dn where i: "author_inv E mid ws P m\<^sub>0 L (at_state m (th_sys t))" "\<And>w. activity_ok E ws t m dn w"
    using sim unfolding author_sim_def by blast
  from step show ?thesis
  proof cases
    case (worker w)
    then have w: "w \<in> set ws" using author_invD(6)[OF i(1)] by (simp add: worker_in_def)
    show ?thesis
    proof (rule within_worker_step[OF inv worker(2)])
      show "wk_id (sy_workers (th_sys t) w) = w"
        using author_invD(4)[OF i(1) w] by (simp add: worker_inv_def)
      show "\<exists>tx. payload msg = TransactionMsg tx" if "to_peer (sy_world (th_sys t)) w = msg # rest" for msg rest
        using author_invD(5)[OF i(1) w] that by (auto simp: peer_inv_def)
      fix tx assume "dispatching E (sy_workers (th_sys t) w) (sy_world (th_sys t)) = Some tx"
      then have "dispatching E (sy_workers (at_state m (th_sys t)) w) (sy_world (at_state m (th_sys t))) = Some tx" by simp
      with i(1) w show "asks_within (KW w) (call_code E tx)"
      proof (cases rule: author_dispatched)
        case (peer x)
        then show ?thesis using assms(7) asks_call by blast
      qed (rule own)
    qed
  next
    case (master_collects col ma' wo' res)
    have "state_within KW m\<^sub>0 wo" if "wo = wo_state wo'" for wo
      using collection_orphans[OF master_collects(4)]
    proof (elim disjE exE conjE)
      fix r s i
      assume s: "execute_orphans E (ms_orphans ma') (sr_new (th_state t) i) = (r, s)" "wo_state wo' = sr_state s"
      from author_thread_step[OF sim P E step] show "state_within KW m\<^sub>0 wo"
      proof (elim disjE conjE)
        assume "author_sim E mid ws P m\<^sub>0 (L @ es) t'"
        then obtain col' where "ms_phase ma' = MCollecting col'"
          using master_collects(2) by (auto simp: author_sim_def author_inv_def)
        from collection_state(2)[OF master_collects(4) this] withinD(1)[OF inv] that show ?thesis by simp
      next
        assume d: "author_done E mid ws P m\<^sub>0 (L @ es) (th_sys t')"
        then have orphans: "ms_orphans ma' = orphans_after L" and ok: "log_ok ws P L"
          using master_collects(1,2) by (simp_all add: author_done_def)
        have "asks_within (\<Union>w. KW w) (call_code E tx)" if "tx \<in> set (orphans_after L)" for tx
        proof -
          obtain x where x: "x \<in> set L" "tx_call tx = tx_call (the_tx x)"
            using \<open>tx \<in> set (orphans_after L)\<close> by (auto simp: orphans_after_def tx_call_def)
          obtain w where "the_tx x \<in> set (tagged w P)"
            using log_okD(2)[OF ok x(1)] distributedD(3)[OF P] by (auto simp: tagged_set)
          from asks_within_mono[OF own[OF this], of "\<Union>w. KW w"] asks_call[OF x(2)] show ?thesis by blast
        qed
        with state_within_orphans[OF s(1)] withinD(1)[OF inv] orphans that s(2) show ?thesis
          by (simp add: sr_new_def)
      qed
    qed (use withinD(1)[OF inv] that in simp)
    then show ?thesis using withinD(2)[OF inv] master_collects by (simp add: within_def)
  next
    case (master_validates n ma' wo' res)
    with i(1) show ?thesis by (auto simp: author_inv_def)
  qed
qed

lemma within_quiet:
  assumes "within KW m\<^sub>0 t" "quiet_system mid ws (th_sys t)" "\<forall>w. th_activity t w = Resting" "thread_step E t es t'"
  shows "within KW m\<^sub>0 t'"
proof -
  from quiet_thread_step[OF assms(2) _ assms(4)] assms(3)
  have q: "\<forall>w. th_activity t' w = Resting" "sys_step E (th_sys t) [] (th_sys t')" by simp_all
  from quiet_system_step[OF assms(2) q(2)] q(1) assms(1) show ?thesis
    by (simp add: within_def activity_within_def)
qed

lemma within_author_run:
  assumes run: "thread_run E t\<^sub>0 L t" "author_sim E mid ws P m\<^sub>0 [] t\<^sub>0" "within KW m\<^sub>0 t\<^sub>0"
    and P: "distributed E ws P" and E: "staking_ok E"
    and own: "\<And>w tx. tx \<in> set (tagged w P) \<Longrightarrow> asks_within (KW w) (call_code E tx)"
    and peer: "\<And>w x. x \<in> set L \<Longrightarrow> sent_to w x \<Longrightarrow> asks_within (KW w) (call_code E (the_tx x))"
  shows "within KW m\<^sub>0 t"
  using run peer
proof (induction rule: thread_run.induct)
  case (trun_step t\<^sub>0 L t fs t')
  have w: "within KW m\<^sub>0 t"
    by (rule trun_step.IH) (use trun_step.prems in auto)
  from author_thread_run[OF trun_step.hyps(1) trun_step.prems(1) P E] show ?case
  proof (elim disjE conjE)
    assume "author_sim E mid ws P m\<^sub>0 L t"
    from within_author_step[OF w trun_step.hyps(2) this P E own] trun_step.prems(3) show ?thesis by simp
  next
    assume "author_done E mid ws P m\<^sub>0 L (th_sys t)" "\<forall>w. th_activity t w = Resting"
    with within_quiet[OF w _ _ trun_step.hyps(2)] show ?thesis by (auto simp: author_done_def)
  qed
qed

section \<open>Validating\<close>

lemma within_valid_step:
  assumes inv: "within KW m\<^sub>0 t" and step: "thread_step E t es t'"
    and sim: "valid_sim E mid ws P m W g V t"
    and own: "\<And>w tx. tx \<in> set (tagged w P) \<Longrightarrow> asks_within (KW w) (call_code E tx)"
    and orphan: "\<And>tx. tx \<in> set (orphans_of P) \<Longrightarrow> asks_within (\<Union>w. KW w) (call_code E tx)"
  shows "within KW m\<^sub>0 t'"
proof -
  obtain m' where i: "valid_inv E mid ws P m V (at_state m' (th_sys t))"
    using sim unfolding valid_sim_def by blast
  from step show ?thesis
  proof cases
    case (worker w)
    then have w: "w \<in> set ws" using valid_invD(4)[OF i] by (simp add: worker_in_def)
    show ?thesis
    proof (rule within_worker_step[OF inv worker(2)])
      show "wk_id (sy_workers (th_sys t) w) = w"
        using valid_invD(7)[OF i w] by (simp add: validator_inv_def)
      show "\<exists>tx. payload msg = TransactionMsg tx" if "to_peer (sy_world (th_sys t)) w = msg # rest" for msg rest
        using valid_invD(8)[OF i w] that by simp
      fix tx assume "dispatching E (sy_workers (th_sys t) w) (sy_world (th_sys t)) = Some tx"
      then have "dispatching E (sy_workers (at_state m' (th_sys t)) w) (sy_world (at_state m' (th_sys t))) = Some tx" by simp
      then obtain todo where "done_by w V @ tx # todo = tagged w P"
        by (rule valid_dispatching[OF i w])
      then have "tx \<in> set (tagged w P)" by (metis in_set_conv_decomp)
      then show "asks_within (KW w) (call_code E tx)" by (rule own)
    qed
  next
    case (master_collects col ma' wo' res)
    with i show ?thesis by (auto simp: valid_inv_def)
  next
    case (master_validates n ma' wo' res)
    have "ms_orphans (sy_master (th_sys t)) = orphans_of P" using valid_invD(6)[OF i] by simp
    moreover have "state_within KW m\<^sub>0 (sr_state (sr_new (th_state t) j))" for j
      using withinD(1)[OF inv] by (simp add: sr_new_def)
    moreover have "\<forall>tx\<in>set (orphans_of P). asks_within (\<Union>w. KW w) (call_code E tx)"
      using orphan by blast
    ultimately have "state_within KW m\<^sub>0 (wo_state wo')"
      using validation_orphans[OF master_validates(4)] withinD(1)[OF inv] state_within_orphans by metis
    then show ?thesis using withinD(2)[OF inv] master_validates by (simp add: within_def)
  qed
qed

lemma within_valid_run:
  assumes run: "thread_run E t\<^sub>0 V t" "valid_sim E mid ws P m W g [] t\<^sub>0" "within KW m\<^sub>0 t\<^sub>0"
    and W: "parted W" and P: "replayable E ws P" and E: "staking_ok E"
    and own: "\<And>w tx. tx \<in> set (tagged w P) \<Longrightarrow> asks_within (KW w) (call_code E tx)"
    and orphan: "\<And>tx. tx \<in> set (orphans_of P) \<Longrightarrow> asks_within (\<Union>w. KW w) (call_code E tx)"
  shows "within KW m\<^sub>0 t"
  using run
proof (induction rule: thread_run.induct)
  case (trun_step t\<^sub>0 V t fs t')
  have w: "within KW m\<^sub>0 t"
    by (rule trun_step.IH) (use trun_step.prems in auto)
  from valid_thread_run[OF trun_step.hyps(1) trun_step.prems(1) W P E] show ?case
  proof (elim disjE conjE)
    assume "valid_sim E mid ws P m W g (map fst V) t"
    from within_valid_step[OF w trun_step.hyps(2) this own orphan] show ?thesis by simp
  next
    assume "valid_done E mid ws P m (map fst V) (th_sys t)" "\<forall>w. th_activity t w = Resting"
    with within_quiet[OF w _ _ trun_step.hyps(2)] show ?thesis by (auto simp: valid_done_def)
  qed
qed

end
