(* ===== verification/Conflict_Free.thy ===== *)
theory Conflict_Free
  imports Confinement
begin

text \<open>
  Blocks without conflicts. If the calls of a block announce all the keys they access and the
  transactions are distributed by connected components, the keys of different workers are different.
  Then no worker is ever refused a key: nothing is forwarded, nothing becomes an orphan, and the
  block is the pool as it was distributed.
\<close>

section \<open>Accesses that are not refused\<close>

definition not_tainted :: "('a, dispatch_error) rs \<Rightarrow> bool" where
  "not_tainted r \<longleftrightarrow> (\<forall>e. r = Err e \<longrightarrow> \<not> is_taint e)"

definition unrefused :: "activity \<Rightarrow> bool" where
  "unrefused a \<longleftrightarrow> (case a of
     Accessing h c p \<Rightarrow> \<forall>x\<in>set h. \<not> refused (snd x) | Committing r es \<Rightarrow> not_tainted r | _ \<Rightarrow> True)"

text \<open>A call none of whose accesses was refused does not report a taint.\<close>

lemma granted_not_tainted:
  assumes h: "settles w m h fmempty = Some c" "\<forall>x\<in>set h. \<not> refused (snd x)"
    and r: "resume (call_code E tx) h = Returns r"
  shows "not_tainted r"
proof -
  let ?call = "\<lambda>R. outer_dispatch E R (tx_function tx) (fst (tx_signature tx))"
  note fc = fresh_cache[of "cr_new m w", unfolded view_of_new, OF refl]
  have "performs CR h (cr_new m w) = Some (cr_at m c w)"
    using settles_performs[OF h(1)] by (simp add: cr_new_at)
  from conc.granted_history[OF this fc(1) h(2)]
  have "performs AR h (cr_view (cr_new m w)) = Some (cr_view (cr_at m c w))" by blast
  from resume_Returns(1)[OF traced_outer_dispatch this r]
  have "?call AR (cr_view (cr_new m w)) = (r, cr_view (cr_at m c w))" .
  then have "r \<noteq> Err (Tainted u b)" for u b
    using outer_AR_not_tainted[of E "tx_function tx" "fst (tx_signature tx)"] by metis
  then show ?thesis
    by (auto simp: not_tainted_def is_taint_def split: dispatch_error.splits)
qed

text \<open>In its own part of the keys a worker is granted every access.\<close>

lemma own_key:
  assumes "state_within KW m\<^sub>0 m" "parted KW" "k \<in> KW w" "ts_owner m k = Some u"
  shows "u = w"
  using assms partedD[OF assms(2), of w u k] by (auto simp: state_within_def)

lemma answer_granted: "cr_answer x (Ok v) c = (rep, c') \<Longrightarrow> \<not> refused rep"
  by (cases x) auto

lemma own_shared:
  assumes "state_within KW m\<^sub>0 m" "parted KW" "k \<in> KW w" "cr_shared w k c m = Inl r"
  shows "\<exists>v. r = Ok v"
proof (cases "fmlookup c k")
  case None
  then have "ts_read_shared k w m = Inl r" using assms(4) by (simp add: cr_shared_def)
  then obtain e u where e: "fmlookup m k = Some e" "sv_taint e = Some u" "r = (if u = w then Ok (sv_data e) else Err u)"
    by (auto simp: ts_read_shared_def split: option.splits if_splits)
  then have "u = w" using own_key[OF assms(1-3), of u] by (simp add: ts_owner_def)
  with e show ?thesis by simp
qed (use assms(4) in \<open>auto simp: cr_shared_def\<close>)

lemma own_excl:
  assumes "state_within KW m\<^sub>0 m" "parted KW" "k \<in> KW w" "path_valid w k p m"
    and "ts_read_excl default_value p k w m = (r, m')"
  shows "\<exists>v. r = Ok v"
proof -
  have r: "fst (ts_read default_value k w m) = r" using excl_read[OF assms(4)] assms(5) by simp
  show ?thesis
  proof (cases "ts_owner m k")
    case None
    from r ts_read_free[OF this, of w] show ?thesis by auto
  next
    case (Some u)
    from r ts_read_owned[OF this, of w] own_key[OF assms(1-3) Some] show ?thesis by auto
  qed
qed

section \<open>No step is refused\<close>

lemma unrefused_worker_step:
  assumes sim: "author_inv E mid ws P m\<^sub>1 L (at_state m (th_sys t))" "\<And>w. activity_ok E ws t m dn w"
    and inv: "within KW m\<^sub>0 t" and KW: "parted KW" and free: "\<And>v. unrefused (th_activity t v)"
    and step: "worker_step E w t es t'"
    and tx: "\<And>tx. dispatching E (sy_workers (th_sys t) w) (sy_world (th_sys t)) = Some tx \<Longrightarrow>
      asks_within (KW w) (call_code E tx)"
  shows "unrefused (th_activity t' v) \<and> (\<forall>x\<in>set es. \<forall>u b. snd x \<noteq> Err (RtTainted u b))"
proof -
  have other: "unrefused (((th_activity t)(w := a)) v)" if "unrefused a" for a
    using that free by simp
  note st = withinD(1)[OF inv]
  from step show ?thesis
  proof cases
    case (begins tx a)
    then have "unrefused a" by (auto simp: unrefused_def split: worker_phase.split)
    with other begins show ?thesis by simp
  next
    case (shared_section h c tx' x a)
    have k: "op_key x \<in> KW w" using resume_asks[OF tx] shared_section by blast
    have h: "\<forall>x\<in>set h. \<not> refused (snd x)" using free[of w] shared_section by (simp add: unrefused_def)
    have "unrefused a"
    proof (cases "cr_shared w (op_key x) c (th_state t)")
      case (Inl r)
      obtain v' where "r = Ok v'" using own_shared[OF st KW k Inl] by blast
      moreover obtain rep c' where rep: "cr_answer x r c = (rep, c')" by fastforce
      ultimately have "\<not> refused rep" using answer_granted by blast
      with Inl rep h shared_section show ?thesis by (auto simp: unrefused_def)
    qed (use h shared_section in \<open>simp add: unrefused_def\<close>)
    with other shared_section show ?thesis by simp
  next
    case (excl_section h c p tx' x r m' rep c')
    have k: "op_key x \<in> KW w" using resume_asks[OF tx] excl_section by blast
    have h: "\<forall>x\<in>set h. \<not> refused (snd x)" using free[of w] excl_section by (simp add: unrefused_def)
    have "path_valid w (op_key x) p (th_state t)"
      using accessingD(6)[OF sim(2) excl_section(3,4) refl excl_section(5)] by simp
    then obtain v' where "r = Ok v'" using own_excl[OF st KW k _ excl_section(6)] by blast
    then have "\<not> refused rep" using answer_granted excl_section(7) by blast
    with h have "unrefused (Accessing (h @ [(x, rep)]) c' None)" by (auto simp: unrefused_def)
    with other excl_section show ?thesis by simp
  next
    case (call_returns h c tx' r)
    have "\<forall>x\<in>set h. \<not> refused (snd x)" using free[of w] call_returns by (simp add: unrefused_def)
    from granted_not_tainted[OF accessingD(3)[OF sim(2) call_returns(3,4)] this call_returns(5)]
    have "unrefused (Committing r (if is_Ok r then entries c else []))" by (simp add: unrefused_def)
    with other call_returns show ?thesis by simp
  next
    case (commits r e es' q s' a)
    then have "unrefused a"
      using free[of w] by (auto simp: unrefused_def not_tainted_def split: rs.split)
    with other commits show ?thesis by simp
  next
    case (finishes r tx' wk' wo')
    then have "not_tainted r" using free[of w] by (simp add: unrefused_def)
    then have "to_runtime_dispatch_result r \<noteq> Err (RtTainted u b)" for u b
      by (cases r rule: to_runtime_dispatch_result.cases) (auto simp: not_tainted_def is_taint_def)
    with finishes other[of Resting] show ?thesis by (simp add: unrefused_def)
  next
    case (replays h tx' x rep s')
    then show ?thesis using sim(2)[of w] by (simp add: activity_ok_def)
  next
    case (replayed h tx' r wk' wo')
    then show ?thesis using sim(2)[of w] by (simp add: activity_ok_def)
  qed (use free in simp_all)
qed

section \<open>Runs\<close>

definition conflict_free :: "'p logged list \<Rightarrow> bool" where
  "conflict_free L \<longleftrightarrow> (\<forall>x\<in>set L. \<forall>u b. snd x \<noteq> Err (RtTainted u b))"

lemma conflict_free_simps [simp]:
  "conflict_free []" "conflict_free (L @ L') \<longleftrightarrow> conflict_free L \<and> conflict_free L'"
  by (auto simp: conflict_free_def)

lemma conflict_free_step:
  assumes sim: "author_sim E mid ws P m\<^sub>1 L t" and step: "thread_step E t es t'"
    and inv: "within KW m\<^sub>0 t" "\<And>w. unrefused (th_activity t w)" "conflict_free L"
    and KW: "parted KW" and own: "\<And>w tx. tx \<in> set (tagged w P) \<Longrightarrow> asks_within (KW w) (call_code E tx)"
  shows "(\<forall>w. unrefused (th_activity t' w)) \<and> conflict_free es"
proof -
  obtain m dn where i: "author_inv E mid ws P m\<^sub>1 L (at_state m (th_sys t))" "\<And>w. activity_ok E ws t m dn w"
    using sim unfolding author_sim_def by blast
  from step show ?thesis
  proof cases
    case (worker w)
    then have w: "w \<in> set ws" using author_invD(6)[OF i(1)] by (simp add: worker_in_def)
    have tx: "asks_within (KW w) (call_code E tx)"
      if "dispatching E (sy_workers (th_sys t) w) (sy_world (th_sys t)) = Some tx" for tx
    proof -
      have "dispatching E (sy_workers (at_state m (th_sys t)) w) (sy_world (at_state m (th_sys t))) = Some tx"
        using that by simp
      with i(1) w show ?thesis
      proof (cases rule: author_dispatched)
        case (peer x)
        with inv(3) show ?thesis by (auto simp: conflict_free_def sent_to_def)
      qed (rule own)
    qed
    from unrefused_worker_step[OF i inv(1) KW inv(2) worker(2) tx] show ?thesis
      by (simp add: conflict_free_def)
  qed (use inv(2) in simp_all)
qed

lemma conflict_free_run:
  assumes run: "thread_run E t\<^sub>0 L t" "author_sim E mid ws P m\<^sub>0 [] t\<^sub>0" "within KW m\<^sub>0 t\<^sub>0"
      "\<And>w. th_activity t\<^sub>0 w = Resting"
    and P: "distributed E ws P" and E: "staking_ok E" and KW: "parted KW"
    and own: "\<And>w tx. tx \<in> set (tagged w P) \<Longrightarrow> asks_within (KW w) (call_code E tx)"
  shows "(\<forall>w. unrefused (th_activity t w)) \<and> conflict_free L"
  using run
proof (induction rule: thread_run.induct)
  case (trun_refl t)
  then show ?case by (simp add: unrefused_def)
next
  case (trun_step t\<^sub>0 L t fs t')
  from trun_step.IH[OF trun_step.prems] have ih: "\<And>w. unrefused (th_activity t w)" "conflict_free L" by blast+
  have "within KW m\<^sub>0 t"
    by (rule within_author_run[OF trun_step.hyps(1) trun_step.prems(1,2) P E own])
      (use ih(2) in \<open>auto simp: conflict_free_def sent_to_def\<close>)
  note inv = this ih
  from author_thread_run[OF trun_step.hyps(1) trun_step.prems(1) P E] show ?case
  proof (elim disjE conjE)
    assume "author_sim E mid ws P m\<^sub>0 L t"
    from conflict_free_step[OF this trun_step.hyps(2) inv KW own] ih(2) show ?thesis by simp
  next
    assume d: "author_done E mid ws P m\<^sub>0 L (th_sys t)" "\<forall>w. th_activity t w = Resting"
    then have "quiet_system mid ws (th_sys t)" by (simp add: author_done_def)
    from quiet_thread_step[OF this _ trun_step.hyps(2)] d(2) ih(2) show ?thesis
      by (simp add: unrefused_def)
  qed
qed

section \<open>Distribution by connected components\<close>

text \<open>The keys announced by the transactions of a worker.\<close>

definition announced_keys ::
  "('p, 'z) staking_env_scheme \<Rightarrow> 'p transaction list \<Rightarrow> thread_id \<Rightarrow> state_key set" where
  "announced_keys E P w = (\<Union>tx\<in>set (tagged w P). set (tx_hints False E tx))"

lemma hints_untagged: "tx_hints na E (untagged tx) = tx_hints na E tx"
  by (simp add: tx_hints_def)

lemma components_parted:
  assumes ws: "ws \<noteq> []" and txs: "txs \<noteq> []" "distinct (map tx_id txs)"
    and run: "connected_components dbg (tx_hints False E) ws (vp_from txs) = Some (Inr (vp_from P))"
  shows "parted (announced_keys E P)"
  unfolding parted_def
proof (intro allI impI equals0I)
  fix u v k
  assume uv: "u \<noteq> v" and k: "k \<in> announced_keys E P u \<inter> announced_keys E P v"
  have all: "vp_all (vp_from txs) = txs" "vp_all (vp_from P) = P" for txs P :: "'a transaction list"
    by (simp_all add: vp_all_def vp_from_def)
  show False
  proof (rule connected_components_result[OF ws, where p = "vp_from txs" and dbg = dbg and validate = "tx_hints False E", unfolded all])
    fix p'
    assume p': "connected_components dbg (tx_hints False E) ws (vp_from txs) = Some (Inr p')"
      "same_but_tags (vp_from txs) p'"
      "\<forall>i j. i < length txs \<longrightarrow> connected (map (tx_hints False E) txs) i j \<longrightarrow>
         tx_tag (vp_all p' ! i) = tx_tag (vp_all p' ! j)"
    then have P: "vp_all p' = P" using run all(2)[of P] by simp
    have same: "map untagged txs = map untagged P"
      using p'(2) by (simp add: same_but_tags_def untagged_def[abs_def] all P)
    then have len: "length P = length txs" by (metis length_map)
    have hints: "tx_hints False E (P ! i) = tx_hints False E (txs ! i)" if "i < length txs" for i
      using that len arg_cong[OF same, of "\<lambda>xs. tx_hints False E (xs ! i)"] by (simp add: hints_untagged)
    obtain x y where x: "x \<in> set P" "tx_tag x = Done u" "k \<in> set (tx_hints False E x)"
      and y: "y \<in> set P" "tx_tag y = Done v" "k \<in> set (tx_hints False E y)"
      using k by (auto simp: announced_keys_def tagged_set)
    obtain i j where ij: "i < length txs" "P ! i = x" "j < length txs" "P ! j = y"
      using x(1) y(1) len by (metis in_set_conv_nth)
    have "connected (map (tx_hints False E) txs) i j"
      by (rule shared_connected[where k = k]) (use ij x(3) y(3) hints in auto)
    then have "tx_tag (P ! i) = tx_tag (P ! j)" using p'(3) ij(1) P by blast
    with ij x(2) y(2) uv show False by simp
  qed (use txs in simp_all)
qed

lemma conflict_free_block:
  assumes ok: "log_ok ws P L" and free: "conflict_free L"
  shows "x \<in> set L \<Longrightarrow> is_Ok (snd x)" "pool_after P L = P" "orphans_after L = []"
proof -
  have no_err: "snd x \<noteq> Err e" if "x \<in> set L" for x e
    using free that by (cases e) (auto simp: conflict_free_def)
  then show ok_all: "is_Ok (snd x)" if "x \<in> set L" for x
    using that log_okD(3)[OF ok that] by (cases "snd x") auto
  have "first x" if "x \<in> set L" for x
    using handled_was_sent[OF ok that] no_err by (auto simp: sent_to_def)
  then have "filter settled L = []" "filter (\<lambda>x. \<not> first x \<and> succeeded x) L = []" "filter orphaned L = []"
    using no_err ok_all
    by (auto simp: filter_empty_conv settled_def orphaned_def split: rs.splits)
  then show "pool_after P L = P" "orphans_after L = []"
    by (simp_all add: pool_after_def gone_def orphans_after_def)
qed

section \<open>Properties\<close>

text \<open>C10. Blocks without conflicts. When a block of submittable calls that announce all their accesses
  (transfers, bonding under a controller other than the default account, and unbonding) is authored with the distribution by connected components, then however the
  critical sections of the threads interleave, no dispatch is refused a key. So nothing is
  forwarded, no transaction becomes an orphan, and the block is the submitted list in its order,
  each transaction tagged with the worker it was distributed to.\<close>

theorem announced_blocks_never_conflict:
  assumes "staking_ok E" "clean_system E mid ws c" "submittable E txs"
    and "\<forall>tx\<in>set txs. announces_all (tx_function tx)"
    and "call_author E (connected_components dbg (tx_hints False E)) txs c = Some c'"
    and "thread_run E (th_start c') L t"
  shows "(\<forall>x\<in>set L. is_Ok (snd x))
    \<and> (\<forall>st blk. sy_result (th_sys t) = Some (Authored st blk) \<longrightarrow>
         map untagged (transactions blk) = map untagged txs
       \<and> connected_components dbg (tx_hints False E) ws (vp_from txs) = Some (Inr (vp_from (transactions blk)))
       \<and> (\<forall>tx\<in>set (transactions blk). \<exists>w\<in>set ws. tx_tag tx = Done w))"
proof -
  let ?D = "connected_components dbg (tx_hints False E)"
  obtain P where P: "map untagged P = map untagged txs" "distributed E ws P"
    "author_inv E mid ws P (wo_state (sy_world c)) [] c'" "?D ws (vp_from txs) = Some (Inr (vp_from P))"
    and state: "wo_state (sy_world c') = wo_state (sy_world c)"
    using author_starts[OF assms(2) cc.distributer_laws_axioms assms(3), of dbg "tx_hints False E"] assms(5)
    by (metis option.inject)
  have "ws \<noteq> []" "txs \<noteq> []" "distinct (map tx_id txs)"
    using assms(2,3) by (simp_all add: clean_system_def submittable_def)
  from components_parted[OF this P(4)] have KW: "parted (announced_keys E P)" .
  have own: "asks_within (announced_keys E P w) (call_code E tx)" if tx: "tx \<in> set (tagged w P)" for w tx
  proof -
    have "untagged tx \<in> untagged ` set txs"
      using tx arg_cong[OF P(1), of set] by (auto simp: tagged_set)
    then obtain tx' where "tx' \<in> set txs" "untagged tx = untagged tx'" by blast
    then have "announces_all (tx_function tx)"
      using assms(4) by (metis untagged_simps(2))
    from announced_accesses[OF this, of E "fst (tx_signature tx)"]
    have "asks_within (set (tx_hints False E tx)) (call_code E tx)" by (simp only: tx_hints_def)
    then show ?thesis
      by (rule asks_within_mono) (use tx in \<open>unfold announced_keys_def, blast\<close>)
  qed
  have "within (announced_keys E P) (wo_state (sy_world c)) (th_start c')"
    using within_start[of c' "announced_keys E P"] assms(2) by (simp add: state clean_system_def)
  from conflict_free_run[OF assms(6) author_sim_start[OF P(3)] this _ P(2) assms(1) KW own]
  have free: "conflict_free L" by (simp add: th_start_def)
  from author_thread_run[OF assms(6) author_sim_start[OF P(3)] P(2) assms(1)]
  show ?thesis
  proof (elim disjE conjE)
    assume sim: "author_sim E mid ws P (wo_state (sy_world c)) L t"
    then have "log_ok ws P L" by (auto simp: author_sim_def author_inv_def)
    with conflict_free_block(1)[OF _ free] author_simD(2)[OF sim] show ?thesis by simp
  next
    assume "author_done E mid ws P (wo_state (sy_world c)) L (th_sys t)"
    then have "log_ok ws P L" "\<And>st blk. sy_result (th_sys t) = Some (Authored st blk) \<Longrightarrow>
        transactions blk = pool_after P L @ orphans_after L"
      by (auto simp: author_done_def block_from_def)
    with conflict_free_block[OF _ free] P distributedD(3)[OF P(2)] show ?thesis by simp
  qed
qed

end
