(* ===== verification/Author_And_Validate.thy ===== *)
theory Author_And_Validate
  imports Example_System Conflict_Free
begin

text \<open>
  \<open>author_and_validate\<close> (\<open>executor/src/lib.rs\<close>) on the concurrent executor: the methods are called
  one after the other, and each may take any of the runs of the threads. Its test \<open>state_eq\<close> also
  compares which keys have an entry; it succeeds whenever the initial state has an entry for every
  key that the transactions can access.
\<close>

section \<open>The method\<close>

definition call_apply_initial :: "runtime_state option \<Rightarrow> 'p system \<Rightarrow> 'p system" where
  "call_apply_initial initial_state c = (case initial_state of
     Some state \<Rightarrow> call_apply_state state c | None \<Rightarrow> c)"

inductive author_and_validate_run ::
  "('p, 'z) exec_env_scheme \<Rightarrow> 'p distributer \<Rightarrow> 'p transaction list \<Rightarrow> runtime_state option
     \<Rightarrow> 'p system \<Rightarrow> bool \<Rightarrow> 'p system \<Rightarrow> bool"
  for E :: "('p, 'z) exec_env_scheme" and D initial_transactions initial_state c where
  author_then_validate:
    "call_author E D initial_transactions (call_apply_initial initial_state c) = Some c1 \<Longrightarrow>
     thread_run E (th_start c1) L t \<Longrightarrow> sy_result (th_sys t) = Some (Authored authoring_state blk) \<Longrightarrow>
     call_validate blk (call_apply_initial initial_state (call_clean (th_sys t))) = Some c2 \<Longrightarrow>
     thread_run E (th_start c2) V u \<Longrightarrow> sy_result (th_sys u) = Some (Validated validation_state) \<Longrightarrow>
     author_and_validate_run E D initial_transactions initial_state c
       (state_eq validation_state authoring_state) (call_clean (th_sys u))"

inductive_cases author_and_validate_runE: "author_and_validate_run E D txs i c valid c'"

section \<open>States with the same entries\<close>

lemma state_eq_same_entries:
  assumes "fmdom' m = fmdom' n" "values_of m = values_of (n :: runtime_state)"
  shows "state_eq m n"
  unfolding state_eq_data
proof (rule fmap_ext)
  fix k
  have "fmlookup m k = None \<longleftrightarrow> fmlookup n k = None"
    using assms(1) by (metis fmlookup_dom'_iff not_None_eq)
  moreover have "values_of m k = values_of n k" using assms(2) by simp
  ultimately show "fmlookup (fmmap sv_data m) k = fmlookup (fmmap sv_data n) k"
    by (cases "fmlookup m k"; cases "fmlookup n k") (simp_all add: ts_view_def)
qed

text \<open>Applying a state to an executor whose own state has no entries beyond it.\<close>

lemma apply_state_all:
  assumes "fmdom' (wo_state (sy_world c)) \<subseteq> fmdom' m"
  shows "wo_state (sy_world (call_apply_state m c)) = m"
proof (rule fmap_ext)
  fix k
  have "fmlookup (fold (\<lambda>(k, v). unsafe_insert k v) (entries m) (wo_state (sy_world c))) k
      = (case fmlookup m k of Some v \<Rightarrow> Some v | None \<Rightarrow> fmlookup (wo_state (sy_world c)) k)"
    using fold_entries_lookup[of "\<lambda>v. v" m "wo_state (sy_world c)" k]
    by (simp add: unsafe_insert_def[abs_def])
  moreover have "fmlookup m k = None \<Longrightarrow> fmlookup (wo_state (sy_world c)) k = None"
    using assms by (metis fmdom'_notD fmdom'_notI subsetD)
  ultimately show "fmlookup (wo_state (sy_world (call_apply_state m c))) k = fmlookup m k"
    by (cases "fmlookup m k") (simp_all add: call_apply_state_def ce_apply_state_def)
qed

lemma apply_state_clean:
  assumes "clean_system E mid ws c" "fmdom' (wo_state (sy_world c)) \<subseteq> fmdom' m"
    and "well_formed E m" "\<forall>k. ts_owner m k = None"
  shows "clean_system E mid ws (call_apply_state m c)"
  using assms apply_state_all[OF assms(2)]
  by (simp add: clean_system_def quiet_system_def call_apply_state_def ce_apply_state_def)

section \<open>No entry is added\<close>

lemma authored_entries:
  assumes E: "staking_ok E" and c: "clean_system E mid ws c" and S: "startable E D ws txs"
    and K: "\<forall>tx\<in>set txs. asks_within (fmdom' (wo_state (sy_world c))) (call_code E tx)"
    and run: "call_author E D txs c = Some c'" "thread_run E (th_start c') L t"
      "sy_result (th_sys t) = Some (Authored st blk)"
  shows "fmdom' st = fmdom' (wo_state (sy_world c))" "quiet_system mid ws (th_sys t)"
    "\<forall>tx\<in>set (transactions blk). asks_within (fmdom' (wo_state (sy_world c))) (call_code E tx)"
proof -
  let ?m = "wo_state (sy_world c)"
  obtain P where P: "map untagged P = map untagged txs" "distributed E ws P" "author_inv E mid ws P ?m [] c'"
    and state: "wo_state (sy_world c') = ?m"
    using startable_starts[OF c S] run(1) by (metis option.inject)
  have own: "asks_within (fmdom' ?m) (call_code E tx)" if "untagged tx \<in> untagged ` set P" for tx
  proof -
    have "untagged tx \<in> untagged ` set txs"
      using that arg_cong[OF P(1), of set] by auto
    then obtain tx' where tx': "tx' \<in> set txs" "untagged tx = untagged tx'" by blast
    then have "tx_call tx = tx_call tx'" by (metis tx_call_def untagged_simps(2,4))
    with K tx'(1) asks_call show ?thesis by blast
  qed
  have L: "author_done E mid ws P ?m L (th_sys t)"
    using author_thread_run[OF run(2) author_sim_start[OF P(3)] P(2) E] author_simD(2) run(3) by fastforce
  then have ok: "log_ok ws P L" and res: "quiet_system mid ws (th_sys t)" "st = th_state t"
    "transactions blk = pool_after P L @ orphans_after L"
    using run(3) by (auto simp: author_done_def block_from_def)
  have "within (\<lambda>_. fmdom' ?m) ?m (th_start c')"
    using within_start[of c' "\<lambda>_. fmdom' ?m"] c by (simp add: state clean_system_def)
  then have "within (\<lambda>_. fmdom' ?m) ?m t"
    by (rule within_author_run[OF run(2) author_sim_start[OF P(3)] _ P(2) E])
      (use own log_okD(2)[OF ok] in \<open>auto simp: tagged_set\<close>)
  then show "fmdom' st = fmdom' ?m" by (auto simp: within_def state_within_def res(2))
  show "quiet_system mid ws (th_sys t)" by (rule res(1))
  show "\<forall>tx\<in>set (transactions blk). asks_within (fmdom' ?m) (call_code E tx)"
    using own pool_after_untagged[OF ok] unfolding res(3) by blast
qed

lemma validated_entries:
  assumes E: "staking_ok E" and c: "clean_system E mid ws c" and S: "startable E D ws txs"
    and K: "\<forall>tx\<in>set txs. asks_within (fmdom' (wo_state (sy_world c))) (call_code E tx)"
    and author: "call_author E D txs c = Some c'" "thread_run E (th_start c') L t"
      "sy_result (th_sys t) = Some (Authored st blk)"
    and v: "clean_system E mid ws v" "wo_state (sy_world v) = wo_state (sy_world c)"
    and valid: "call_validate blk v = Some v'" "thread_run E (th_start v') V u"
      "sy_result (th_sys u) = Some (Validated st')"
  shows "fmdom' st' = fmdom' (wo_state (sy_world c))" "quiet_system mid ws (th_sys u)"
proof -
  let ?m = "wo_state (sy_world c)"
  obtain P where P: "map untagged P = map untagged txs" "distributed E ws P" "author_inv E mid ws P ?m [] c'"
    using startable_starts[OF c S] author(1) by (metis option.inject)
  have L: "author_done E mid ws P ?m L (th_sys t)"
    using author_thread_run[OF author(2) author_sim_start[OF P(3)] P(2) E] author_simD(2) author(3) by fastforce
  note K' = authored_entries(3)[OF E c S K author]
  have quiet: "quiet_system mid ws v" "ms_orphans (sy_master v) = []" using v(1) by (simp_all add: clean_system_def)
  obtain v1 W g where v1: "call_validate blk v = Some v1" "replayable E ws (transactions blk)" "parted W"
    "valid_inv E mid ws (transactions blk) ?m [] v1"
    "valid_sim E mid ws (transactions blk) ?m W g [] (th_start v1)"
    by (rule authored_validation_starts[OF E c P(2) L author(3) quiet distributedD(1)[OF P(2)] subset_refl, unfolded v(2)]) simp_all
  have eq: "v1 = v'" using valid(1) v1(1) by simp
  have "wo_state (sy_world v') = ?m"
    using valid_invD(1)[OF v1(4)] by (simp add: replay_inv_def eq)
  then have "within (\<lambda>_. fmdom' ?m) ?m (th_start v')"
    using within_start[of v' "\<lambda>_. fmdom' ?m"] c by (simp add: clean_system_def)
  then have w: "within (\<lambda>_. fmdom' ?m) ?m u"
    by (rule within_valid_run[OF valid(2) v1(5)[unfolded eq] _ v1(3,2) E])
      (use K' in \<open>auto simp: tagged_set orphans_of_def\<close>)
  have "valid_done E mid ws (transactions blk) ?m (map fst V) (th_sys u)"
    using valid_thread_run[OF valid(2) v1(5)[unfolded eq] v1(3,2) E] valid_simD(2) valid(3) by fastforce
  then have "quiet_system mid ws (th_sys u)" "st' = th_state u"
    using valid(3) by (simp_all add: valid_done_def)
  with w show "fmdom' st' = fmdom' ?m" "quiet_system mid ws (th_sys u)"
    by (auto simp: within_def state_within_def)
qed

lemma well_formed_empty:
  assumes "staking_ok E"
  shows "well_formed E fmempty"
proof -
  have "values_of fmempty = (\<lambda>_. default_value)" by (simp add: ts_view_def fun_eq_iff)
  moreover have "chain_inv E (empty_chain E)"
    by (simp add: chain_inv_def backed_def linked_def empty_chain_def ledger_default_def solvent_def funds_def
        worth_def ab_default_def)
  ultimately show ?thesis
    using chain_of_fresh[OF assms] by (simp add: well_formed_def)
qed

lemma clean_executor:
  assumes "staking_ok E" "quiet_system mid ws c" "ws \<noteq> []" "distinct ws"
  shows "clean_system E mid ws (call_clean c)" "wo_state (sy_world (call_clean c)) = fmempty"
  using assms(2-4) well_formed_empty[OF assms(1)]
  by (auto simp: clean_system_def quiet_system_def call_clean_def ce_clean_def vp_clear_def vp_all_def
      unsafe_clean_def ts_owner_def)

lemma author_and_validate_agrees:
  assumes E: "staking_ok E" and c: "clean_system E mid ws c" and S: "startable E D ws txs"
    and m: "well_formed E m" "\<forall>k. ts_owner m k = None" "fmdom' (wo_state (sy_world c)) \<subseteq> fmdom' m"
    and K: "\<forall>tx\<in>set txs. asks_within (fmdom' m) (call_code E tx)"
  shows "author_and_validate_run E D txs (Some m) c valid c' \<Longrightarrow>
      valid \<and> clean_system E mid ws c' \<and> wo_state (sy_world c') = fmempty"
    and "\<exists>c'. author_and_validate_run E D txs (Some m) c True c'"
proof -
  let ?c = "call_apply_state m c"
  note start = apply_state_clean[OF c m(3,1,2)] apply_state_all[OF m(3)]
  have ws: "ws \<noteq> []" "distinct ws" using c by (simp_all add: clean_system_def)
  have K': "\<forall>tx\<in>set txs. asks_within (fmdom' (wo_state (sy_world ?c))) (call_code E tx)"
    using K by (simp add: start(2))
  have result: "valid \<and> clean_system E mid ws c' \<and> wo_state (sy_world c') = fmempty"
    if "author_and_validate_run E D txs (Some m) c valid c'" for valid c'
    using that
  proof (rule author_and_validate_runE)
    fix c1 L t st blk c2 V u st'
    assume eq: "valid = state_eq st' st" "c' = call_clean (th_sys u)"
      and author: "call_author E D txs (call_apply_initial (Some m) c) = Some c1" "thread_run E (th_start c1) L t"
        "sy_result (th_sys t) = Some (Authored st blk)"
      and valid: "call_validate blk (call_apply_initial (Some m) (call_clean (th_sys t))) = Some c2"
        "thread_run E (th_start c2) V u" "sy_result (th_sys u) = Some (Validated st')"
    have author': "call_author E D txs ?c = Some c1" using author(1) by (simp add: call_apply_initial_def)
    note a = authored_entries[OF E start(1) S K' author' author(2,3)]
    let ?v = "call_apply_state m (call_clean (th_sys t))"
    have v: "clean_system E mid ws ?v" "wo_state (sy_world ?v) = wo_state (sy_world ?c)"
      using clean_again[OF a(2) ws m(1,2)] start(2) by simp_all
    have valid': "call_validate blk ?v = Some c2" using valid(1) by (simp add: call_apply_initial_def)
    note b = validated_entries[OF E start(1) S K' author' author(2,3) v valid' valid(2,3)]
    have "quiet_system mid ws ?v" "ms_orphans (sy_master ?v) = []" using v(1) by (simp_all add: clean_system_def)
    from authored_validates[OF E start(1) S author' author(2,3) this ws(2) subset_refl] v(2) valid' valid(2,3)
    have "values_of st' = values_of st" by fastforce
    with state_eq_same_entries a(1) b(1) clean_executor[OF E b(2) ws]
    show "valid \<and> clean_system E mid ws c' \<and> wo_state (sy_world c') = fmempty"
      by (simp add: eq)
  qed
  then show "author_and_validate_run E D txs (Some m) c valid c' \<Longrightarrow>
      valid \<and> clean_system E mid ws c' \<and> wo_state (sy_world c') = fmempty" .
  show "\<exists>c'. author_and_validate_run E D txs (Some m) c True c'"
  proof (rule startable_run[OF E start(1) S])
    fix c1 L t st v c2 V u st' and blk :: "'a block"
    assume r: "call_author E D txs ?c = Some c1" "thread_run E (th_start c1) L t"
      "sy_result (th_sys t) = Some (Authored st blk)" "v = call_apply_state (wo_state (sy_world ?c)) (call_clean (th_sys t))"
      "call_validate blk v = Some c2" "thread_run E (th_start c2) V u" "sy_result (th_sys u) = Some (Validated st')"
    have "author_and_validate_run E D txs (Some m) c (state_eq st' st) (call_clean (th_sys u))"
      by (rule author_then_validate[OF _ r(2,3) _ r(6,7)]) (use r(1,4,5) start(2) in \<open>simp_all add: call_apply_initial_def\<close>)
    from this result[OF this] show ?thesis by (intro exI[of _ "call_clean (th_sys u)"]) simp
  qed
qed

section \<open>Total correctness\<close>

lemma authored_facts:
  assumes E: "staking_ok E" and c: "clean_system E mid ws c" and S: "startable E D ws txs"
    and run: "call_author E D txs c = Some c'" "thread_run E (th_start c') L t"
      "sy_result (th_sys t) = Some (Authored st blk)"
  shows "quiet_system mid ws (th_sys t)" "st = th_state t" "length (transactions blk) = length txs"
proof -
  obtain P where P: "map untagged P = map untagged txs" "distributed E ws P"
    "author_inv E mid ws P (wo_state (sy_world c)) [] c'"
    using startable_starts[OF c S] run(1) by (metis option.inject)
  have L: "author_done E mid ws P (wo_state (sy_world c)) L (th_sys t)"
    using author_thread_run[OF run(2) author_sim_start[OF P(3)] P(2) E] author_simD(2) run(3) by fastforce
  then have ok: "log_ok ws P L" "settled_once L" and blk: "transactions blk = pool_after P L @ orphans_after L"
    and res: "quiet_system mid ws (th_sys t)" "st = th_state t"
    using run(3) by (auto simp: author_done_def block_from_def)
  have "mset (map tx_id (transactions blk)) = mset (map tx_id P)"
    using pool_and_orphans[OF ok distributedD(2)[OF P(2)]] by (simp add: blk)
  then have "length (transactions blk) = length P" by (metis length_map size_mset)
  moreover have "length P = length txs" using arg_cong[OF P(1), of length] by simp
  ultimately show "length (transactions blk) = length txs" by simp
  show "quiet_system mid ws (th_sys t)" "st = th_state t" by fact+
qed

text \<open>Both tasks return under every schedule, and the test of the states succeeds.\<close>

lemma author_and_validate_returns:
  fixes c :: "'p system"
  assumes E: "staking_ok E" and c: "clean_system E mid ws c" and S: "startable E D ws txs"
    and m: "well_formed E m" "\<forall>k. ts_owner m k = None" "fmdom' (wo_state (sy_world c)) \<subseteq> fmdom' m"
    and K: "\<forall>tx\<in>set txs. asks_within (fmdom' m) (call_code E tx)"
  shows "\<exists>c1. call_author E D txs (call_apply_initial (Some m) c) = Some c1
    \<and> always_returns E (57 * length txs + 246 * length ws + 19)
        (\<lambda>t r. \<exists>st blk c2. r = Authored st blk
           \<and> call_validate blk (call_apply_initial (Some m) (call_clean (th_sys t))) = Some c2
           \<and> always_returns E (57 * length txs + 189 * length ws + 19)
               (\<lambda>u r. \<exists>st'. r = Validated st' \<and> state_eq st' st) c2) c1"
proof -
  let ?c = "call_apply_state m c"
  note start = apply_state_clean[OF c m(3,1,2)] apply_state_all[OF m(3)]
  have ws: "ws \<noteq> []" "distinct ws" using c by (simp_all add: clean_system_def)
  have initial: "call_apply_initial (Some m) d = call_apply_state m d" for d :: "'p system"
    by (simp add: call_apply_initial_def)
  obtain c1 where c1: "call_author E D txs ?c = Some c1"
    "always_returns E (57 * length txs + 246 * length ws + 19) (\<lambda>t r. \<exists>st blk. r = Authored st blk) c1"
    by (rule authoring_returns[OF E start(1) S])
  have validates: "\<exists>c2. call_validate blk (call_apply_state m (call_clean (th_sys t))) = Some c2
      \<and> always_returns E (57 * length txs + 189 * length ws + 19) (\<lambda>u r. \<exists>st'. r = Validated st' \<and> state_eq st' st) c2"
    if run: "thread_run E (th_start c1) L t" "sy_result (th_sys t) = Some (Authored st blk)" for L t st blk
  proof -
    note a = authored_facts[OF E start(1) S c1(1) run]
    let ?v = "call_apply_state m (call_clean (th_sys t))"
    have v: "clean_system E mid ws ?v" "wo_state (sy_world ?v) = m"
      using clean_again[OF a(1) ws m(1,2)] by simp_all
    then have quiet: "quiet_system mid ws ?v" "ms_orphans (sy_master ?v) = []" by (simp_all add: clean_system_def)
    have same: "values_of (wo_state (sy_world ?v)) = values_of (wo_state (sy_world ?c))" by (simp only: v(2) start(2))
    obtain c2 where c2: "call_validate blk ?v = Some c2"
      "always_returns E (57 * length (transactions blk) + 189 * length ws + 19) (\<lambda>u r. \<exists>st'. r = Validated st') c2"
      by (rule validation_returns[OF E start(1) S c1(1) run quiet ws(2) subset_refl same])
    have "state_eq st' st" if "thread_run E (th_start c2) V u" "sy_result (th_sys u) = Some (Validated st')" for V u st'
    proof -
      have "author_and_validate_run E D txs (Some m) c (state_eq st' st) (call_clean (th_sys u))"
        by (rule author_then_validate[OF _ run _ that]) (simp_all only: initial c1(1) c2(1))
      then show ?thesis using author_and_validate_agrees(1)[OF E c S m K] by blast
    qed
    then have "always_returns E (57 * length (transactions blk) + 189 * length ws + 19)
        (\<lambda>u r. \<exists>st'. r = Validated st' \<and> state_eq st' st) c2"
      by (intro always_returns_mono[OF c2(2)]) blast
    with c2(1) show ?thesis unfolding a(3) by blast
  qed
  have "always_returns E (57 * length txs + 246 * length ws + 19)
        (\<lambda>t r. \<exists>st blk c2. r = Authored st blk \<and> call_validate blk (call_apply_state m (call_clean (th_sys t))) = Some c2
           \<and> always_returns E (57 * length txs + 189 * length ws + 19)
               (\<lambda>u r. \<exists>st'. r = Validated st' \<and> state_eq st' st) c2) c1"
    using validates by (intro always_returns_mono[OF c1(2)]) blast
  with c1(1) show ?thesis unfolding initial by blast
qed

section \<open>Properties\<close>

text \<open>C6. \<open>author_and_validate\<close> on the concurrent executor agrees with itself, if it is given a well-formed
  untainted initial state with an entry for every key the transactions can access and for every key of
  the state the executor has, and the transactions are submittable (none names the default account as
  controller). Whatever the distribution and
  the interleaving of both tasks: the call returns after a bounded number of steps, since no thread
  panics and none waits for ever; the test of the two states succeeds; and the executor is clean and
  empty again. Without such a state the test can fail, because reading makes entries.\<close>

theorem concurrent_author_and_validate:
  assumes "staking_ok E" "clean_system E mid ws c" "distributer_laws D" "submittable E txs"
    and "well_formed E m" "\<forall>k. ts_owner m k = None" "fmdom' (wo_state (sy_world c)) \<subseteq> fmdom' m"
    and "\<forall>tx\<in>set txs. asks_within (fmdom' m) (outer_dispatch E HR (tx_function tx) (fst (tx_signature tx)))"
  shows "(\<forall>valid c'. author_and_validate_run E D txs (Some m) c valid c' \<longrightarrow>
       valid \<and> clean_system E mid ws c' \<and> wo_state (sy_world c') = fmempty)
    \<and> (\<exists>c'. author_and_validate_run E D txs (Some m) c True c')
    \<and> (\<exists>c1. call_author E D txs (call_apply_initial (Some m) c) = Some c1
        \<and> always_returns E (57 * length txs + 246 * length ws + 19)
            (\<lambda>t r. \<exists>st blk c2. r = Authored st blk
               \<and> call_validate blk (call_apply_initial (Some m) (call_clean (th_sys t))) = Some c2
               \<and> always_returns E (57 * length txs + 189 * length ws + 19)
                   (\<lambda>u r. \<exists>st'. r = Validated st' \<and> state_eq st' st) c2) c1)"
  using author_and_validate_agrees[OF assms(1,2) startableI[OF assms(2-4)] assms(5-8)]
    author_and_validate_returns[OF assms(1,2) startableI[OF assms(2-4)] assms(5-8)] by blast

end
