(* ===== verification/Datasets.thy ===== *)
theory Datasets
  imports Generators Author_And_Validate
begin

text \<open>
  What the data sets of the benchmarks provide: on a new state, transactions that the executors
  accept, and endowed accounts that make the state a well-formed chain.
\<close>

section \<open>A chain of endowed accounts\<close>

lemma endowed_well_formed:
  assumes E: "staking_ok E" and sum: "(\<Sum>x\<leftarrow>xs. unat (snd x)) < 2 ^ 128"
  shows "well_formed E (endowed E xs ts_new)" "\<forall>k. ts_owner (endowed E xs ts_new) k = None"
    "fmdom' (endowed E xs ts_new) = key_for (BalanceOf E) ` fst ` set xs"
proof -
  let ?b = "endowed_balances xs (\<lambda>_. ab_default)"
  have chain: "chain_readable E (ts_view default_value (endowed E xs ts_new))"
    "chain_of E (ts_view default_value (endowed E xs ts_new)) = (empty_chain E)\<lparr>ch_balances := ?b\<rparr>"
    using endowed_chain[OF E, of ts_new xs] chain_of_fresh[OF E] unfolding ts_view_new
    by (simp_all add: empty_chain_def del: chain_of_sel)
  have "funds A ?b < 2 ^ 128" if "finite A" for A
  proof -
    have "funds A (\<lambda>_. ab_default) = 0" by (simp add: funds_def worth_def ab_default_def)
    with funds_endowed[OF that, of xs "\<lambda>_. ab_default"] sum show ?thesis by linarith
  qed
  then have "chain_inv E ((empty_chain E)\<lparr>ch_balances := ?b\<rparr>)"
    by (simp add: chain_inv_def solvent_def backed_def linked_def empty_chain_def ledger_default_def)
  with chain show "well_formed E (endowed E xs ts_new)" by (simp add: well_formed_def)
  show "\<forall>k. ts_owner (endowed E xs ts_new) k = None"
    by (rule endowed_untainted) (simp add: ts_new_def ts_owner_def)
  show "fmdom' (endowed E xs ts_new) = key_for (BalanceOf E) ` fst ` set xs"
    by (simp add: endowed_keys ts_new_def image_image)
qed

section \<open>Bank data sets\<close>

text \<open>
  A generator of transfers between accounts with matching keys, which endows at least these and
  not more than a \<open>u128\<close> can count.
\<close>

definition bank_data ::
  "('p, 'k, 'z) key_env_scheme \<Rightarrow> (sequential_runtime, 'p transaction list, unit) comp \<Rightarrow> 'k key_pair list
     \<Rightarrow> ('p \<times> balance) list \<Rightarrow> 'p transaction list \<Rightarrow> bool" where
  "bank_data E data accounts xs txs \<longleftrightarrow>
     (\<forall>me. data (sr_new ts_new me) = (Ok txs, sr_new (endowed E xs ts_new) me))
   \<and> txs \<noteq> [] \<and> distinct (map tx_id txs) \<and> (\<exists>amount. transfers_between E accounts amount txs)
   \<and> (\<forall>p\<in>set accounts. matching_pair E p \<and> pair_public E p \<in> fst ` set xs)
   \<and> (\<Sum>x\<leftarrow>xs. unat (snd x)) < 2 ^ 128"

lemma bank_data_submittable:
  assumes E: "keys_ok E" and data: "bank_data E data accounts xs txs"
  shows "submittable E txs" "vp_push_batch (tx_verify E) txs vp_new = Inr \<lparr>inner = txs\<rparr>"
    "tx \<in> set txs \<Longrightarrow> asks_within (key_for (BalanceOf E) ` fst ` set xs)
       (outer_dispatch E HR (tx_function tx) (fst (tx_signature tx)))"
    "tx \<in> set txs \<Longrightarrow> announces_all (tx_function tx)"
proof -
  obtain amount where tr: "transfers_between E accounts amount txs"
    and keys: "\<forall>p\<in>set accounts. matching_pair E p" "\<forall>p\<in>set accounts. pair_public E p \<in> fst ` set xs"
    using data by (auto simp: bank_data_def)
  note valid = transfers_between_valid[OF E keys(1) tr]
  show "submittable E txs"
    using valid data by (simp add: submittable_def bank_data_def sane_def list_all_iff)
  show "vp_push_batch (tx_verify E) txs vp_new = Inr \<lparr>inner = txs\<rparr>"
    using push_batch_valid[of txs "tx_verify E" vp_new] valid(1) by (simp add: vp_new_def)
  assume tx: "tx \<in> set txs"
  from valid(5)[OF this] obtain origin to where ft: "to \<in> set accounts" "origin \<in> set accounts"
    "tx_function tx = BalancesCall (Transfer (pair_public E to) amount)"
    "fst (tx_signature tx) = pair_public E origin" by blast
  show all: "announces_all (tx_function tx)" by (simp add: ft(3))
  show "asks_within (key_for (BalanceOf E) ` fst ` set xs)
       (outer_dispatch E HR (tx_function tx) (fst (tx_signature tx)))"
    by (rule asks_within_mono[OF announced_accesses[OF all]])
      (use ft keys(2) in \<open>simp add: balances_validate_def\<close>)
qed

lemma millionaires_data:
  assumes "\<forall>i. matching_pair E (random i)" "0 < members" "0 < transfers" "transfers \<le> 2 ^ 32"
    and "members * 100000000000 < 2 ^ 128"
  shows "\<exists>xs txs. bank_data E (millionaires_playground E SR random choices members transfers)
    (map random [0..<members]) xs txs \<and> map tx_id txs = map of_nat [0..<transfers]"
proof -
  let ?accounts = "map random [0..<members]"
  let ?xs = "map (\<lambda>p. (pair_public E p, 100000000000 :: balance)) ?accounts"
  obtain txs where txs: "bank E random choices members transfers 1000 = Inr (txs, map (pair_public E) ?accounts)"
    "map tx_id txs = map of_nat [0..<transfers]" "transfers_between E ?accounts 1000 txs"
    using bank_run[OF assms(2), of E random choices transfers 1000] by blast
  have "mapC (\<lambda>acc. endow_account E SR acc 100000000000) (map (pair_public E) ?accounts) s
      = (Ok (), s\<lparr>sr_state := endowed E ?xs (sr_state s)\<rparr>)" for s
  proof -
    have "concat (map (\<lambda>acc. [(acc, 100000000000 :: balance)]) (map (pair_public E) ?accounts)) = ?xs"
      by (simp add: concat_map_singleton comp_def)
    with mapC_endow_SR[of "map (pair_public E) ?accounts" "\<lambda>acc. endow_account E SR acc 100000000000"
        E "\<lambda>acc. [(acc, 100000000000)]" s, OF endow_account_SR] show ?thesis by simp
  qed
  then have run: "millionaires_playground E SR random choices members transfers (sr_new ts_new me)
      = (Ok txs, sr_new (endowed E ?xs ts_new) me)" for me
    using txs(1) by (simp add: millionaires_playground_def comp_simps sr_new_def)
  have "length txs = transfers" using arg_cong[OF txs(2), of length] by simp
  then have "txs \<noteq> []" using assms(3) by auto
  moreover have "distinct (map tx_id txs)" unfolding txs(2) by (rule numbered_ids[OF assms(4)])
  moreover have "(\<Sum>x\<leftarrow>?xs. unat (snd x)) < 2 ^ 128" using assms(5) by (simp add: comp_def sum_list_triv)
  ultimately have "bank_data E (millionaires_playground E SR random choices members transfers) ?accounts ?xs txs"
    using run txs(3) assms(1) by (auto simp: bank_data_def image_image)
  with txs(2) show ?thesis by blast
qed

lemma unat_mul_fits: "unat a * unat b < 2 ^ 128 \<Longrightarrow> u128_mul chk a b = Inr (a * b) \<and> unat (a * b :: u128) = unat a * unat b"
  by (simp add: u128_mul_def unat_mult_lem[where 'a = 128, simplified, symmetric] not_le)

lemma middle_class_data:
  fixes transfer_amount :: balance
  assumes "\<forall>i. matching_pair E (random i)" "0 < members" "0 < transfers" "transfers \<le> 2 ^ 32"
    and "members * (unat transfer_amount * 1000000) < 2 ^ 128" "lucky_members \<le> members"
  shows "\<exists>xs txs. bank_data E
      (middle_class_playground E SR random choices members transfers transfer_amount lucky_members)
      (map random [0..<members]) xs txs \<and> map tx_id txs = map of_nat [0..<transfers]"
proof -
  let ?accounts = "map random [0..<members]" and ?a = transfer_amount
  let ?g = "\<lambda>(idx, acc). [(acc, if idx < lucky_members then ?a * 1000000 else ?a div 2)]"
  let ?xs = "concat (map ?g (enumerate 0 (map (pair_public E) ?accounts)))"
  obtain txs where txs: "bank E random choices members transfers ?a = Inr (txs, map (pair_public E) ?accounts)"
    "map tx_id txs = map of_nat [0..<transfers]" "transfers_between E ?accounts ?a txs"
    using bank_run[OF assms(2), of E random choices transfers ?a] by blast
  have "1 * (unat ?a * 1000000) \<le> members * (unat ?a * 1000000)"
    using assms(2) by (intro mult_le_mono1) simp
  with assms(5) have "unat ?a * 1000000 < 2 ^ 128" by linarith
  then have "unat ?a * unat (1000000 :: u128) < 2 ^ 128" by simp
  note rich = unat_mul_fits[OF this]
  let ?f = "\<lambda>(idx, acc). if idx < lucky_members
       then bindC (liftP (u128_mul (debug_build E) ?a 1000000)) (endow_account E SR acc)
       else endow_account E SR acc (?a div 2)"
  have "?f x s = (Ok (), s\<lparr>sr_state := endowed E (?g x) (sr_state s)\<rparr>)" for x s
    using rich by (cases x) (simp add: comp_simps endow_account_SR)
  then have "mapC ?f (enumerate 0 (map (pair_public E) ?accounts)) s
      = (Ok (), s\<lparr>sr_state := endowed E ?xs (sr_state s)\<rparr>)" for s
    by (rule mapC_endow_SR)
  with txs(1) assms(6)
  have run: "middle_class_playground E SR random choices members transfers ?a lucky_members (sr_new ts_new me)
      = (Ok txs, sr_new (endowed E ?xs ts_new) me)" for me
    by (simp add: middle_class_playground_def bindC_def sr_new_def del: map_map)
  have xs: "?xs = map (\<lambda>(idx, acc). (acc, if idx < lucky_members then ?a * 1000000 else ?a div 2))
        (enumerate 0 (map (pair_public E) ?accounts))"
    unfolding split_beta by (simp add: concat_map_singleton)
  have "map fst ?xs = map snd (enumerate 0 (map (pair_public E) ?accounts))"
    unfolding xs by (rule nth_equalityI) (simp_all add: nth_enumerate_eq)
  then have "fst ` set ?xs = pair_public E ` set ?accounts"
    by (metis list.set_map map_snd_enumerate)
  then have keys: "pair_public E p \<in> fst ` set ?xs" if "p \<in> set ?accounts" for p
    using that by blast
  have "length txs = transfers" using arg_cong[OF txs(2), of length] by simp
  then have "txs \<noteq> []" using assms(3) by auto
  moreover have "distinct (map tx_id txs)" unfolding txs(2) by (rule numbered_ids[OF assms(4)])
  moreover have sum: "(\<Sum>x\<leftarrow>?xs. unat (snd x)) < 2 ^ 128"
  proof -
    have poor: "unat (?a div 2) \<le> unat ?a * 1000000" by (simp add: unat_div)
    have "(\<Sum>x\<leftarrow>?xs. unat (snd x)) \<le> (\<Sum>x\<leftarrow>?xs. unat ?a * 1000000)"
      using rich poor by (intro sum_list_mono) (auto simp: xs split: if_splits)
    also have "\<dots> = length ?xs * (unat ?a * 1000000)" by (simp only: sum_list_triv of_nat_id)
    also have "length ?xs = members" unfolding xs by simp
    finally show ?thesis using assms(5) by simp
  qed
  ultimately have "bank_data E (middle_class_playground E SR random choices members transfers ?a lucky_members)
      ?accounts ?xs txs"
    using run txs(3) assms(1) keys unfolding bank_data_def by auto
  with txs(2) show ?thesis by blast
qed

section \<open>Stakers\<close>

definition good_draws :: "('p, 'k, 'z) key_env_scheme \<Rightarrow> 'k draws \<Rightarrow> bool" where
  "good_draws E dr \<longleftrightarrow> (\<forall>i. matching_pair E (fst (dr_pairs dr i)) \<and> matching_pair E (snd (dr_pairs dr i))
     \<and> pair_public E (snd (dr_pairs dr i)) \<noteq> default_pk E
     \<and> pair_public E (snd (snd (snd (dr_random dr i)))) \<noteq> default_pk E)"

definition acceptable :: "('p, 'z) exec_env_scheme \<Rightarrow> 'p transaction \<Rightarrow> bool" where
  "acceptable E tx \<longleftrightarrow> tx_verify E tx \<and> tx_exec_status tx = Initial \<and> \<not> names_default_controller E (tx_function tx)"

lemma signed_acceptable:
  "keys_ok E \<Longrightarrow> matching_pair E p \<Longrightarrow> \<not> names_default_controller E call \<Longrightarrow> acceptable E (signed_tx E i call p)"
  by (simp add: acceptable_def signed_tx_verifies)

lemma staker_txs_acceptable:
  assumes "keys_ok E" "matching_pair E (fst p)" "matching_pair E (snd p)" "pair_public E (snd p) \<noteq> default_pk E"
  shows "\<forall>tx\<in>set (validator_txs E ids p). acceptable E tx" "\<forall>tx\<in>set (nominator_txs E ids votes p). acceptable E tx"
    "length (validator_txs E ids p) = 2" "length (nominator_txs E ids votes p) = 2"
  using assms by (auto simp: validator_txs_def nominator_txs_def split_beta intro!: signed_acceptable)

lemma random_staking_txs_run:
  assumes E: "keys_ok E" and acc: "\<forall>p\<in>set accounts. matching_pair E (fst p) \<and> matching_pair E (snd p)"
    and d: "\<forall>d\<in>set ds. pair_public E (snd (snd (snd d))) \<noteq> default_pk E" and ne: "accounts = [] \<Longrightarrow> ds = []"
  shows "\<exists>txs. random_staking_txs E accounts ds = Inr txs \<and> length txs = length ds \<and> (\<forall>tx\<in>set txs. acceptable E tx)"
  using d ne
proof (induction ds)
  case (Cons d ds)
  obtain byte r i c where d: "d = (byte, r, i, c)" by (metis prod_cases4)
  obtain p where p: "p \<in> set accounts" "choose_from r accounts = Some p"
    using choose_from_member[of accounts r] Cons.prems(2) by blast
  obtain stash ctrl where sc: "p = (stash, ctrl)" by fastforce
  have keys: "matching_pair E stash" "matching_pair E ctrl" "pair_public E c \<noteq> default_pk E"
    using acc p(1) sc Cons.prems(1) d by auto
  have "\<exists>tx. random_staking_tx E accounts d = Inr tx \<and> acceptable E tx"
    using keys p(2) unfolding d sc
    by (simp add: random_staking_tx_def signed_acceptable[OF E])
  moreover obtain txs where "random_staking_txs E accounts ds = Inr txs" "length txs = length ds"
    "\<forall>tx\<in>set txs. acceptable E tx"
    using Cons.IH Cons.prems by auto
  ultimately show ?case by auto
qed simp

lemma length_concat_pairs: "(\<And>i. length (h i) = 2) \<Longrightarrow> length (concat (map h is)) = 2 * length is"
  by (induction "is") simp_all

lemma stakers_data:
  assumes E: "keys_ok E" and dr: "good_draws E dr" and some: "0 < validators + nominators \<or> random = 0"
    and sum: "2 * (validators + nominators) * 100000000000 < 2 ^ 128"
  shows "\<exists>xs txs. (\<forall>me. world_of_stakers E SR dr validators nominators random (sr_new ts_new me)
        = (Ok txs, sr_new (endowed E xs ts_new) me))
    \<and> (\<Sum>x\<leftarrow>xs. unat (snd x)) < 2 ^ 128 \<and> length txs = 2 * (validators + nominators) + random
    \<and> (\<forall>tx\<in>set txs. acceptable E tx)"
proof -
  let ?vs = "map (dr_pairs dr) [0..<validators]" and ?ns = "map (dr_pairs dr) [validators..<validators + nominators]"
  let ?g = "\<lambda>(stash, ctrl). [(pair_public E stash, 100000000000 :: balance), (pair_public E ctrl, 100000000000)]"
  let ?xs = "concat (map ?g (?vs @ ?ns))"
  let ?f = "\<lambda>(stash, ctrl). bindC (endow_account E SR (pair_public E stash) 100000000000) (\<lambda>_.
      endow_account E SR (pair_public E ctrl) 100000000000)"
  define bonds where "bonds = concat (map (\<lambda>i. validator_txs E (dr_ids dr i) (dr_pairs dr i)) [0..<validators])"
  define noms where "noms = concat (map (\<lambda>i. nominator_txs E (dr_ids dr i)
      (map (\<lambda>(s, _). pair_public E s) (choose_multiple 4 (dr_votes dr i) ?vs)) (dr_pairs dr i))
      [validators..<validators + nominators])"
  have good: "matching_pair E (fst (dr_pairs dr i))" "matching_pair E (snd (dr_pairs dr i))"
    "pair_public E (snd (dr_pairs dr i)) \<noteq> default_pk E" for i
    using dr by (simp_all add: good_draws_def)
  note staker = staker_txs_acceptable[OF E good]
  have "?f x s = (Ok (), s\<lparr>sr_state := endowed E (?g x) (sr_state s)\<rparr>)" for x s
    by (cases x) (simp add: comp_simps endow_account_SR endowed_def)
  then have endow: "mapC ?f (?vs @ ?ns) s = (Ok (), s\<lparr>sr_state := endowed E ?xs (sr_state s)\<rparr>)" for s
    by (rule mapC_endow_SR)
  obtain txs where txs: "random_staking_txs E (?vs @ ?ns) (map (dr_random dr) [0..<random]) = Inr txs"
    "length txs = random" "\<forall>tx\<in>set txs. acceptable E tx"
    using random_staking_txs_run[OF E, of "?vs @ ?ns" "map (dr_random dr) [0..<random]"] good some dr
    by (auto simp: good_draws_def)
  have "world_of_stakers E SR dr validators nominators random (sr_new ts_new me)
      = (Ok (bonds @ noms @ txs), sr_new (endowed E ?xs ts_new) me)" for me
    using endow[of "sr_new ts_new me"] txs(1)
    by (simp add: world_of_stakers_def Let_def bindC_def sr_new_def bonds_def noms_def del: map_append)
  moreover have "(\<Sum>x\<leftarrow>?xs. unat (snd x)) < 2 ^ 128"
  proof -
    have "(\<Sum>x\<leftarrow>concat (map ?g ps). unat (snd x)) = 2 * length ps * 100000000000" for ps
      by (induction ps) auto
    from this[of "?vs @ ?ns"] sum show ?thesis by simp
  qed
  moreover have "length (bonds @ noms @ txs) = 2 * (validators + nominators) + random"
    unfolding bonds_def noms_def length_append length_concat_pairs[OF staker(3)] length_concat_pairs[OF staker(4)]
    using txs(2) by simp
  moreover have "\<forall>tx\<in>set (bonds @ noms @ txs). acceptable E tx"
    unfolding bonds_def noms_def set_append set_concat set_map
    using staker(1,2)[THEN bspec] txs(3) by blast
  ultimately show ?thesis by blast
qed

end
