(* ===== verification/Shutdown.thy ===== *)
theory Shutdown
  imports Termination
begin

text \<open>
  Ending the executor: \<open>Master::run_terminate\<close> tells every worker to leave its loop, and the master
  then joins the threads. The end of all workers is what \<open>join_all\<close> waits for.
\<close>

definition call_terminate :: "'p system \<Rightarrow> 'p system" where
  "call_terminate c = c\<lparr>sy_world := run_terminate (sy_master c) (sy_world c)\<rparr>"

text \<open>\<open>join_all\<close> returns if no thread panicked and all have ended.\<close>

definition joined :: "'p system \<Rightarrow> bool" where
  "joined c \<longleftrightarrow> list_all (\<lambda>w. wk_phase (sy_workers c w) = Terminated) (ms_workers (sy_master c))"

section \<open>Closing workers\<close>

definition closing_worker :: "thread_id \<Rightarrow> thread_id list \<Rightarrow> worker \<Rightarrow> 'p message list \<Rightarrow> bool" where
  "closing_worker mid ws wk msgs \<longleftrightarrow>
     (\<exists>pre. quiet ws wk pre \<and> msgs = map (new_from_thread mid) (pre @ [Terminate]))
   \<or> wk_phase wk = Terminated \<and> msgs = []"

definition closing :: "thread_id \<Rightarrow> thread_id list \<Rightarrow> runtime_state \<Rightarrow> 'p threads \<Rightarrow> bool" where
  "closing mid ws m t \<longleftrightarrow> ms_phase (sy_master (th_sys t)) = MReady \<and> ms_workers (sy_master (th_sys t)) = ws
     \<and> th_state t = m
     \<and> (\<forall>w\<in>set ws. th_activity t w = Resting \<and> wk_id (sy_workers (th_sys t) w) = w
          \<and> to_peer (sy_world (th_sys t)) w = []
          \<and> closing_worker mid ws (sy_workers (th_sys t) w) (to_worker (sy_world (th_sys t)) w))"

definition unread :: "thread_id list \<Rightarrow> 'p threads \<Rightarrow> nat" where
  "unread ws t = (\<Sum>w\<in>set ws. length (to_worker (sy_world (th_sys t)) w))"

lemma closing_start:
  assumes "quiet_system mid ws c" "distinct ws"
  shows "closing mid ws (wo_state (sy_world c)) (th_start (call_terminate c))"
    "unread ws (th_start (call_terminate c)) \<le> 2 * length ws"
proof -
  have queue: "to_worker (sy_world (call_terminate c)) w
      = to_worker (sy_world c) w @ [new_from_thread mid Terminate]" if "w \<in> set ws" for w
    using broadcast_to_worker[of "sy_master c" Terminate "sy_world c" w] assms that
    by (simp add: call_terminate_def run_terminate_def quiet_system_def)
  have pre: "length pre \<le> 1" if "quiet ws wk pre" for wk and pre :: "'a message_payload list"
    using that by (auto simp: quiet_def)
  show "closing mid ws (wo_state (sy_world c)) (th_start (call_terminate c))"
    using assms(1) queue
    by (auto simp: closing_def closing_worker_def th_start_def quiet_system_def call_terminate_def
        run_terminate_def broadcast_world)
  have "length (to_worker (sy_world (call_terminate c)) w) \<le> 2" if "w \<in> set ws" for w
    using queue[OF that] assms(1) that pre by (fastforce simp: quiet_system_def)
  then have "unread ws (th_start (call_terminate c)) \<le> of_nat (card (set ws)) * 2"
    unfolding unread_def th_start_def by (intro sum_bounded_above) simp
  then show "unread ws (th_start (call_terminate c)) \<le> 2 * length ws"
    using card_length[of ws] by simp
qed

text \<open>A closing worker reads its messages one by one and dispatches nothing.\<close>

lemma closing_read:
  assumes "closing_worker mid ws wk (to_worker wo (wk_id wk))" "to_worker wo (wk_id wk) = msg # rest"
  shows "\<exists>wk'. worker_from_master E wk wo
      = (wk', wo\<lparr>to_worker := (to_worker wo)(wk_id wk := rest)\<rparr>)
    \<and> wk_id wk' = wk_id wk \<and> closing_worker mid ws wk' rest"
  using assms
  by (auto simp: closing_worker_def quiet_def dispatching_def head_tx_def new_from_thread_def
      worker_from_master_def wait_finalize_setup_def run_task_def author_from_master_def Let_def)

lemma closing_idle:
  assumes "closing_worker mid ws wk (to_worker wo (wk_id wk))" "to_peer wo (wk_id wk) = []"
  shows "dispatching E wk wo = None"
  using assms by (auto simp: closing_worker_def quiet_def dispatching_def head_tx_def)

lemma closing_worker_step:
  assumes c: "closing mid ws m t" and w: "w \<in> set ws"
    and step: "worker_step E w t es t'"
  shows "es = [] \<and> closing mid ws m t' \<and> unread ws t' < unread ws t"
proof -
  let ?c = "th_sys t"
  have wk: "th_activity t w = Resting" "wk_id (sy_workers ?c w) = w" "to_peer (sy_world ?c) w = []"
    "closing_worker mid ws (sy_workers ?c w) (to_worker (sy_world ?c) w)"
    using c w by (simp_all add: closing_def)
  note idle = closing_idle[of mid ws "sy_workers ?c w" "sy_world ?c" E, unfolded wk(2), OF wk(4,3)]
  show ?thesis
    using step
  proof cases
    case (takes msg rest wk' wo')
    note r = closing_read[of mid ws "sy_workers ?c w" "sy_world ?c" msg rest E, unfolded wk(2), OF wk(4) takes(4)]
    have wo': "wo' = (sy_world ?c)\<lparr>to_worker := (to_worker (sy_world ?c))(w := rest)\<rparr>"
      "wk_id wk' = w" "closing_worker mid ws wk' rest"
      using r takes(6) by auto
    have "(\<Sum>v\<in>set ws. length (((to_worker (sy_world ?c))(w := rest)) v))
        < (\<Sum>v\<in>set ws. length (to_worker (sy_world ?c) v))"
      using w takes(4) by (intro sum_strict_mono_ex1) auto
    with c wk wo' show ?thesis
      by (auto simp: takes(1,2) closing_def unread_def)
  qed (use wk idle in simp_all)
qed

lemma closing_thread_step:
  assumes c: "closing mid ws m t" and step: "thread_step E t es t'"
  shows "es = [] \<and> closing mid ws m t' \<and> unread ws t' < unread ws t"
  using step
proof cases
  case (worker w)
  then show ?thesis
    using closing_worker_step[OF c _ worker(2)] c by (simp add: closing_def worker_in_def)
qed (use c in \<open>simp_all add: closing_def\<close>)

lemma closing_run:
  assumes "active_run E t es n t'" "closing mid ws m t"
  shows "es = [] \<and> closing mid ws m t' \<and> n + unread ws t' \<le> unread ws t"
  using assms
proof (induction rule: active_run.induct)
  case (active_step t es n t' fs t'')
  then have "closing mid ws m t'" by blast
  from closing_thread_step[OF this active_step.hyps(2)] active_step.IH active_step.prems show ?case by simp
qed simp

lemma closing_thread_run: "thread_run E t es t' \<Longrightarrow> closing mid ws m t \<Longrightarrow> closing mid ws m t'"
  by (induction rule: thread_run.induct) (use closing_thread_step in blast)+

lemma closing_progress:
  assumes c: "closing mid ws m t" and open_worker: "\<not> joined (th_sys t)"
  shows "\<exists>es t'. thread_step E t es t' \<and> t' \<noteq> t"
proof -
  let ?c = "th_sys t"
  obtain w where w: "w \<in> set ws" "wk_phase (sy_workers ?c w) \<noteq> Terminated"
    using c open_worker by (auto simp: joined_def list_all_iff closing_def)
  then have wk: "th_activity t w = Resting" "wk_id (sy_workers ?c w) = w" "to_peer (sy_world ?c) w = []"
    "closing_worker mid ws (sy_workers ?c w) (to_worker (sy_world ?c) w)"
    using c by (simp_all add: closing_def)
  obtain msg rest where msgs: "to_worker (sy_world ?c) w = msg # rest"
    using wk(4) w(2) by (cases "to_worker (sy_world ?c) w") (auto simp: closing_worker_def)
  note r = closing_read[of mid ws "sy_workers ?c w" "sy_world ?c" msg rest E, unfolded wk(2), OF wk(4) msgs]
  obtain wk' wo' where wo': "worker_from_master E (sy_workers ?c w) (sy_world ?c) = (wk', wo')" by fastforce
  have "running (wk_phase (sy_workers ?c w))"
    using wk(4) w(2) by (auto simp: closing_worker_def quiet_def)
  then have "worker_in ?c w" using c w(1) by (simp add: worker_in_def closing_def)
  from thread_step.worker[OF this takes[OF wk(1) msgs _ wo']]
    closing_idle[of mid ws "sy_workers ?c w" "sy_world ?c" E, unfolded wk(2), OF wk(4,3)]
  have "thread_step E t [] (t\<lparr>th_sys := set_worker w wk' wo' ?c\<rparr>)" by blast
  with closing_thread_step[OF c this] show ?thesis by (metis less_irrefl)
qed

lemma shutdown:
  assumes "quiet_system mid ws c" "distinct ws" "active_run E (th_start (call_terminate c)) es n t"
  shows "es = []" "th_state t = wo_state (sy_world c)" "n \<le> 2 * length ws"
    "joined (th_sys t) \<or> (\<exists>es t'. thread_step E t es t' \<and> t' \<noteq> t)"
proof -
  note start = closing_start[OF assms(1,2)]
  note run = closing_run[OF assms(3) start(1)]
  show "es = []" "th_state t = wo_state (sy_world c)" using run by (simp_all add: closing_def)
  show "n \<le> 2 * length ws" using run start(2) by linarith
  show "joined (th_sys t) \<or> (\<exists>es t'. thread_step E t es t' \<and> t' \<noteq> t)"
    using closing_progress[of mid ws _ t E] run by blast
qed

lemma thread_run_trans:
  assumes "thread_run E u es t'" "thread_run E t fs u"
  shows "thread_run E t (fs @ es) t'"
  using assms
proof (induction rule: thread_run.induct)
  case (trun_step u es t' gs t'')
  from thread_run.trun_step[OF trun_step.IH[OF trun_step.prems] trun_step.hyps(2)] show ?case by simp
qed simp

lemma shutdown_possible:
  assumes "closing mid ws m t"
  shows "\<exists>es t'. thread_run E t es t' \<and> closing mid ws m t' \<and> joined (th_sys t')"
  using assms
proof (induction "unread ws t" arbitrary: t rule: less_induct)
  case less
  show ?case
  proof (cases "joined (th_sys t)")
    case True
    with less.prems trun_refl show ?thesis by blast
  next
    case False
    from closing_progress[OF less.prems this, of E] obtain fs u where u: "thread_step E t fs u" by blast
    note s = closing_thread_step[OF less.prems u]
    from less.hyps[of u] s obtain es t' where t': "thread_run E u es t'" "closing mid ws m t'" "joined (th_sys t')"
      by blast
    have "thread_run E t (fs @ es) t'"
      using t'(1) trun_step[OF trun_refl u] by (auto intro: thread_run_trans)
    with t'(2,3) show ?thesis by blast
  qed
qed

section \<open>Properties\<close>

text \<open>C21. The executor can always be ended between two blocks. After \<open>run_terminate\<close> no worker executes
  anything and the state stays as it is; every run in which each step does something has at most two
  steps per worker, and as long as a worker has not ended one more step is possible. So \<open>join_all\<close>
  returns, and no worker panicked.\<close>

theorem run_terminate_ends_workers:
  assumes "quiet_system mid ws c" "distinct ws" "active_run E (th_start (call_terminate c)) es n t"
  shows "es = [] \<and> th_state t = wo_state (sy_world c) \<and> n \<le> 2 * length ws
    \<and> (joined (th_sys t) \<or> (\<exists>es t'. thread_step E t es t' \<and> t' \<noteq> t))"
  using shutdown[OF assms] by blast

end
