(* ===== verification/Benchmarks.thy ===== *)
theory Benchmarks
  imports Datasets Shutdown
begin

text \<open>
  The drivers of the benchmarks (\<open>benchmarks/src/millionaires.rs\<close>, \<open>middle_class.rs\<close>, \<open>main.rs\<close>): they
  make an executor, generate a data set on its state, author and validate a block, and assert that
  both agree. Measured times and the tables they are written to are left out.
\<close>

section \<open>The sequential drivers\<close>

text \<open>
  The common part: a data set is generated on the runtime of the executor, the state is dumped, the
  block is authored and validated from it, and the result is asserted.
\<close>

definition seq_playground ::
  "('p, 'z) staking_env_scheme \<Rightarrow> (sequential_runtime, 'p transaction list, unit) comp
     \<Rightarrow> (sequential_runtime, unit, unit) comp" where
  "seq_playground E data =
     bindC data (\<lambda>dataset.
     bindC (\<lambda>s. author_and_validate (SE E) dataset (Some (dump (sr_state s))) s) (\<lambda>valid.
     if valid then ret () else panic ''assertion failed: valid''))"

definition seq_millionaires_playground ::
  "('p, 'k, 'z) key_env_scheme \<Rightarrow> (nat \<Rightarrow> 'k key_pair) \<Rightarrow> (nat \<Rightarrow> nat \<times> nat) \<Rightarrow> nat \<Rightarrow> nat \<Rightarrow> thread_id
     \<Rightarrow> (unit, unit) rs \<times> sequential_runtime" where
  "seq_millionaires_playground E random choices members transfers me =
     seq_playground E (millionaires_playground E SR random choices members transfers) (se_new me)"

definition seq_middle_class_playground ::
  "('p, 'k, 'z) key_env_scheme \<Rightarrow> (nat \<Rightarrow> 'k key_pair) \<Rightarrow> (nat \<Rightarrow> nat \<times> nat) \<Rightarrow> nat \<Rightarrow> nat \<Rightarrow> nat \<Rightarrow> thread_id
     \<Rightarrow> (unit, unit) rs \<times> sequential_runtime" where
  "seq_middle_class_playground E random choices members transfers lucky_members me =
     seq_playground E (middle_class_playground E SR random choices members transfers 100 lucky_members) (se_new me)"

definition sequential_stakers ::
  "('p, 'k, 'z) key_env_scheme \<Rightarrow> 'k draws \<Rightarrow> nat \<Rightarrow> nat \<Rightarrow> nat \<Rightarrow> thread_id
     \<Rightarrow> (runtime_state \<times> 'p block, unit) rs \<times> sequential_runtime" where
  "sequential_stakers E dr validators nominators random me =
     bindC (world_of_stakers E SR dr validators nominators random) (ex_author_block (SE E)) (se_new me)"

section \<open>The concurrent drivers\<close>

text \<open>Code run on \<open>executor.master.runtime\<close>, a sequential runtime on the shared state.\<close>

definition on_master ::
  "(sequential_runtime, 'a, 'e) comp \<Rightarrow> 'p system \<Rightarrow> ('a, 'e) rs \<times> 'p system" where
  "on_master code c = (case code (sr_new (wo_state (sy_world c)) (ms_id (sy_master c))) of
     (r, s) \<Rightarrow> (r, at_state (sr_state s) c))"

text \<open>
  A run of a concurrent driver ends with the executor after all threads are joined, or panics.
  \<open>ids\<close> are the ids of the threads.
\<close>

inductive concurrent_playground ::
  "('p, 'z) exec_env_scheme \<Rightarrow> 'p distributer \<Rightarrow> (sequential_runtime, 'p transaction list, unit) comp
     \<Rightarrow> thread_id \<Rightarrow> thread_id list \<Rightarrow> ('p system, unit) rs \<Rightarrow> bool"
  for E :: "('p, 'z) exec_env_scheme" and D data me ids where
  not_started: "(concurrent_new me ids None :: 'p system panicking) = Inl msg \<Longrightarrow> concurrent_playground E D data me ids (Panic msg)"
| no_data: "concurrent_new me ids None = Inr (c :: 'p system) \<Longrightarrow> on_master data c = (Panic msg, c1) \<Longrightarrow>
     concurrent_playground E D data me ids (Panic msg)"
| refuted: "concurrent_new me ids None = Inr c \<Longrightarrow> on_master data c = (Ok dataset, c1) \<Longrightarrow>
     author_and_validate_run E D dataset (Some (dump (wo_state (sy_world c1)))) c1 False c2 \<Longrightarrow>
     concurrent_playground E D data me ids (Panic ''assertion failed: valid'')"
| finished: "concurrent_new me ids None = Inr c \<Longrightarrow> on_master data c = (Ok dataset, c1) \<Longrightarrow>
     author_and_validate_run E D dataset (Some (dump (wo_state (sy_world c1)))) c1 True c2 \<Longrightarrow>
     thread_run E (th_start (call_terminate c2)) es t \<Longrightarrow> joined (th_sys t) \<Longrightarrow>
     concurrent_playground E D data me ids (Ok (th_sys t))"

inductive_cases concurrent_playgroundE: "concurrent_playground E D data me ids r"

definition concurrent_millionaires_playground ::
  "('p, 'k, 'z) key_env_scheme \<Rightarrow> 'p distributer \<Rightarrow> (nat \<Rightarrow> 'k key_pair) \<Rightarrow> (nat \<Rightarrow> nat \<times> nat) \<Rightarrow> nat \<Rightarrow> nat
     \<Rightarrow> thread_id \<Rightarrow> thread_id list \<Rightarrow> ('p system, unit) rs \<Rightarrow> bool" where
  "concurrent_millionaires_playground E D random choices members transfers =
     concurrent_playground E D (millionaires_playground E SR random choices members transfers)"

definition concurrent_middle_class_playground ::
  "('p, 'k, 'z) key_env_scheme \<Rightarrow> 'p distributer \<Rightarrow> (nat \<Rightarrow> 'k key_pair) \<Rightarrow> (nat \<Rightarrow> nat \<times> nat) \<Rightarrow> nat \<Rightarrow> nat \<Rightarrow> nat
     \<Rightarrow> thread_id \<Rightarrow> thread_id list \<Rightarrow> ('p system, unit) rs \<Rightarrow> bool" where
  "concurrent_middle_class_playground E D random choices members transfers lucky_members =
     concurrent_playground E D (middle_class_playground E SR random choices members transfers 100 lucky_members)"

text \<open>\<open>concurrent_stakers\<close> compares the states itself and does not end the executor.\<close>

inductive concurrent_stakers ::
  "('p, 'k, 'z) key_env_scheme \<Rightarrow> 'p distributer \<Rightarrow> 'k draws \<Rightarrow> nat \<Rightarrow> nat \<Rightarrow> nat \<Rightarrow> thread_id \<Rightarrow> thread_id list
     \<Rightarrow> runtime_state \<Rightarrow> runtime_state \<Rightarrow> (unit, unit) rs \<Rightarrow> bool"
  for E :: "('p, 'k, 'z) key_env_scheme" and D dr validators nominators random me ids where
  both: "concurrent_new me ids None = Inr c \<Longrightarrow>
     on_master (world_of_stakers E SR dr validators nominators random) c = (Ok dataset, c1) \<Longrightarrow>
     call_author E D dataset c1 = Some c2 \<Longrightarrow> thread_run E (th_start c2) L t \<Longrightarrow>
     sy_result (th_sys t) = Some (Authored s1 blk) \<Longrightarrow>
     call_validate blk (call_apply_state (dump (wo_state (sy_world c1))) (call_clean (th_sys t))) = Some c3 \<Longrightarrow>
     thread_run E (th_start c3) V u \<Longrightarrow> sy_result (th_sys u) = Some (Validated s2) \<Longrightarrow>
     r = (if state_eq s1 s2 then Ok () else Panic ''assertion failed: s1.state_eq(s2)'') \<Longrightarrow>
     concurrent_stakers E D dr validators nominators random me ids s1 s2 r"

section \<open>They succeed\<close>

lemma seq_playground_passes:
  assumes E: "staking_ok E" and keys: "keys_ok E" and data: "bank_data E data accounts xs txs"
  shows "seq_playground E data (se_new me) = (Ok (), se_new me)"
proof -
  let ?m = "endowed E xs ts_new"
  have run: "data (se_new me) = (Ok txs, sr_new ?m me)" "(\<Sum>x\<leftarrow>xs. unat (snd x)) < 2 ^ 128"
    using data by (simp_all add: bank_data_def se_new_def)
  note m = endowed_well_formed[OF E run(2)]
  have sane: "sane E txs" using bank_data_submittable(1)[OF keys data] by (simp add: submittable_def)
  have again: "fold (\<lambda>(k, v). unsafe_insert k v) (entries ?m) ?m = ?m"
    using fold_entries_lookup[of "\<lambda>v. v" ?m ?m]
    by (intro fmap_ext) (simp add: unsafe_insert_def[abs_def] split: option.split)
  have empty: "fold (\<lambda>(k, v). unsafe_insert k v) (entries ?m) ts_new = ?m"
    using apply_to_empty[of ?m] by (simp only: ts_new_def)
  have "apply_initial (SE E) (Some ?m) (sr_new ?m me) = (Ok (), sr_new ?m me)"
    "apply_initial (SE E) (Some ?m) (se_new me) = (Ok (), sr_new ?m me)"
    by (simp_all add: apply_initial_def se_apply_state_def sr_new_def se_new_def again empty)
  then have "author_and_validate (SE E) txs (Some ?m) (sr_new ?m me)
      = author_and_validate (SE E) txs (Some ?m) (se_new me)"
    by (simp add: author_and_validate_def bindC_def)
  also have "\<dots> = (Ok True, se_new me)"
    using m(1) by (intro sequential_agrees[OF E _ _ sane]) (simp_all add: well_formed_def)
  finally show ?thesis
    using run(1) by (simp add: seq_playground_def comp_simps sr_new_def dump_def)
qed

lemma started_executor:
  fixes E :: "('p, 'z) staking_env_scheme"
  assumes E: "staking_ok E" and ids: "ids \<noteq> []" "distinct ids"
    and m: "well_formed E m" "\<forall>k. ts_owner m k = None"
  obtains c ws where "concurrent_new me ids None = Inr c" "ws \<noteq> []" "distinct ws" "ms_id (sy_master c) = me"
    "wo_state (sy_world c) = ts_new" "clean_system E me ws (at_state m c)"
proof -
  have "(concurrent_new me ids None :: 'p system panicking) = concurrent_new me ids (Some ts_new)"
    by (simp add: concurrent_new_def)
  with concurrent_new_clean[of E ts_new ids me] well_formed_empty[OF E] ids
  obtain c where c: "concurrent_new me ids None = Inr c" "wo_state (sy_world c) = ts_new"
    "clean_system E me (sorted_list_of_set (set ids)) c"
    by (auto simp: ts_new_def ts_owner_def split: sum.splits)
  show thesis
    by (rule that[of c "sorted_list_of_set (set ids)", OF c(1) _ _ _ c(2)]) (use c(3) m in \<open>auto simp: clean_system_def quiet_system_def\<close>)
qed

lemma on_master_bank:
  assumes "bank_data E data accounts xs txs" "ms_id (sy_master c) = me" "wo_state (sy_world c) = ts_new"
  shows "on_master data c = (Ok txs, at_state (endowed E xs ts_new) c)"
  using assms by (simp add: on_master_def bank_data_def sr_new_def)

lemma concurrent_playground_passes:
  fixes E :: "('p, 'k, 'z) key_env_scheme"
  assumes E: "staking_ok E" and keys: "keys_ok E" and data: "bank_data E data accounts xs txs"
    and D: "distributer_laws D" and ids: "ids \<noteq> []" "distinct ids"
  shows "concurrent_playground E D data me ids r \<Longrightarrow> \<exists>c. r = Ok c \<and> joined c \<and> wo_state (sy_world c) = ts_new"
    and "\<exists>c. concurrent_playground E D data me ids (Ok c)"
proof -
  let ?m = "endowed E xs ts_new"
  have sum: "(\<Sum>x\<leftarrow>xs. unat (snd x)) < 2 ^ 128" using data by (simp add: bank_data_def)
  note m = endowed_well_formed[OF E sum]
  note sub = bank_data_submittable[OF keys data]
  obtain c ws where c: "concurrent_new me ids None = Inr c" "ws \<noteq> []" "distinct ws" "ms_id (sy_master c) = me"
    "wo_state (sy_world c) = ts_new" "clean_system E me ws (at_state ?m c)"
    by (rule started_executor[OF E ids m(1,2)])
  note gen = on_master_bank[OF data c(4,5)]
  let ?c1 = "at_state ?m c"
  have state: "wo_state (sy_world ?c1) = ?m" by simp
  have K: "\<forall>tx\<in>set txs. asks_within (fmdom' ?m) (outer_dispatch E HR (tx_function tx) (fst (tx_signature tx)))"
    using sub(3) by (simp only: m(3)) blast
  note agree = author_and_validate_agrees[OF E c(6) startableI[OF c(6) D sub(1)] m(1,2) _ K, unfolded state, OF subset_refl]
  have closes: "closing me ws ts_new (th_start (call_terminate c2))"
    if "author_and_validate_run E D txs (Some ?m) ?c1 True c2" for c2
    using agree(1)[OF that] c(3) closing_start(1)[of me ws c2] by (simp add: clean_system_def ts_new_def)
  show "\<exists>c. r = Ok c \<and> joined c \<and> wo_state (sy_world c) = ts_new" if run: "concurrent_playground E D data me ids r"
    using run
  proof (rule concurrent_playgroundE)
    fix msg and c' c1 :: "'p system"
    assume "concurrent_new me ids None = Inr c'" "on_master data c' = (Panic msg, c1)"
    then show ?thesis using c(1) gen by simp
  next
    fix c' c1 c2 dataset
    assume "concurrent_new me ids None = Inr c'" "on_master data c' = (Ok dataset, c1)"
      "author_and_validate_run E D dataset (Some (dump (wo_state (sy_world c1)))) c1 False c2"
    then have "author_and_validate_run E D txs (Some ?m) ?c1 False c2"
      using c(1) gen by (simp add: dump_def)
    then show ?thesis using agree(1) by blast
  next
    fix c' c1 c2 dataset es t
    assume a: "r = Ok (th_sys t)" "concurrent_new me ids None = Inr c'" "on_master data c' = (Ok dataset, c1)"
      "author_and_validate_run E D dataset (Some (dump (wo_state (sy_world c1)))) c1 True c2"
      and t: "thread_run E (th_start (call_terminate c2)) es t" "joined (th_sys t)"
    then have "author_and_validate_run E D txs (Some ?m) ?c1 True c2"
      using c(1) gen by (simp add: dump_def)
    from closing_thread_run[OF t(1) closes[OF this]] have "th_state t = ts_new" by (simp add: closing_def)
    with a(1) t(2) show ?thesis by blast
  qed (use c(1) in simp)
  obtain c2 where c2: "author_and_validate_run E D txs (Some ?m) ?c1 True c2" using agree(2) by blast
  obtain es t where t: "thread_run E (th_start (call_terminate c2)) es t" "joined (th_sys t)"
    using shutdown_possible[OF closes[OF c2]] by blast
  have "concurrent_playground E D data me ids (Ok (th_sys t))"
    by (rule finished[OF c(1) gen _ t]) (use c2 in \<open>simp add: dump_def\<close>)
  then show "\<exists>c. concurrent_playground E D data me ids (Ok c)" by blast
qed

section \<open>Stakers\<close>

lemma sequential_stakers_run:
  assumes E: "staking_ok E" and keys: "keys_ok E" and dr: "good_draws E dr"
    and some: "0 < validators + nominators \<or> random = 0"
    and sum: "2 * (validators + nominators) * 100000000000 < 2 ^ 128"
  shows "\<exists>st txs s. sequential_stakers E dr validators nominators random me = (Ok (st, block_from txs), s)
    \<and> length txs = 2 * (validators + nominators) + random \<and> st = sr_state s \<and> well_formed E st"
proof -
  obtain xs txs where d: "\<And>me. world_of_stakers E SR dr validators nominators random (sr_new ts_new me)
        = (Ok txs, sr_new (endowed E xs ts_new) me)" "(\<Sum>x\<leftarrow>xs. unat (snd x)) < 2 ^ 128"
    "length txs = 2 * (validators + nominators) + random" "\<forall>tx\<in>set txs. acceptable E tx"
    using stakers_data[OF keys dr some sum] by blast
  note m = endowed_well_formed[OF E d(2)]
  have "sane E txs" using d(4) by (simp add: sane_def list_all_iff acceptable_def)
  with apply_transaction_runs[OF E, of "sr_new (endowed E xs ts_new) me" txs] m(1)
  obtain oks s where s: "apply_transaction E txs (sr_new (endowed E xs ts_new) me) = (Ok oks, s)"
    "chain_readable E (sr_view s)" "chain_inv E (chain_of E (sr_view s))"
    by (auto simp: well_formed_def sr_view_def sr_new_def simp del: chain_of_sel)
  then have "sequential_stakers E dr validators nominators random me = (Ok (sr_state s, block_from txs), s)"
    using d(1)[of me]
    by (simp add: sequential_stakers_def comp_simps se_new_def se_author_block_def dump_def)
  with s(2,3) d(3) show ?thesis by (auto simp: well_formed_def sr_view_def simp del: chain_of_sel)
qed

lemma concurrent_stakers_agree:
  fixes E :: "('p, 'k, 'z) key_env_scheme"
  assumes E: "staking_ok E" and keys: "keys_ok E" and dr: "good_draws E dr" and some: "0 < validators + nominators"
    and sum: "2 * (validators + nominators) * 100000000000 < 2 ^ 128"
    and D: "distributer_laws D" and ids: "ids \<noteq> []" "distinct ids"
    and unique: "\<And>txs s. world_of_stakers E SR dr validators nominators random (se_new me) = (Ok txs, s) \<Longrightarrow>
      distinct (map tx_id txs)"
    and run: "concurrent_stakers E D dr validators nominators random me ids s1 s2 r"
  shows "values_of s2 = values_of s1"
proof -
  obtain xs txs where d: "\<And>me. world_of_stakers E SR dr validators nominators random (sr_new ts_new me)
        = (Ok txs, sr_new (endowed E xs ts_new) me)" "(\<Sum>x\<leftarrow>xs. unat (snd x)) < 2 ^ 128"
    "length txs = 2 * (validators + nominators) + random" "\<forall>tx\<in>set txs. acceptable E tx"
    using stakers_data[OF keys dr disjI1[OF some] sum] by blast
  let ?m = "endowed E xs ts_new"
  note m = endowed_well_formed[OF E d(2)]
  have "distinct (map tx_id txs)" using unique d(1)[of me] by (simp add: se_new_def)
  moreover have "txs \<noteq> []" using some d(3) by auto
  ultimately have sub: "submittable E txs"
    using d(4) by (simp add: submittable_def sane_def list_all_iff acceptable_def)
  obtain c ws where c: "concurrent_new me ids None = Inr c" "ws \<noteq> []" "distinct ws" "ms_id (sy_master c) = me"
    "wo_state (sy_world c) = ts_new" "clean_system E me ws (at_state ?m c)"
    by (rule started_executor[OF E ids m(1,2)])
  have gen: "on_master (world_of_stakers E SR dr validators nominators random) c = (Ok txs, at_state ?m c)"
    using d(1)[of me] c(4,5) by (simp add: on_master_def sr_new_def)
  from run show ?thesis
  proof cases
    case (both c' dataset c1 c2 L t blk c3 V u)
    have eq: "dataset = txs" "c1 = at_state ?m c" using both(1,2) c(1) gen by auto
    note a = both(3)[unfolded eq] both(4,5)
    have state: "wo_state (sy_world (at_state ?m c)) = ?m" by simp
    obtain P c2' where P: "call_author E D txs (at_state ?m c) = Some c2'" "distributed E ws P"
      "author_inv E me ws P (wo_state (sy_world (at_state ?m c))) [] c2'"
      by (rule author_starts[OF c(6) D sub])
    have P: "distributed E ws P" "author_inv E me ws P ?m [] c2"
      using P a(1) unfolding state by simp_all
    have "author_done E me ws P ?m L (th_sys t)"
      using author_thread_run[OF a(2) author_sim_start[OF P(2)] P(1) E] author_simD(2) a(3) by fastforce
    then have "quiet_system me ws (th_sys t)" by (simp add: author_done_def)
    from clean_again[OF this c(2,3) m(1,2)]
    have v: "clean_system E me ws (call_apply_state ?m (call_clean (th_sys t)))"
      "wo_state (sy_world (call_apply_state ?m (call_clean (th_sys t)))) = ?m" by simp_all
    then have quiet: "quiet_system me ws (call_apply_state ?m (call_clean (th_sys t)))"
      "ms_orphans (sy_master (call_apply_state ?m (call_clean (th_sys t)))) = []" by (simp_all add: clean_system_def)
    from authored_validates[OF E c(6) startableI[OF c(6) D sub] a quiet c(3) subset_refl] v(2) both(6-8)
    show ?thesis by (fastforce simp: eq dump_def)
  qed
qed

section \<open>Properties\<close>

text \<open>C8. The assertions of the benchmarks hold. Whatever accounts are drawn, with at most \<open>2 ^ 32\<close>
  transfers and not more members than a \<open>u128\<close> can endow: the drivers of both playgrounds, sequential
  and concurrent, in every finished run under any interleaving, end without a panic, find the authored
  block valid, and leave an empty state; a concurrent one has a finished run, and every finished run
  has joined all its threads.\<close>

theorem playground_benchmarks_pass:
  assumes "staking_ok E" "keys_ok E" "\<forall>i. matching_pair E (random i)" "distributer_laws D"
    and "0 < members" "members * 100000000000 < 2 ^ 128" "0 < transfers" "transfers \<le> 2 ^ 32"
    and "lucky_members \<le> members" "ids \<noteq> []" "distinct ids"
  shows "seq_millionaires_playground E random choices members transfers me = (Ok (), se_new me)
    \<and> seq_middle_class_playground E random choices members transfers lucky_members me = (Ok (), se_new me)
    \<and> (\<forall>run \<in> {concurrent_millionaires_playground E D random choices members transfers me ids,
          concurrent_middle_class_playground E D random choices members transfers lucky_members me ids}.
        (\<forall>r. run r \<longrightarrow> (\<exists>c. r = Ok c \<and> joined c \<and> wo_state (sy_world c) = ts_new)) \<and> (\<exists>c. run (Ok c)))"
proof -
  have "members * (unat (100 :: balance) * 1000000) < 2 ^ 128" using assms(6) by simp
  from middle_class_data[OF assms(3,5,7,8) this assms(9), where choices = choices]
  obtain xs txs where b: "bank_data E (middle_class_playground E SR random choices members transfers 100 lucky_members)
      (map random [0..<members]) xs txs" by blast
  obtain ys tys where a: "bank_data E (millionaires_playground E SR random choices members transfers)
      (map random [0..<members]) ys tys"
    using millionaires_data[OF assms(3,5,7,8,6), where choices = choices] by blast
  note seq = seq_playground_passes[OF assms(1,2)] and conc = concurrent_playground_passes[OF assms(1,2) _ assms(4,10,11)]
  show ?thesis
    unfolding seq_millionaires_playground_def seq_middle_class_playground_def
      concurrent_millionaires_playground_def concurrent_middle_class_playground_def
    using seq[OF a] seq[OF b] conc[OF a] conc[OF b] by blast
qed

text \<open>C28. The world of stakers. Whatever is drawn, as long as no controller is the default account: the
  sequential driver authors the whole data set without a panic and leaves a well-formed chain. If
  the transaction ids drawn are different, every run of the concurrent driver validates its block
  with the values it authored; its assertion can then only fail on the entries of the states.\<close>

theorem stakers_benchmarks_agree:
  assumes "staking_ok E" "keys_ok E" "good_draws E dr" "distributer_laws D"
    and "0 < validators + nominators" "2 * (validators + nominators) * 100000000000 < 2 ^ 128"
    and "ids \<noteq> []" "distinct ids"
  shows "(\<exists>st txs s. sequential_stakers E dr validators nominators random me = (Ok (st, block_from txs), s)
        \<and> length txs = 2 * (validators + nominators) + random \<and> st = sr_state s \<and> well_formed E st)
    \<and> ((\<forall>txs s. world_of_stakers E SR dr validators nominators random (se_new me) = (Ok txs, s) \<longrightarrow>
          distinct (map tx_id txs)) \<longrightarrow>
       (\<forall>s1 s2 r. concurrent_stakers E D dr validators nominators random me ids s1 s2 r \<longrightarrow>
          values_of s2 = values_of s1))"
  using sequential_stakers_run[OF assms(1-3) disjI1[OF assms(5)] assms(6)]
    concurrent_stakers_agree[OF assms(1-3,5,6,4,7,8)] by blast

end
