(* ===== verification/Example_Benchmarks.thy ===== *)
theory Example_Benchmarks
  imports Benchmarks
begin

text \<open>
  An instance of the key parameters, in which a signature is the public key of the signer, and the
  theorems on key pairs, data sets and whole runs of the executor applied to it.
\<close>

section \<open>Keys of 32 bytes\<close>

typedef key32 = "{bs :: bytes. length bs = 32}"
  by (rule exI[of _ "replicate 32 0"]) simp

definition key_of :: "bytes \<Rightarrow> key32" where
  "key_of bs = Abs_key32 bs"

definition bytes_of :: "key32 \<Rightarrow> bytes" where
  "bytes_of = Rep_key32"

lemma bytes_of_length [simp]: "length (bytes_of k) = 32"
  using Rep_key32 by (simp add: bytes_of_def)

lemma key_of_bytes_of [simp]: "key_of (bytes_of k) = k"
  by (simp add: key_of_def bytes_of_def Rep_key32_inverse)

lemma bytes_of_key_of: "length bs = 32 \<Longrightarrow> bytes_of (key_of bs) = bs"
  by (simp add: key_of_def bytes_of_def Abs_key32_inverse)

function keys_of :: "bytes \<Rightarrow> key32 list" where
  "keys_of bs = (if length bs < 32 then [] else key_of (take 32 bs) # keys_of (drop 32 bs))"
  by pat_completeness auto
termination
  by (relation "measure length") auto

declare keys_of.simps [simp del]

lemma keys_of_concat: "keys_of (concat (map bytes_of ks)) = ks"
proof (induction ks)
  case (Cons k ks)
  then show ?case by (subst keys_of.simps) simp
qed (simp add: keys_of.simps)

definition ex_keys :: "(key32, bytes \<times> key32) key_env" where
  "ex_keys = \<lparr>
     debug_build = True,
     pk_as_ref = bytes_of,
     pk_from_bytes = (\<lambda>bs. if length bs = 32 then Some (key_of bs) else None),
     default_pk = key_of (drop 32 default_bytes),
     enc_account_balance = (\<lambda>b. bits_of (ab_free b) @ bits_of (ab_reserved b)),
     dec_account_balance = (\<lambda>bs. if length bs = 256
       then Ok \<lparr>ab_free = of_bits (take 128 bs), ab_reserved = of_bits (drop 128 bs)\<rparr>
       else Err ''Not enough data to fill buffer''),
     enc_ledger = (\<lambda>l. bits_of (sl_value l) @ role_byte (sl_role l) # bytes_of (sl_controller l)),
     dec_ledger = (\<lambda>bs. if length bs = 161
       then Ok \<lparr>sl_value = of_bits (take 128 bs), sl_controller = key_of (drop 129 bs),
                 sl_role = byte_role (bs ! 128)\<rparr>
       else Err ''Not enough data to fill buffer''),
     enc_accounts = (\<lambda>ps. 1 # concat (map bytes_of ps)),
     dec_accounts = (\<lambda>bs. case bs of [] \<Rightarrow> Err ''Not enough data to fill buffer'' | b # ps \<Rightarrow> Ok (keys_of ps)),
     pk_verify = (\<lambda>p msg signature. signature = bytes_of p),
     enc_call = (\<lambda>call. case call of BalancesCall _ \<Rightarrow> [0] | StakingCall _ \<Rightarrow> [1]),
     kp_from_bytes = (\<lambda>bs. if length bs = 64 then Some (take 32 bs, key_of (drop 32 bs)) else None),
     kp_public = snd,
     kp_secret = fst,
     kp_sign = (\<lambda>k msg. bytes_of (snd k)),
     kp_verify = (\<lambda>k msg signature. signature = bytes_of (snd k)),
     kp_matching = (\<lambda>k. True)\<rparr>"

lemma ex_keys_ok: "staking_ok ex_keys" "keys_ok ex_keys"
proof -
  show "staking_ok ex_keys"
    by (simp add: staking_ok_def balances_ok_def edc_ok_def ex_keys_def nth_append keys_of_concat)
  show "keys_ok ex_keys"
    by (auto simp: keys_ok_def ex_keys_def bytes_of_key_of alice_bytes_def bob_bytes_def dave_bytes_def
        eve_bytes_def default_bytes_def)
qed

section \<open>The benchmarks on it\<close>

definition key_nr :: "nat \<Rightarrow> (bytes \<times> key32) key_pair" where
  "key_nr n = KeyPair (replicate 32 (of_nat n), key_of (replicate 32 (of_nat n)))"

lemma key_nr_matches: "matching_pair ex_keys (key_nr n)"
  by (simp add: matching_pair_def ex_keys_def)

lemma key_nr_not_default: "pair_public ex_keys (key_nr n) \<noteq> default_pk ex_keys"
proof -
  have "replicate 32 (of_nat n) \<noteq> drop 32 default_bytes"
  proof
    assume eq: "replicate 32 (of_nat n :: u8) = drop 32 default_bytes"
    have "drop 32 default_bytes ! 0 = drop 32 default_bytes ! 1" unfolding eq[symmetric] by simp
    then show False by (simp add: default_bytes_def)
  qed
  moreover have "length (drop 32 default_bytes) = 32" by (simp add: default_bytes_def)
  ultimately have "key_of (replicate 32 (of_nat n)) \<noteq> key_of (drop 32 default_bytes)"
    using bytes_of_key_of by (metis length_replicate)
  then show ?thesis by (simp add: pair_public_def key_nr_def ex_keys_def)
qed

theorem playground_benchmarks_pass_witness:
  "seq_millionaires_playground ex_keys key_nr (\<lambda>i. (i, Suc i)) 3 5 0 = (Ok (), se_new 0)
     \<and> (\<exists>c. concurrent_millionaires_playground ex_keys round_robin key_nr (\<lambda>i. (i, Suc i)) 3 5 0 [2, 1] (Ok c))"
  using playground_benchmarks_pass[OF ex_keys_ok _ rr.distributer_laws_axioms, of key_nr 3 5 1 "[2, 1]" "\<lambda>i. (i, Suc i)" 0]
    key_nr_matches by simp

definition ex_draws :: "(bytes \<times> key32) draws" where
  "ex_draws = \<lparr>dr_pairs = (\<lambda>i. (key_nr (2 * i), key_nr (2 * i + 1))), dr_ids = (\<lambda>i. (of_nat (2 * i), of_nat (2 * i + 1))),
     dr_votes = (\<lambda>i. [0]), dr_random = (\<lambda>i. (of_nat i, i, of_nat (100 + i), key_nr (100 + i)))\<rparr>"

theorem stakers_benchmarks_agree_witness:
  "\<exists>st txs s. sequential_stakers ex_keys ex_draws 1 1 2 0 = (Ok (st, block_from txs), s) \<and> length txs = 6
     \<and> (\<forall>s1 s2 r. concurrent_stakers ex_keys round_robin ex_draws 1 1 2 0 [1, 2] s1 s2 r \<longrightarrow> values_of s2 = values_of s1)"
proof -
  have good: "good_draws ex_keys ex_draws"
    by (simp add: good_draws_def ex_draws_def key_nr_matches key_nr_not_default)
  have two: "[0..<2] = [0, Suc 0]" "[1..<1 + 1] = [1]" "[0..<1] = [0]" by (simp_all add: upt_rec)
  have "distinct (map tx_id txs)"
    if "world_of_stakers ex_keys SR ex_draws 1 1 2 (se_new 0) = (Ok txs, s)" for txs s
    using that
    by (auto simp: world_of_stakers_def Let_def comp_iffs ex_draws_def validator_txs_def nominator_txs_def
        random_staking_tx_def choose_from_def two split: if_splits)
  with stakers_benchmarks_agree[OF ex_keys_ok good rr.distributer_laws_axioms, of 1 1 "[1, 2]" 2 0]
  show ?thesis by fastforce
qed

section \<open>Runs of the executor\<close>

theorem run_terminate_ends_workers_witness:
  "\<exists>es t. thread_step ex_exec (th_start (call_terminate ex_system)) es t \<and> t \<noteq> th_start (call_terminate ex_system)"
proof -
  have quiet: "quiet_system 0 [1, 2] ex_system" using ex_clean(1) by (simp add: clean_system_def)
  then have "\<not> joined (th_sys (th_start (call_terminate ex_system)))"
    by (auto simp: joined_def th_start_def call_terminate_def quiet_system_def quiet_def)
  with run_terminate_ends_workers[OF quiet _ active_refl] show ?thesis by auto
qed

theorem announced_blocks_never_conflict_witness:
  "\<exists>c' L t st blk. call_author ex_exec (connected_components True (tx_hints False ex_exec)) ex_block ex_system = Some c'
     \<and> thread_run ex_exec (th_start c') L t \<and> sy_result (th_sys t) = Some (Authored st blk)
     \<and> map tx_id (transactions blk) = [1, 2, 3]"
proof (rule full_run[OF ex_exec_ok ex_clean(1) cc.distributer_laws_axioms ex_submittable(1), of True "tx_hints False ex_exec"])
  fix c' L t st and blk :: "u8 block"
  assume run: "call_author ex_exec (connected_components True (tx_hints False ex_exec)) ex_block ex_system = Some c'"
    "thread_run ex_exec (th_start c') L t" "sy_result (th_sys t) = Some (Authored st blk)"
  have "\<forall>tx\<in>set ex_block. announces_all (tx_function tx)" by (simp add: ex_block_def tx_new_def)
  from announced_blocks_never_conflict[OF ex_exec_ok ex_clean(1) ex_submittable(1) this run(1,2)] run(3)
  have "map untagged (transactions blk) = map untagged ex_block" by blast
  from same_untagged(1)[OF this] have "map tx_id (transactions blk) = [1, 2, 3]"
    by (simp add: ex_block_def tx_new_def)
  then show ?thesis by (intro exI conjI) (rule run | assumption)+
qed

definition ex_transfers :: "u8 transaction list" where
  "ex_transfers = [tx_new 1 (BalancesCall (Transfer 2 300)) 1 [1], tx_new 2 (BalancesCall (Transfer 1 100)) 2 [2]]"

theorem concurrent_author_and_validate_witness:
  "\<exists>c'. author_and_validate_run ex_exec round_robin ex_transfers (Some (endowed ex_exec [(1, 1000), (2, 10)] ts_new))
     ex_system True c'"
proof -
  let ?m = "endowed ex_exec [(1, 1000), (2, 10)] ts_new"
  note m = endowed_well_formed[OF ex_exec_ok, of "[(1, 1000), (2, 10)]", simplified]
  have sub: "submittable ex_exec ex_transfers"
    by (simp add: submittable_def ex_transfers_def tx_new_def sane_def tx_verify_def ex_exec_def
        staking_env.extend_def ex_env_def exec_env.fields_def)
  have dom: "fmdom' (wo_state (sy_world ex_system)) \<subseteq> fmdom' ?m"
  proof -
    have "fmdom' (funded ex_exec 1 1000) = {key_for (BalanceOf ex_exec) 1}"
      by (simp add: funded_def unsafe_insert_genesis_value_def ts_new_def)
    then show ?thesis by (simp add: ex_clean(2) m(3))
  qed
  have K: "\<forall>tx\<in>set ex_transfers. asks_within (fmdom' ?m)
      (outer_dispatch ex_exec HR (tx_function tx) (fst (tx_signature tx)))"
  proof
    fix tx assume tx: "tx \<in> set ex_transfers"
    then have "announces_all (tx_function tx)" by (auto simp: ex_transfers_def tx_new_def)
    from announced_accesses[OF this] show "asks_within (fmdom' ?m)
        (outer_dispatch ex_exec HR (tx_function tx) (fst (tx_signature tx)))"
      by (rule asks_within_mono) (use tx in \<open>auto simp: m(3) ex_transfers_def tx_new_def balances_validate_def\<close>)
  qed
  show ?thesis
    using concurrent_author_and_validate[OF ex_exec_ok ex_clean(1) rr.distributer_laws_axioms sub m(1,2) dom K]
    by blast
qed

end
