(* ===== verification/Assertions.thy ===== *)
theory Assertions
  imports Prelude
begin

text \<open>
  The vocabulary of the repository's unit tests: assertions, \<open>unwrap\<close> and \<open>unwrap_err\<close> as
  computations that panic, and what it means that a test passes.
\<close>

section \<open>Assertions\<close>

definition assert_that :: "bool \<Rightarrow> ('s, unit, 'e) comp" where
  "assert_that b = (if b then ret () else panic ''assertion failed'')"

definition assert_eq :: "'a \<Rightarrow> 'a \<Rightarrow> ('s, unit, 'e) comp" where
  "assert_eq a b = (if a = b then ret () else panic ''assertion failed: `(left == right)`'')"

definition unwrapC :: "('s, 'a, 'e) comp \<Rightarrow> ('s, 'a, 'f) comp" where
  "unwrapC m = expectC ''called `Result::unwrap()` on an `Err` value'' m"

definition unwrap_errC :: "('s, 'a, 'e) comp \<Rightarrow> ('s, 'e, 'f) comp" where
  "unwrap_errC m s = (case m s of
     (Ok a, s') \<Rightarrow> (Panic ''called `Result::unwrap_err()` on an `Ok` value'', s')
   | (Err e, s') \<Rightarrow> (Ok e, s')
   | (Panic p, s') \<Rightarrow> (Panic p, s'))"

text \<open>A call whose \<open>Result\<close> is looked at: a panic ends the test, all else is a value.\<close>

definition outcome :: "('s, 'a, 'e) comp \<Rightarrow> ('s, ('a, 'e) rs, 'f) comp" where
  "outcome m s = (case m s of (Panic p, s') \<Rightarrow> (Panic p, s') | (r, s') \<Rightarrow> (Ok r, s'))"

text \<open>
  The assertions the tests are made of: \<open>assert_eq!(f(m.unwrap()), v)\<close>,
  \<open>assert_eq!(m.unwrap_err(), e)\<close>, \<open>assert!(m.is_ok())\<close>, \<open>assert!(m.is_err())\<close> and
  \<open>assert_eq!(m, Ok(v))\<close>.
\<close>

definition assert_reads :: "('s, 'a, 'e) comp \<Rightarrow> ('a \<Rightarrow> 'b) \<Rightarrow> 'b \<Rightarrow> ('s, unit, 'f) comp" where
  "assert_reads m f v = bindC (unwrapC m) (\<lambda>x. assert_eq (f x) v)"

definition assert_fails :: "('s, 'a, 'e) comp \<Rightarrow> 'e \<Rightarrow> ('s, unit, 'f) comp" where
  "assert_fails m e = bindC (unwrap_errC m) (\<lambda>x. assert_eq x e)"

definition assert_ok :: "('s, 'a, 'e) comp \<Rightarrow> ('s, unit, 'f) comp" where
  "assert_ok m = bindC (outcome m) (\<lambda>r. assert_that (is_Ok r))"

definition assert_err :: "('s, 'a, 'e) comp \<Rightarrow> ('s, unit, 'f) comp" where
  "assert_err m = bindC (outcome m) (\<lambda>r. assert_that (\<not> is_Ok r))"

definition assert_outcome :: "('s, 'a, 'e) comp \<Rightarrow> ('a, 'e) rs \<Rightarrow> ('s, unit, 'f) comp" where
  "assert_outcome m v = bindC (outcome m) (\<lambda>r. assert_eq r v)"

fun statements :: "('s, unit, 'e) comp list \<Rightarrow> ('s, unit, 'e) comp" where
  "statements [] = ret ()"
| "statements (m # ms) = bindC m (\<lambda>_. statements ms)"

text \<open>A test is a function that returns nothing; it passes if it does not panic.\<close>

type_synonym 's test = "('s, unit, unit) comp"

definition passes :: "'s test \<Rightarrow> 's \<Rightarrow> bool" where
  "passes t s \<longleftrightarrow> fst (t s) = Ok ()"

lemma passes_steps:
  "passes (statements []) s"
  "m s = (Ok (), s') \<Longrightarrow> passes (statements (m # ms)) s \<longleftrightarrow> passes (statements ms) s'"
  by (simp_all add: passes_def comp_simps)

lemma assert_evals [comp_simps]:
  "b \<Longrightarrow> assert_that b s = (Ok (), s)"
  "assert_eq a a s = (Ok (), s)"
  by (simp_all add: assert_that_def assert_eq_def)

lemma unwrap_evals [comp_simps]:
  "m s = (Ok a, s') \<Longrightarrow> unwrapC m s = (Ok a, s')"
  "m s = (Err e, s') \<Longrightarrow> unwrap_errC m s = (Ok e, s')"
  "m s = (Ok a, s') \<Longrightarrow> outcome m s = (Ok (Ok a), s')"
  "m s = (Err e, s') \<Longrightarrow> outcome m s = (Ok (Err e), s')"
  by (simp_all add: unwrapC_def unwrap_errC_def outcome_def comp_simps)

lemma assertion_evals [comp_simps]:
  "m s = (Ok a, s') \<Longrightarrow> f a = v \<Longrightarrow> assert_reads m f v s = (Ok (), s')"
  "m s = (Err e, s') \<Longrightarrow> assert_fails m e s = (Ok (), s')"
  "m s = (Ok a, s') \<Longrightarrow> assert_ok m s = (Ok (), s')"
  "m s = (Err e, s') \<Longrightarrow> assert_err m s = (Ok (), s')"
  "m s = (Ok a, s') \<Longrightarrow> assert_outcome m (Ok a) s = (Ok (), s')"
  by (simp_all add: assert_reads_def assert_fails_def assert_ok_def assert_err_def assert_outcome_def
      comp_simps)

lemma passes_bind: "m s = (Ok x, s') \<Longrightarrow> passes (bindC m f) s \<longleftrightarrow> passes (f x) s'"
  by (simp add: passes_def comp_simps)

section \<open>Plain functions in tests\<close>

text \<open>A method that only changes the state, one that only reads it, and \<open>Option::unwrap\<close>.\<close>

definition doing :: "('s \<Rightarrow> 's) \<Rightarrow> ('s, unit, unit) comp" where
  "doing f s = (Ok (), f s)"

definition asking :: "('s \<Rightarrow> 'a) \<Rightarrow> ('s, 'a, unit) comp" where
  "asking g s = (Ok (g s), s)"

definition unwrap_option :: "('s \<Rightarrow> 'a option) \<Rightarrow> ('s, 'a, unit) comp" where
  "unwrap_option g s = (case g s of
     Some a \<Rightarrow> (Ok a, s) | None \<Rightarrow> (Panic ''called `Option::unwrap()` on a `None` value'', s))"

lemmas assertion_defs = passes_def bindC_def assert_that_def assert_eq_def unwrapC_def unwrap_errC_def
  outcome_def assert_reads_def assert_fails_def assert_ok_def assert_err_def assert_outcome_def
  expectC_def doing_def asking_def unwrap_option_def

end
