(* ===== verification/Testing.thy ===== *)
theory Testing
  imports Assertions Staking
begin

text \<open>
  The unit tests of the modules are macros instantiated on both runtimes. A test has one thread, and a
  thread that has the state to itself is never refused a key. \<open>exclusive_runtime\<close> states that as an
  interface: under it a test does on the runtime exactly what it does on the specification runtime.
  Both runtimes provide it.
\<close>

section \<open>Exact simulation\<close>

text \<open>
  The code does on a good state what its counterpart does on the state's view. After a panic nothing
  is said of the state.
\<close>

definition exact ::
  "('s \<Rightarrow> view) \<Rightarrow> ('s \<Rightarrow> bool) \<Rightarrow> ('s, 'a, 'e) comp \<Rightarrow> (view, 'a, 'e) comp \<Rightarrow> bool" where
  "exact view good c a \<longleftrightarrow>
     (\<forall>s. good s \<longrightarrow> (\<exists>s'. c s = (fst (a (view s)), s')
        \<and> (is_Panic (fst (a (view s))) \<or> good s' \<and> view s' = snd (a (view s)))))"

lemma exactD:
  assumes "exact view good c a" "good s"
  obtains s' where "c s = (fst (a (view s)), s')"
    "is_Panic (fst (a (view s))) \<or> good s' \<and> view s' = snd (a (view s))"
  using assms unfolding exact_def by blast

lemma exactI:
  "(\<And>s. good s \<Longrightarrow> \<exists>s'. c s = (fst (a (view s)), s') \<and> good s' \<and> view s' = snd (a (view s)))
     \<Longrightarrow> exact view good c a"
  unfolding exact_def by blast

lemma exact_passes: "exact view good t a \<Longrightarrow> good s \<Longrightarrow> passes t s \<longleftrightarrow> passes a (view s)"
  by (erule exactD[of _ _ t a s]) (simp_all add: passes_def)

named_theorems exact_rules \<open>exact simulation, combinator by combinator\<close>

lemma exact_pure [exact_rules]:
  "exact view good (ret x) (ret x)" "exact view good (throw e) (throw e)"
  "exact view good (panic p) (panic p)" "exact view good (liftR r) (liftR r)"
  by (rule exactI; simp)+

lemma exact_liftP [exact_rules]: "exact view good (liftP x) (liftP x)"
  by (rule exactI) (cases x; simp)

lemma exact_bind [exact_rules]:
  assumes c: "exact view good c a" and f: "\<And>x. exact view good (f x) (g x)"
  shows "exact view good (bindC c f) (bindC a g)"
  unfolding exact_def
proof (intro allI impI)
  fix s assume s: "good s"
  obtain s1 where s1: "c s = (fst (a (view s)), s1)"
    "is_Panic (fst (a (view s))) \<or> good s1 \<and> view s1 = snd (a (view s))"
    using exactD[OF c s] by blast
  show "\<exists>s'. bindC c f s = (fst (bindC a g (view s)), s')
      \<and> (is_Panic (fst (bindC a g (view s))) \<or> good s' \<and> view s' = snd (bindC a g (view s)))"
  proof (cases "fst (a (view s))")
    case (Ok x)
    then have g: "good s1" and w: "a (view s) = (Ok x, view s1)" using s1(2) by (auto simp: prod_eq_iff)
    from exactD[OF f g] s1(1) Ok w show ?thesis by (metis bindC_evals(1))
  qed (use s1 in \<open>auto simp: bindC_def split: prod.splits\<close>)
qed

lemma exact_if [exact_rules]:
  "(b \<Longrightarrow> exact view good c1 a1) \<Longrightarrow> (\<not> b \<Longrightarrow> exact view good c2 a2) \<Longrightarrow>
     exact view good (if b then c1 else c2) (if b then a1 else a2)"
  by simp

lemma exact_case_option [exact_rules]:
  "exact view good c0 a0 \<Longrightarrow> (\<And>x. exact view good (c1 x) (a1 x)) \<Longrightarrow>
     exact view good (case z of None \<Rightarrow> c0 | Some x \<Rightarrow> c1 x) (case z of None \<Rightarrow> a0 | Some x \<Rightarrow> a1 x)"
  by (cases z) auto

lemma exact_result:
  assumes c: "exact view good c a"
    and h: "\<And>s r s'. c s = (r, s') \<Longrightarrow> h c s = (k r, s')"
    and h': "\<And>w r w'. a w = (r, w') \<Longrightarrow> h' a w = (k r, w')"
    and k: "\<And>p. k (Panic p) = Panic p"
  shows "exact view good (h c) (h' a)"
  unfolding exact_def
proof (intro allI impI)
  fix s assume s: "good s"
  obtain s' where s': "c s = (fst (a (view s)), s')"
    "is_Panic (fst (a (view s))) \<or> good s' \<and> view s' = snd (a (view s))"
    using exactD[OF c s] by blast
  have a: "h' a (view s) = (k (fst (a (view s))), snd (a (view s)))"
    by (rule h') simp
  have "is_Panic (k r)" if "is_Panic r" for r
    using that k by (cases r) auto
  with s' h[OF s'(1)] show "\<exists>s'. h c s = (fst (h' a (view s)), s')
      \<and> (is_Panic (fst (h' a (view s))) \<or> good s' \<and> view s' = snd (h' a (view s)))"
    by (auto simp: a)
qed

lemma exact_map_err [exact_rules]: "exact view good c a \<Longrightarrow> exact view good (map_err g c) (map_err g a)"
  by (erule exact_result[where k = "\<lambda>r. case r of Ok x \<Rightarrow> Ok x | Err e \<Rightarrow> Err (g e) | Panic p \<Rightarrow> Panic p"])
    (auto simp: map_err_def split: rs.split)

lemma exact_expect [exact_rules]: "exact view good c a \<Longrightarrow> exact view good (expectC msg c) (expectC msg a)"
  by (erule exact_result[where k = "\<lambda>r. case r of Ok x \<Rightarrow> Ok x | Err e \<Rightarrow> Panic msg | Panic p \<Rightarrow> Panic p"])
    (auto simp: expectC_def split: rs.split)

lemma exact_unwrap [exact_rules]: "exact view good c a \<Longrightarrow> exact view good (unwrapC c) (unwrapC a)"
  unfolding unwrapC_def by (rule exact_expect)

lemma exact_unwrap_err [exact_rules]: "exact view good c a \<Longrightarrow> exact view good (unwrap_errC c) (unwrap_errC a)"
  by (erule exact_result[where k = "\<lambda>r. case r of
        Ok x \<Rightarrow> Panic ''called `Result::unwrap_err()` on an `Ok` value'' | Err e \<Rightarrow> Ok e | Panic p \<Rightarrow> Panic p"])
    (auto simp: unwrap_errC_def split: rs.split)

lemma exact_outcome [exact_rules]: "exact view good c a \<Longrightarrow> exact view good (outcome c) (outcome a)"
  by (erule exact_result[where k = "\<lambda>r. case r of Panic p \<Rightarrow> Panic p | _ \<Rightarrow> Ok r"])
    (auto simp: outcome_def split: rs.split)

lemma exact_assert [exact_rules]:
  "exact view good (assert_that b) (assert_that b)" "exact view good (assert_eq x y) (assert_eq x y)"
  unfolding assert_that_def assert_eq_def by (rule exact_rules)+

lemma exact_assertions [exact_rules]:
  assumes "exact view good c a"
  shows "exact view good (assert_reads c f v) (assert_reads a f v)"
    "exact view good (assert_fails c e) (assert_fails a e)"
    "exact view good (assert_ok c) (assert_ok a)" "exact view good (assert_err c) (assert_err a)"
    "exact view good (assert_outcome c r) (assert_outcome a r)"
  unfolding assert_reads_def assert_fails_def assert_ok_def assert_err_def assert_outcome_def
  by (rule exact_rules assms)+

lemma exact_statements [exact_rules]:
  "exact view good (statements []) (statements [])"
  "exact view good c a \<Longrightarrow> exact view good (statements cs) (statements as) \<Longrightarrow>
     exact view good (statements (c # cs)) (statements (a # as))"
  by (simp_all add: exact_rules)

lemmas exact_or [exact_rules] =
  exact_map_err[where g = "\<lambda>t. Tainted t False", folded or_forward_def]
  exact_map_err[where g = "\<lambda>t. Tainted t True", folded or_orphan_def]

section \<open>A runtime whose thread has the state to itself\<close>

locale exclusive_runtime = module_runtime_laws +
  fixes alone :: "'a \<Rightarrow> bool"
  assumes alone_inv: "alone s \<Longrightarrow> inv s"
    and alone_read: "alone s \<Longrightarrow> mr_read R k s = (r, s') \<Longrightarrow> is_Ok r \<and> alone s'"
    and alone_write: "alone s \<Longrightarrow> mr_write R k v s = (q, s') \<Longrightarrow> is_Ok q \<and> alone s'"
begin

lemma exact_read: "exact view alone (mr_read R k) (mr_read AR k)"
proof (rule exactI)
  fix s assume s: "alone s"
  show "\<exists>s'. mr_read R k s = (fst (mr_read AR k (view s)), s') \<and> alone s' \<and> view s' = snd (mr_read AR k (view s))"
    using alone_read[OF s, of k] by (cases rule: read_cases[OF alone_inv[OF s], of k]) auto
qed

lemma exact_write: "exact view alone (mr_write R k v) (mr_write AR k v)"
proof (rule exactI)
  fix s assume s: "alone s"
  show "\<exists>s'. mr_write R k v s = (fst (mr_write AR k v (view s)), s') \<and> alone s' \<and> view s' = snd (mr_write AR k v (view s))"
    using alone_write[OF s, of k v] by (cases rule: write_cases[OF alone_inv[OF s], of k v]) auto
qed

lemma exact_mutate: "exact view alone (mr_mutate R k f) (mr_mutate AR k f)"
proof -
  have "exact view alone (bindC (mr_read R k) (\<lambda>old. bindC (liftP (f old)) (mr_write R k)))
      (bindC (mr_read AR k) (\<lambda>old. bindC (liftP (f old)) (mr_write AR k)))"
    by (rule exact_bind exact_liftP exact_read exact_write)+
  then show ?thesis
    unfolding exact_def using mutate_reads[OF alone_inv] spec.mutate_reads by simp
qed

lemma exact_maps:
  "exact view alone (map_read R M k) (map_read AR M k)"
  "exact view alone (map_write R M k v) (map_write AR M k v)"
  "exact view alone (map_clear R M k) (map_clear AR M k)"
  "exact view alone (map_exists R M k) (map_exists AR M k)"
  "exact view alone (map_mutate R M k f) (map_mutate AR M k f)"
  unfolding map_read_def map_write_def map_clear_def map_exists_def map_mutate_def
  by (rule exact_rules exact_read exact_write)+

lemma exact_values:
  "exact view alone (value_read R V) (value_read AR V)"
  "exact view alone (value_write R V x) (value_write AR V x)"
  "exact view alone (value_clear R V) (value_clear AR V)"
  "exact view alone (value_mutate R V g) (value_mutate AR V g)"
  unfolding value_read_def value_write_def value_clear_def value_mutate_def
  by (rule exact_rules exact_read exact_write)+

lemma exact_transfer: "exact view alone (transfer E R origin dest val) (transfer E AR origin dest val)"
  unfolding transfer_def by (rule exact_rules exact_maps)+

lemma exact_staking:
  "exact view alone (tx_bond E' R stash amount ctrl) (tx_bond E' AR stash amount ctrl)"
  "exact view alone (tx_bond_extra E' R stash amount) (tx_bond_extra E' AR stash amount)"
  "exact view alone (tx_unbond E' R stash amount) (tx_unbond E' AR stash amount)"
  "exact view alone (tx_set_controller E' R stash ctrl) (tx_set_controller E' AR stash ctrl)"
  "exact view alone (tx_validate E' R ctrl) (tx_validate E' AR ctrl)"
  "exact view alone (tx_nominate E' R ctrl targets) (tx_nominate E' AR ctrl targets)"
  "exact view alone (tx_chill E' R ctrl) (tx_chill E' AR ctrl)"
  unfolding tx_bond_def tx_bond_extra_def tx_unbond_def tx_set_controller_def tx_validate_def
    tx_nominate_def tx_chill_def
  by (rule exact_rules exact_maps)+

lemmas exact_calls = exact_maps exact_values exact_transfer exact_staking

end

text \<open>The sequential runtime never refuses a key; the concurrent one does not while no key has another owner.\<close>

interpretation seq_alone: exclusive_runtime SR sr_view "\<lambda>_ _. True" "\<lambda>_. True" "\<lambda>_. True"
  by unfold_locales (auto simp: sr_read_eq sr_write_def)

definition unrivalled :: "concurrent_runtime \<Rightarrow> bool" where
  "unrivalled s \<longleftrightarrow> cr_inv s \<and> (\<forall>k t. ts_owner (cr_state s) k = Some t \<longrightarrow> t = cr_id s)"

lemma unrivalled_read:
  assumes "unrivalled s" "cr_read k s = (r, s')"
  shows "is_Ok r \<and> unrivalled s' \<and> cr_mine s' k"
proof -
  have inv: "cr_inv s" using assms(1) by (simp add: unrivalled_def)
  from inv show ?thesis
  proof (cases rule: cr_read_cases[of s k])
    case (granted m)
    then have "s' = s\<lparr>cr_state := m\<rparr>" "is_Ok r" using assms(2) by auto
    moreover have "cr_inv (s\<lparr>cr_state := m\<rparr>)" by (rule cr_inv_state[OF inv granted(3)])
    ultimately show ?thesis
      using assms(1) granted(3) by (simp add: unrivalled_def cr_mine_def)
  next
    case (denied t)
    then show ?thesis using assms(1) by (auto simp: unrivalled_def)
  qed
qed

interpretation conc_alone: exclusive_runtime CR cr_view cr_mine cr_inv unrivalled
proof unfold_locales
  fix s k r s' v q
  assume s: "unrivalled s"
  show "cr_inv s" using s by (simp add: unrivalled_def)
  show "mr_read CR k s = (r, s') \<Longrightarrow> is_Ok r \<and> unrivalled s'" using unrivalled_read[OF s] by simp
  show "is_Ok q \<and> unrivalled s'" if "mr_write CR k v s = (q, s')"
  proof -
    obtain r1 s1 where r1: "cr_read k s = (r1, s1)" by fastforce
    note u = unrivalled_read[OF s r1]
    then have "cr_inv s1" "cr_mine s1 k" by (simp_all add: unrivalled_def)
    note laws = cache_insert_laws[OF this]
    with that r1 u show ?thesis
      by (cases r1) (auto simp: cr_write_def comp_simps cache_insert_def unrivalled_def)
  qed
qed

lemma unrivalled_new: "(\<And>k t. ts_owner m k = Some t \<Longrightarrow> t = i) \<Longrightarrow> unrivalled (cr_new m i)"
  by (auto simp: unrivalled_def cr_new_def cr_inv_iff)

end
