(* ===== verification/Runtime_Tests.thy ===== *)
theory Runtime_Tests
  imports Testing Crypto
begin

text \<open>
  The unit tests of the two runtimes (\<open>runtime/src/lib.rs\<close>) and of the storage macros
  (\<open>runtime/src/macros.rs\<close>). \<open>can_share_runtime_state_between_threads\<close> does not join its threads, so
  nothing it asserts is ever looked at; it is left out.
\<close>

section \<open>The concurrent runtime\<close>

abbreviation push_99 :: "state_value \<Rightarrow> state_value panicking" where
  "push_99 val \<equiv> Inr (StateValue (value_bytes val @ [99]))"

definition basic_concurrent_runtime_works :: "concurrent_runtime test" where
  "basic_concurrent_runtime_works = statements [
     assert_reads (cr_read (StateKey [1])) value_bytes [],
     assert_ok (cr_write (StateKey [1]) (StateValue [1, 2, 3])),
     assert_reads (cr_read (StateKey [1])) value_bytes [1, 2, 3],
     assert_ok (cr_mutate (StateKey [1]) push_99),
     assert_reads (cr_read (StateKey [1])) value_bytes [1, 2, 3, 99]]"

text \<open>The state the runtime refers to, as another owner of the reference accesses it.\<close>

definition on_cr_state :: "(runtime_state, 'a, 'e) comp \<Rightarrow> (concurrent_runtime, 'a, 'e) comp" where
  "on_cr_state c s = (case c (cr_state s) of (r, m) \<Rightarrow> (r, s\<lparr>cr_state := m\<rparr>))"

definition concurrent_runtime_fails_if_tainted :: "concurrent_runtime test" where
  "concurrent_runtime_fails_if_tainted = statements [
     on_cr_state (doing (unsafe_insert (StateKey [1]) (sv_new_taint default_value 2))),
     assert_err (cr_read (StateKey [1])),
     assert_err (cr_write (StateKey [1]) (StateValue [1, 2, 3])),
     assert_err (cr_mutate (StateKey [1]) push_99)]"

definition concurrent_runtime_caching_works :: "bool \<Rightarrow> concurrent_runtime test" where
  "concurrent_runtime_caching_works dbg = statements [
     assert_ok (cr_read (StateKey [1])),
     assert_ok (cr_read (StateKey [2])),
     assert_reads (asking (\<lambda>s. fcard (fmdom (cr_cache s)))) id 0,
     assert_ok (cr_write (StateKey [1]) (StateValue [1])),
     assert_reads (asking (\<lambda>s. fcard (fmdom (cr_cache s)))) id 1,
     assert_reads (on_cr_state (ts_read default_value (StateKey [1]) 1)) id (StateValue []),
     assert_reads (cr_read (StateKey [1])) id (StateValue [1]),
     map_err (\<lambda>_. ()) (commit_cache dbg),
     assert_reads (on_cr_state (ts_read default_value (StateKey [1]) 1)) id (StateValue [1])]"

section \<open>The sequential runtime\<close>

definition basic_sequential_runtime_works :: "sequential_runtime test" where
  "basic_sequential_runtime_works = statements [
     assert_reads (sr_read (StateKey [1])) value_bytes [],
     assert_ok (sr_write (StateKey [1]) (StateValue [1, 2, 3])),
     assert_reads (sr_read (StateKey [1])) value_bytes [1, 2, 3],
     assert_ok (sr_mutate (StateKey [1]) push_99),
     assert_reads (sr_read (StateKey [1])) value_bytes [1, 2, 3, 99]]"

definition sequential_runtime_works_regardless_of_taint :: "sequential_runtime test" where
  "sequential_runtime_works_regardless_of_taint = statements [
     doing (\<lambda>s. s\<lparr>sr_state := unsafe_insert (StateKey [1]) (sv_new_taint default_value 2) (sr_state s)\<rparr>),
     assert_ok (sr_read (StateKey [1])),
     assert_ok (sr_write (StateKey [1]) (StateValue [1, 2, 3])),
     assert_ok (sr_mutate (StateKey [1]) push_99)]"

lemmas runtime_test_defs = basic_concurrent_runtime_works_def concurrent_runtime_fails_if_tainted_def
  concurrent_runtime_caching_works_def basic_sequential_runtime_works_def
  sequential_runtime_works_regardless_of_taint_def

definition runtime_tests_pass :: "bool \<Rightarrow> bool" where
  "runtime_tests_pass dbg \<longleftrightarrow>
     passes basic_concurrent_runtime_works (cr_new ts_new 1)
   \<and> passes concurrent_runtime_fails_if_tainted (cr_new ts_new 1)
   \<and> passes (concurrent_runtime_caching_works dbg) (cr_new ts_new 1)
   \<and> passes basic_sequential_runtime_works (sr_new ts_new 1)
   \<and> passes sequential_runtime_works_regardless_of_taint (sr_new ts_new 1)"

lemma runtime_tests: "runtime_tests_pass dbg"
proof -
  note eval = runtime_test_defs assertion_defs cr_read_def cr_write_def cr_mutate_def cache_insert_def
    liftP_def cr_new_def ts_new_def ts_read_eq sv_new_taint_def default_value_def on_cr_state_def
    unsafe_insert_def sr_new_def unsafe_insert_genesis_value_def sr_write_def sr_mutate_def sr_read_def
    unsafe_read_value_def unsafe_read_def sv_new_data_def
  have single: "entries (fmupd k v fmempty) = [(k, v)]" for k :: state_key and v :: state_value
    by (simp add: sorted_list_of_fmap_def sorted_list_of_fset.rep_eq)
  show ?thesis
    unfolding runtime_tests_pass_def
    by (intro conjI; simp add: eval commit_cache_def single commit_entry_def unsafe_read_taint_def
        map_err_def sv_new_def fcard_finsert_disjoint)
qed

section \<open>The storage macros\<close>

datatype something = Something u32

record ('p, 'k) macro_env = "('p, 'k) key_env" +
  enc_u8 :: "u8 \<Rightarrow> bytes"
  enc_something :: "something \<Rightarrow> bytes"
  dec_something :: "bytes \<Rightarrow> (something, string) rs"
  enc_u32s :: "u32 list \<Rightarrow> bytes"
  dec_u32s :: "bytes \<Rightarrow> (u32 list, string) rs"

definition macro_ok :: "('p, 'k, 'z) macro_env_scheme \<Rightarrow> bool" where
  "macro_ok E \<longleftrightarrow> keys_ok E \<and> inj (enc_u8 E)
     \<and> (\<forall>x. dec_something E (enc_something E x) = Ok x) \<and> (\<exists>e. dec_something E [] = Err e)
     \<and> (\<forall>xs. dec_u32s E (enc_u32s E xs) = Ok xs) \<and> (\<exists>e. dec_u32s E [] = Err e)"

definition TestMap :: "('p, 'k, 'z) macro_env_scheme \<Rightarrow> (u8, something) storage_map" where
  "TestMap E = \<lparr>sm_module = ''test'', sm_name = ''map'', sm_enc_key = enc_u8 E,
     sm_enc = enc_something E, sm_dec = dec_something E, sm_default = Something 0\<rparr>"

definition AccMap :: "('p, 'k, 'z) macro_env_scheme \<Rightarrow> ('p, 'p) storage_map" where
  "AccMap E = \<lparr>sm_module = ''test'', sm_name = ''accMap'', sm_enc_key = public_encode E,
     sm_enc = public_encode E, sm_dec = dec_account E, sm_default = default_pk E\<rparr>"

definition TestValue :: "('p, 'k, 'z) macro_env_scheme \<Rightarrow> u32 list storage_value" where
  "TestValue E = \<lparr>sval_module = ''test'', sval_name = ''value'', sval_enc = enc_u32s E,
     sval_dec = dec_u32s E, sval_default = []\<rparr>"

definition map_account_id_default_works ::
  "('p, 'k, 'z) macro_env_scheme \<Rightarrow> 's module_runtime \<Rightarrow> 's test" where
  "map_account_id_default_works E R =
     bindC (liftP (alice E)) (\<lambda>alice.
     bindC (liftP (default_pair E)) (\<lambda>default.
     assert_reads (map_read R (AccMap E) (pair_public E alice)) id (pair_public E default)))"

fun something_update :: "something \<Rightarrow> something panicking" where
  "something_update (Something n) = Inr (if n = 0 then Something 11 else Something (n + 1))"

definition map_works :: "('p, 'k, 'z) macro_env_scheme \<Rightarrow> 's module_runtime \<Rightarrow> 's test" where
  "map_works E R = statements [
     assert_outcome (map_read R (TestMap E) 10) (Ok (Something 0)),
     assert_reads (map_exists R (TestMap E) 19) id False,
     assert_outcome (map_write R (TestMap E) 10 (Something 10)) (Ok ()),
     assert_outcome (map_read R (TestMap E) 10) (Ok (Something 10)),
     assert_outcome (map_mutate R (TestMap E) 11 something_update) (Ok ()),
     assert_outcome (map_read R (TestMap E) 11) (Ok (Something 11)),
     assert_outcome (map_mutate R (TestMap E) 11 something_update) (Ok ()),
     assert_outcome (map_read R (TestMap E) 11) (Ok (Something 12)),
     assert_outcome (map_clear R (TestMap E) 11) (Ok ()),
     assert_outcome (map_read R (TestMap E) 11) (Ok (Something 0))]"

definition u32s_update :: "u32 list \<Rightarrow> u32 list panicking" where
  "u32s_update old = Inr (if length old = 0 then [1, 3] else old @ [999])"

definition value_works :: "('p, 'k, 'z) macro_env_scheme \<Rightarrow> 's module_runtime \<Rightarrow> 's test" where
  "value_works E R = statements [
     assert_outcome (value_read R (TestValue E)) (Ok []),
     assert_outcome (value_write R (TestValue E) [1, 2, 3]) (Ok ()),
     assert_outcome (value_read R (TestValue E)) (Ok [1, 2, 3]),
     assert_ok (value_clear R (TestValue E)),
     assert_outcome (value_mutate R (TestValue E) u32s_update) (Ok ()),
     assert_outcome (value_read R (TestValue E)) (Ok [1, 3]),
     assert_outcome (value_mutate R (TestValue E) u32s_update) (Ok ()),
     assert_outcome (value_read R (TestValue E)) (Ok [1, 3, 999])]"

definition macro_tests :: "('p, 'k, 'z) macro_env_scheme \<Rightarrow> 's module_runtime \<Rightarrow> 's test list" where
  "macro_tests E R = [map_account_id_default_works E R, map_works E R, value_works E R]"

context exclusive_runtime
begin

lemma exact_macro_tests: "list_all2 (exact view alone) (macro_tests E R) (macro_tests E AR)"
  unfolding macro_tests_def map_account_id_default_works_def map_works_def value_works_def
  by (intro list.rel_intros; (rule exact_rules exact_calls)+)

end

lemma macro_tests_AR:
  assumes E: "macro_ok E"
  shows "list_all (\<lambda>t. passes t (\<lambda>_. default_value)) (macro_tests E AR)"
proof -
  have keys: "key_for (TestMap E) a = key_for (TestMap E) b \<longleftrightarrow> a = b" for a b
    using E by (auto simp: macro_ok_def key_for_def TestMap_def inj_eq)
  have TM: "decoded (TestMap E) (w(key_for (TestMap E) k := StateValue (sm_enc (TestMap E) v))) k'
      = (if k' = k then Inr v else decoded (TestMap E) w k')" for w k v k'
    using E by (auto simp: decoded_def keys) (simp add: TestMap_def macro_ok_def)
  have TM0: "decoded (TestMap E) (\<lambda>_. default_value) k = Inr (Something 0)" for k
    using E by (auto simp: decoded_def TestMap_def macro_ok_def default_value_def)
  have AM0: "decoded (AccMap E) (\<lambda>_. default_value) k = Inr (default_pk E)" for k
    by (simp add: decoded_def AccMap_def default_value_def dec_account_empty)
  have TV: "dec_u32s E (enc_u32s E xs) = Ok xs" "\<exists>e. dec_u32s E [] = Err e" for xs
    using E by (simp_all add: macro_ok_def)
  obtain a where a: "alice E = Inr a" using test_accounts[of E] E by (metis macro_ok_def)
  obtain d where d: "default_pair E = Inr d" "pair_public E d = default_pk E"
    using E by (auto simp: macro_ok_def keys_ok_def default_pair_def pair_from_bytes_def pair_public_def)
  have default: "sm_default (TestMap E) = Something 0" by (simp add: TestMap_def)
  show ?thesis
    unfolding macro_tests_def list.pred_inject
  proof (intro conjI)
    show "passes (map_account_id_default_works E AR) (\<lambda>_. default_value)"
      by (simp add: map_account_id_default_works_def assertion_defs a d map_AR AM0)
    show "passes (map_works E AR) (\<lambda>_. default_value)"
      by (simp add: map_works_def assertion_defs map_AR TM TM0 default liftP_def)
    show "passes (value_works E AR) (\<lambda>_. default_value)"
      using TV by (auto simp: value_works_def assertion_defs value_read_def value_write_def value_clear_def
          value_mutate_def liftP_def TestValue_def u32s_update_def default_value_def)
  qed simp
qed

end
