(* ===== verification/Module_Tests.thy ===== *)
theory Module_Tests
  imports Runtime_Tests Example_Env
begin

text \<open>
  The unit tests of the modules (\<open>runtime/src/balances.rs\<close>, \<open>runtime/src/staking.rs\<close>), statement by
  statement, for any runtime, as the macro \<open>test_with_rt!\<close> has them. They pass on both runtimes
  under the documented behaviour of the codec and the crypto library.
\<close>

section \<open>Test accounts\<close>

text \<open>\<open>alice().public()\<close> and the like.\<close>

definition account :: "('p, 'k, 'z) key_env_scheme \<Rightarrow> 'k key_pair panicking \<Rightarrow> ('s, 'p, unit) comp" where
  "account E who = bindC (liftP who) (\<lambda>pair. ret (pair_public E pair))"

lemma account_eval [comp_simps]: "who = Inr pair \<Longrightarrow> account E who s = (Ok (pair_public E pair), s)"
  by (simp add: account_def comp_simps)

lemma exact_account [exact_rules]: "exact view good (account E who) (account E who)"
  unfolding account_def by (rule exact_rules)+

section \<open>The tests of the staking module\<close>

definition bonding_works :: "('p, 'k, 'z) key_env_scheme \<Rightarrow> 's module_runtime \<Rightarrow> 's test" where
  "bonding_works E R =
     bindC (account E (Crypto.alice E)) (\<lambda>alice.
     bindC (account E (Crypto.bob E)) (\<lambda>bob.
     statements [
       unwrapC (map_write R (BalanceOf E) alice (ab_from 999)),
       unwrapC (tx_bond E R alice 333 bob),
       assert_reads (map_read R (BalanceOf E) alice) ab_free 666,
       assert_reads (map_read R (BalanceOf E) alice) ab_reserved 333,
       assert_reads (map_read R (Bonded E) bob) id alice,
       assert_reads (map_read R (Ledger E) alice) sl_value 333,
       assert_reads (map_read R (Ledger E) alice) sl_role Chilled,
       assert_reads (map_read R (Ledger E) alice) sl_controller bob]))"

definition bonding_fails_if_already_bonded :: "('p, 'k, 'z) key_env_scheme \<Rightarrow> 's module_runtime \<Rightarrow> 's test" where
  "bonding_fails_if_already_bonded E R =
     bindC (account E (Crypto.alice E)) (\<lambda>alice.
     bindC (account E (Crypto.bob E)) (\<lambda>bob.
     statements [
       unwrapC (map_write R (BalanceOf E) alice (ab_from 999)),
       unwrapC (tx_bond E R alice 333 bob),
       assert_fails (tx_bond E R alice 333 bob) (LogicError ''Already bonded.'')]))"

definition bonding_fails_if_not_enough_balance :: "('p, 'k, 'z) key_env_scheme \<Rightarrow> 's module_runtime \<Rightarrow> 's test" where
  "bonding_fails_if_not_enough_balance E R =
     bindC (account E (Crypto.alice E)) (\<lambda>alice.
     bindC (account E (Crypto.bob E)) (\<lambda>bob.
     statements [
       unwrapC (map_write R (BalanceOf E) alice (ab_from 999)),
       assert_fails (tx_bond E R alice 1333 bob) (LogicError ''Not enough funds.'')]))"

definition bond_extra_works :: "('p, 'k, 'z) key_env_scheme \<Rightarrow> 's module_runtime \<Rightarrow> 's test" where
  "bond_extra_works E R =
     bindC (account E (Crypto.alice E)) (\<lambda>alice.
     bindC (account E (Crypto.bob E)) (\<lambda>bob.
     statements [
       unwrapC (map_write R (BalanceOf E) alice (ab_from 999)),
       unwrapC (tx_bond E R alice 333 bob),
       unwrapC (tx_bond_extra E R alice 222),
       assert_reads (map_read R (BalanceOf E) alice) ab_free 444,
       assert_reads (map_read R (BalanceOf E) alice) ab_reserved 555,
       assert_reads (map_read R (Ledger E) alice) sl_value 555]))"

definition bond_fails_if_not_bonded :: "('p, 'k, 'z) key_env_scheme \<Rightarrow> 's module_runtime \<Rightarrow> 's test" where
  "bond_fails_if_not_bonded E R =
     bindC (account E (Crypto.alice E)) (\<lambda>alice.
     statements [
       unwrapC (map_write R (BalanceOf E) alice (ab_from 999)),
       assert_fails (tx_bond_extra E R alice 222) (LogicError ''Not bonded.''),
       assert_reads (map_read R (BalanceOf E) alice) ab_free 999,
       assert_reads (map_read R (BalanceOf E) alice) ab_reserved 0])"

definition bond_extra_fails_if_not_enough_balance :: "('p, 'k, 'z) key_env_scheme \<Rightarrow> 's module_runtime \<Rightarrow> 's test" where
  "bond_extra_fails_if_not_enough_balance E R =
     bindC (account E (Crypto.alice E)) (\<lambda>alice.
     bindC (account E (Crypto.bob E)) (\<lambda>bob.
     statements [
       unwrapC (map_write R (BalanceOf E) alice (ab_from 666)),
       unwrapC (tx_bond E R alice 333 bob),
       assert_fails (tx_bond_extra E R alice 444) (LogicError ''Not enough funds.''),
       assert_reads (map_read R (BalanceOf E) alice) ab_free 333,
       assert_reads (map_read R (BalanceOf E) alice) ab_reserved 333]))"

definition unbond_works :: "('p, 'k, 'z) key_env_scheme \<Rightarrow> 's module_runtime \<Rightarrow> 's test" where
  "unbond_works E R =
     bindC (account E (Crypto.alice E)) (\<lambda>alice.
     bindC (account E (Crypto.bob E)) (\<lambda>bob.
     statements [
       unwrapC (map_write R (BalanceOf E) alice (ab_from 999)),
       unwrapC (tx_bond E R alice 333 bob),
       assert_reads (map_read R (Bonded E) bob) id alice,
       assert_reads (map_read R (Ledger E) alice) sl_value 333,
       unwrapC (tx_unbond E R alice 111),
       assert_reads (map_read R (Bonded E) bob) id alice,
       assert_reads (map_read R (Ledger E) alice) sl_value 222]))"

definition unbond_fails_if_not_enough_bonded :: "('p, 'k, 'z) key_env_scheme \<Rightarrow> 's module_runtime \<Rightarrow> 's test" where
  "unbond_fails_if_not_enough_bonded E R =
     bindC (account E (Crypto.alice E)) (\<lambda>alice.
     bindC (account E (Crypto.bob E)) (\<lambda>bob.
     statements [
       unwrapC (map_write R (BalanceOf E) alice (ab_from 999)),
       unwrapC (tx_bond E R alice 333 bob),
       assert_reads (map_read R (Bonded E) bob) id alice,
       assert_reads (map_read R (Ledger E) alice) sl_value 333,
       assert_fails (tx_unbond E R alice 444) (LogicError ''Too much unbonding.'')]))"

definition unbond_fails_if_not_bonded :: "('p, 'k, 'z) key_env_scheme \<Rightarrow> 's module_runtime \<Rightarrow> 's test" where
  "unbond_fails_if_not_bonded E R =
     bindC (account E (Crypto.alice E)) (\<lambda>alice.
     statements [
       unwrapC (map_write R (BalanceOf E) alice (ab_from 999)),
       assert_fails (tx_unbond E R alice 444) (LogicError ''Not bonded.'')])"

definition set_controller_works :: "('p, 'k, 'z) key_env_scheme \<Rightarrow> 's module_runtime \<Rightarrow> 's test" where
  "set_controller_works E R =
     bindC (account E (Crypto.alice E)) (\<lambda>alice.
     bindC (account E (Crypto.bob E)) (\<lambda>bob.
     bindC (account E (Crypto.dave E)) (\<lambda>dave.
     statements [
       unwrapC (map_write R (BalanceOf E) alice (ab_from 999)),
       unwrapC (tx_bond E R alice 333 bob),
       assert_reads (map_read R (Ledger E) alice) sl_controller bob,
       unwrapC (tx_set_controller E R alice dave),
       assert_reads (map_read R (Ledger E) alice) sl_controller dave])))"

definition set_controller_fails_if_not_bonded :: "('p, 'k, 'z) key_env_scheme \<Rightarrow> 's module_runtime \<Rightarrow> 's test" where
  "set_controller_fails_if_not_bonded E R =
     bindC (account E (Crypto.alice E)) (\<lambda>alice.
     statements [
       assert_fails (tx_unbond E R alice 444) (LogicError ''Not bonded.'')])"

definition set_controller_is_noop_if_same_controller :: "('p, 'k, 'z) key_env_scheme \<Rightarrow> 's module_runtime \<Rightarrow> 's test" where
  "set_controller_is_noop_if_same_controller E R =
     bindC (account E (Crypto.alice E)) (\<lambda>alice.
     bindC (account E (Crypto.bob E)) (\<lambda>bob.
     statements [
       unwrapC (map_write R (BalanceOf E) alice (ab_from 999)),
       unwrapC (tx_bond E R alice 333 bob),
       assert_reads (map_read R (Ledger E) alice) sl_controller bob,
       unwrapC (tx_set_controller E R alice bob),
       assert_reads (map_read R (Ledger E) alice) sl_controller bob]))"

definition validate_works :: "('p, 'k, 'z) key_env_scheme \<Rightarrow> 's module_runtime \<Rightarrow> 's test" where
  "validate_works E R =
     bindC (account E (Crypto.alice E)) (\<lambda>alice.
     bindC (account E (Crypto.bob E)) (\<lambda>bob.
     statements [
       unwrapC (map_write R (BalanceOf E) alice (ab_from 999)),
       unwrapC (tx_bond E R alice 333 bob),
       assert_reads (map_read R (Ledger E) alice) sl_role Chilled,
       unwrapC (tx_validate E R bob),
       assert_reads (map_read R (Ledger E) alice) sl_role Validator]))"

definition validate_fails_if_not_bonded :: "('p, 'k, 'z) key_env_scheme \<Rightarrow> 's module_runtime \<Rightarrow> 's test" where
  "validate_fails_if_not_bonded E R =
     bindC (account E (Crypto.alice E)) (\<lambda>alice.
     statements [
       assert_fails (tx_validate E R alice) (LogicError ''Not bonded.'')])"

definition nominate_works :: "('p, 'k, 'z) key_env_scheme \<Rightarrow> 's module_runtime \<Rightarrow> 's test" where
  "nominate_works E R =
     bindC (account E (Crypto.alice E)) (\<lambda>alice.
     bindC (account E (Crypto.bob E)) (\<lambda>bob.
     bindC (account E (Crypto.dave E)) (\<lambda>dave.
     statements [
       unwrapC (map_write R (BalanceOf E) alice (ab_from 999)),
       unwrapC (tx_bond E R alice 333 bob),
       assert_reads (map_read R (Ledger E) alice) sl_role Chilled,
       assert_reads (map_read R (Bonded E) bob) id alice,
       unwrapC (tx_nominate E R bob [dave]),
       assert_reads (map_read R (Ledger E) alice) sl_role Nominator,
       assert_reads (map_read R (Nominations E) alice) id [dave]])))"

definition nominate_fails_if_not_bonded :: "('p, 'k, 'z) key_env_scheme \<Rightarrow> 's module_runtime \<Rightarrow> 's test" where
  "nominate_fails_if_not_bonded E R =
     bindC (account E (Crypto.alice E)) (\<lambda>alice.
     statements [
       assert_fails (tx_nominate E R alice []) (LogicError ''Not bonded.'')])"

definition chill_works_after_validate :: "('p, 'k, 'z) key_env_scheme \<Rightarrow> 's module_runtime \<Rightarrow> 's test" where
  "chill_works_after_validate E R =
     bindC (account E (Crypto.alice E)) (\<lambda>alice.
     bindC (account E (Crypto.bob E)) (\<lambda>bob.
     statements [
       unwrapC (map_write R (BalanceOf E) alice (ab_from 999)),
       unwrapC (tx_bond E R alice 333 bob),
       assert_reads (map_read R (Ledger E) alice) sl_role Chilled,
       unwrapC (tx_validate E R bob),
       assert_reads (map_read R (Ledger E) alice) sl_role Validator,
       unwrapC (tx_chill E R bob),
       assert_reads (map_read R (Ledger E) alice) sl_role Chilled]))"

definition chill_works_after_nominate :: "('p, 'k, 'z) key_env_scheme \<Rightarrow> 's module_runtime \<Rightarrow> 's test" where
  "chill_works_after_nominate E R =
     bindC (account E (Crypto.alice E)) (\<lambda>alice.
     bindC (account E (Crypto.bob E)) (\<lambda>bob.
     bindC (account E (Crypto.dave E)) (\<lambda>dave.
     statements [
       unwrapC (map_write R (BalanceOf E) alice (ab_from 999)),
       unwrapC (tx_bond E R alice 333 bob),
       unwrapC (tx_nominate E R bob [dave]),
       assert_reads (map_read R (Ledger E) alice) sl_role Nominator,
       assert_reads (map_read R (Nominations E) alice) id [dave],
       unwrapC (tx_chill E R bob),
       assert_reads (map_read R (Ledger E) alice) sl_role Chilled,
       assert_reads (map_read R (Nominations E) alice) id []])))"

lemmas staking_test_defs =
  bonding_works_def bonding_fails_if_already_bonded_def bonding_fails_if_not_enough_balance_def
  bond_extra_works_def bond_fails_if_not_bonded_def bond_extra_fails_if_not_enough_balance_def
  unbond_works_def unbond_fails_if_not_enough_bonded_def unbond_fails_if_not_bonded_def
  set_controller_works_def set_controller_fails_if_not_bonded_def set_controller_is_noop_if_same_controller_def
  validate_works_def validate_fails_if_not_bonded_def nominate_works_def
  nominate_fails_if_not_bonded_def chill_works_after_validate_def chill_works_after_nominate_def

definition staking_tests :: "('p, 'k, 'z) key_env_scheme \<Rightarrow> 's module_runtime \<Rightarrow> 's test list" where
  "staking_tests E R =
    [bonding_works E R, bonding_fails_if_already_bonded E R, bonding_fails_if_not_enough_balance E R,
     bond_extra_works E R, bond_fails_if_not_bonded E R, bond_extra_fails_if_not_enough_balance E R,
     unbond_works E R, unbond_fails_if_not_enough_bonded E R, unbond_fails_if_not_bonded E R,
     set_controller_works E R, set_controller_fails_if_not_bonded E R, set_controller_is_noop_if_same_controller E R,
     validate_works E R, validate_fails_if_not_bonded E R, nominate_works E R,
     nominate_fails_if_not_bonded E R, chill_works_after_validate E R, chill_works_after_nominate E R]"

section \<open>The tests of the balances module\<close>

text \<open>
  These tests also use \<open>dispatch\<close> and put values into the state behind the back of the runtime,
  through another reference to it.
\<close>

record ('s, 'p) tested_runtime =
  tr_runtime :: "'s module_runtime"
  tr_dispatch :: "'p outer_call \<Rightarrow> 'p \<Rightarrow> ('s, runtime_dispatch_success, runtime_dispatch_error) comp"
  tr_insert :: "state_key \<Rightarrow> state_value \<Rightarrow> ('s, unit, unit) comp"

definition tested_CR :: "('p, 'z) staking_env_scheme \<Rightarrow> (concurrent_runtime, 'p) tested_runtime" where
  "tested_CR E = \<lparr>tr_runtime = CR, tr_dispatch = ConcurrentRuntime_dispatch E,
     tr_insert = (\<lambda>k v s. (Ok (), s\<lparr>cr_state := unsafe_insert_genesis_value k v (cr_state s)\<rparr>))\<rparr>"

definition tested_SR :: "('p, 'z) staking_env_scheme \<Rightarrow> (sequential_runtime, 'p) tested_runtime" where
  "tested_SR E = \<lparr>tr_runtime = SR, tr_dispatch = SequentialRuntime_dispatch E,
     tr_insert = (\<lambda>k v s. (Ok (), s\<lparr>sr_state := unsafe_insert_genesis_value k v (sr_state s)\<rparr>))\<rparr>"

definition tested_AR :: "('p, 'z) staking_env_scheme \<Rightarrow> (view, 'p) tested_runtime" where
  "tested_AR E = \<lparr>tr_runtime = AR,
     tr_dispatch = (\<lambda>call origin w. case outer_dispatch E AR call origin w of
        (r, w') \<Rightarrow> (to_runtime_dispatch_result r, w')),
     tr_insert = (\<lambda>k v w. (Ok (), w(k := v)))\<rparr>"

lemma tested_sel [simp]:
  "tr_runtime (tested_CR E) = CR" "tr_runtime (tested_SR E) = SR" "tr_runtime (tested_AR E) = AR"
  by (simp_all add: tested_CR_def tested_SR_def tested_AR_def)

definition give ::
  "('p, 'z) balances_env_scheme \<Rightarrow> ('s, 'p) tested_runtime \<Rightarrow> 'p \<Rightarrow> account_balance \<Rightarrow> 's test" where
  "give E T who b = tr_insert T (key_for (BalanceOf E) who) (StateValue (enc_account_balance E b))"

definition transfer_works :: "('p, 'k, 'z) key_env_scheme \<Rightarrow> ('s, 'p) tested_runtime \<Rightarrow> 's test" where
  "transfer_works E T =
     bindC (account E (Crypto.alice E)) (\<lambda>alice.
     bindC (account E (Crypto.bob E)) (\<lambda>bob.
     statements [
       give E T alice (ab_from 999),
       bindC (unwrapC (tr_dispatch T (BalancesCall (Transfer bob 666)) alice)) (\<lambda>_. ret ()),
       assert_reads (map_read (tr_runtime T) (BalanceOf E) bob) ab_free 666,
       assert_reads (map_read (tr_runtime T) (BalanceOf E) alice) ab_free 333]))"

definition transfer_fails_if_not_enough_balance ::
  "('p, 'k, 'z) key_env_scheme \<Rightarrow> ('s, 'p) tested_runtime \<Rightarrow> 's test" where
  "transfer_fails_if_not_enough_balance E T =
     bindC (account E (Crypto.alice E)) (\<lambda>alice.
     bindC (account E (Crypto.bob E)) (\<lambda>bob.
     statements [
       give E T alice (ab_from 333),
       assert_reads (tr_dispatch T (BalancesCall (Transfer bob 666)) alice) id
         (RtLogicError ''Does not have enough funds.''),
       assert_reads (map_read (tr_runtime T) (BalanceOf E) bob) ab_free 0,
       assert_reads (map_read (tr_runtime T) (BalanceOf E) alice) ab_free 333]))"

definition reserved_cannot_be_transferred ::
  "('p, 'k, 'z) key_env_scheme \<Rightarrow> ('s, 'p) tested_runtime \<Rightarrow> 's test" where
  "reserved_cannot_be_transferred E T =
     bindC (account E (Crypto.alice E)) (\<lambda>alice.
     bindC (account E (Crypto.bob E)) (\<lambda>bob.
     statements [
       give E T alice (ab_from_pair (333, 666)),
       assert_fails (transfer E (tr_runtime T) alice bob 334) (LogicError ''Does not have enough funds.'')]))"

definition balances_tests :: "('p, 'k, 'z) key_env_scheme \<Rightarrow> ('s, 'p) tested_runtime \<Rightarrow> 's test list" where
  "balances_tests E T =
     [transfer_works E T, transfer_fails_if_not_enough_balance E T, reserved_cannot_be_transferred E T]"

lemmas balances_test_defs = transfer_works_def transfer_fails_if_not_enough_balance_def
  reserved_cannot_be_transferred_def

section \<open>Both runtimes run the tests as the specification runtime does\<close>

context exclusive_runtime
begin

lemma exact_staking_tests: "list_all2 (exact view alone) (staking_tests E R) (staking_tests E AR)"
  unfolding staking_tests_def staking_test_defs
  by (intro list.rel_intros; (rule exact_rules exact_calls)+)

end

text \<open>Between two calls the cache of the concurrent runtime is empty.\<close>

definition at_rest :: "concurrent_runtime \<Rightarrow> bool" where
  "at_rest s \<longleftrightarrow> unrivalled s \<and> cr_cache s = fmempty"

lemma at_rest_owners: "at_rest s \<longleftrightarrow> cr_cache s = fmempty
    \<and> (\<forall>k t. ts_owner (cr_state s) k = Some t \<longrightarrow> t = cr_id s)"
  by (auto simp: at_rest_def unrivalled_def cr_inv_iff)

lemma exact_insert: "exact cr_view at_rest (tr_insert (tested_CR E) k v) (tr_insert (tested_AR E) k v)"
  by (rule exactI) (auto simp: tested_CR_def tested_AR_def at_rest_owners cr_view_def fun_eq_iff
      unsafe_insert_genesis_value_def state_simps)

lemma exact_read_at_rest: "exact cr_view at_rest (map_read CR M k) (map_read AR M k)"
  unfolding exact_def
proof (intro allI impI)
  fix s assume s: "at_rest s"
  then have u: "unrivalled s" by (simp add: at_rest_def)
  obtain r s' where run: "map_read CR M k s = (r, s')" by fastforce
  then have "cr_cache s' = cr_cache s"
    by (auto simp: map_read_def bindC_def cr_read_def split: prod.splits rs.splits option.splits
        simp: liftP_def split: sum.splits)
  with exactD[OF conc_alone.exact_maps(1) u] run s show
    "\<exists>s'. map_read CR M k s = (fst (map_read AR M k (cr_view s)), s') \<and> (is_Panic (fst (map_read AR M k (cr_view s)))
       \<or> at_rest s' \<and> cr_view s' = snd (map_read AR M k (cr_view s)))"
    by (metis at_rest_def prod.inject)
qed

lemma exact_dispatch:
  assumes "exact cr_view unrivalled (outer_dispatch E CR call origin) (outer_dispatch E AR call origin)"
  shows "exact cr_view at_rest (tr_dispatch (tested_CR E) call origin) (tr_dispatch (tested_AR E) call origin)"
  unfolding exact_def
proof (intro allI impI)
  fix s assume s: "at_rest s"
  then have u: "unrivalled s" and fresh: "cr_cache s = fmempty" by (simp_all add: at_rest_def)
  obtain q w where a: "outer_dispatch E AR call origin (cr_view s) = (q, w)" by fastforce
  from exactD[OF assms(1) u] a obtain s1 where
    s1: "outer_dispatch E CR call origin s = (q, s1)" "is_Panic q \<or> unrivalled s1 \<and> cr_view s1 = w" by auto
  note frame = keepsD[OF conc_frame.keeps_outer_dispatch s1(1)]
  obtain r s' where run: "ConcurrentRuntime_dispatch E call origin s = (r, s')" by fastforce
  have "r = to_runtime_dispatch_result q \<and> (is_Panic r \<or> at_rest s' \<and> cr_view s' = w)"
    using fresh run
  proof (cases rule: cr_dispatch_cases)
    case (committed s2 m)
    with s1 show ?thesis
      by (auto simp: at_rest_owners unrivalled_def cr_view_def fun_eq_iff)
  next
    case (logic s2 why)
    then have "w = cr_view s"
      using s1 a outer_AR_Err_unchanged[of E call origin "cr_view s"] by auto
    with logic s1 frame fresh_cache[OF fresh] show ?thesis
      by (auto simp: cr_frame_def at_rest_owners unrivalled_def cr_view_def fun_eq_iff)
  next
    case (tainted s2 whom orphan)
    with s1 a outer_AR_not_tainted show ?thesis by fastforce
  next
    case (panicked p)
    with s1 a show ?thesis by auto
  qed
  with run a show "\<exists>s'. tr_dispatch (tested_CR E) call origin s = (fst (tr_dispatch (tested_AR E) call origin (cr_view s)), s')
      \<and> (is_Panic (fst (tr_dispatch (tested_AR E) call origin (cr_view s)))
         \<or> at_rest s' \<and> cr_view s' = snd (tr_dispatch (tested_AR E) call origin (cr_view s)))"
    by (auto simp: tested_CR_def tested_AR_def)
qed


text \<open>The last test ends with an access that leaves its taint behind, the others only dispatch and read.\<close>

lemma exact_balances_tests:
  "exact cr_view at_rest (transfer_works E (tested_CR E)) (transfer_works E (tested_AR E))"
  "exact cr_view at_rest (transfer_fails_if_not_enough_balance E (tested_CR E))
     (transfer_fails_if_not_enough_balance E (tested_AR E))"
proof -
  have "exact cr_view unrivalled (outer_dispatch E CR (BalancesCall (Transfer dest v)) origin)
      (outer_dispatch E AR (BalancesCall (Transfer dest v)) origin)" for dest v origin
    using conc_alone.exact_transfer by simp
  note dispatch = exact_dispatch[OF this]
  show "exact cr_view at_rest (transfer_works E (tested_CR E)) (transfer_works E (tested_AR E))"
    "exact cr_view at_rest (transfer_fails_if_not_enough_balance E (tested_CR E))
       (transfer_fails_if_not_enough_balance E (tested_AR E))"
    unfolding balances_test_defs give_def tested_sel
    by (rule exact_rules exact_insert exact_read_at_rest dispatch)+
qed

lemma reserved_test_CR:
  assumes "passes (reserved_cannot_be_transferred E (tested_AR E)) (\<lambda>_. default_value)"
    and accounts: "Crypto.alice E = Inr a" "Crypto.bob E = Inr b"
  shows "passes (reserved_cannot_be_transferred E (tested_CR E)) (cr_new ts_new i)"
proof -
  let ?k = "key_for (BalanceOf E) (pair_public E a)"
  let ?v = "StateValue (enc_account_balance E (ab_from_pair (333, 666)))"
  let ?s = "cr_new (unsafe_insert_genesis_value ?k ?v ts_new) i"
  let ?t = "\<lambda>R. statements [assert_fails (transfer E R (pair_public E a) (pair_public E b) 334)
      (LogicError ''Does not have enough funds.'') :: _ test]"
  have "passes (?t AR) ((\<lambda>_. default_value)(?k := ?v))"
    using assms(1) by (simp add: reserved_cannot_be_transferred_def account_eval[OF accounts(1)]
        account_eval[OF accounts(2)] passes_bind give_def passes_steps tested_AR_def del: statements.simps)
  moreover have "cr_view ?s = (\<lambda>_. default_value)(?k := ?v)"
    by (auto simp: cr_view_def cr_new_def ts_new_def unsafe_insert_genesis_value_def state_simps fun_eq_iff)
  moreover have "unrivalled ?s"
    by (rule unrivalled_new) (simp add: ts_new_def unsafe_insert_genesis_value_def state_simps split: if_splits)
  moreover have "exact cr_view unrivalled (?t CR) (?t AR)"
    by (rule exact_rules conc_alone.exact_transfer)+
  ultimately have "passes (?t CR) ?s"
    using exact_passes[of cr_view unrivalled "?t CR" "?t AR" ?s] by (simp del: statements.simps)
  then show ?thesis
    by (simp add: reserved_cannot_be_transferred_def account_eval[OF accounts(1)]
        account_eval[OF accounts(2)] passes_bind give_def passes_steps tested_CR_def cr_new_def del: statements.simps)
qed

lemma exact_balances_tests_SR:
  "list_all2 (exact sr_view (\<lambda>_. True)) (balances_tests E (tested_SR E)) (balances_tests E (tested_AR E))"
proof -
  have insert: "exact sr_view (\<lambda>_. True) (tr_insert (tested_SR E) k v) (tr_insert (tested_AR E) k v)" for k v
    by (rule exactI) (auto simp: tested_SR_def tested_AR_def sr_view_def unsafe_insert_genesis_value_def
        state_simps fun_eq_iff)
  have dispatch: "exact sr_view (\<lambda>_. True) (tr_dispatch (tested_SR E) call origin) (tr_dispatch (tested_AR E) call origin)"
    for call origin
    using seq_runs[OF seq.sim_outer, of E call origin]
    by (intro exactI) (auto simp: tested_SR_def tested_AR_def SequentialRuntime_dispatch_def sr_dispatch_def
        split: prod.splits)
  show ?thesis
    unfolding balances_tests_def balances_test_defs give_def tested_sel
    by (intro list.rel_intros; (rule exact_rules seq_alone.exact_calls insert dispatch)+)
qed

section \<open>The tests on the specification runtime\<close>

lemmas test_eval = passes_def bindC_def liftP_def or_forward_def or_orphan_def map_err_def expectC_def
  map_AR decoded_write decoded_other decoded_fresh assert_reads_def assert_fails_def assert_eq_def
  unwrapC_def unwrap_errC_def account_def

lemmas arithmetic_eval = reserve_def unreserve_def checked_sub_def can_spend_def u128_add_def
  ab_from_def ab_from_pair_def ledger_default_def ab_default_def

lemma module_tests_AR:
  assumes E: "staking_ok E" and p: "Crypto.alice E = Inr a" "Crypto.bob E = Inr b" "Crypto.dave E = Inr d"
    and d: "distinct [default_pk E, pair_public E a, pair_public E b, pair_public E d]"
  shows "list_all (\<lambda>t. passes t (\<lambda>_. default_value)) (staking_tests E AR)"
    "list_all (\<lambda>t. passes t (\<lambda>_. default_value)) (balances_tests E (tested_AR E))"
proof -
  note maps = staking_maps_ok[OF E]
  show "list_all (\<lambda>t. passes t (\<lambda>_. default_value)) (staking_tests E AR)"
    unfolding staking_tests_def staking_test_defs list.pred_inject
    using p d d[THEN distinct_rev[THEN iffD2]]
    by (intro conjI; simp add: test_eval arithmetic_eval maps tx_bond_def tx_bond_extra_def tx_unbond_def
        tx_set_controller_def tx_validate_def tx_nominate_def tx_chill_def)
  have sm: "sm_enc (BalanceOf E) = enc_account_balance E" by (simp add: BalanceOf_def)
  show "list_all (\<lambda>t. passes t (\<lambda>_. default_value)) (balances_tests E (tested_AR E))"
    unfolding balances_tests_def balances_test_defs list.pred_inject give_def sm[symmetric]
    using p d d[THEN distinct_rev[THEN iffD2]]
    by (intro conjI; simp add: test_eval arithmetic_eval maps tested_AR_def transfer_def)
qed

section \<open>Properties\<close>

lemma list_all_exact:
  "list_all2 (exact view good) ts as \<Longrightarrow> good s \<Longrightarrow> list_all (\<lambda>t. passes t s) ts = list_all (\<lambda>t. passes t (view s)) as"
  by (induction rule: list_all2_induct) (simp_all add: exact_passes)

lemma views: "cr_view (cr_new ts_new 0) = (\<lambda>_. default_value)" "sr_view (sr_new ts_new 0) = (\<lambda>_. default_value)"
  by (simp_all add: cr_view_def cr_new_def sr_view_def sr_new_def ts_view_new fun_eq_iff)

lemma fresh: "unrivalled (cr_new ts_new 0)" "at_rest (cr_new ts_new 0)"
proof -
  show "at_rest (cr_new ts_new 0)"
    by (simp add: at_rest_owners ts_new_def state_simps cr_new_def)
  then show "unrivalled (cr_new ts_new 0)" by (simp add: at_rest_def)
qed

lemma module_tests_pass:
  assumes "staking_ok E" "keys_ok E"
  shows "list_all (\<lambda>t. passes t (cr_new ts_new 0)) (balances_tests E (tested_CR E) @ staking_tests E CR)
    \<and> list_all (\<lambda>t. passes t (sr_new ts_new 0)) (balances_tests E (tested_SR E) @ staking_tests E SR)"
proof -
  obtain a b d e where p: "Crypto.alice E = Inr a" "Crypto.bob E = Inr b" "Crypto.dave E = Inr d" "eve E = Inr e"
    using test_accounts[OF assms(2)] by metis
  have "edc_ok E" using assms(1) by (simp add: staking_ok_def balances_ok_def)
  with test_accounts_distinct[OF assms(2) _ p]
  have d: "distinct [default_pk E, pair_public E a, pair_public E b, pair_public E d]" by auto
  note AR = module_tests_AR[OF assms(1) p(1-3) d]
  have "list_all (\<lambda>t. passes t (cr_new ts_new 0)) (balances_tests E (tested_CR E))"
    using AR(2) reserved_test_CR[OF _ p(1,2)]
    by (simp add: balances_tests_def views exact_passes[OF exact_balances_tests(1) fresh(2)]
        exact_passes[OF exact_balances_tests(2) fresh(2)])
  with AR show ?thesis
    by (simp add: views list_all_exact[OF conc_alone.exact_staking_tests fresh(1)]
        list_all_exact[OF seq_alone.exact_staking_tests] list_all_exact[OF exact_balances_tests_SR])
qed

text \<open>C29. The unit tests of the crate \<open>runtime\<close> pass: those of the two runtimes and of the storage
  macros, and those of the balances and the staking module on both runtimes.\<close>

theorem runtime_crate_tests_pass:
  assumes "staking_ok E" "macro_ok E"
  shows "runtime_tests_pass dbg
    \<and> list_all (\<lambda>t. passes t (cr_new ts_new 0))
        (macro_tests E CR @ balances_tests E (tested_CR E) @ staking_tests E CR)
    \<and> list_all (\<lambda>t. passes t (sr_new ts_new 0)) (balances_tests E (tested_SR E) @ staking_tests E SR)"
proof -
  have "keys_ok E" using assms(2) by (simp add: macro_ok_def)
  from module_tests_pass[OF assms(1) this] macro_tests_AR[OF assms(2)] runtime_tests
  show ?thesis by (simp add: views list_all_exact[OF conc_alone.exact_macro_tests fresh(1)])
qed

end
