(* ===== verification/Executor_Tests.thy ===== *)
theory Executor_Tests
  imports Module_Tests Generators Distribution "HOL-Library.Sublist"
begin

text \<open>
  The unit tests of the pool (\<open>executor/src/pool.rs\<close>), the sequential executor
  (\<open>executor/src/sequential/mod.rs\<close>) and the distribution
  (\<open>executor/src/concurrent/tx_distribution.rs\<close>), statement by statement, with the transactions
  for testing of \<open>executor/src/types.rs\<close>.
\<close>

section \<open>The tests of the pool\<close>

record test_transaction =
  tt_id :: u32
  tt_signature :: u32

definition tt_new :: "u32 \<Rightarrow> u32 \<Rightarrow> test_transaction" where
  "tt_new i signature = \<lparr>tt_id = i, tt_signature = signature\<rparr>"

definition tt_verify :: "test_transaction \<Rightarrow> bool" where
  "tt_verify t \<longleftrightarrow> tt_id t mod 2 = 0"

type_synonym test_pool = "test_transaction vec_pool"

text \<open>A method of the pool that may panic, and one through which a transaction is changed.\<close>

definition pooling :: "('p \<Rightarrow> 'p panicking) \<Rightarrow> 'p test" where
  "pooling f p = (case f p of Inl msg \<Rightarrow> (Panic msg, p) | Inr p' \<Rightarrow> (Ok (), p'))"

definition unwrap_mut :: "('p \<Rightarrow> 'p option) \<Rightarrow> 'p test" where
  "unwrap_mut f p = (case f p of
     Some p' \<Rightarrow> (Ok (), p') | None \<Rightarrow> (Panic ''called `Option::unwrap()` on a `None` value'', p))"

text \<open>\<open>(0..n).step_by(2)\<close>, and the loop all tests begin with.\<close>

definition step_by_2 :: "nat \<Rightarrow> u32 list" where
  "step_by_2 n = map of_nat (filter even [0..<n])"

definition fill_pool :: "nat \<Rightarrow> test_pool test" where
  "fill_pool n = statements (map (\<lambda>i. pooling (vp_push_back tt_verify (tt_new i i))) (step_by_2 n))"

definition get_works :: "test_pool test" where
  "get_works = statements [
     fill_pool 10,
     bindC (asking (vp_get (\<lambda>t. tt_id t = 8))) (\<lambda>found. assert_eq found (Some (4, tt_new 8 8)))]"

definition get_mut_works :: "test_pool test" where
  "get_mut_works = statements [
     fill_pool 10,
     unwrap_mut (vp_get_mut (\<lambda>t. tt_id t = 8) (\<lambda>t. t\<lparr>tt_signature := 999\<rparr>)),
     bindC (unwrap_option (vp_get (\<lambda>t. tt_id t = 8))) (\<lambda>(_, tx). assert_eq (tt_signature tx) 999)]"

text \<open>\<open>next\<close> of an iterator over a list.\<close>

fun next_item :: "'a list \<Rightarrow> 'a option \<times> 'a list" where
  "next_item [] = (None, [])"
| "next_item (x # xs) = (Some x, xs)"

fun assert_ids :: "u32 option list \<Rightarrow> test_transaction list \<Rightarrow> test_pool test" where
  "assert_ids [] iter = ret ()"
| "assert_ids (i # is) iter = (case next_item iter of (t, iter') \<Rightarrow>
     bindC (assert_eq (map_option tt_id t) i) (\<lambda>_. assert_ids is iter'))"

definition iter_works :: "test_pool test" where
  "iter_works = statements [
     fill_pool 6,
     bindC (asking vp_iter) (assert_ids [Some 0, Some 2, Some 4, None])]"

text \<open>\<open>IntoIterator for VecPool\<close>, which only this test uses.\<close>

definition vp_into_iter :: "'tx vec_pool \<Rightarrow> 'tx list" where
  "vp_into_iter p = inner p"

definition into_iter_works :: "test_pool test" where
  "into_iter_works = statements [
     fill_pool 6,
     bindC (asking vp_into_iter) (assert_ids [Some 0, Some 2, Some 4, None])]"

definition iter_mut_works :: "test_pool test" where
  "iter_mut_works = statements [
     fill_pool 10,
     doing (vp_iter_mut (\<lambda>_ t. t\<lparr>tt_signature := tt_signature t + 1\<rparr>)),
     statements (map (\<lambda>i. bindC (unwrap_option (vp_get (\<lambda>t. tt_id t = i))) (\<lambda>(_, t).
       assert_eq (tt_signature t) (i + 1))) (step_by_2 10))]"

definition insert_invalid_will_fail :: "test_pool test" where
  "insert_invalid_will_fail = pooling (vp_push_back tt_verify (tt_new 1 0))"

definition insert_invalid_will_fail_2 :: "test_pool test" where
  "insert_invalid_will_fail_2 = pooling (vp_insert tt_verify 0 (tt_new 1 0))"

text \<open>\<open>#[should_panic(expected = ...)]\<close>: the test panics, and its message contains the expected one.\<close>

definition should_panic :: "string \<Rightarrow> 's test \<Rightarrow> 's \<Rightarrow> bool" where
  "should_panic expected t s = (case fst (t s) of Panic msg \<Rightarrow> sublist expected msg | _ \<Rightarrow> False)"

definition vecpool_tests_pass :: bool where
  "vecpool_tests_pass \<longleftrightarrow>
     list_all (\<lambda>t. passes t vp_new) [get_works, get_mut_works, iter_works, into_iter_works, iter_mut_works]
   \<and> list_all (\<lambda>t. should_panic ''Attempted to insert invalid transaction to the pool.'' t vp_new)
       [insert_invalid_will_fail, insert_invalid_will_fail_2]"

lemmas vecpool_eval = assertion_defs pooling_def unwrap_mut_def fill_pool_def step_by_2_def upt_rec tt_new_def
  tt_verify_def vp_push_back_def vp_insert_def vp_get_def vp_get_mut_def vp_iter_def vp_iter_mut_def
  vp_into_iter_def vp_new_def

lemma vecpool_tests: vecpool_tests_pass
proof -
  have "list_all (\<lambda>t. passes t vp_new) [get_works, get_mut_works, iter_works, into_iter_works, iter_mut_works]"
    unfolding list.pred_inject get_works_def get_mut_works_def iter_works_def into_iter_works_def
      iter_mut_works_def
    by (intro conjI TrueI; simp add: vecpool_eval)
  moreover have "list_all (\<lambda>t. should_panic ''Attempted to insert invalid transaction to the pool.'' t vp_new)
       [insert_invalid_will_fail, insert_invalid_will_fail_2]"
    by (simp add: should_panic_def insert_invalid_will_fail_def insert_invalid_will_fail_2_def vecpool_eval)
  ultimately show ?thesis by (simp only: vecpool_tests_pass_def)
qed

section \<open>The tests of the sequential executor\<close>

text \<open>\<open>state.get(&key).unwrap().data()\<close> compared with the encoding of a balance.\<close>

definition assert_balance ::
  "('p, 'z) balances_env_scheme \<Rightarrow> runtime_state \<Rightarrow> 'p \<Rightarrow> balance \<Rightarrow> ('s, unit, unit) comp" where
  "assert_balance E state who b =
     bindC (unwrap_option (\<lambda>_. fmlookup state (key_for (BalanceOf E) who))) (\<lambda>e.
     assert_eq (sv_data e) (StateValue (enc_account_balance E (ab_from b))))"

definition can_author_block :: "('p, 'k, 'z) key_env_scheme \<Rightarrow> sequential_runtime test" where
  "can_author_block E =
     bindC (liftP (simple_alice_bob_dave E)) (\<lambda>txs.
     bindC (account E (Crypto.alice E)) (\<lambda>alice.
     bindC (endow_account E SR alice 100) (\<lambda>_.
     bindC (ex_author_block (SE E) txs) (\<lambda>(state, blk).
     bindC (account E (Crypto.bob E)) (\<lambda>bob.
     bindC (account E (Crypto.dave E)) (\<lambda>dave.
     statements [
       assert_eq (length (transactions blk)) 2,
       assert_balance E state alice 80,
       assert_balance E state bob 10,
       assert_balance E state dave 10]))))))"

definition can_validate_block :: "('p, 'k, 'z) key_env_scheme \<Rightarrow> sequential_runtime test" where
  "can_validate_block E =
     bindC (liftP (simple_alice_bob_dave E)) (\<lambda>txs.
     bindC (account E (Crypto.alice E)) (\<lambda>alice.
     bindC (endow_account E SR alice 100) (\<lambda>_.
     bindC (ex_author_block (SE E) txs) (\<lambda>(_, blk).
     bindC (ex_clean (SE E)) (\<lambda>_.
     bindC (endow_account E SR alice 100) (\<lambda>_.
     bindC (ex_validate_block (SE E) blk) (\<lambda>validation_state.
     bindC (account E (Crypto.bob E)) (\<lambda>bob.
     bindC (account E (Crypto.dave E)) (\<lambda>dave.
     statements [
       assert_balance E validation_state alice 80,
       assert_balance E validation_state bob 10,
       assert_balance E validation_state dave 10])))))))))"

text \<open>The state the last test starts with is built on a runtime of its own.\<close>

definition built_with :: "(sequential_runtime, unit, unit) comp \<Rightarrow> ('s, runtime_state, unit) comp" where
  "built_with update s = (case update initial_new of
     (Ok _, _) \<Rightarrow> (Ok (build (with_runtime (\<lambda>g. snd (update g)) initial_new)), s)
   | (Err e, _) \<Rightarrow> (Err e, s) | (Panic p, _) \<Rightarrow> (Panic p, s))"

definition can_author_and_validate_block :: "('p, 'k, 'z) key_env_scheme \<Rightarrow> sequential_runtime test" where
  "can_author_and_validate_block E =
     bindC (liftP (simple_alice_bob_dave E)) (\<lambda>txs.
     bindC (built_with (bindC (account E (Crypto.alice E)) (\<lambda>alice. endow_account E SR alice 100))) (\<lambda>initial_state.
     bindC (author_and_validate (SE E) txs (Some initial_state)) assert_that))"

definition sequential_tests :: "('p, 'k, 'z) key_env_scheme \<Rightarrow> sequential_runtime test list" where
  "sequential_tests E = [can_author_block E, can_validate_block E, can_author_and_validate_block E]"

text \<open>The dispatches of a list of transactions, on the specification runtime.\<close>

fun dispatches :: "('p, 'z) staking_env_scheme \<Rightarrow> ('s, 'p) tested_runtime \<Rightarrow> 'p transaction list
    \<Rightarrow> ('s, runtime_dispatch_success list, unit) comp" where
  "dispatches E T [] = ret []"
| "dispatches E T (tx # txs) =
     bindC (expectC ''Sequential execution cannot fail on execute. This will at most be Ok(LogicError(..))''
        (tr_dispatch T (tx_function tx) (fst (tx_signature tx)))) (\<lambda>ok.
     bindC (dispatches E T txs) (\<lambda>outcomes. ret (ok # outcomes)))"

lemma exact_dispatch_SR:
  "exact sr_view (\<lambda>_. True) (SequentialRuntime_dispatch E call origin) (tr_dispatch (tested_AR E) call origin)"
  using seq_runs[OF seq.sim_outer, of E call origin]
  by (intro exactI) (auto simp: tested_AR_def SequentialRuntime_dispatch_def sr_dispatch_def split: prod.splits)

lemma exact_apply: "exact sr_view (\<lambda>_. True) (apply_transaction E txs) (dispatches E (tested_AR E) txs)"
  by (induction txs; unfold apply_transaction.simps dispatches.simps)
    (rule exact_rules exact_dispatch_SR | assumption)+

lemma held_balance:
  assumes E: "staking_ok E" and view: "sr_view s (key_for (BalanceOf E) who) = StateValue (enc_account_balance E (ab_from b))"
  shows "assert_balance E (sr_state s) who b t = (Ok (), t)"
proof -
  have "enc_account_balance E (ab_from b) \<noteq> []"
    using E by (auto simp: staking_ok_def balances_ok_def) (metis rs.distinct(1))
  with view show ?thesis
    by (auto simp: assert_balance_def sr_view_def ts_view_def default_value_def assertion_defs split: option.splits)
qed

text \<open>The two transfers of the tests, from the state with one endowed account.\<close>

lemma two_transfers:
  assumes E: "staking_ok E" "keys_ok E" and p: "Crypto.alice E = Inr a" "Crypto.bob E = Inr b" "Crypto.dave E = Inr d"
  obtains oks txs where "simple_alice_bob_dave E = Inr txs" "length txs = 2" "sane E txs"
    "\<And>i. \<exists>s. apply_transaction E txs (sr_new (endowed E [(pair_public E a, 100)] ts_new) i) = (Ok oks, s)
      \<and> sr_view s (key_for (BalanceOf E) (pair_public E a)) = StateValue (enc_account_balance E (ab_from 80))
      \<and> sr_view s (key_for (BalanceOf E) (pair_public E b)) = StateValue (enc_account_balance E (ab_from 10))
      \<and> sr_view s (key_for (BalanceOf E) (pair_public E d)) = StateValue (enc_account_balance E (ab_from 10))"
proof -
  obtain e where e: "eve E = Inr e" using test_accounts[OF E(2)] by metis
  have "edc_ok E" using E(1) by (simp add: staking_ok_def balances_ok_def)
  with test_accounts_distinct[OF E(2) _ p e]
  have dist: "distinct [default_pk E, pair_public E a, pair_public E b, pair_public E d]" by auto
  let ?txs = "[build_transfer E 1 a (pair_public E b), build_transfer E 2 a (pair_public E d)]"
  have sm: "sm_enc (BalanceOf E) = enc_account_balance E" by (simp add: BalanceOf_def)
  let ?k = "\<lambda>who. key_for (BalanceOf E) who" and ?v = "\<lambda>x. StateValue (sm_enc (BalanceOf E) (ab_from x))"
  let ?w = "(\<lambda>_. default_value)(?k (pair_public E a) := ?v 100)"
  let ?out = "dispatches E (tested_AR E) ?txs ?w"
  note eval = test_eval arithmetic_eval staking_maps_ok[OF E(1)] tested_AR_def transfer_def build_transfer_def
  have key: "?k x = ?k y \<longleftrightarrow> x = y" for x y
    using key_for_eq_iff[of "BalanceOf E" x "BalanceOf E" y] BalanceOf_ok[of E] E(1)
    by (auto simp: staking_ok_def sm_ok_def)
  have out: "fst ?out = Ok [RtOk, RtOk]" "snd ?out (?k (pair_public E a)) = ?v 80"
    "snd ?out (?k (pair_public E b)) = ?v 10" "snd ?out (?k (pair_public E d)) = ?v 10"
    using dist dist[THEN distinct_rev[THEN iffD2]] by (simp_all add: eval key)
  show thesis
  proof (rule that)
    show "simple_alice_bob_dave E = Inr ?txs" using p by (simp add: simple_alice_bob_dave_def)
    show "length ?txs = 2" by simp
    show "sane E ?txs" by (simp add: sane_def build_transfer_def)
    fix i
    let ?s = "sr_new (endowed E [(pair_public E a, 100)] ts_new) i"
    have "sr_view ?s = ?w"
      by (simp add: sr_view_def sr_new_def endowed_def view_funded[unfolded funded_def] ab_from_new)
    with exactD[OF exact_apply[of E ?txs], of ?s] out(1)
    obtain s where s: "apply_transaction E ?txs ?s = (Ok [RtOk, RtOk], s)" "sr_view s = snd ?out"
      by auto
    have view: "sr_view s (?k (pair_public E a)) = StateValue (enc_account_balance E (ab_from 80))"
      "sr_view s (?k (pair_public E b)) = StateValue (enc_account_balance E (ab_from 10))"
      "sr_view s (?k (pair_public E d)) = StateValue (enc_account_balance E (ab_from 10))"
      using out(2-4) by (simp_all only: s(2) sm)
    show "\<exists>s. apply_transaction E ?txs ?s = (Ok [RtOk, RtOk], s)
      \<and> sr_view s (key_for (BalanceOf E) (pair_public E a)) = StateValue (enc_account_balance E (ab_from 80))
      \<and> sr_view s (key_for (BalanceOf E) (pair_public E b)) = StateValue (enc_account_balance E (ab_from 10))
      \<and> sr_view s (key_for (BalanceOf E) (pair_public E d)) = StateValue (enc_account_balance E (ab_from 10))"
      using view by (intro exI[of _ s] conjI s(1))
  qed
qed

lemma sequential_tests_hold:
  assumes E: "staking_ok E" "keys_ok E"
  shows "list_all (\<lambda>t. passes t (se_new i)) (sequential_tests E)"
proof -
  obtain a b d where p: "Crypto.alice E = Inr a" "Crypto.bob E = Inr b" "Crypto.dave E = Inr d"
    using test_accounts[OF E(2)] by metis
  obtain oks txs where txs: "simple_alice_bob_dave E = Inr txs" "length txs = 2" "sane E txs"
    "\<And>i. \<exists>s. apply_transaction E txs (sr_new (endowed E [(pair_public E a, 100)] ts_new) i) = (Ok oks, s)
      \<and> sr_view s (key_for (BalanceOf E) (pair_public E a)) = StateValue (enc_account_balance E (ab_from 80))
      \<and> sr_view s (key_for (BalanceOf E) (pair_public E b)) = StateValue (enc_account_balance E (ab_from 10))
      \<and> sr_view s (key_for (BalanceOf E) (pair_public E d)) = StateValue (enc_account_balance E (ab_from 10))"
    using two_transfers[OF E p] by metis
  let ?m = "endowed E [(pair_public E a, 100)] ts_new"
  let ?s1 = "sr_new ?m i"
  have start: "endow_account E SR (pair_public E a) 100 (se_new i) = (Ok (), ?s1)"
    by (simp add: endow_account_SR se_new_def sr_new_def)
  obtain s2 where s2: "apply_transaction E txs ?s1 = (Ok oks, s2)"
    "sr_view s2 (key_for (BalanceOf E) (pair_public E a)) = StateValue (enc_account_balance E (ab_from 80))"
    "sr_view s2 (key_for (BalanceOf E) (pair_public E b)) = StateValue (enc_account_balance E (ab_from 10))"
    "sr_view s2 (key_for (BalanceOf E) (pair_public E d)) = StateValue (enc_account_balance E (ab_from 10))"
    using txs(4)[of i] by blast
  note balances = s2(2-4)[THEN held_balance[OF E(1)]]
  note accounts = account_eval[OF p(1)] account_eval[OF p(2)] account_eval[OF p(3)]
  have "passes (can_author_block E) (se_new i)"
    by (simp add: can_author_block_def passes_bind accounts txs(1) start se_author_block_def s2(1) balances comp_simps
        dump_def block_from_def passes_steps txs(2) passes_def[of "ret ()"])
  moreover have "passes (can_validate_block E) (se_new i)"
  proof -
    have "se_clean s2 = (Ok (), se_new i)"
      using sr_id_apply[OF s2(1)] by (simp add: se_clean_def se_new_def sr_new_def unsafe_clean_def ts_new_def)
    then show ?thesis
      by (simp add: can_validate_block_def passes_bind accounts txs(1) start se_author_block_def
          se_validate_block_def s2(1) balances comp_simps dump_def block_from_def passes_steps passes_def[of "ret ()"])
  qed
  moreover have "passes (can_author_and_validate_block E) (se_new i)"
  proof -
    have built: "built_with (bindC (account E (Crypto.alice E)) (\<lambda>alice. endow_account E SR alice 100)) s = (Ok ?m, s)"
      for s :: sequential_runtime
      by (simp add: built_with_def comp_simps accounts endow_account_SR initial_new_def sr_new_def with_runtime_def
          build_def dump_def)
    have "?m = funded E (pair_public E a) 100"
      by (simp add: endowed_def funded_def ab_from_new)
    with sequential_agrees[OF E(1) chain_funded(2)[OF E(1)] chain_inv_funded[OF E(1)] txs(3)]
    show ?thesis
      by (simp add: can_author_and_validate_block_def passes_bind txs(1) built passes_def comp_simps)
  qed
  ultimately show ?thesis by (simp add: sequential_tests_def)
qed

section \<open>The tests of the distribution\<close>

definition new_transfer ::
  "('p, 'k, 'z) key_env_scheme \<Rightarrow> 'k key_pair \<Rightarrow> transaction_id \<Rightarrow> 'p transaction panicking" where
  "new_transfer E origin i = (case Crypto.bob E of
     Inl msg \<Rightarrow> Inl msg
   | Inr b \<Rightarrow> Inr (signed_tx E i (BalancesCall (Transfer (pair_public E b) 999)) origin))"

definition new_transfer_to ::
  "('p, 'k, 'z) key_env_scheme \<Rightarrow> 'k key_pair \<Rightarrow> 'p \<Rightarrow> 'p transaction" where
  "new_transfer_to E origin dest = signed_tx E 99 (BalancesCall (Transfer dest 999)) origin"

text \<open>A test of code that may not return: \<open>None\<close> if it does not.\<close>

definition returns_and_passes :: "'s test option \<Rightarrow> 's \<Rightarrow> bool" where
  "returns_and_passes t s \<longleftrightarrow> (case t of None \<Rightarrow> False | Some t \<Rightarrow> passes t s)"

text \<open>The graph of the first test: transactions 1 and 2 share two keys.\<close>

definition test_graph :: "state_key \<Rightarrow> state_key \<Rightarrow> tx_graph" where
  "test_graph k1 k2 = add_tx k2 2 (add_tx k2 1 (add_tx k1 2 (add_tx k1 1
     (add_key 2 k2 (add_key 2 k1 (add_key 1 k2 (add_key 1 k1 graph_new)))))))"

definition traverse_works :: "unit test option" where
  "traverse_works =
     (let k1 = StateKey [1, 1, 1]; k2 = StateKey [2, 2, 2]
      in case traverse_loop (test_graph k1 k2) 1 [KeyRef k1] (\<lambda>_. None) [] of
           None \<Rightarrow> None
         | Some (members, marks) \<Rightarrow> Some (statements [
             assert_eq (marks (KeyRef k1)) (Some 1),
             assert_eq (marks (KeyRef k2)) (Some 1),
             assert_eq (marks (TxRef 2)) (Some 1),
             assert_eq (marks (TxRef 2)) (Some 1),
             assert_eq (length members) 2,
             assert_eq members [1, 2]]))"

definition it_works ::
  "('p, 'k, 'z) key_env_scheme \<Rightarrow> (nat \<Rightarrow> 'k key_pair) \<Rightarrow> (nat \<Rightarrow> nat \<times> nat) \<Rightarrow> unit test option" where
  "it_works E random choices = (case bank E random choices 50 10 100 of
     Inl msg \<Rightarrow> Some (panic msg)
   | Inr (load, _) \<Rightarrow>
       (case connected_components (debug_build E) (tx_hints False E) [1, 2, 3] (vp_from load) of
          None \<Rightarrow> None | Some (Inl msg) \<Rightarrow> Some (panic msg) | Some (Inr _) \<Rightarrow> Some (ret ())))"

definition assert_tag ::
  "('p, 'k, 'z) key_env_scheme \<Rightarrow> 'k key_pair \<Rightarrow> execution_tag \<Rightarrow> 'p tx_pool test" where
  "assert_tag E who tag =
     bindC (unwrap_option (vp_get (\<lambda>t. fst (tx_signature t) = pair_public E who))) (\<lambda>(_, tx).
     assert_eq (tx_tag tx) tag)"

definition push_transfer ::
  "('p, 'k, 'z) key_env_scheme \<Rightarrow> 'k key_pair \<Rightarrow> transaction_id \<Rightarrow> 'p tx_pool test" where
  "push_transfer E who i = bindC (liftP (new_transfer E who i)) (\<lambda>tx. pooling (vp_push_back (tx_verify E) tx))"

text \<open>\<open>RoundRobin::distribute\<close> always returns, so \<open>the\<close> is defined.\<close>

definition round_robin_works :: "('p, 'k, 'z) key_env_scheme \<Rightarrow> 'p tx_pool test" where
  "round_robin_works E =
     bindC (liftP (Crypto.alice E)) (\<lambda>alice.
     bindC (liftP (Crypto.bob E)) (\<lambda>bob.
     bindC (liftP (Crypto.dave E)) (\<lambda>dave.
     statements [
       push_transfer E alice 1,
       push_transfer E bob 2,
       push_transfer E dave 3,
       pooling (\<lambda>p. the (round_robin [1, 2] p)),
       assert_tag E alice (Done 1),
       assert_tag E bob (Done 2),
       assert_tag E dave (Done 1)])))"

definition distribution_tests_pass ::
  "('p, 'k, 'z) key_env_scheme \<Rightarrow> (nat \<Rightarrow> 'k key_pair) \<Rightarrow> (nat \<Rightarrow> nat \<times> nat) \<Rightarrow> bool" where
  "distribution_tests_pass E random choices \<longleftrightarrow>
     returns_and_passes traverse_works () \<and> returns_and_passes (it_works E random choices) ()
   \<and> passes (round_robin_works E) vp_new"

lemma traverse_test: "returns_and_passes traverse_works ()"
  by (simp add: returns_and_passes_def traverse_works_def test_graph_def add_tx_def add_key_def graph_new_def
      traverse_loop.simps visit_eq passes_def assert_eq_def comp_simps)

lemma it_works_passes: "returns_and_passes (it_works E random choices) ()"
proof -
  obtain txs accounts where txs: "bank E random choices 50 10 100 = Inr (txs, accounts)" "map tx_id txs = map of_nat [0..<10]"
    using bank_run[of 50 E random choices 10 100] by auto
  have "distinct (map tx_id (vp_all (vp_from txs)))" "vp_all (vp_from txs) \<noteq> []"
    using numbered_ids[of 10] txs(2) by (auto simp: vp_all_def vp_from_def)
  from cc.distributes[OF _ this(2,1), of "[1, 2, 3]" "debug_build E" "tx_hints False E"]
  show ?thesis
    by (auto simp: it_works_def txs(1) returns_and_passes_def passes_def)
qed

lemma round_robin_test:
  assumes E: "staking_ok E" "keys_ok E"
  shows "passes (round_robin_works E) vp_new"
proof -
  obtain a b d e where p: "Crypto.alice E = Inr a" "matching_pair E a" "Crypto.bob E = Inr b" "matching_pair E b"
    "Crypto.dave E = Inr d" "matching_pair E d" "eve E = Inr e"
    using test_accounts[OF E(2)] by metis
  have "edc_ok E" using E(1) by (simp add: staking_ok_def balances_ok_def)
  with test_accounts_distinct[OF E(2) _ p(1,3,5,7)]
  have "distinct [pair_public E a, pair_public E b, pair_public E d]" by auto
  then show ?thesis
    using p signed_tx_verifies[OF E(2)]
    by (auto simp: round_robin_works_def push_transfer_def new_transfer_def assert_tag_def pooling_def
        vp_push_back_def vp_new_def vp_get_def round_robin_def vp_iter_mut_def vp_len_def assertion_defs)
qed

section \<open>Property\<close>

text \<open>C30. The unit tests of the transaction pool, of the distributions and of the sequential executor
  pass, whatever accounts and choices a bank draws; the two tests of the pool that expect a panic get it.\<close>

theorem executor_unit_tests_pass:
  fixes E :: "('p, 'k, 'z) key_env_scheme"
  assumes "staking_ok E" "keys_ok E"
  shows "vecpool_tests_pass \<and> distribution_tests_pass E random choices
    \<and> list_all (\<lambda>t. passes t (se_new i)) (sequential_tests E)"
  unfolding distribution_tests_pass_def
  using vecpool_tests traverse_test it_works_passes round_robin_test[OF assms] sequential_tests_hold[OF assms] by blast

end
