(* ===== verification/Worker_Tests.thy ===== *)
theory Worker_Tests
  imports Executor_Tests Worker
begin

text \<open>
  The unit tests of the workers (\<open>executor/src/concurrent/worker.rs\<close>), statement by statement. A test
  makes one worker and holds the other ends of its channels, so its state is the \<open>world\<close>. A new
  worker has the id of the thread that runs the test, which is the argument \<open>me\<close>.
\<close>

section \<open>The other ends of the channels\<close>

definition world_new :: "'p world" where
  "world_new = \<lparr>wo_state = ts_new, to_master = [], to_worker = (\<lambda>_. []), to_peer = (\<lambda>_. [])\<rparr>"

text \<open>
  \<open>recv().unwrap()\<close>. The senders are alive, so it blocks on an empty channel, and nobody else runs:
  the test never ends, which here counts as a failure.
\<close>

definition recv_master :: "('p world, 'p message, unit) comp" where
  "recv_master wo = (case to_master wo of
     msg # msgs \<Rightarrow> (Ok msg, wo\<lparr>to_master := msgs\<rparr>) | [] \<Rightarrow> (Panic ''blocked'', wo))"

definition recv_peer :: "thread_id \<Rightarrow> ('p world, 'p message, unit) comp" where
  "recv_peer w wo = (case to_peer wo w of
     msg # msgs \<Rightarrow> (Ok msg, wo\<lparr>to_peer := (to_peer wo)(w := msgs)\<rparr>) | [] \<Rightarrow> (Panic ''blocked'', wo))"

text \<open>Code on a sequential runtime that shares the state.\<close>

definition on_sequential :: "thread_id \<Rightarrow> (sequential_runtime, 'a, 'e) comp \<Rightarrow> ('p world, 'a, 'e) comp" where
  "on_sequential i code wo = (case code (sr_new (wo_state wo) i) of
     (r, s) \<Rightarrow> (r, wo\<lparr>wo_state := sr_state s\<rparr>))"

section \<open>The tests of authoring\<close>

definition authoring_worker :: "thread_id \<Rightarrow> worker" where
  "authoring_worker me = (worker_new me 99)\<lparr>wk_others := [69]\<rparr>"

definition assert_executes ::
  "('p, 'z) staking_env_scheme \<Rightarrow> thread_id \<Rightarrow> 'p transaction \<Rightarrow> execution_outcome \<Rightarrow> 'p world test" where
  "assert_executes E me tx out =
     bindC (execute_or_forward E (authoring_worker me) tx) (\<lambda>x. assert_that (x = out))"

definition assert_owner :: "('p, 'z) balances_env_scheme \<Rightarrow> 'p \<Rightarrow> thread_id \<Rightarrow> 'p world test" where
  "assert_owner E who me =
     bindC (unwrap_option (\<lambda>wo. unsafe_read_taint (key_for (BalanceOf E) who) (wo_state wo))) (\<lambda>t.
     assert_eq t me)"

definition can_execute_tx :: "('p, 'k, 'z) key_env_scheme \<Rightarrow> thread_id \<Rightarrow> 'p world test" where
  "can_execute_tx E me =
     bindC (liftP (Crypto.alice E)) (\<lambda>alice.
     bindC (liftP (new_transfer E alice 1)) (\<lambda>tx.
     bindC (account E (Crypto.bob E)) (\<lambda>bob.
     statements [
       assert_executes E me tx (Executed (RtLogicError ''Does not have enough funds.'')),
       unwrapC (on_sequential 0 (map_write SR (BalanceOf E) (pair_public E alice) (ab_from 999))),
       assert_executes E me tx (Executed RtOk),
       bindC (asking to_master) (\<lambda>msgs. assert_that (msgs = [])),
       assert_owner E (pair_public E alice) me,
       assert_owner E bob me])))"

definition taint_with :: "('p, 'z) balances_env_scheme \<Rightarrow> 'p \<Rightarrow> thread_id \<Rightarrow> 'p world test" where
  "taint_with E who t =
     doing (\<lambda>wo. wo\<lparr>wo_state := unsafe_insert (key_for (BalanceOf E) who) (sv_new_taint default_value t) (wo_state wo)\<rparr>)"

fun is_transaction :: "transaction_id \<Rightarrow> 'p message_payload \<Rightarrow> bool" where
  "is_transaction i (TransactionMsg tx) = (tx_id tx = i)"
| "is_transaction i _ = False"

fun is_orphan_report :: "'p message_payload \<Rightarrow> bool" where
  "is_orphan_report (WorkerOrphan _) = True"
| "is_orphan_report _ = False"

fun is_executed_report :: "'p message_payload \<Rightarrow> bool" where
  "is_executed_report (WorkerExecuted _) = True"
| "is_executed_report _ = False"

definition will_forward_tx_if_tainted :: "('p, 'k, 'z) key_env_scheme \<Rightarrow> thread_id \<Rightarrow> 'p world test" where
  "will_forward_tx_if_tainted E me =
     bindC (liftP (Crypto.alice E)) (\<lambda>alice.
     bindC (liftP (new_transfer E alice 1)) (\<lambda>tx.
     statements [
       taint_with E (pair_public E alice) 69,
       assert_executes E me tx (ForwardedTo 69),
       bindC (recv_peer 69) (\<lambda>incoming. statements [
         assert_eq (msg_from incoming) me,
         assert_that (is_transaction (tx_id tx) (payload incoming))])]))"

definition will_forward_to_master_if_already_forwarded ::
  "('p, 'k, 'z) key_env_scheme \<Rightarrow> thread_id \<Rightarrow> 'p world test" where
  "will_forward_to_master_if_already_forwarded E me =
     bindC (liftP (Crypto.alice E)) (\<lambda>alice.
     bindC (liftP (new_transfer E alice 1)) (\<lambda>tx.
     statements [
       taint_with E (pair_public E alice) 69,
       assert_executes E me (tx\<lparr>tx_exec_status := Forwarded\<rparr>) ForwardedToMaster,
       bindC recv_master (\<lambda>incoming. statements [
         assert_eq (msg_from incoming) me,
         assert_that (is_orphan_report (payload incoming))])]))"

definition will_report_to_master_if_forwarded_and_executed ::
  "('p, 'k, 'z) key_env_scheme \<Rightarrow> thread_id \<Rightarrow> 'p world test" where
  "will_report_to_master_if_forwarded_and_executed E me =
     bindC (liftP (Crypto.alice E)) (\<lambda>alice.
     bindC (liftP (new_transfer E alice 1)) (\<lambda>tx.
     statements [
       assert_executes E me (tx\<lparr>tx_exec_status := Forwarded\<rparr>)
         (Executed (RtLogicError ''Does not have enough funds.'')),
       bindC recv_master (\<lambda>msg. assert_that (is_executed_report (payload msg)))]))"

section \<open>The test of validation\<close>

text \<open>The loop of \<open>run_validate\<close> on the messages in its channel; \<open>None\<close> if it blocks.\<close>

fun validate_all ::
  "('p, 'z) staking_env_scheme \<Rightarrow> 'p message list \<Rightarrow> runtime_dispatch_success list \<Rightarrow> worker \<Rightarrow> 'p world
     \<Rightarrow> (worker \<times> 'p world) option" where
  "validate_all E [] outcomes wk wo = None"
| "validate_all E (msg # msgs) outcomes wk wo = (case run_validate E msg outcomes wk wo of (wk', wo') \<Rightarrow>
     (case wk_phase wk' of
        Validation outcomes' \<Rightarrow> validate_all E msgs outcomes' wk' wo' | _ \<Rightarrow> Some (wk', wo')))"

definition validating ::
  "('p, 'z) staking_env_scheme \<Rightarrow> 'p message list \<Rightarrow> worker \<Rightarrow> 'p world test" where
  "validating E msgs wk wo = (case validate_all E msgs [] wk wo of
     None \<Rightarrow> (Panic ''blocked'', wo)
   | Some (wk', wo') \<Rightarrow> (case wk_phase wk' of Crashed p \<Rightarrow> (Panic p, wo') | _ \<Rightarrow> (Ok (), wo')))"

fun is_validation_report :: "'p message_payload \<Rightarrow> bool" where
  "is_validation_report ValidationReport = True"
| "is_validation_report _ = False"

definition validation_messages :: "'p transaction list \<Rightarrow> 'p message list" where
  "validation_messages txs = map (\<lambda>tx. \<lparr>payload = TransactionMsg (set_done 1 tx), msg_from = 99\<rparr>) txs
     @ [\<lparr>payload = TransactionDistributionDone, msg_from = 99\<rparr>]"

definition worker_can_validate_block :: "('p, 'k, 'z) key_env_scheme \<Rightarrow> thread_id \<Rightarrow> 'p world test" where
  "worker_can_validate_block E me =
     bindC (liftP (simple_alice_bob_dave E)) (\<lambda>txs.
     bindC (assert_eq me 1) (\<lambda>_.
     bindC (account E (Crypto.alice E)) (\<lambda>alice.
     bindC (account E (Crypto.bob E)) (\<lambda>bob.
     bindC (account E (Crypto.dave E)) (\<lambda>dave.
     statements [
       on_sequential me (endow_account E SR alice 100),
       validating E (validation_messages txs) (worker_new me 99),
       assert_reads (on_sequential me (map_read SR (BalanceOf E) alice)) ab_free 80,
       assert_reads (on_sequential me (map_read SR (BalanceOf E) bob)) ab_free 10,
       assert_reads (on_sequential me (map_read SR (BalanceOf E) dave)) ab_free 10,
       bindC recv_master (\<lambda>msg. assert_that (is_validation_report (payload msg)))])))))"

section \<open>The transfer of the tests of authoring\<close>

text \<open>A worker that shares the state with nobody: results, values and owners after its transfer.\<close>

lemma lone_transfer:
  assumes owners: "\<forall>k t. ts_owner m k = Some t \<longrightarrow> t = me"
    and run: "execute_transaction E me tx m = (r, m')" and call: "tx_function tx = BalancesCall (Transfer dest v)"
    and call_ok: "is_Ok (fst (tr_dispatch (tested_AR E) (tx_function tx) (fst (tx_signature tx)) (ts_view default_value m)))"
  shows "r = fst (tr_dispatch (tested_AR E) (tx_function tx) (fst (tx_signature tx)) (ts_view default_value m))"
    "ts_view default_value m' = snd (tr_dispatch (tested_AR E) (tx_function tx) (fst (tx_signature tx)) (ts_view default_value m))"
    "\<forall>k t. ts_owner m' k = Some t \<longrightarrow> t = me"
    "\<forall>k. ts_view default_value m' k \<noteq> ts_view default_value m k \<longrightarrow> ts_owner m' k = Some me"
proof -
  let ?s = "cr_new m me"
  obtain s' where s': "ConcurrentRuntime_dispatch E (tx_function tx) (fst (tx_signature tx)) ?s = (r, s')" "m' = cr_state s'"
    using run by (auto simp: execute_transaction_def split: prod.splits)
  have rest: "at_rest ?s" and view: "cr_view ?s = ts_view default_value m"
    using owners fresh_cache(2)[of ?s] by (simp_all add: at_rest_owners cr_new_def)
  have sim: "exact cr_view unrivalled (outer_dispatch E CR (tx_function tx) (fst (tx_signature tx)))
      (outer_dispatch E AR (tx_function tx) (fst (tx_signature tx)))"
    by (simp add: call conc_alone.exact_transfer)
  let ?a = "tr_dispatch (tested_AR E) (tx_function tx) (fst (tx_signature tx)) (ts_view default_value m)"
  from exactD[OF exact_dispatch[OF sim] rest, unfolded view] obtain s2 where
    s2: "tr_dispatch (tested_CR E) (tx_function tx) (fst (tx_signature tx)) ?s = (fst ?a, s2)"
      "is_Panic (fst ?a) \<or> at_rest s2 \<and> cr_view s2 = snd ?a" by blast
  have "tr_dispatch (tested_CR E) = ConcurrentRuntime_dispatch E" by (simp add: tested_CR_def)
  with s2(1) s'(1) have eq: "fst ?a = r" "s2 = s'" by simp_all
  with call_ok have ok: "is_Ok r" by simp
  with s2(2) eq have rest': "at_rest s'" "cr_view s' = snd ?a" by (cases r; simp)+
  show "r = fst ?a" by (simp only: eq)
  show "ts_view default_value m' = snd ?a"
    using rest' fresh_cache(2)[of s'] by (simp add: at_rest_def s'(2))
  have "cr_cache ?s = fmempty" "cr_id ?s = me" "cr_state ?s = m" by (simp_all add: cr_new_def)
  with concurrent_dispatch_follows[OF _ s'(1)] ok owners
  show "\<forall>k t. ts_owner m' k = Some t \<longrightarrow> t = me"
    "\<forall>k. ts_view default_value m' k \<noteq> ts_view default_value m k \<longrightarrow> ts_owner m' k = Some me"
    unfolding s'(2) by (metis option.distinct(1) option.inject)+
qed

lemma assert_executes_eval:
  "execute_transaction E me tx (wo_state wo) = (r, m) \<Longrightarrow>
     report_or_forward (authoring_worker me) tx r (wo\<lparr>wo_state := m\<rparr>) = (Ok x, wo') \<Longrightarrow>
     assert_executes E me tx out wo = (if x = out then Ok () else Panic ''assertion failed'', wo')"
  by (simp add: assert_executes_def execute_or_forward_def authoring_worker_def worker_new_def assertion_defs)

lemma test_transaction_eval:
  "bob E = Inr b \<Longrightarrow>
     new_transfer E a i = Inr (signed_tx E i (BalancesCall (Transfer (pair_public E b) 999)) a)"
  by (simp add: new_transfer_def)

lemma unfunded_transfer:
  assumes E: "staking_ok E" and call: "tx_function tx = BalancesCall (Transfer dest 999)"
    and m: "\<forall>k t. ts_owner m k = Some t \<longrightarrow> t = me" "ts_view default_value m = (\<lambda>_. default_value)"
  obtains m' where "execute_transaction E me tx m = (Ok (RtLogicError ''Does not have enough funds.''), m')"
    "ts_view default_value m' = (\<lambda>_. default_value)" "\<forall>k t. ts_owner m' k = Some t \<longrightarrow> t = me"
proof -
  obtain r m' where run: "execute_transaction E me tx m = (r, m')" by fastforce
  have AR: "tr_dispatch (tested_AR E) (tx_function tx) (fst (tx_signature tx)) (ts_view default_value m)
      = (Ok (RtLogicError ''Does not have enough funds.''), \<lambda>_. default_value)"
    by (simp add: call m(2) test_eval arithmetic_eval staking_maps_ok[OF E] tested_AR_def transfer_def)
  then have ok: "is_Ok (fst (tr_dispatch (tested_AR E) (tx_function tx) (fst (tx_signature tx)) (ts_view default_value m)))"
    by simp
  note l = lone_transfer[OF m(1) run call ok, unfolded AR fst_conv snd_conv]
  show thesis by (rule that[OF _ l(2,3)]) (simp add: run l(1))
qed

lemma new_state: "\<forall>k t. ts_owner ts_new k = Some t \<longrightarrow> t = me" "ts_view default_value ts_new = (\<lambda>_. default_value)"
  by (simp_all add: ts_new_def ts_owner_simps ts_view_simps fun_eq_iff)

lemma can_execute_tx_passes:
  assumes E: "staking_ok E" "keys_ok E"
  shows "passes (can_execute_tx E me) world_new"
proof -
  obtain a b d e where p: "Crypto.alice E = Inr a" "Crypto.bob E = Inr b" "Crypto.dave E = Inr d" "eve E = Inr e"
    using test_accounts[OF E(2)] by metis
  have "edc_ok E" using E(1) by (simp add: staking_ok_def balances_ok_def)
  with test_accounts_distinct[OF E(2) _ p] have ab: "pair_public E a \<noteq> pair_public E b" by auto
  let ?k = "\<lambda>who. key_for (BalanceOf E) who" and ?v = "\<lambda>x. StateValue (sm_enc (BalanceOf E) (ab_from x))"
  let ?tx = "signed_tx E 1 (BalancesCall (Transfer (pair_public E b) 999)) a"
  let ?wk = "authoring_worker me"
  note eval = test_eval arithmetic_eval staking_maps_ok[OF E(1)] tested_AR_def transfer_def
  have key: "?k x = ?k y \<longleftrightarrow> x = y" for x y
    using key_for_eq_iff[of "BalanceOf E" x "BalanceOf E" y] BalanceOf_ok[of E] E(1)
    by (auto simp: staking_ok_def sm_ok_def)
  have enc: "?v x \<noteq> default_value" "?v 0 \<noteq> ?v 999" for x
  proof -
    have dec: "dec_account_balance E (sm_enc (BalanceOf E) y) = Ok y" for y
      using E(1) by (simp add: BalanceOf_def staking_ok_def balances_ok_def)
    moreover have "\<exists>e. dec_account_balance E [] = Err e"
      using E(1) by (simp add: staking_ok_def balances_ok_def)
    ultimately show "?v x \<noteq> default_value" by (metis default_value_def rs.distinct(1) state_value.inject)
    have "ab_from 0 \<noteq> ab_from 999" by (simp add: ab_from_def)
    with dec show "?v 0 \<noteq> ?v 999" by (metis rs.inject(1) state_value.inject)
  qed
  let ?call = "BalancesCall (Transfer (pair_public E b) 999)"
  have AR: "tr_dispatch (tested_AR E) ?call (pair_public E a) ((\<lambda>_. default_value)(?k (pair_public E a) := ?v 999))
      = (Ok RtOk, (\<lambda>_. default_value)(?k (pair_public E a) := ?v 0, ?k (pair_public E b) := ?v 999))"
    using ab by (simp add: eval key)
  obtain m1 where m1: "execute_transaction E me ?tx ts_new = (Ok (RtLogicError ''Does not have enough funds.''), m1)"
    "ts_view default_value m1 = (\<lambda>_. default_value)" "\<forall>k t. ts_owner m1 k = Some t \<longrightarrow> t = me"
    using unfunded_transfer[OF E(1) signed_tx_sel(2) new_state] by metis
  let ?m = "unsafe_insert_genesis_value (?k (pair_public E a)) (?v 999) m1"
  obtain r2 m2 where run2: "execute_transaction E me ?tx ?m = (r2, m2)" by fastforce
  have m: "ts_view default_value ?m = (\<lambda>_. default_value)(?k (pair_public E a) := ?v 999)"
    "\<forall>k t. ts_owner ?m k = Some t \<longrightarrow> t = me"
    using m1(2,3) by (auto simp: unsafe_insert_genesis_value_def state_simps fun_eq_iff)
  have ok2: "is_Ok (fst (tr_dispatch (tested_AR E) (tx_function ?tx) (fst (tx_signature ?tx)) (ts_view default_value ?m)))"
    by (simp only: signed_tx_sel m(1) AR) simp
  note m2 = lone_transfer[OF m(2) run2 signed_tx_sel(2) ok2, unfolded signed_tx_sel m(1) AR fst_conv snd_conv]
  have owners: "ts_owner m2 (?k (pair_public E a)) = Some me" "ts_owner m2 (?k (pair_public E b)) = Some me"
    using m2(4) enc ab unfolding m2(2) by (simp_all add: key)
  let ?wo = "\<lambda>m. world_new\<lparr>wo_state := m\<rparr>"
  have steps: "assert_executes E me ?tx (Executed (RtLogicError ''Does not have enough funds.'')) world_new = (Ok (), ?wo m1)"
    "unwrapC (on_sequential 0 (map_write SR (BalanceOf E) (pair_public E a) (ab_from 999))) (?wo m1) = (Ok (), ?wo ?m)"
    "assert_executes E me ?tx (Executed RtOk) (?wo ?m) = (Ok (), ?wo m2)"
    "bindC (asking to_master) (\<lambda>msgs. assert_that (msgs = [])) (?wo m2) = (Ok (), ?wo m2)"
    "assert_owner E (pair_public E a) me (?wo m2) = (Ok (), ?wo m2)"
    "assert_owner E (pair_public E b) me (?wo m2) = (Ok (), ?wo m2)"
    using m1(1) run2 m2(1) owners
    by (simp_all add: assert_executes_eval[where out = "Executed o'" for o'] report_or_forward_def world_new_def on_sequential_def map_write_def
        sr_write_def sr_new_def assert_owner_def unsafe_read_taint_def unsafe_read_def ts_owner_def assertion_defs)
  show ?thesis
    using p(1,2) by (simp add: can_execute_tx_def passes_bind test_transaction_eval account_eval
        passes_steps steps del: statements.simps)
qed

lemma will_report_passes:
  assumes E: "staking_ok E" "keys_ok E"
  shows "passes (will_report_to_master_if_forwarded_and_executed E me) world_new"
proof -
  obtain a b where p: "Crypto.alice E = Inr a" "Crypto.bob E = Inr b" using test_accounts[OF E(2)] by metis
  let ?tx = "(signed_tx E 1 (BalancesCall (Transfer (pair_public E b) 999)) a)\<lparr>tx_exec_status := Forwarded\<rparr>"
  let ?out = "Executed (RtLogicError ''Does not have enough funds.'')"
  have "tx_function ?tx = BalancesCall (Transfer (pair_public E b) 999)" by simp
  then obtain m1 where m1: "execute_transaction E me ?tx ts_new = (Ok (RtLogicError ''Does not have enough funds.''), m1)"
    using unfunded_transfer[OF E(1) _ new_state] by metis
  then have "assert_executes E me ?tx ?out world_new
      = (Ok (), world_new\<lparr>wo_state := m1, to_master := [new_from_thread me (WorkerExecuted 1)]\<rparr>)"
    by (simp add: assert_executes_eval[where out = ?out] report_or_forward_def world_new_def send_master_def authoring_worker_def
        worker_new_def)
  with p show ?thesis
    by (simp add: will_report_to_master_if_forwarded_and_executed_def passes_bind test_transaction_eval
        passes_steps recv_master_def new_from_thread_def assertion_defs)
qed

text \<open>A worker that is refused the key of the origin changes nothing.\<close>

lemma rivalled_transfer:
  assumes "ts_owner m (key_for (BalanceOf E) (fst (tx_signature tx))) = Some t" "t \<noteq> me"
    and "tx_function tx = BalancesCall (Transfer dest v)"
  shows "execute_transaction E me tx m = (Err (RtTainted t False), m)"
proof -
  have "ts_read default_value (key_for (BalanceOf E) (fst (tx_signature tx))) me m = (Err t, m)"
    using ts.read_denied[OF assms(1,2)] by simp
  then have "cr_read (key_for (BalanceOf E) (fst (tx_signature tx))) (cr_new m me) = (Err t, cr_new m me)"
    by (simp add: cr_read_def cr_new_def)
  then show ?thesis
    by (simp add: execute_transaction_def ConcurrentRuntime_dispatch_def cr_dispatch_def assms(3) transfer_def
        map_read_def or_forward_def map_err_def bindC_def cr_new_def)
qed

lemma taint_eval:
  "taint_with E who t world_new = (Ok (), world_new\<lparr>wo_state := fmupd (key_for (BalanceOf E) who) (sv_new_taint default_value t) ts_new\<rparr>)"
  by (simp add: taint_with_def doing_def unsafe_insert_def world_new_def)

lemma tainted_state:
  "ts_owner (fmupd k (sv_new_taint default_value t) ts_new) k' = (if k' = k then Some t else None)"
  "ts_view default_value (fmupd k (sv_new_taint default_value t) ts_new) = (\<lambda>_. default_value)"
  by (simp_all add: state_simps sv_new_taint_def ts_new_def fun_eq_iff)

text \<open>What the two tests of forwarding find.\<close>

definition tainted_world :: "('p, 'z) balances_env_scheme \<Rightarrow> 'p \<Rightarrow> 'p world" where
  "tainted_world E who = world_new\<lparr>wo_state := fmupd (key_for (BalanceOf E) who) (sv_new_taint default_value 69) ts_new\<rparr>"

lemma tainted_forwards:
  assumes "me \<noteq> 69" "tx_function tx = BalancesCall (Transfer dest v)" "fst (tx_signature tx) = who"
  shows "tx_exec_status tx = Initial \<Longrightarrow>
      assert_executes E me tx (ForwardedTo 69) (tainted_world E who) = (Ok (), send_peer me 69 (TransactionMsg tx) (tainted_world E who))"
    "tx_exec_status tx = Forwarded \<Longrightarrow>
      assert_executes E me tx ForwardedToMaster (tainted_world E who) = (Ok (), send_master me (WorkerOrphan (tx_id tx)) (tainted_world E who))"
proof -
  let ?wo = "tainted_world E who" and ?m = "wo_state (tainted_world E who)"
  have denied: "execute_transaction E me tx ?m = (Err (RtTainted 69 False), ?m)"
    by (rule rivalled_transfer[OF _ _ assms(2)]) (use assms in \<open>simp_all add: tainted_world_def tainted_state\<close>)
  have same: "?wo\<lparr>wo_state := ?m\<rparr> = ?wo" by (simp add: tainted_world_def)
  show "assert_executes E me tx (ForwardedTo 69) ?wo = (Ok (), send_peer me 69 (TransactionMsg tx) ?wo)"
    if "tx_exec_status tx = Initial"
  proof -
    have "report_or_forward (authoring_worker me) tx (Err (RtTainted 69 False)) (?wo\<lparr>wo_state := ?m\<rparr>)
        = (Ok (ForwardedTo 69), send_peer me 69 (TransactionMsg tx) ?wo)"
      using that by (simp add: same report_or_forward_def authoring_worker_def worker_new_def)
    from assert_executes_eval[OF denied this] show ?thesis by simp
  qed
  show "assert_executes E me tx ForwardedToMaster ?wo = (Ok (), send_master me (WorkerOrphan (tx_id tx)) ?wo)"
    if "tx_exec_status tx = Forwarded"
  proof -
    have "report_or_forward (authoring_worker me) tx (Err (RtTainted 69 False)) (?wo\<lparr>wo_state := ?m\<rparr>)
        = (Ok ForwardedToMaster, send_master me (WorkerOrphan (tx_id tx)) ?wo)"
      using that by (simp add: same report_or_forward_def authoring_worker_def worker_new_def)
    from assert_executes_eval[OF denied this] show ?thesis by simp
  qed
qed

lemma tainted_by_itself:
  assumes E: "staking_ok E" and tx: "tx_function tx = BalancesCall (Transfer dest 999)"
    and out: "out = ForwardedTo 69 \<or> out = ForwardedToMaster"
  shows "\<exists>wo. assert_executes E 69 tx out (tainted_world E who) = (Panic ''assertion failed'', wo)"
proof -
  let ?m = "wo_state (tainted_world E who)"
  have m: "\<forall>k t. ts_owner ?m k = Some t \<longrightarrow> t = 69" "ts_view default_value ?m = (\<lambda>_. default_value)"
    by (simp_all add: tainted_world_def tainted_state)
  obtain m' where "execute_transaction E 69 tx ?m = (Ok (RtLogicError ''Does not have enough funds.''), m')"
    by (rule unfunded_transfer[OF E(1) tx m])
  note run = this
  obtain wo where "report_or_forward (authoring_worker 69) tx (Ok (RtLogicError ''Does not have enough funds.''))
      (tainted_world E who\<lparr>wo_state := m'\<rparr>) = (Ok (Executed (RtLogicError ''Does not have enough funds.'')), wo)"
    by (simp add: report_or_forward_def)
  from assert_executes_eval[OF run this, of out] show ?thesis using out by auto
qed

lemma failing_step: "m s = (Panic p, s') \<Longrightarrow> \<not> passes (statements (m # ms)) s"
  by (simp add: passes_def comp_simps)

lemma forwarding_tests:
  assumes E: "staking_ok E" "keys_ok E"
  shows "passes (will_forward_tx_if_tainted E me) world_new \<longleftrightarrow> me \<noteq> 69"
    "passes (will_forward_to_master_if_already_forwarded E me) world_new \<longleftrightarrow> me \<noteq> 69"
proof -
  obtain a b where p: "Crypto.alice E = Inr a" "Crypto.bob E = Inr b" using test_accounts[OF E(2)] by metis
  let ?tx = "signed_tx E 1 (BalancesCall (Transfer (pair_public E b) 999)) a"
  let ?tx' = "?tx\<lparr>tx_exec_status := Forwarded\<rparr>"
  have call: "tx_function ?tx' = BalancesCall (Transfer (pair_public E b) 999)" "fst (tx_signature ?tx') = pair_public E a"
    by simp_all
  have taint: "taint_with E (pair_public E a) 69 world_new = (Ok (), tainted_world E (pair_public E a))"
    by (simp only: taint_eval tainted_world_def)
  note open_tests = will_forward_tx_if_tainted_def will_forward_to_master_if_already_forwarded_def passes_bind p
    test_transaction_eval[OF p(2)] passes_steps taint
  note fw = tainted_forwards(1)[OF _ signed_tx_sel(2,5,3)] tainted_forwards(2)[OF _ call]
  obtain wo where self: "assert_executes E 69 ?tx (ForwardedTo 69) (tainted_world E (pair_public E a)) = (Panic ''assertion failed'', wo)"
    using tainted_by_itself[OF E(1) signed_tx_sel(2)] by blast
  obtain wo' where self': "assert_executes E 69 ?tx' ForwardedToMaster (tainted_world E (pair_public E a)) = (Panic ''assertion failed'', wo')"
    using tainted_by_itself[OF E(1) call(1)] by blast
  note rest = recv_peer_def recv_master_def send_peer_def send_master_def new_from_thread_def tainted_world_def[of E] world_new_def
    assertion_defs
  have "passes (will_forward_tx_if_tainted E 69) world_new \<longleftrightarrow> False"
    by (simp add: open_tests failing_step[of "assert_executes E 69 ?tx (ForwardedTo 69)", OF self] del: statements.simps)
  moreover have "passes (will_forward_tx_if_tainted E me) world_new" if "me \<noteq> 69"
    using that by (simp add: open_tests fw(1) del: statements.simps) (simp add: rest)
  ultimately show "passes (will_forward_tx_if_tainted E me) world_new \<longleftrightarrow> me \<noteq> 69" by blast
  have "passes (will_forward_to_master_if_already_forwarded E 69) world_new \<longleftrightarrow> False"
    by (simp add: open_tests failing_step[of "assert_executes E 69 ?tx' ForwardedToMaster", OF self'] del: statements.simps)
  moreover have "passes (will_forward_to_master_if_already_forwarded E me) world_new" if "me \<noteq> 69"
    using that by (simp add: open_tests fw(2) del: statements.simps) (simp add: rest)
  ultimately show "passes (will_forward_to_master_if_already_forwarded E me) world_new \<longleftrightarrow> me \<noteq> 69" by blast
qed

section \<open>The worker validates as the sequential executor does\<close>

lemma validate_all_apply:
  assumes "apply_transaction E txs (sr_new (wo_state wo) 1) = (Ok oks, s)"
    and "wk_id wk = 1" "wk_master_id wk = 99"
  shows "\<exists>wk'. validate_all E (validation_messages txs) outcomes wk wo
      = Some (wk', send_master 1 ValidationReport (wo\<lparr>wo_state := sr_state s\<rparr>)) \<and> wk_phase wk' = Idle"
  using assms
proof (induction txs arbitrary: outcomes wk wo oks)
  case Nil
  then have "wo\<lparr>wo_state := sr_state s\<rparr> = wo" by (auto simp: sr_new_def)
  with Nil show ?case by (simp add: validation_messages_def run_validate_def)
next
  case (Cons tx txs)
  obtain ok s1 oks' where s1: "SequentialRuntime_dispatch E (tx_function tx) (fst (tx_signature tx)) (sr_new (wo_state wo) 1) = (Ok ok, s1)"
    and rest: "apply_transaction E txs s1 = (Ok oks', s)"
    using Cons.prems(1) by (auto simp: comp_iffs)
  have "apply_transaction E [tx] (sr_new (wo_state wo) 1) = (Ok [ok], s1)" using s1 by (simp add: comp_simps)
  from sr_id_apply[OF this] have s1': "sr_new (sr_state s1) 1 = s1" by (cases s1) (simp add: sr_new_def)
  let ?wo = "wo\<lparr>wo_state := sr_state s1\<rparr>" and ?wk = "wk\<lparr>wk_phase := Validation (outcomes @ [ok])\<rparr>"
  have step: "run_validate E \<lparr>payload = TransactionMsg (set_done 1 tx), msg_from = 99\<rparr> outcomes wk wo = (?wk, ?wo)"
    using Cons.prems(2,3) s1 by (simp add: run_validate_def set_done_def validate_transaction_def validate_outcome_def)
  from Cons.IH[of ?wo oks' ?wk "outcomes @ [ok]"] rest Cons.prems(2,3) s1' step show ?case
    by (simp add: validation_messages_def)
qed

lemma worker_validation_test:
  assumes E: "staking_ok E" "keys_ok E"
  shows "passes (worker_can_validate_block E me) world_new \<longleftrightarrow> me = 1"
proof -
  obtain a b d where p: "Crypto.alice E = Inr a" "Crypto.bob E = Inr b" "Crypto.dave E = Inr d"
    using test_accounts[OF E(2)] by metis
  obtain oks txs where txs: "simple_alice_bob_dave E = Inr txs"
    "\<And>i. \<exists>s. apply_transaction E txs (sr_new (endowed E [(pair_public E a, 100)] ts_new) i) = (Ok oks, s)
      \<and> sr_view s (key_for (BalanceOf E) (pair_public E a)) = StateValue (enc_account_balance E (ab_from 80))
      \<and> sr_view s (key_for (BalanceOf E) (pair_public E b)) = StateValue (enc_account_balance E (ab_from 10))
      \<and> sr_view s (key_for (BalanceOf E) (pair_public E d)) = StateValue (enc_account_balance E (ab_from 10))"
    using two_transfers[OF E p] by metis
  let ?m = "endowed E [(pair_public E a, 100)] ts_new" and ?wo = "\<lambda>m. world_new\<lparr>wo_state := m\<rparr>"
  obtain s where s: "apply_transaction E txs (sr_new ?m 1) = (Ok oks, s)"
    "sr_view s (key_for (BalanceOf E) (pair_public E a)) = StateValue (enc_account_balance E (ab_from 80))"
    "sr_view s (key_for (BalanceOf E) (pair_public E b)) = StateValue (enc_account_balance E (ab_from 10))"
    "sr_view s (key_for (BalanceOf E) (pair_public E d)) = StateValue (enc_account_balance E (ab_from 10))"
    using txs(2)[of 1] by blast
  let ?reported = "send_master 1 ValidationReport (?wo (sr_state s))"
  have endow: "on_sequential 1 (endow_account E SR (pair_public E a) 100) world_new = (Ok (), ?wo ?m)"
    by (simp add: on_sequential_def endow_account_SR world_new_def sr_new_def)
  have validates: "validating E (validation_messages txs) (worker_new 1 99) (?wo ?m) = (Ok (), ?reported)"
    using validate_all_apply[of E txs "?wo ?m" oks s "worker_new 1 99" "[]"] s(1)
    by (auto simp: validating_def worker_new_def world_new_def)
  have reads: "assert_reads (on_sequential 1 (map_read SR (BalanceOf E) who)) ab_free x ?reported = (Ok (), ?reported)"
    if "sr_view s (key_for (BalanceOf E) who) = StateValue (enc_account_balance E (ab_from x))" for who x
  proof -
    have "sr_state (sr_new (sr_state s) 1) = sr_state s" by (simp add: sr_new_def)
    then have "sr_view (sr_new (sr_state s) 1) = sr_view s" by (simp add: sr_view_def)
    moreover have "dec_account_balance E (enc_account_balance E y) = Ok y" for y
      using E(1) by (simp add: staking_ok_def balances_ok_def)
    ultimately show ?thesis
      using that
      by (simp add: on_sequential_def send_master_def map_read_def sr_read_eq BalanceOf_def ab_from_def assertion_defs)
        (simp add: sr_new_def)
  qed
  have "passes (worker_can_validate_block E 1) world_new"
    by (simp add: worker_can_validate_block_def passes_bind txs(1) assert_evals account_eval p passes_steps endow
        validates reads s(2-4) del: statements.simps)
      (simp add: recv_master_def send_master_def world_new_def new_from_thread_def assertion_defs)
  moreover have "me = 1" if "passes (worker_can_validate_block E me) world_new"
    using that by (simp add: worker_can_validate_block_def txs(1) assertion_defs split: if_splits)
  ultimately show ?thesis by blast
qed

end
