(* ===== verification/Master_Tests.thy ===== *)
theory Master_Tests
  imports Worker_Tests Block_Authoring
begin

text \<open>
  The unit tests of the master (\<open>executor/src/concurrent/master.rs\<close>), statement by statement, with one
  and with three workers. The workers do nothing; the test holds the other ends of their channels and
  sends to the master in their place, so every message to the master names the thread of the test as
  its sender, the argument \<open>me\<close>.
\<close>

section \<open>The master under test\<close>

type_synonym 'p master_state = "'p master \<times> 'p world"

definition on_pool :: "'p tx_pool test \<Rightarrow> 'p master_state test" where
  "on_pool t = (\<lambda>(ma, wo). case t (ms_pool ma) of (r, p) \<Rightarrow> (r, (ma\<lparr>ms_pool := p\<rparr>, wo)))"

definition recv_worker :: "thread_id \<Rightarrow> ('p master_state, 'p message, unit) comp" where
  "recv_worker w = (\<lambda>(ma, wo). case to_worker wo w of
     msg # msgs \<Rightarrow> (Ok msg, (ma, wo\<lparr>to_worker := (to_worker wo)(w := msgs)\<rparr>))
   | [] \<Rightarrow> (Panic ''blocked'', (ma, wo)))"

definition send_from :: "thread_id \<Rightarrow> 'p message_payload \<Rightarrow> 'p master_state test" where
  "send_from me p = doing (\<lambda>(ma, wo). (ma, send_master me p wo))"

text \<open>A method of the master: it panics if the master has crashed.\<close>

definition settled :: "'p master_state \<Rightarrow> (unit, unit) rs \<times> 'p master_state" where
  "settled s = (case ms_phase (fst s) of MCrashed p \<Rightarrow> (Panic p, s) | _ \<Rightarrow> (Ok (), s))"

definition run_concurrent_phase :: "'p distributer \<Rightarrow> 'p master_state test" where
  "run_concurrent_phase D = (\<lambda>(ma, wo). case concurrent_phase D ma wo of
     None \<Rightarrow> (Panic ''blocked'', (ma, wo)) | Some s \<Rightarrow> settled s)"

definition run_orphan_pool :: "('p, 'z) staking_env_scheme \<Rightarrow> 'p master_state test" where
  "run_orphan_pool E = (\<lambda>(ma, wo). settled (execute_orphan_pool E ma wo))"

text \<open>
  \<open>collection_phase\<close>, on the messages that were sent: nobody sends any more, so the loop never ends if
  they are not enough.
\<close>

definition collection_end :: "('p, 'z) exec_env_scheme \<Rightarrow> 'p master \<Rightarrow> collection \<Rightarrow> 'p master panicking" where
  "collection_end E ma c =
     (if debug_build E \<and> total c \<noteq> executed_local c + executed_workers c + length (ms_orphans ma)
      then Inl ''assertion failed: `(left == right)`'' else Inr ma)"

fun collection_loop ::
  "('p, 'z) exec_env_scheme \<Rightarrow> 'p message list \<Rightarrow> 'p master \<Rightarrow> collection \<Rightarrow> 'p master panicking option" where
  "collection_loop E [] ma c = (if collection_finished ma c then Some (collection_end E ma c) else None)"
| "collection_loop E (msg # msgs) ma c = (case collect_message E msg (ma, c) of
     Inl m \<Rightarrow> Some (Inl m)
   | Inr (ma', c') \<Rightarrow>
       if collection_finished ma' c' then Some (collection_end E ma' c') else collection_loop E msgs ma' c')"

definition collection_phase :: "('p, 'z) exec_env_scheme \<Rightarrow> 'p master_state test" where
  "collection_phase E = (\<lambda>(ma, wo).
     case collection_loop E (to_master wo) ma
            \<lparr>executed_workers = 0, executed_local = 0, forwarded = 0, reported = 0, total = vp_len (ms_pool ma)\<rparr> of
       None \<Rightarrow> (Panic ''blocked'', (ma, wo))
     | Some (Inl msg) \<Rightarrow> (Panic msg, (ma, wo))
     | Some (Inr ma') \<Rightarrow> (Ok (), (ma', wo)))"

definition expect_transaction :: "thread_id \<Rightarrow> 'p master_state test" where
  "expect_transaction w = bindC (recv_worker w) (\<lambda>msg.
     assert_that (case payload msg of TransactionMsg _ \<Rightarrow> True | _ \<Rightarrow> False))"

definition expect_distribution_done :: "thread_id \<Rightarrow> 'p master_state test" where
  "expect_distribution_done w = bindC (recv_worker w) (\<lambda>msg.
     assert_that (case payload msg of TransactionDistributionDone \<Rightarrow> True | _ \<Rightarrow> False))"

section \<open>The tests with one worker\<close>

definition master_with :: "thread_id list \<Rightarrow> 'p master_state" where
  "master_with ws = ((master_new 1)\<lparr>ms_workers := ws\<rparr>, world_new)"

definition test_master_single :: "('p, 'k, 'z) key_env_scheme \<Rightarrow> 'p master_state test" where
  "test_master_single E =
     bindC (liftP (Crypto.alice E)) (\<lambda>alice.
     bindC (liftP (Crypto.dave E)) (\<lambda>dave.
     bindC (liftP (Crypto.eve E)) (\<lambda>eve.
     statements [
       on_pool (push_transfer E alice 0), on_pool (push_transfer E dave 1), on_pool (push_transfer E eve 2)])))"

definition single_initial_phase_works :: "('p, 'k, 'z) key_env_scheme \<Rightarrow> 'p master_state test" where
  "single_initial_phase_works E = statements
     ([test_master_single E, run_concurrent_phase round_robin]
      @ replicate 3 (expect_transaction 9) @ [expect_distribution_done 9])"

definition single_collection_phase_works :: "('p, 'k, 'z) key_env_scheme \<Rightarrow> thread_id \<Rightarrow> 'p master_state test" where
  "single_collection_phase_works E me = statements
     [test_master_single E, send_from me (AuthoringReport 3 0), collection_phase E]"

section \<open>The tests with three workers\<close>

definition worker_ids :: "thread_id list" where
  "worker_ids = [10, 11, 12]"

definition test_master_multi ::
  "('p, 'k, 'z) key_env_scheme \<Rightarrow> (nat \<Rightarrow> 'k key_pair) \<Rightarrow> 'p master_state test" where
  "test_master_multi E random = statements
     (map (\<lambda>i. on_pool (push_transfer E (random i) (of_nat i))) [0..<45]
      @ [assert_that (45 mod length worker_ids = 0)])"

definition multi_initial_phase_works ::
  "('p, 'k, 'z) key_env_scheme \<Rightarrow> (nat \<Rightarrow> 'k key_pair) \<Rightarrow> 'p master_state test" where
  "multi_initial_phase_works E random = statements
     ([test_master_multi E random, run_concurrent_phase round_robin]
      @ concat (map (\<lambda>w. replicate (45 div length worker_ids) (expect_transaction w)
                         @ [expect_distribution_done w]) worker_ids))"

definition collection_phase_works_basic ::
  "('p, 'k, 'z) key_env_scheme \<Rightarrow> (nat \<Rightarrow> 'k key_pair) \<Rightarrow> thread_id \<Rightarrow> 'p master_state test" where
  "collection_phase_works_basic E random me = statements
     ([test_master_multi E random, run_concurrent_phase round_robin]
      @ replicate (length worker_ids) (send_from me (AuthoringReport (45 div length worker_ids) 0))
      @ [collection_phase E])"

definition execute_orphan_pool_with_logical_error ::
  "('p, 'k, 'z) key_env_scheme \<Rightarrow> (nat \<Rightarrow> 'k key_pair) \<Rightarrow> 'p master_state test" where
  "execute_orphan_pool_with_logical_error E random =
     bindC (test_master_multi E random) (\<lambda>_.
     bindC (liftP (simple_alice_bob_dave E)) (\<lambda>txs.
     bindC (account E (Crypto.alice E)) (\<lambda>alice.
     statements [
       (\<lambda>(ma, wo). case on_sequential (ms_id ma) (endow_account E SR alice 5) wo of (r, wo') \<Rightarrow> (r, (ma, wo'))),
       doing (\<lambda>(ma, wo). (ma\<lparr>ms_orphans := ms_orphans ma @ map set_orphan txs\<rparr>, wo)),
       run_orphan_pool E])))"

definition collection_phase_works_with_forwarded ::
  "('p, 'k, 'z) key_env_scheme \<Rightarrow> (nat \<Rightarrow> 'k key_pair) \<Rightarrow> thread_id \<Rightarrow> 'p master_state test" where
  "collection_phase_works_with_forwarded E random me = statements
     ([test_master_multi E random, run_concurrent_phase round_robin]
      @ replicate (length worker_ids) (send_from me (AuthoringReport (45 div length worker_ids - 1) 1))
      @ map (\<lambda>i. send_from me (WorkerExecuted (of_nat i))) [0..<length worker_ids]
      @ [collection_phase E])"

section \<open>Proofs\<close>

lemma statements_append: "statements (xs @ ys) s = bindC (statements xs) (\<lambda>_. statements ys) s"
  by (induction xs arbitrary: s) (simp_all add: bindC_def split: prod.splits rs.splits)

lemma passes_append: "statements xs s = (Ok (), s') \<Longrightarrow> passes (statements (xs @ ys)) s \<longleftrightarrow> passes (statements ys) s'"
  by (simp add: passes_def statements_append comp_simps)

text \<open>The transactions in the pool of a test.\<close>

definition test_transfers :: "('p, 'k, 'z) key_env_scheme \<Rightarrow> 'k key_pair \<Rightarrow> 'k key_pair list \<Rightarrow> nat \<Rightarrow> 'p transaction list" where
  "test_transfers E b origins n =
     map (\<lambda>(i, who). signed_tx E (of_nat i) (BalancesCall (Transfer (pair_public E b) 999)) who) (enumerate n origins)"

lemma push_transfers:
  assumes E: "keys_ok E" and b: "Crypto.bob E = Inr b" and pairs: "\<forall>p\<in>set origins. matching_pair E p"
  shows "statements (map (\<lambda>(i, who). on_pool (push_transfer E who (of_nat i))) (enumerate n origins)) (ma, wo)
     = (Ok (), (ma\<lparr>ms_pool := vp_from (vp_all (ms_pool ma) @ test_transfers E b origins n)\<rparr>, wo))"
  using pairs
proof (induction origins arbitrary: n ma)
  case (Cons who origins)
  have "tx_verify E (signed_tx E (of_nat n) (BalancesCall (Transfer (pair_public E b) 999)) who)"
    using Cons.prems by (simp add: signed_tx_verifies[OF E])
  then have "on_pool (push_transfer E who (of_nat n)) (ma, wo)
      = (Ok (), (ma\<lparr>ms_pool := vp_from (vp_all (ms_pool ma) @ test_transfers E b [who] n)\<rparr>, wo))"
    by (simp add: on_pool_def push_transfer_def test_transaction_eval[OF b] comp_simps pooling_def
        vp_push_back_def test_transfers_def vp_from_def vp_all_def)
  with Cons show ?case
    by (simp add: comp_simps vp_all_def vp_from_def test_transfers_def)
qed (simp add: test_transfers_def vp_all_def vp_from_def)

lemma test_transfers_sel:
  "length (test_transfers E b origins n) = length origins"
  "map tx_id (test_transfers E b origins n) = map of_nat [n..<n + length origins]"
  by (simp add: test_transfers_def)
    (induction origins arbitrary: n; simp add: test_transfers_def upt_conv_Cons del: upt_Suc)

text \<open>The concurrent phase on the pool of a test.\<close>

lemma test_phase:
  assumes ws: "ws \<noteq> []" "distinct ws" "ms_workers ma = ws" and ready: "ms_phase ma = MReady"
    and txs: "vp_all (ms_pool ma) \<noteq> []" "distinct (map tx_id (vp_all (ms_pool ma)))"
  obtains p wo' where "run_concurrent_phase round_robin (ma, wo) = (Ok (), (ma\<lparr>ms_pool := p\<rparr>, wo'))"
    "length (vp_all p) = length (vp_all (ms_pool ma))"
    "\<And>i. i < length (vp_all p) \<Longrightarrow> vp_all p ! i = (vp_all (ms_pool ma) ! i)\<lparr>tx_tag := Done (ws ! (i mod length ws))\<rparr>"
    "wo_state wo' = wo_state wo" "to_master wo' = to_master wo"
    "\<And>w. w \<in> set ws \<Longrightarrow> to_worker wo' w = to_worker wo w
       @ map (new_from_thread (ms_id ma)) (map TransactionMsg (tagged w (vp_all p)) @ [TransactionDistributionDone])"
proof (rule concurrent_phase_run[of round_robin ma wo])
  show "distributes_to round_robin (ms_workers ma) (ms_pool ma)"
    using rr.distributes[of "ms_workers ma" "ms_pool ma"] ws txs by (simp add: distributes_to_def)
  fix p wo'
  assume a: "concurrent_phase round_robin ma wo = Some (ma\<lparr>ms_pool := p\<rparr>, wo')"
    "wo_state wo' = wo_state wo" "to_master wo' = to_master wo"
    "\<And>w. w \<in> set (ms_workers ma) \<Longrightarrow> to_worker wo' w = to_worker wo w
       @ map (new_from_thread (ms_id ma)) (map TransactionMsg (tagged w (vp_all p)) @ [TransactionDistributionDone])"
    "round_robin (ms_workers ma) (ms_pool ma) = Some (Inr p)"
  have p: "p = vp_iter_mut (\<lambda>idx tx. tx\<lparr>tx_tag := Done (ws ! (idx mod length ws))\<rparr>) (ms_pool ma)"
    using a(5) ws by (simp add: round_robin_def)
  show thesis
    by (rule that[of p wo'])
      (use a(1-4) ws ready p in \<open>simp_all add: run_concurrent_phase_def settled_def iter_mut_nth\<close>)
qed (use ws in simp)

text \<open>Receiving what the master has sent to one worker.\<close>

lemma receive_all:
  assumes "to_worker wo w = map (new_from_thread i) (map TransactionMsg txs @ [TransactionDistributionDone])"
  shows "statements (replicate (length txs) (expect_transaction w) @ [expect_distribution_done w]) (ma, wo)
     = (Ok (), (ma, wo\<lparr>to_worker := (to_worker wo)(w := [])\<rparr>))"
  using assms
proof (induction txs arbitrary: wo)
  case Nil
  then show ?case
    by (simp add: expect_distribution_done_def recv_worker_def new_from_thread_def bindC_def assert_that_def
        fun_upd_def)
next
  case (Cons tx txs)
  let ?wo = "wo\<lparr>to_worker := (to_worker wo)(w := map (new_from_thread i) (map TransactionMsg txs @ [TransactionDistributionDone]))\<rparr>"
  have "expect_transaction w (ma, wo) = (Ok (), (ma, ?wo))"
    using Cons.prems by (simp add: expect_transaction_def recv_worker_def bindC_def assert_that_def)
      (simp add: new_from_thread_def)
  moreover have "?wo\<lparr>to_worker := (to_worker ?wo)(w := [])\<rparr> = wo\<lparr>to_worker := (to_worker wo)(w := [])\<rparr>"
    by (simp add: fun_upd_upd)
  moreover have "statements (replicate (length txs) (expect_transaction w) @ [expect_distribution_done w]) (ma, ?wo)
      = (Ok (), (ma, ?wo\<lparr>to_worker := (to_worker ?wo)(w := [])\<rparr>))"
    by (rule Cons.IH) simp
  ultimately show ?case by (simp add: bindC_evals) (simp add: fun_upd_def)
qed

text \<open>The master after the setup of a test, and the start of the concurrent phase from there.\<close>

definition master_started :: "thread_id list \<Rightarrow> 'p transaction list \<Rightarrow> 'p master" where
  "master_started ws txs = (master_new 1)\<lparr>ms_workers := ws, ms_pool := vp_from txs\<rparr>"

lemma test_setups:
  assumes E: "keys_ok E" and p: "Crypto.alice E = Inr a" "Crypto.bob E = Inr b" "Crypto.dave E = Inr d" "Crypto.eve E = Inr e"
    and pairs: "\<forall>p\<in>{a, d, e}. matching_pair E p" "\<forall>i. matching_pair E (random i)"
  shows "test_master_single E (master_with [9]) = (Ok (), (master_started [9] (test_transfers E b [a, d, e] 0), world_new))"
    "test_master_multi E random (master_with worker_ids)
       = (Ok (), (master_started worker_ids (test_transfers E b (map random [0..<45]) 0), world_new))"
proof -
  note push = push_transfers[OF E p(2), where n = 0 and wo = world_new]
  have "statements (map (\<lambda>(i, who). on_pool (push_transfer E who (of_nat i))) (enumerate 0 [a, d, e])) (master_with [9])
      = (Ok (), (master_started [9] (test_transfers E b [a, d, e] 0), world_new))"
    using push[of "[a, d, e]" "(master_new 1)\<lparr>ms_workers := [9]\<rparr>"] pairs(1)
    by (simp add: master_with_def master_started_def master_new_def vp_new_def vp_all_def del: statements.simps enumerate_simps)
  then show "test_master_single E (master_with [9]) = (Ok (), (master_started [9] (test_transfers E b [a, d, e] 0), world_new))"
    by (simp add: test_master_single_def p comp_simps del: statements.simps)
  have "statements (map (\<lambda>i. on_pool (push_transfer E (random i) (of_nat i))) [0..<45]) (master_with worker_ids)
      = (Ok (), (master_started worker_ids (test_transfers E b (map random [0..<45]) 0), world_new))"
    using push[of "map random [0..<45]" "(master_new 1)\<lparr>ms_workers := worker_ids\<rparr>"] pairs(2)
    by (simp add: master_with_def master_started_def master_new_def vp_new_def vp_all_def enumerate_map_upt comp_def
        del: statements.simps upt_rec_numeral)
  then show "test_master_multi E random (master_with worker_ids)
       = (Ok (), (master_started worker_ids (test_transfers E b (map random [0..<45]) 0), world_new))"
    by (simp add: test_master_multi_def statements_append bindC_evals worker_ids_def assert_that_def
        del: upt_rec_numeral)
qed

lemma started_phase:
  assumes ws: "ws \<noteq> []" "distinct ws" and n: "0 < length origins" "length origins \<le> 2 ^ 32"
  obtains p wo' where "run_concurrent_phase round_robin (master_started ws (test_transfers E b origins 0), world_new)
      = (Ok (), (master_started ws (vp_all p), wo'))"
    "length (vp_all p) = length origins" "map tx_id (vp_all p) = map of_nat [0..<length origins]"
    "map tx_tag (vp_all p) = map (\<lambda>i. Done (ws ! (i mod length ws))) [0..<length origins]"
    "\<And>i. i < length origins \<Longrightarrow> untagged (vp_all p ! i) = untagged (test_transfers E b origins 0 ! i)"
    "to_master wo' = []"
    "\<And>w. w \<in> set ws \<Longrightarrow> to_worker wo' w
       = map (new_from_thread 1) (map TransactionMsg (tagged w (vp_all p)) @ [TransactionDistributionDone])"
proof -
  let ?txs = "test_transfers E b origins 0" and ?ma = "master_started ws (test_transfers E b origins 0)"
  have pool: "vp_all (ms_pool ?ma) = ?txs" "ms_workers ?ma = ws" "ms_phase ?ma = MReady" "ms_id ?ma = 1"
    by (simp_all add: master_started_def master_new_def vp_from_def vp_all_def)
  have "distinct (map tx_id ?txs)" unfolding test_transfers_sel(2) using numbered_ids[OF n(2)] by simp
  then have txs: "vp_all (ms_pool ?ma) \<noteq> []" "distinct (map tx_id (vp_all (ms_pool ?ma)))"
    unfolding pool(1) using n(1) test_transfers_sel(1)[of E b origins 0] by auto
  obtain p wo' where p: "run_concurrent_phase round_robin (?ma, world_new) = (Ok (), (?ma\<lparr>ms_pool := p\<rparr>, wo'))"
    "length (vp_all p) = length ?txs"
    "\<And>i. i < length (vp_all p) \<Longrightarrow> vp_all p ! i = (?txs ! i)\<lparr>tx_tag := Done (ws ! (i mod length ws))\<rparr>"
    "to_master wo' = to_master world_new"
    "\<And>w. w \<in> set ws \<Longrightarrow> to_worker wo' w = to_worker world_new w
       @ map (new_from_thread 1) (map TransactionMsg (tagged w (vp_all p)) @ [TransactionDistributionDone])"
    by (rule test_phase[OF ws pool(2,3) txs, of world_new thesis, unfolded pool]) blast
  have "map tx_id (vp_all p) = map tx_id ?txs"
    by (rule nth_equalityI) (use p(2,3) in simp_all)
  moreover have "map tx_tag (vp_all p) = map (\<lambda>i. Done (ws ! (i mod length ws))) [0..<length origins]"
    by (rule nth_equalityI) (use p(2,3) test_transfers_sel(1)[of E b origins 0] in simp_all)
  ultimately show thesis
    using p test_transfers_sel[of E b origins 0]
    by (intro that[of p wo']) (simp_all add: master_started_def world_new_def vp_from_def vp_all_def untagged_def)
qed

lemma tagged_length:
  assumes "map tx_tag txs = map (\<lambda>i. Done (f i)) [0..<n]"
  shows "length (tagged w txs) = length (filter (\<lambda>i. f i = w) [0..<n])"
proof -
  have "length (tagged w txs) = length (filter (\<lambda>t. t = Done w) (map tx_tag txs))"
    by (simp add: tagged_def filter_map comp_def)
  then show ?thesis by (simp add: assms filter_map comp_def)
qed

lemma initial_phase_tests:
  assumes E: "keys_ok E" and pairs: "\<forall>i. matching_pair E (random i)"
  shows "passes (single_initial_phase_works E) (master_with [9])"
    "passes (multi_initial_phase_works E random) (master_with worker_ids)"
proof -
  obtain a b d e where p: "Crypto.alice E = Inr a" "matching_pair E a" "Crypto.bob E = Inr b"
    "Crypto.dave E = Inr d" "matching_pair E d" "Crypto.eve E = Inr e" "matching_pair E e"
    using test_accounts[OF E] by metis
  have "\<forall>p\<in>{a, d, e}. matching_pair E p" using p by simp
  note prepared = test_setups[OF E p(1,3,4,6) this pairs]
  show "passes (single_initial_phase_works E) (master_with [9])"
  proof (rule started_phase[of "[9]" "[a, d, e]" E b])
    fix q wo
    assume q: "run_concurrent_phase round_robin (master_started [9] (test_transfers E b [a, d, e] 0), world_new)
        = (Ok (), (master_started [9] (vp_all q), wo))" "length (vp_all q) = length [a, d, e]"
      "map tx_tag (vp_all q) = map (\<lambda>i. Done ([9] ! (i mod length [9 :: thread_id]))) [0..<length [a, d, e]]"
      "\<And>w. w \<in> set [9] \<Longrightarrow> to_worker wo w
         = map (new_from_thread 1) (map TransactionMsg (tagged w (vp_all q)) @ [TransactionDistributionDone])"
    have "length (tagged 9 (vp_all q)) = 3" by (subst tagged_length[OF q(3)]) (simp add: upt_rec)
    with receive_all[OF q(4)] have "statements (replicate 3 (expect_transaction 9) @ [expect_distribution_done 9])
        (master_started [9] (vp_all q), wo) = (Ok (), (master_started [9] (vp_all q), wo\<lparr>to_worker := (to_worker wo)(9 := [])\<rparr>))"
      by (metis list.set_intros(1))
    then show ?thesis
      unfolding single_initial_phase_works_def append.simps passes_steps(2)[where m = "test_master_single E", OF prepared(1)] passes_steps(2)[where m = "run_concurrent_phase round_robin", OF q(1)]
      by (simp only: passes_def fst_conv)
  qed simp_all
  show "passes (multi_initial_phase_works E random) (master_with worker_ids)"
  proof (rule started_phase[of worker_ids "map random [0..<45]" E b])
    fix q wo
    assume q: "run_concurrent_phase round_robin (master_started worker_ids (test_transfers E b (map random [0..<45]) 0), world_new)
        = (Ok (), (master_started worker_ids (vp_all q), wo))"
      "map tx_tag (vp_all q) = map (\<lambda>i. Done (worker_ids ! (i mod length worker_ids))) [0..<length (map random [0..<45])]"
      "\<And>w. w \<in> set worker_ids \<Longrightarrow> to_worker wo w
         = map (new_from_thread 1) (map TransactionMsg (tagged w (vp_all q)) @ [TransactionDistributionDone])"
    let ?ma = "master_started worker_ids (vp_all q)"
    have each: "statements (replicate 15 (expect_transaction w) @ [expect_distribution_done w]) (?ma, v)
        = (Ok (), (?ma, v\<lparr>to_worker := (to_worker v)(w := [])\<rparr>))"
      if w: "w \<in> set worker_ids" and v: "to_worker v w = to_worker wo w" for w v
    proof -
      have "length (tagged w (vp_all q)) = 15"
        using w by (subst tagged_length[OF q(2)]) (auto simp: worker_ids_def upt_rec)
      with receive_all[of v w 1 "tagged w (vp_all q)" ?ma] v q(3)[OF w] show ?thesis by metis
    qed
    have "passes (statements (concat (map (\<lambda>w. replicate 15 (expect_transaction w) @ [expect_distribution_done w]) ws))) (?ma, v)"
      if "distinct ws" "set ws \<subseteq> set worker_ids" "\<forall>w\<in>set ws. to_worker v w = to_worker wo w" for ws v
      using that
    proof (induction ws arbitrary: v)
      case (Cons w ws)
      let ?v = "v\<lparr>to_worker := (to_worker v)(w := [])\<rparr>"
      have "passes (statements (concat (map (\<lambda>w. replicate 15 (expect_transaction w) @ [expect_distribution_done w]) ws))) (?ma, ?v)"
        using Cons.prems by (intro Cons.IH) auto
      moreover have "w \<in> set worker_ids" "to_worker v w = to_worker wo w" using Cons.prems by simp_all
      ultimately show ?case by (simp only: list.map concat.simps passes_append[where xs = "replicate 15 (expect_transaction w) @ [expect_distribution_done w]", OF each])
    qed (simp add: passes_def)
    from this[of worker_ids wo] have "passes (statements (concat (map (\<lambda>w. replicate 15 (expect_transaction w)
        @ [expect_distribution_done w]) worker_ids))) (?ma, wo)" by (simp add: worker_ids_def)
    moreover have "45 div length worker_ids = 15" by (simp add: worker_ids_def)
    ultimately show ?thesis
      unfolding multi_initial_phase_works_def append.simps passes_steps(2)[where m = "test_master_multi E random", OF prepared(2)] passes_steps(2)[where m = "run_concurrent_phase round_robin", OF q(1)]
      by (simp only:)
  qed (simp_all add: worker_ids_def)
qed

lemma sends: "send_from me p (ma, wo) = (Ok (), (ma, send_master me p wo))"
  by (simp add: send_from_def doing_def)

lemma passes_last: "passes (statements [t]) s \<longleftrightarrow> fst (t s) = Ok ()"
  by (simp add: passes_def bindC_def split: prod.split rs.split)

lemma collection_tests:
  assumes E: "keys_ok E" and pairs: "\<forall>i. matching_pair E (random i)"
  shows "passes (single_collection_phase_works E me) (master_with [9])"
    "passes (collection_phase_works_basic E random me) (master_with worker_ids)"
    "passes (collection_phase_works_with_forwarded E random me) (master_with worker_ids) \<longleftrightarrow> me \<notin> set worker_ids"
proof -
  obtain a b d e where p: "Crypto.alice E = Inr a" "matching_pair E a" "Crypto.bob E = Inr b"
    "Crypto.dave E = Inr d" "matching_pair E d" "Crypto.eve E = Inr e" "matching_pair E e"
    using test_accounts[OF E] by metis
  have "\<forall>p\<in>{a, d, e}. matching_pair E p" using p by simp
  note prepared = test_setups[OF E p(1,3,4,6) this pairs]
  let ?txs = "test_transfers E b [a, d, e] 0"
  have "collection_phase E (master_started [9] ?txs, send_master me (AuthoringReport 3 0) world_new)
      = (Ok (), (master_started [9] ?txs, send_master me (AuthoringReport 3 0) world_new))"
    by (simp add: collection_phase_def send_master_def world_new_def new_from_thread_def collect_message_def
        collection_finished_def collection_end_def master_started_def master_new_def vp_len_def vp_from_def
        test_transfers_sel(1))
  then show "passes (single_collection_phase_works E me) (master_with [9])"
    using prepared(1) by (simp add: single_collection_phase_works_def sends passes_steps passes_def comp_simps)
  obtain q wo where q: "run_concurrent_phase round_robin (master_started worker_ids (test_transfers E b (map random [0..<45]) 0), world_new)
        = (Ok (), (master_started worker_ids (vp_all q), wo))"
      "length (vp_all q) = 45" "map tx_id (vp_all q) = map of_nat [0..<45]"
      "map tx_tag (vp_all q) = map (\<lambda>i. Done (worker_ids ! (i mod length worker_ids))) [0..<45]"
      "\<And>i. i < 45 \<Longrightarrow> untagged (vp_all q ! i) = untagged (test_transfers E b (map random [0..<45]) 0 ! i)"
      "to_master wo = []"
    by (rule started_phase[of worker_ids "map random [0..<45]" E b]) (simp_all add: worker_ids_def)
  let ?ma = "master_started worker_ids (vp_all q)"
  have open_tests: "passes (statements (test_master_multi E random # run_concurrent_phase round_robin # ts)) (master_with worker_ids)
      \<longleftrightarrow> passes (statements ts) (?ma, wo)" for ts
    by (simp only: passes_steps(2)[where m = "test_master_multi E random", OF prepared(2)]
        passes_steps(2)[where m = "run_concurrent_phase round_robin", OF q(1)])
  have three: "length worker_ids = Suc (Suc (Suc 0))" "[0..<length worker_ids] = [0, Suc 0, Suc (Suc 0)]"
    by (simp_all add: worker_ids_def upt_rec)
  show "passes (collection_phase_works_basic E random me) (master_with worker_ids)"
    unfolding collection_phase_works_basic_def append.simps open_tests three replicate.simps
    by (simp add: sends comp_simps passes_def send_master_def q(2,6) new_from_thread_def collection_phase_def
        collect_message_def collection_finished_def collection_end_def master_started_def master_new_def vp_len_def
        vp_from_def worker_ids_def)
  obtain x y z rest where xs: "vp_all q = x # y # z # rest" "length rest = 42"
    using q(2) by (auto simp: length_Suc_conv numeral_eq_Suc)
  have ids: "tx_id x = 0" "tx_id y = 1" "tx_id z = 2" and tags: "tx_tag x = Done 10" "tx_tag y = Done 11" "tx_tag z = Done 12"
    using q(3,4) by (simp_all add: xs(1) upt_rec worker_ids_def)
  show "passes (collection_phase_works_with_forwarded E random me) (master_with worker_ids) \<longleftrightarrow> me \<notin> set worker_ids"
  proof -
    have "tx_verify E tx" if "tx \<in> set (test_transfers E b (map random [0..<45]) 0)" for tx
      using that pairs by (auto simp: test_transfers_def signed_tx_verifies[OF E] enumerate_map_upt simp del: upt_rec_numeral)
    note valid = this
    have "tx_verify E (vp_all q ! i)" if "i < 45" for i
    proof -
      have "test_transfers E b (map random [0..<45]) 0 ! i \<in> set (test_transfers E b (map random [0..<45]) 0)"
        using that by (intro nth_mem) (simp add: test_transfers_sel(1))
      from valid[OF this] show ?thesis using q(5)[OF that] untagged_simps(5) by metis
    qed
    from this[of 0] this[of 1] this[of 2] have verified: "tx_verify E x" "tx_verify E y" "tx_verify E z" by (simp_all add: xs)
    have "passes (collection_phase_works_with_forwarded E random me) (master_with worker_ids) \<longleftrightarrow> (me \<noteq> 10 \<and> me \<noteq> 11 \<and> me \<noteq> 12)"
      unfolding collection_phase_works_with_forwarded_def append.simps open_tests three replicate.simps list.map
      by (simp add: sends passes_steps passes_last del: statements.simps)
        (simp add: send_master_def xs ids tags verified q(6) new_from_thread_def
          collection_phase_def collect_message_def collection_finished_def collection_end_def master_started_def
          master_new_def vp_len_def vp_from_def vp_iter_def vp_remove_at_def vp_push_back_def worker_ids_def)
    then show ?thesis by (simp add: worker_ids_def)
  qed
qed

lemma orphan_pool_test:
  assumes E: "staking_ok E" "keys_ok E" and pairs: "\<forall>i. matching_pair E (random i)"
  shows "passes (execute_orphan_pool_with_logical_error E random) (master_with worker_ids)"
proof -
  obtain a b d e where p: "Crypto.alice E = Inr a" "matching_pair E a" "Crypto.bob E = Inr b"
    "Crypto.dave E = Inr d" "matching_pair E d" "Crypto.eve E = Inr e" "matching_pair E e"
    using test_accounts[OF E(2)] by metis
  have "\<forall>p\<in>{a, d, e}. matching_pair E p" using p by simp
  note prepared = test_setups[OF E(2) p(1,3,4,6) this pairs]
  obtain txs where txs: "simple_alice_bob_dave E = Inr txs" "sane E txs"
    using two_transfers[OF E p(1,3,4)] by metis
  let ?m = "funded E (pair_public E a) 5" and ?ma = "master_started worker_ids (test_transfers E b (map random [0..<45]) 0)"
  let ?start = "sr_new ?m 1" and ?orphans = "map set_orphan txs"
  have endow: "on_sequential 1 (endow_account E SR (pair_public E a) 5) world_new = (Ok (), world_new\<lparr>wo_state := ?m\<rparr>)"
    by (simp add: on_sequential_def endow_account_SR world_new_def sr_new_def endowed_def funded_def ab_from_new)
  have "well_formed E (sr_state ?start)"
    using chain_funded(2)[OF E(1)] chain_inv_funded[OF E(1)] by (simp add: well_formed_def sr_new_def)
  moreover have "\<forall>tx\<in>set ?orphans. tx_tag tx = Orphan \<and> \<not> names_default_controller E (tx_function tx)"
    using txs(2) by (auto simp: sane_def list_all_iff set_orphan_def)
  ultimately obtain oks s where s: "execute_orphans E ?orphans ?start = (Ok oks, s)"
    using execute_orphans_run[OF E(1)] by blast
  have "ms_id ?ma = 1" "ms_orphans ?ma = []" by (simp_all add: master_started_def master_new_def)
  then show ?thesis
    using s by (simp add: execute_orphan_pool_with_logical_error_def passes_bind prepared(2) txs(1) account_eval[OF p(1)]
        passes_steps endow doing_def passes_last run_orphan_pool_def execute_orphan_pool_def settled_def del: statements.simps)
qed

section \<open>Properties\<close>

definition worker_tests :: "('p, 'k, 'z) key_env_scheme \<Rightarrow> thread_id \<Rightarrow> 'p world test list" where
  "worker_tests E me = [can_execute_tx E me, will_report_to_master_if_forwarded_and_executed E me,
     will_forward_tx_if_tainted E me, will_forward_to_master_if_already_forwarded E me, worker_can_validate_block E me]"

definition single_worker_tests :: "('p, 'k, 'z) key_env_scheme \<Rightarrow> thread_id \<Rightarrow> 'p master_state test list" where
  "single_worker_tests E me = [single_initial_phase_works E, single_collection_phase_works E me]"

definition multi_worker_tests ::
  "('p, 'k, 'z) key_env_scheme \<Rightarrow> (nat \<Rightarrow> 'k key_pair) \<Rightarrow> thread_id \<Rightarrow> 'p master_state test list" where
  "multi_worker_tests E random me = [multi_initial_phase_works E random, collection_phase_works_basic E random me,
     execute_orphan_pool_with_logical_error E random, collection_phase_works_with_forwarded E random me]"

text \<open>C24. The outcome of the unit tests of the workers and of the master depends on the id of the thread
  they run on. All others always pass, whatever key pairs are drawn; but the two tests of forwarding
  fail on thread 69, which is the id they give the other worker, the test of validation passes on
  thread 1 only, as its own assertion says, and the test of the collection phase with forwarded
  transactions fails on threads 10, 11 and 12, the ids of its workers: there the report of an execution
  seems to come from the worker the transaction was assigned to.\<close>

theorem thread_tests_depend_on_thread_id:
  assumes "staking_ok E" "keys_ok E" "\<forall>i. matching_pair E (random i)"
  shows "map (\<lambda>t. passes t world_new) (worker_tests E me) = [True, True, me \<noteq> 69, me \<noteq> 69, me = 1]
    \<and> list_all (\<lambda>t. passes t (master_with [9])) (single_worker_tests E me)
    \<and> map (\<lambda>t. passes t (master_with worker_ids)) (multi_worker_tests E random me)
        = [True, True, True, me \<notin> {10, 11, 12}]"
proof -
  have "set worker_ids = {10, 11, 12}" by (simp add: worker_ids_def)
  then show ?thesis
    by (simp add: worker_tests_def single_worker_tests_def multi_worker_tests_def can_execute_tx_passes[OF assms(1,2)]
        will_report_passes[OF assms(1,2)] forwarding_tests[OF assms(1,2)] worker_validation_test[OF assms(1,2)]
        initial_phase_tests[OF assms(2,3)] collection_tests[OF assms(2,3)] orphan_pool_test[OF assms])
qed

end
