(* ===== verification/Block_Semantics.thy ===== *)
theory Block_Semantics
  imports Example_System
begin

text \<open>
  What a block means. The values a concurrent run leaves are those of executing the transactions of
  its block one after the other, in the order in which the block lists them; so the chain is the
  one the specifications of the calls compute.
\<close>

section \<open>Sequential runs of different executors\<close>

lemma apply_transaction_append:
  "apply_transaction E (xs @ ys) s = (case apply_transaction E xs s of
     (Ok oks, s1) \<Rightarrow> (case apply_transaction E ys s1 of (Ok oks', s2) \<Rightarrow> (Ok (oks @ oks'), s2) | r \<Rightarrow> r)
   | r \<Rightarrow> r)"
  by (induction xs arbitrary: s) (auto simp: bindC_def ret_def split: prod.split rs.split)

lemma apply_sequential_run:
  assumes "sequential_run E es m = (rs, n)" "list_all is_Ok rs" "sr_view s = values_of m"
  shows "\<exists>oks s'. apply_transaction E (map snd es) s = (Ok oks, s') \<and> sr_view s' = values_of n"
  using assms
proof (induction es arbitrary: m rs s)
  case (Cons e es)
  obtain w tx where e: "e = (w, tx)" by fastforce
  let ?d = "SequentialRuntime_dispatch E (tx_function tx) (fst (tx_signature tx))"
  obtain r q where r: "?d (sr_new m w) = (r, q)" by fastforce
  obtain rs1 where rest: "sequential_run E es (sr_state q) = (rs1, n)" "rs = r # rs1"
    using Cons.prems(1) r by (auto simp: e split: prod.splits)
  obtain r' s1 where s1: "?d s = (r', s1)" by fastforce
  have "sr_view s = sr_view (sr_new m w)" using Cons.prems(3) by (simp add: view_of_new)
  from dispatch_values[OF this, of E "tx_function tx" "fst (tx_signature tx)"] r s1
  have same: "r' = r" "sr_view s1 = values_of (sr_state q)" by (simp_all add: sr_view_def)
  obtain ok where ok: "r = Ok ok" using Cons.prems(2) rest(2) by (cases r) auto
  from Cons.IH[OF rest(1) _ same(2)] Cons.prems(2) rest(2) obtain oks s' where
    "apply_transaction E (map snd es) s1 = (Ok oks, s')" "sr_view s' = values_of n" by auto
  with s1 same(1) ok show ?case by (simp add: e comp_simps)
qed (simp add: comp_simps)

lemma apply_orphans:
  assumes "execute_orphans E txs s = (Ok oks, s')" "sr_view t = sr_view s"
  shows "\<exists>oks' t'. apply_transaction E txs t = (Ok oks', t') \<and> sr_view t' = sr_view s'"
  using assms
proof (induction txs arbitrary: s t oks)
  case (Cons tx txs)
  let ?d = "SequentialRuntime_dispatch E (tx_function tx) (fst (tx_signature tx))"
  obtain ok s1 oks1 where s1: "?d s = (Ok ok, s1)" "execute_orphans E txs s1 = (Ok oks1, s')"
    using Cons.prems(1) by (auto simp: comp_iffs split: if_splits)
  obtain r t1 where t1: "?d t = (r, t1)" by fastforce
  have same: "r = Ok ok" "sr_view t1 = sr_view s1"
    using dispatch_values[OF Cons.prems(2), of E "tx_function tx" "fst (tx_signature tx)"] s1(1) t1 by simp_all
  from Cons.IH[OF s1(2) same(2)] t1 same(1) show ?case by (auto simp: comp_simps)
qed (simp add: comp_simps)

section \<open>The block as a sequential run\<close>

definition executor_of :: "'p transaction \<Rightarrow> thread_id" where
  "executor_of tx = (case tx_tag tx of Done w \<Rightarrow> w | _ \<Rightarrow> 0)"

lemma listed_calls:
  assumes "\<forall>tx\<in>set txs. \<exists>w. tx_tag tx = Done w"
  shows "calls_of w (map (\<lambda>tx. (executor_of tx, tx)) txs) = map tx_call (tagged w txs)"
  using assms by (induction txs) (auto simp: calls_of_def tagged_def executor_of_def)

lemma block_runs_sequentially:
  assumes E: "staking_ok E" and c: "clean_system E mid ws c" and D: "distributer_laws D" and txs: "submittable E txs"
    and run: "call_author E D txs c = Some c'" "thread_run E (th_start c') L t"
      "sy_result (th_sys t) = Some (Authored st blk)"
    and s: "sr_view s = values_of (wo_state (sy_world c))"
  shows "\<exists>oks s'. apply_transaction E (transactions blk) s = (Ok oks, s') \<and> sr_view s' = values_of st"
    "sane E (transactions blk)" "all_participants (transactions blk) \<subseteq> all_participants txs"
proof -
  let ?m = "wo_state (sy_world c)"
  obtain P where P: "map untagged P = map untagged txs" "distributed E ws P" "author_inv E mid ws P ?m [] c'"
    using author_starts[OF c D txs] run(1) by (metis option.inject)
  have L: "author_done E mid ws P ?m L (th_sys t)"
    using author_thread_run[OF run(2) author_sim_start[OF P(3)] P(2) E] author_simD(2) run(3) by fastforce
  obtain m oks q where st: "log_ok ws P L" "complete ws P L" "st = sr_state q" "shared_run E ?m L m"
    "execute_orphans E (orphans_after L) (sr_new m mid) = (Ok oks, q)"
    and blk: "transactions blk = pool_after P L @ orphans_after L"
    using L run(3) by (auto simp: author_done_def state_inv_def block_from_def)
  let ?zs = "map (\<lambda>tx. (executor_of tx, tx)) (pool_after P L)"
  have "\<forall>tx\<in>set (pool_after P L). \<exists>w. tx_tag tx = Done w"
    using tagged_pool_member[OF st(1) distributedD(3)[OF P(2)]] by blast
  from listed_calls[OF this] block_calls[OF st(1,2) P(2)] block_parts(1)[OF st(1) P(2)]
  have "calls_of w ?zs = calls_of w (executed L)" for w by metis
  from serializable[OF st(4) refl this] obtain rs n where n: "sequential_run E ?zs ?m = (rs, n)"
    "list_all is_Ok rs" "values_of n = values_of m" by blast
  obtain oks1 s1 where s1: "apply_transaction E (pool_after P L) s = (Ok oks1, s1)" "sr_view s1 = values_of n"
    using apply_sequential_run[OF n(1,2) s] by (auto simp: comp_def)
  then have "sr_view s1 = sr_view (sr_new m mid)" using n(3) by (simp add: view_of_new)
  from apply_orphans[OF st(5) this] obtain oks2 s2 where
    "apply_transaction E (orphans_after L) s1 = (Ok oks2, s2)" "sr_view s2 = sr_view q" by blast
  with s1(1) show "\<exists>oks s'. apply_transaction E (transactions blk) s = (Ok oks, s') \<and> sr_view s' = values_of st"
    by (simp add: blk apply_transaction_append sr_view_def st(3))
  show "sane E (transactions blk)"
    using block_parts(3)[OF st(1) P(2)] by (simp add: blk replayable_def)
  have "\<exists>tx'\<in>set txs. tx_function tx = tx_function tx' \<and> tx_signature tx = tx_signature tx'"
    if "tx \<in> set (transactions blk)" for tx
  proof -
    have "untagged tx \<in> untagged ` set txs"
      using pool_after_untagged[OF st(1)] that P(1) unfolding blk by (metis list.set_map)
    then show ?thesis by (metis imageE untagged_simps(2,4))
  qed
  then show "all_participants (transactions blk) \<subseteq> all_participants txs"
    unfolding all_participants_def by fastforce
qed

section \<open>Properties\<close>

text \<open>C2. Concurrent execution means sequential execution of the block. Whatever the interleaving, take
  the block and the state an authoring run of submittable transactions (none of which names the
  default account as controller) on a well-formed chain returned: the sequential executor, started from the same
  values, executes the transactions of the block in their order to the end and arrives at the same
  value of every key. So the chain is the one the specifications of the calls compute along the
  block, and all funds of the participants are still there.\<close>

theorem concurrent_execution_is_sequential:
  assumes "staking_ok E" "clean_system E mid ws c" "distributer_laws D" "submittable E txs"
    and "call_author E D txs c = Some c'" "thread_run E (th_start c') L t"
    and "sy_result (th_sys t) = Some (Authored st blk)"
  shows "(\<exists>oks s. apply_transaction E (transactions blk) (sr_new (wo_state (sy_world c)) me) = (Ok oks, s)
        \<and> sr_view s = values_of st)
    \<and> chain_of E (values_of st) = chain_run E (transactions blk) (chain_of E (values_of (wo_state (sy_world c))))
    \<and> (\<forall>A. finite A \<longrightarrow> all_participants txs \<subseteq> A \<longrightarrow>
         funds A (ch_balances (chain_of E (values_of st)))
           = funds A (ch_balances (chain_of E (values_of (wo_state (sy_world c))))))"
proof -
  let ?s = "sr_new (wo_state (sy_world c)) me"
  have view: "sr_view ?s = values_of (wo_state (sy_world c))" by (simp add: view_of_new)
  note run = block_runs_sequentially[OF assms view]
  obtain oks s where s: "apply_transaction E (transactions blk) ?s = (Ok oks, s)" "sr_view s = values_of st"
    using run(1) by blast
  have "chain_readable E (sr_view ?s)" "chain_inv E (chain_of E (sr_view ?s))"
    using assms(2) by (simp_all add: view clean_system_def well_formed_def del: chain_of_sel)
  from apply_transaction_runs[OF assms(1) this run(2)] s run(3) show ?thesis
    by (auto simp: view simp del: chain_of_sel)
qed

theorem concurrent_execution_is_sequential_witness:
  "\<exists>c' L t st blk. call_author ex_exec round_robin ex_block ex_system = Some c'
     \<and> thread_run ex_exec (th_start c') L t \<and> sy_result (th_sys t) = Some (Authored st blk)
     \<and> chain_of ex_exec (values_of st) = chain_run ex_exec (transactions blk)
         (chain_of ex_exec (values_of (funded ex_exec 1 1000)))"
proof (rule full_run[OF ex_exec_ok ex_clean(1) rr.distributer_laws_axioms ex_submittable(1)])
  fix c' L t st and blk :: "u8 block"
  assume run: "call_author ex_exec round_robin ex_block ex_system = Some c'" "thread_run ex_exec (th_start c') L t"
    "sy_result (th_sys t) = Some (Authored st blk)"
  from concurrent_execution_is_sequential[OF ex_exec_ok ex_clean(1) rr.distributer_laws_axioms
      ex_submittable(1) run]
  have "chain_of ex_exec (values_of st) = chain_run ex_exec (transactions blk)
      (chain_of ex_exec (values_of (funded ex_exec 1 1000)))"
    unfolding ex_clean(2) by blast
  with run show ?thesis by blast
qed

end
