(* ===== verification/Commuting_Transfers.thy ===== *)
theory Commuting_Transfers
  imports Executor_Tests Block_Semantics Datasets
begin

text \<open>
  Transfers between accounts that can pay for all of them. They succeed in every order and every
  order leaves the same balances, so what a concurrent run leaves does not depend on the schedule or
  on the distribution. Several tests of the concurrent executor rest on this without saying so.
\<close>

section \<open>Moves of money\<close>

type_synonym 'p move = "'p \<times> 'p \<times> balance"

definition pay :: "'p move \<Rightarrow> ('p \<Rightarrow> balance) \<Rightarrow> 'p \<Rightarrow> balance" where
  "pay mv f = (case mv of (origin, dest, v) \<Rightarrow>
     \<lambda>p. f p + ((if p = dest then v else 0) - (if p = origin then v else 0)))"

definition spent :: "'p move list \<Rightarrow> 'p \<Rightarrow> nat" where
  "spent ms p = (\<Sum>(origin, _, v)\<leftarrow>ms. if origin = p then unat v else 0)"

text \<open>Every account can pay for all its moves, and all funds together fit into a \<open>u128\<close>.\<close>

definition ample :: "'p set \<Rightarrow> ('p \<Rightarrow> balance) \<Rightarrow> 'p move list \<Rightarrow> bool" where
  "ample A f ms \<longleftrightarrow> finite A \<and> (\<forall>(origin, dest, _)\<in>set ms. origin \<in> A \<and> dest \<in> A)
     \<and> (\<forall>p\<in>A. spent ms p \<le> unat (f p)) \<and> (\<Sum>p\<in>A. unat (f p)) < 2 ^ 128"

lemma fold_pay: "fold pay ms f p = f p + (\<Sum>(origin, dest, v)\<leftarrow>ms. (if p = dest then v else 0) - (if p = origin then v else 0))"
  by (induction ms arbitrary: f) (auto simp: pay_def algebra_simps)

lemma sum_any_order:
  fixes g :: "'a \<Rightarrow> 'b :: comm_monoid_add"
  assumes "mset xs = mset ys"
  shows "(\<Sum>x\<leftarrow>xs. g x) = (\<Sum>x\<leftarrow>ys. g x)"
proof -
  have "sum_mset (image_mset g (mset xs)) = sum_mset (image_mset g (mset ys))" by (simp add: assms)
  then show ?thesis by (simp flip: sum_mset_sum_list mset_map)
qed

lemma fold_pay_order: "mset ms = mset ns \<Longrightarrow> fold pay ms f = fold pay ns f"
  unfolding fun_eq_iff fold_pay by (simp add: sum_any_order[of ms ns])

lemma ample_order: "mset ms = mset ns \<Longrightarrow> ample A f ms \<longleftrightarrow> ample A f ns"
  unfolding ample_def spent_def using mset_eq_setD[of ms ns] by (simp add: sum_any_order[of ms ns])

lemma ample_step:
  assumes "ample A f ((origin, dest, v) # ms)"
  shows "origin \<in> A" "dest \<in> A" "v \<le> f origin" "unat ((f(origin := f origin - v)) dest) + unat v < 2 ^ 128"
    "ample A (pay (origin, dest, v) f) ms"
proof -
  have A: "finite A" "origin \<in> A" "dest \<in> A" and sum: "(\<Sum>p\<in>A. unat (f p)) < 2 ^ 128"
    and enough: "\<forall>p\<in>A. (if origin = p then unat v else 0) + spent ms p \<le> unat (f p)"
    using assms by (auto simp: ample_def spent_def)
  show "origin \<in> A" "dest \<in> A" by fact+
  have le: "unat v \<le> unat (f origin)" using enough A(2) by fastforce
  then show v: "v \<le> f origin" by (simp add: word_le_nat_alt)
  let ?paid = "f(origin := f origin - v)" and ?g = "pay (origin, dest, v) f"
  have paid: "unat (f origin - v) = unat (f origin) - unat v" using v by (rule unat_sub)
  have "(\<Sum>p\<in>A. unat (?paid p)) + unat v = (\<Sum>p\<in>A. unat (f p))"
    using A(1,2) le paid by (simp add: sum.remove[of A origin])
  moreover have "unat (?paid dest) \<le> (\<Sum>p\<in>A. unat (?paid p))" by (rule member_le_sum[OF A(3) _ A(1)]) simp
  ultimately show fits: "unat (?paid dest) + unat v < 2 ^ 128" using sum by linarith
  have g: "?g = ?paid(dest := ?paid dest + v)" by (auto simp: pay_def fun_eq_iff)
  have unat_g: "unat (?g p) = unat (?paid p) + (if p = dest then unat v else 0)" for p
    using fits by (auto simp: g unat_word_ariths)
  have "(\<Sum>p\<in>A. unat (?g p)) = (\<Sum>p\<in>A. unat (?paid p)) + unat v"
    using A(1,3) by (simp add: unat_g sum.distrib)
  moreover have "spent ms p \<le> unat (?g p)" if "p \<in> A" for p
    using enough that by (auto simp: unat_g paid)
  ultimately show "ample A ?g ms"
    using assms A \<open>_ + unat v = (\<Sum>p\<in>A. unat (f p))\<close> by (simp add: ample_def sum)
qed

section \<open>The balances in a state\<close>

text \<open>
  The accounts \<open>A\<close> hold the balances \<open>f\<close>, nothing of it reserved, and every key that belongs to no
  account of \<open>A\<close> has the value it has in \<open>w0\<close>.
\<close>

definition holds :: "('p, 'z) balances_env_scheme \<Rightarrow> 'p set \<Rightarrow> view \<Rightarrow> ('p \<Rightarrow> balance) \<Rightarrow> view \<Rightarrow> bool" where
  "holds E A w0 f w \<longleftrightarrow>
     (\<forall>p\<in>A. w (key_for (BalanceOf E) p) = StateValue (sm_enc (BalanceOf E) (ab_new_free (f p))))
   \<and> (\<forall>k. k \<notin> key_for (BalanceOf E) ` A \<longrightarrow> w k = w0 k)"

lemma holds_unique: "holds E A w0 f w \<Longrightarrow> holds E A w0 f w' \<Longrightarrow> w = w'"
  unfolding holds_def by (metis ext imageE)

definition move_of :: "'p transaction \<Rightarrow> 'p move" where
  "move_of tx = (case tx_function tx of
     BalancesCall (Transfer dest v) \<Rightarrow> (fst (tx_signature tx), dest, v)
   | StakingCall _ \<Rightarrow> (fst (tx_signature tx), fst (tx_signature tx), 0))"

definition is_transfer :: "'p transaction \<Rightarrow> bool" where
  "is_transfer tx \<longleftrightarrow> (case tx_function tx of BalancesCall _ \<Rightarrow> True | StakingCall _ \<Rightarrow> False)"

lemma transfer_succeeds:
  assumes E: "staking_ok E" and w: "holds E A w0 f w" and A: "origin \<in> A" "dest \<in> A"
    and enough: "v \<le> f origin" "unat ((f(origin := f origin - v)) dest) + unat v < 2 ^ 128"
  shows "\<exists>w'. tr_dispatch (tested_AR E) (BalancesCall (Transfer dest v)) origin w = (Ok RtOk, w')
    \<and> holds E A w0 (pay (origin, dest, v) f) w'"
proof -
  let ?k = "\<lambda>who. key_for (BalanceOf E) who" and ?v = "\<lambda>x. StateValue (sm_enc (BalanceOf E) (ab_new_free x))"
  have key: "?k x = ?k y \<longleftrightarrow> x = y" for x y
    using key_for_eq_iff[of "BalanceOf E" x "BalanceOf E" y] BalanceOf_ok[of E] E
    by (auto simp: staking_ok_def sm_ok_def)
  have vals: "w (?k origin) = ?v (f origin)" "w (?k dest) = ?v (f dest)" using w A by (simp_all add: holds_def)
  have dec: "sm_dec (BalanceOf E) (sm_enc (BalanceOf E) b) = Ok b" for b
    using BalanceOf_ok[of E] E by (simp add: staking_ok_def sm_ok_def)
  let ?w = "w(?k origin := ?v (f origin - v))"
  let ?new = "(f(origin := f origin - v)) dest + v"
  have "tr_dispatch (tested_AR E) (BalancesCall (Transfer dest v)) origin w = (Ok RtOk, ?w(?k dest := ?v ?new))"
    using enough vals
    by (cases "origin = dest") (simp_all add: tested_AR_def transfer_def bindC_def or_forward_def or_orphan_def map_err_def
        map_read_def map_write_def map_mutate_def expectC_def AR_def liftP_def dec checked_sub_def
        u128_add_def ab_new_free_def key word_le_nat_alt)
  moreover have "holds E A w0 (pay (origin, dest, v) f) (?w(?k dest := ?v ?new))"
    using w A by (auto simp: holds_def pay_def key)
  ultimately show ?thesis by blast
qed

lemma transfers_run:
  assumes E: "staking_ok E"
  shows "holds E A w0 f (sr_view s) \<Longrightarrow> ample A f (map move_of txs) \<Longrightarrow> \<forall>tx\<in>set txs. is_transfer tx \<Longrightarrow>
    \<exists>s'. apply_transaction E txs s = (Ok (replicate (length txs) RtOk), s')
      \<and> holds E A w0 (fold pay (map move_of txs) f) (sr_view s')"
proof (induction txs arbitrary: s f)
  case (Cons tx txs)
  obtain dest v where call: "tx_function tx = BalancesCall (Transfer dest v)"
    using Cons.prems(3) by (auto simp: is_transfer_def split: outer_call.splits) (metis balances_call.exhaust)
  let ?o = "fst (tx_signature tx)"
  have mv: "move_of tx = (?o, dest, v)" by (simp add: move_of_def call)
  then have "ample A f ((?o, dest, v) # map move_of txs)" using Cons.prems(2) by simp
  note step = ample_step[OF this]
  from transfer_succeeds[OF E Cons.prems(1) step(1-4)] obtain w' where
    w': "tr_dispatch (tested_AR E) (tx_function tx) ?o (sr_view s) = (Ok RtOk, w')" "holds E A w0 (pay (?o, dest, v) f) w'"
    by (auto simp: call)
  from exactD[OF exact_dispatch_SR[of E "tx_function tx" ?o], of s] w'(1) obtain s1 where
    s1: "SequentialRuntime_dispatch E (tx_function tx) ?o s = (Ok RtOk, s1)" "sr_view s1 = w'" by auto
  from Cons.IH[of "pay (?o, dest, v) f" s1] w'(2) step(5) Cons.prems(3) s1 show ?case
    by (auto simp: comp_simps mv)
qed (simp add: comp_simps)

section \<open>Authoring\<close>

text \<open>The transactions of a block are the submitted ones, up to their order and their tags.\<close>

lemma block_is_permutation:
  assumes E: "staking_ok E" and c: "clean_system E mid ws c" and D: "distributer_laws D" and txs: "submittable E txs"
    and run: "call_author E D txs c = Some c'" "thread_run E (th_start c') L t"
      "sy_result (th_sys t) = Some (Authored st blk)"
  shows "mset (map untagged (transactions blk)) = mset (map untagged txs)"
proof -
  obtain P where P: "map untagged P = map untagged txs" "distributed E ws P"
    "author_inv E mid ws P (wo_state (sy_world c)) [] c'"
    using author_starts[OF c D txs] run(1) by (metis option.inject)
  have L: "author_done E mid ws P (wo_state (sy_world c)) L (th_sys t)"
    using author_thread_run[OF run(2) author_sim_start[OF P(3)] P(2) E] author_simD(2) run(3) by fastforce
  have ok: "log_ok ws P L" "settled_once L" and blk: "transactions blk = pool_after P L @ orphans_after L"
    using L run(3) by (auto simp: author_done_def block_from_def)
  have ids: "mset (map tx_id (transactions blk)) = mset (map tx_id txs)"
    using pool_and_orphans[OF ok distributedD(2)[OF P(2)]] same_untagged(1)[OF P(1)] by (simp add: blk)
  have unique: "distinct (map tx_id txs)" using txs by (simp add: submittable_def)
  then have dist: "distinct (map tx_id (transactions blk))" using ids by (metis mset_eq_imp_distinct_iff)
  have "untagged ` set (transactions blk) \<subseteq> untagged ` set txs"
    using pool_after_untagged[OF ok(1)] P(1) unfolding blk by (metis list.set_map image_subsetI)
  moreover have "card (untagged ` set (transactions blk)) = card (untagged ` set txs)"
  proof -
    have card: "card (untagged ` set xs) = length xs" if "distinct (map tx_id xs)" for xs :: "'a transaction list"
    proof -
      have "map tx_id xs = map tx_id (map untagged xs)" by simp
      then have "distinct (map untagged xs)" using that by (metis distinct_map)
      then show ?thesis by (metis distinct_card length_map list.set_map)
    qed
    have "length (transactions blk) = length txs" using ids by (metis length_map size_mset)
    then show ?thesis by (simp add: card[OF unique] card[OF dist])
  qed
  ultimately have "untagged ` set (transactions blk) = untagged ` set txs"
    by (metis card_subset_eq finite_imageI finite_set)
  moreover have "distinct (map untagged xs)" if "distinct (map tx_id xs)" for xs :: "'a transaction list"
  proof -
    have "map tx_id xs = map tx_id (map untagged xs)" by simp
    then show ?thesis using that by (metis distinct_map)
  qed
  ultimately show ?thesis
    using unique dist by (metis list.set_map set_eq_iff_mset_eq_distinct)
qed

lemma authored_balances:
  assumes E: "staking_ok E" and c: "clean_system E mid ws c" and D: "distributer_laws D" and txs: "submittable E txs"
    and transfers: "\<forall>tx\<in>set txs. is_transfer tx"
    and start: "holds E A w0 f (values_of (wo_state (sy_world c)))" and enough: "ample A f (map move_of txs)"
    and run: "call_author E D txs c = Some c'" "thread_run E (th_start c') L t"
      "sy_result (th_sys t) = Some (Authored st blk)"
  shows "holds E A w0 (fold pay (map move_of txs) f) (values_of st)"
proof -
  note perm = block_is_permutation[OF E c D txs run]
  have move: "move_of tx = move_of (untagged tx)" "is_transfer tx = is_transfer (untagged tx)" for tx :: "'a transaction"
    by (simp_all add: move_of_def is_transfer_def split: outer_call.split balances_call.split)
  have moves: "mset (map move_of (transactions blk)) = mset (map move_of txs)"
  proof -
    have "map move_of xs = map move_of (map untagged xs)" for xs :: "'a transaction list" by (simp flip: move)
    then show ?thesis using perm by (metis mset_map)
  qed
  have all: "\<forall>tx\<in>set (transactions blk). is_transfer tx"
  proof
    fix tx assume "tx \<in> set (transactions blk)"
    then have "untagged tx \<in> untagged ` set txs" using mset_eq_setD[OF perm] by auto
    then show "is_transfer tx" using transfers move(2) by (metis imageE)
  qed
  let ?s = "sr_new (wo_state (sy_world c)) mid"
  have view: "sr_view ?s = values_of (wo_state (sy_world c))" by (simp add: view_of_new)
  obtain oks s' where s': "apply_transaction E (transactions blk) ?s = (Ok oks, s')" "sr_view s' = values_of st"
    using block_runs_sequentially(1)[OF E c D txs run view] by blast
  from transfers_run[OF E, of A w0 f ?s "transactions blk"] start enough all s'
  show ?thesis by (simp add: view ample_order[OF moves] fold_pay_order[OF moves])
qed

lemma transfers_ask_within:
  assumes "is_transfer tx" "fst (move_of tx) \<in> A" "fst (snd (move_of tx)) \<in> A"
  shows "asks_within (key_for (BalanceOf E) ` A) (outer_dispatch E HR (tx_function tx) (fst (tx_signature tx)))"
proof -
  obtain dest v where call: "tx_function tx = BalancesCall (Transfer dest v)"
    using assms(1) by (auto simp: is_transfer_def split: outer_call.splits) (metis balances_call.exhaust)
  have "asks_within (set (tx_hints False E tx)) (outer_dispatch E HR (tx_function tx) (fst (tx_signature tx)))"
    using announced_accesses[of "tx_function tx" E "fst (tx_signature tx)"] by (simp add: call tx_hints_def)
  then show ?thesis
    by (rule asks_within_mono) (use assms(2,3) in \<open>simp add: tx_hints_def call move_of_def balances_validate_def\<close>)
qed

lemma authored_state_unique:
  assumes E: "staking_ok E" and txs: "submittable E txs" "\<forall>tx\<in>set txs. is_transfer tx" "ample A f (map move_of txs)"
    and start: "holds E A w0 f (values_of m)" "key_for (BalanceOf E) ` A \<subseteq> fmdom' m"
    and one: "clean_system E mid ws c" "wo_state (sy_world c) = m" "distributer_laws D"
      "call_author E D txs c = Some c'" "thread_run E (th_start c') L t" "sy_result (th_sys t) = Some (Authored st blk)"
    and two: "clean_system E mid2 ws2 c2" "wo_state (sy_world c2) = m" "distributer_laws D2"
      "call_author E D2 txs c2 = Some c2'" "thread_run E (th_start c2') L2 t2" "sy_result (th_sys t2) = Some (Authored st2 blk2)"
  shows "state_eq st st2"
proof -
  have K: "\<forall>tx\<in>set txs. asks_within (fmdom' m) (outer_dispatch E HR (tx_function tx) (fst (tx_signature tx)))"
  proof
    fix tx assume tx: "tx \<in> set txs"
    then have "move_of tx \<in> set (map move_of txs)" by simp
    then have "fst (move_of tx) \<in> A" "fst (snd (move_of tx)) \<in> A"
      using txs(3) unfolding ample_def by (cases "move_of tx"; fastforce)+
    from transfers_ask_within[OF _ this] tx txs(2) start(2)
    show "asks_within (fmdom' m) (outer_dispatch E HR (tx_function tx) (fst (tx_signature tx)))"
      using asks_within_mono by blast
  qed
  have "holds E A w0 (fold pay (map move_of txs) f) (values_of st)"
    "holds E A w0 (fold pay (map move_of txs) f) (values_of st2)"
    using authored_balances[OF E one(1,3) txs(1,2) _ txs(3) one(4-6)]
      authored_balances[OF E two(1,3) txs(1,2) _ txs(3) two(4-6)] start(1) by (simp_all add: one(2) two(2))
  then have "values_of st = values_of st2" by (rule holds_unique)
  moreover have "fmdom' st = fmdom' st2"
    using authored_entries(1)[OF E one(1) startableI[OF one(1,3) txs(1)] _ one(4-6)] authored_entries(1)[OF E two(1) startableI[OF two(1,3) txs(1)] _ two(4-6)] K
    by (simp add: one(2) two(2))
  ultimately show ?thesis by (intro state_eq_same_entries)
qed

section \<open>Property\<close>

text \<open>C7. Authoring transfers that the accounts can all pay for is deterministic. Whatever the
  distribution, the number of threads and the interleaving, the run leaves the balances that the
  transfers add up to and touches nothing else; any two executors that start from the same state
  leave states that \<open>state_eq\<close> accepts, though their blocks may list the transactions in different orders.\<close>

theorem funded_transfers_are_deterministic:
  assumes "staking_ok E" "submittable E txs" "\<forall>tx\<in>set txs. is_transfer tx" "ample A f (map move_of txs)"
    and "holds E A w0 f (values_of m)" "key_for (BalanceOf E) ` A \<subseteq> fmdom' m"
    and "clean_system E mid ws c" "wo_state (sy_world c) = m" "distributer_laws D"
      "call_author E D txs c = Some c'" "thread_run E (th_start c') L t" "sy_result (th_sys t) = Some (Authored st blk)"
    and "clean_system E mid2 ws2 c2" "wo_state (sy_world c2) = m" "distributer_laws D2"
      "call_author E D2 txs c2 = Some c2'" "thread_run E (th_start c2') L2 t2"
      "sy_result (th_sys t2) = Some (Authored st2 blk2)"
  shows "holds E A w0 (fold pay (map move_of txs) f) (values_of st)
    \<and> mset (map untagged (transactions blk)) = mset (map untagged (transactions blk2))
    \<and> state_eq st st2"
  using authored_balances[OF assms(1,7,9,2,3) _ assms(4,10-12)] assms(5)
    block_is_permutation[OF assms(1,7,9,2,10-12)] block_is_permutation[OF assms(1,13,15,2,16-18)]
    authored_state_unique[OF assms]
  by (simp add: assms(8))

end
