(* ===== verification/Concurrent_Tests.thy ===== *)
theory Concurrent_Tests
  imports Commuting_Transfers Benchmarks
begin

text \<open>
  The unit tests of the concurrent executor (\<open>executor/src/concurrent/mod.rs\<close>). A test is a relation to
  its result, since the threads it starts interleave: every schedule gives a run. Sleeping is left
  out. \<open>me\<close> is the thread of the test and \<open>ids\<close> are the ids of the threads it starts.
\<close>

section \<open>Setups\<close>

definition assertion_failed :: string where
  "assertion_failed = ''assertion failed''"

definition checked :: "bool \<Rightarrow> (unit, unit) rs" where
  "checked b = (if b then Ok () else Panic assertion_failed)"

text \<open>All accounts are endowed on a runtime.\<close>

definition endow_all ::
  "('p, 'z) balances_env_scheme \<Rightarrow> 'p list \<Rightarrow> balance \<Rightarrow> (sequential_runtime, unit, unit) comp" where
  "endow_all E accounts amount = mapC (\<lambda>acc. endow_account E SR acc amount) accounts"

text \<open>
  A new executor, transfers of a bank, and the initial state with its accounts. The first panic of
  the setup is \<open>Inl\<close>.
\<close>

definition bank_setup ::
  "('p, 'k, 'z) key_env_scheme \<Rightarrow> (nat \<Rightarrow> 'k key_pair) \<Rightarrow> (nat \<Rightarrow> nat \<times> nat) \<Rightarrow> nat \<Rightarrow> nat \<Rightarrow> balance
     \<Rightarrow> thread_id \<Rightarrow> thread_id list \<Rightarrow> ('p system \<times> 'p transaction list \<times> runtime_state) panicking" where
  "bank_setup E random choices members transfers endowment me ids =
     (case concurrent_new me ids None of Inl msg \<Rightarrow> Inl msg | Inr c \<Rightarrow>
     (case bank E random choices members transfers 100 of Inl msg \<Rightarrow> Inl msg | Inr (txs, accounts) \<Rightarrow>
     (case built_with (endow_all E accounts endowment) () of
        (Ok initial, _) \<Rightarrow> Inr (c, txs, initial) | (Panic msg, _) \<Rightarrow> Inl msg | (Err _, _) \<Rightarrow> Inl unwrap_none)))"

section \<open>The tests\<close>

text \<open>Ending the executor: \<open>run_terminate\<close> and \<open>assert!(join_all().is_ok())\<close>.\<close>

definition ends :: "('p, 'z) exec_env_scheme \<Rightarrow> 'p system \<Rightarrow> 'p threads \<Rightarrow> bool" where
  "ends E c t \<longleftrightarrow> (\<exists>es. thread_run E (th_start (call_terminate c)) es t) \<and> joined (th_sys t)"

inductive empty_setup_works_authoring ::
  "('p, 'z) exec_env_scheme \<Rightarrow> thread_id \<Rightarrow> thread_id list \<Rightarrow> (unit, unit) rs \<Rightarrow> bool"
  for E :: "('p, 'z) exec_env_scheme" and me ids where
  not_new: "(concurrent_new me ids None :: 'p system panicking) = Inl msg \<Longrightarrow> empty_setup_works_authoring E me ids (Panic msg)"
| wrong_number: "concurrent_new me ids None = Inr (c :: 'p system) \<Longrightarrow> num_workers (sy_master c) \<noteq> 3 \<Longrightarrow>
    empty_setup_works_authoring E me ids (Panic assertion_failed)"
| authored: "concurrent_new me ids None = Inr (c :: 'p system) \<Longrightarrow> num_workers (sy_master c) = 3 \<Longrightarrow>
    call_author E round_robin [] c = Some c1 \<Longrightarrow> thread_run E (th_start c1) L t \<Longrightarrow>
    sy_result (th_sys t) = Some (Authored st blk) \<Longrightarrow> ends E (th_sys t) u \<Longrightarrow>
    empty_setup_works_authoring E me ids (Ok ())"

inductive empty_setup_validation_authoring ::
  "('p, 'z) exec_env_scheme \<Rightarrow> thread_id \<Rightarrow> thread_id list \<Rightarrow> (unit, unit) rs \<Rightarrow> bool"
  for E :: "('p, 'z) exec_env_scheme" and me ids where
  not_new: "(concurrent_new me ids None :: 'p system panicking) = Inl msg \<Longrightarrow> empty_setup_validation_authoring E me ids (Panic msg)"
| wrong_number: "concurrent_new me ids None = Inr (c :: 'p system) \<Longrightarrow> num_workers (sy_master c) \<noteq> 3 \<Longrightarrow>
    empty_setup_validation_authoring E me ids (Panic assertion_failed)"
| refuted: "concurrent_new me ids None = Inr (c :: 'p system) \<Longrightarrow> num_workers (sy_master c) = 3 \<Longrightarrow>
    author_and_validate_run E round_robin [] None c False c1 \<Longrightarrow>
    empty_setup_validation_authoring E me ids (Panic assertion_failed)"
| validated: "concurrent_new me ids None = Inr (c :: 'p system) \<Longrightarrow> num_workers (sy_master c) = 3 \<Longrightarrow>
    author_and_validate_run E round_robin [] None c True c1 \<Longrightarrow> ends E c1 u \<Longrightarrow>
    empty_setup_validation_authoring E me ids (Ok ())"

inductive validation_authoring_works_bank ::
  "('p, 'k, 'z) key_env_scheme \<Rightarrow> (nat \<Rightarrow> 'k key_pair) \<Rightarrow> (nat \<Rightarrow> nat \<times> nat) \<Rightarrow> thread_id \<Rightarrow> thread_id list
     \<Rightarrow> (unit, unit) rs \<Rightarrow> bool"
  for E :: "('p, 'k, 'z) key_env_scheme" and random choices me ids where
  no_setup: "bank_setup E random choices 50 100 100000 me ids = Inl msg \<Longrightarrow>
    validation_authoring_works_bank E random choices me ids (Panic msg)"
| validated: "bank_setup E random choices 50 100 100000 me ids = Inr (c, txs, initial) \<Longrightarrow>
    author_and_validate_run E round_robin txs (Some initial) c valid c1 \<Longrightarrow>
    validation_authoring_works_bank E random choices me ids (checked valid)"

text \<open>The macro \<open>bank_test_with_distribution\<close>; it does not look at what validation says.\<close>

inductive bank_test_with_distribution ::
  "('p, 'k, 'z) key_env_scheme \<Rightarrow> 'p distributer \<Rightarrow> (nat \<Rightarrow> 'k key_pair) \<Rightarrow> (nat \<Rightarrow> nat \<times> nat) \<Rightarrow> thread_id \<Rightarrow> thread_id list
     \<Rightarrow> (unit, unit) rs \<Rightarrow> bool"
  for E :: "('p, 'k, 'z) key_env_scheme" and D random choices me ids where
  no_setup: "bank_setup E random choices 10 250 1000000 me ids = Inl msg \<Longrightarrow>
    bank_test_with_distribution E D random choices me ids (Panic msg)"
| wrong_number: "concurrent_new me ids None = Inr (c :: 'p system) \<Longrightarrow> num_workers (sy_master c) \<noteq> 4 \<Longrightarrow>
    bank_test_with_distribution E D random choices me ids (Panic assertion_failed)"
| ended: "bank_setup E random choices 10 250 1000000 me ids = Inr (c, txs, initial) \<Longrightarrow>
    num_workers (sy_master c) = 4 \<Longrightarrow> author_and_validate_run E D txs (Some initial) c valid c1 \<Longrightarrow> ends E c1 u \<Longrightarrow>
    bank_test_with_distribution E D random choices me ids (Ok ())"

definition bank_round_robin ::
  "('p, 'k, 'z) key_env_scheme \<Rightarrow> (nat \<Rightarrow> 'k key_pair) \<Rightarrow> (nat \<Rightarrow> nat \<times> nat) \<Rightarrow> thread_id \<Rightarrow> thread_id list
     \<Rightarrow> (unit, unit) rs \<Rightarrow> bool" where
  "bank_round_robin E = bank_test_with_distribution E round_robin"

definition bank_connected_components ::
  "('p, 'k, 'z) key_env_scheme \<Rightarrow> (nat \<Rightarrow> 'k key_pair) \<Rightarrow> (nat \<Rightarrow> nat \<times> nat) \<Rightarrow> thread_id \<Rightarrow> thread_id list
     \<Rightarrow> (unit, unit) rs \<Rightarrow> bool" where
  "bank_connected_components E = bank_test_with_distribution E (connected_components (debug_build E) (tx_hints False E))"

text \<open>After \<open>clean\<close>, the pool and the state must be empty.\<close>

definition emptied :: "'p system \<Rightarrow> bool" where
  "emptied c \<longleftrightarrow> vp_len (ms_pool (sy_master c)) = 0 \<and> unsafe_len (wo_state (sy_world c)) = 0"

inductive multiple_tasks_works ::
  "('p, 'k, 'z) key_env_scheme \<Rightarrow> (nat \<Rightarrow> 'k key_pair) \<Rightarrow> (nat \<Rightarrow> nat \<times> nat) \<Rightarrow> thread_id \<Rightarrow> thread_id list
     \<Rightarrow> (unit, unit) rs \<Rightarrow> bool"
  for E :: "('p, 'k, 'z) key_env_scheme" and random choices me ids where
  not_new: "(concurrent_new me ids None :: 'p system panicking) = Inl msg \<Longrightarrow>
    multiple_tasks_works E random choices me ids (Panic msg)"
| no_bank: "bank E random choices 5 20 100 = Inl msg \<Longrightarrow> multiple_tasks_works E random choices me ids (Panic msg)"
| no_funds: "concurrent_new me ids None = Inr (c :: 'p system) \<Longrightarrow> bank E random choices 5 20 100 = Inr (txs, accounts) \<Longrightarrow>
    on_master (endow_all E accounts 1000000000000) c = (Panic msg, c1) \<Longrightarrow>
    multiple_tasks_works E random choices me ids (Panic msg)"
| wrong_number: "concurrent_new me ids None = Inr (c :: 'p system) \<Longrightarrow> num_workers (sy_master c) \<noteq> 3 \<Longrightarrow>
    multiple_tasks_works E random choices me ids (Panic assertion_failed)"
| not_emptied: "concurrent_new me ids None = Inr (c :: 'p system) \<Longrightarrow> bank E random choices 5 20 100 = Inr (txs, accounts) \<Longrightarrow>
    on_master (endow_all E accounts 1000000000000) c = (Ok (), c1) \<Longrightarrow> num_workers (sy_master c1) = 3 \<Longrightarrow>
    call_author E round_robin txs c1 = Some c2 \<Longrightarrow> thread_run E (th_start c2) L t \<Longrightarrow>
    sy_result (th_sys t) = Some (Authored state1 block1) \<Longrightarrow> \<not> emptied (call_clean (th_sys t)) \<Longrightarrow>
    multiple_tasks_works E random choices me ids (Panic assertion_failed)"
| both: "concurrent_new me ids None = Inr (c :: 'p system) \<Longrightarrow> bank E random choices 5 20 100 = Inr (txs, accounts) \<Longrightarrow>
    on_master (endow_all E accounts 1000000000000) c = (Ok (), c1) \<Longrightarrow> num_workers (sy_master c1) = 3 \<Longrightarrow>
    call_author E round_robin txs c1 = Some c2 \<Longrightarrow> thread_run E (th_start c2) L t \<Longrightarrow>
    sy_result (th_sys t) = Some (Authored state1 block1) \<Longrightarrow> emptied (call_clean (th_sys t)) \<Longrightarrow>
    on_master (endow_all E accounts 1000000000000) (call_clean (th_sys t)) = (Ok (), c3) \<Longrightarrow>
    call_author E round_robin txs c3 = Some c4 \<Longrightarrow> thread_run E (th_start c4) K u \<Longrightarrow>
    sy_result (th_sys u) = Some (Authored state2 block2) \<Longrightarrow>
    r = checked (emptied (call_clean (th_sys u)) \<and> state_eq state1 state2
      \<and> length (transactions block1) = 20 \<and> length (transactions block2) = 20) \<Longrightarrow>
    multiple_tasks_works E random choices me ids r"

text \<open>
  \<open>orphan_example\<close>: it fills the pool of the master itself and calls \<open>run_author\<close>, which is
  \<open>author_block\<close> without further transactions and without the result.
\<close>

definition pushed :: "('p, 'z) exec_env_scheme \<Rightarrow> 'p transaction list \<Rightarrow> 'p system \<Rightarrow> 'p system panicking" where
  "pushed E txs c = (case vp_push_batch (tx_verify E) txs (ms_pool (sy_master c)) of
     Inl msg \<Rightarrow> Inl msg | Inr pool \<Rightarrow> Inr (c\<lparr>sy_master := (sy_master c)\<lparr>ms_pool := pool\<rparr>\<rparr>))"

definition orphan_accounts :: "('p, 'k, 'z) key_env_scheme \<Rightarrow> 'k key_pair list panicking" where
  "orphan_accounts E = (case (alice E, bob E, dave E, eve E) of
     (Inr a, Inr b, Inr d, Inr e) \<Rightarrow> Inr [a, b, d, e]
   | (Inl msg, _) \<Rightarrow> Inl msg | (_, Inl msg, _) \<Rightarrow> Inl msg | (_, _, Inl msg, _) \<Rightarrow> Inl msg | (_, _, _, Inl msg) \<Rightarrow> Inl msg)"

definition orphan_txs :: "('p, 'k, 'z) key_env_scheme \<Rightarrow> 'k key_pair list \<Rightarrow> 'p transaction list" where
  "orphan_txs E ps =
     [build_transfer E 100 (ps ! 0) (pair_public E (ps ! 1)), build_transfer E 101 (ps ! 3) (pair_public E (ps ! 2)),
      build_transfer E 102 (ps ! 1) (pair_public E (ps ! 2))]"

text \<open>\<open>BalanceOf::read(&master.runtime, who).unwrap().free()\<close>, \<open>None\<close> for a panic.\<close>

definition read_free :: "('p, 'z) balances_env_scheme \<Rightarrow> 'p \<Rightarrow> 'p system \<Rightarrow> balance option" where
  "read_free E acc c = (case on_master (map_read SR (BalanceOf E) acc) c of (Ok b, _) \<Rightarrow> Some (ab_free b) | _ \<Rightarrow> None)"

inductive orphan_example ::
  "('p, 'k, 'z) key_env_scheme \<Rightarrow> thread_id \<Rightarrow> thread_id list \<Rightarrow> (unit, unit) rs \<Rightarrow> bool"
  for E :: "('p, 'k, 'z) key_env_scheme" and me ids where
  no_accounts: "orphan_accounts E = Inl msg \<Longrightarrow> orphan_example E me ids (Panic msg)"
| not_new: "(concurrent_new me ids None :: 'p system panicking) = Inl msg \<Longrightarrow> orphan_example E me ids (Panic msg)"
| wrong_number: "concurrent_new me ids None = Inr (c :: 'p system) \<Longrightarrow> num_workers (sy_master c) \<noteq> 3 \<Longrightarrow>
    orphan_example E me ids (Panic assertion_failed)"
| no_funds: "orphan_accounts E = Inr ps \<Longrightarrow> concurrent_new me ids None = Inr (c :: 'p system) \<Longrightarrow>
    on_master (endow_all E (map (pair_public E) ps) 1000) c = (Panic msg, c1) \<Longrightarrow> orphan_example E me ids (Panic msg)"
| invalid: "orphan_accounts E = Inr ps \<Longrightarrow> concurrent_new me ids None = Inr (c :: 'p system) \<Longrightarrow>
    on_master (endow_all E (map (pair_public E) ps) 1000) c = (Ok (), c1) \<Longrightarrow>
    pushed E (orphan_txs E ps) c1 = Inl msg \<Longrightarrow> orphan_example E me ids (Panic msg)"
| wrong_balance: "orphan_accounts E = Inr ps \<Longrightarrow> concurrent_new me ids None = Inr (c :: 'p system) \<Longrightarrow>
    on_master (endow_all E (map (pair_public E) ps) 1000) c = (Ok (), c1) \<Longrightarrow>
    pushed E (orphan_txs E ps) c1 = Inr c2 \<Longrightarrow> call_author E round_robin [] c2 = Some c3 \<Longrightarrow>
    thread_run E (th_start c3) L t \<Longrightarrow> sy_result (th_sys t) = Some (Authored st blk) \<Longrightarrow>
    thread_run E (th_start (call_terminate (th_sys t))) es u \<Longrightarrow>
    map (\<lambda>p. read_free E (pair_public E p) (th_sys u)) ps \<noteq> [Some 990, Some 1000, Some 1020, Some 990] \<Longrightarrow>
    orphan_example E me ids (Panic assertion_failed)"
| ended: "orphan_accounts E = Inr ps \<Longrightarrow> concurrent_new me ids None = Inr (c :: 'p system) \<Longrightarrow> num_workers (sy_master c) = 3 \<Longrightarrow>
    on_master (endow_all E (map (pair_public E) ps) 1000) c = (Ok (), c1) \<Longrightarrow>
    pushed E (orphan_txs E ps) c1 = Inr c2 \<Longrightarrow> call_author E round_robin [] c2 = Some c3 \<Longrightarrow>
    thread_run E (th_start c3) L t \<Longrightarrow> sy_result (th_sys t) = Some (Authored st blk) \<Longrightarrow>
    thread_run E (th_start (call_terminate (th_sys t))) es u \<Longrightarrow>
    map (\<lambda>p. read_free E (pair_public E p) (th_sys u)) ps = [Some 990, Some 1000, Some 1020, Some 990] \<Longrightarrow>
    thread_run E u fs v \<Longrightarrow> joined (th_sys v) \<Longrightarrow> orphan_example E me ids (Ok ())"

inductive_cases empty_authoringE: "empty_setup_works_authoring E me ids r"
inductive_cases empty_validationE: "empty_setup_validation_authoring E me ids r"
inductive_cases bank_validationE: "validation_authoring_works_bank E random choices me ids r"
inductive_cases bank_testE: "bank_test_with_distribution E D random choices me ids r"
inductive_cases multiple_tasksE: "multiple_tasks_works E random choices me ids r"
inductive_cases orphan_exampleE: "orphan_example E me ids r"

section \<open>What the setups provide\<close>

lemma endow_all_SR: "endow_all E accounts amount s
    = (Ok (), s\<lparr>sr_state := endowed E (map (\<lambda>acc. (acc, amount)) accounts) (sr_state s)\<rparr>)"
proof -
  have "concat (map (\<lambda>acc. [(acc, amount)]) accounts) = map (\<lambda>acc. (acc, amount)) accounts"
    by (simp add: concat_map_singleton)
  with mapC_endow_SR[of accounts "\<lambda>acc. endow_account E SR acc amount" E "\<lambda>acc. [(acc, amount)]" s, OF endow_account_SR]
  show ?thesis by (simp add: endow_all_def)
qed

lemma built_endowed: "built_with (endow_all E accounts amount) s
    = (Ok (endowed E (map (\<lambda>acc. (acc, amount)) accounts) ts_new), s)"
  by (simp add: built_with_def endow_all_SR initial_new_def sr_new_def with_runtime_def build_def dump_def)

lemma on_master_endow: "on_master (endow_all E accounts amount) c
    = (Ok (), at_state (endowed E (map (\<lambda>acc. (acc, amount)) accounts) (wo_state (sy_world c))) c)"
  by (simp add: on_master_def endow_all_SR sr_new_def)

lemma new_executor:
  fixes E :: "('p, 'z) exec_env_scheme"
  assumes E: "staking_ok E" and ids: "ids \<noteq> []" "distinct ids"
  obtains c :: "'p system" and ws where "concurrent_new me ids None = Inr c" "ws \<noteq> []" "distinct ws"
    "num_workers (sy_master c) = length ids" "wo_state (sy_world c) = ts_new" "clean_system E me ws c"
    "\<And>m. well_formed E m \<Longrightarrow> \<forall>k. ts_owner m k = None \<Longrightarrow> clean_system E me ws (at_state m c)"
proof -
  have new: "well_formed E ts_new" "\<forall>k. ts_owner ts_new k = None"
    using well_formed_empty[OF E] by (simp_all add: ts_new_def ts_owner_def)
  obtain c :: "'p system" and ws where c: "concurrent_new me ids None = Inr c" "ws \<noteq> []" "distinct ws"
    "wo_state (sy_world c) = ts_new" "clean_system E me ws (at_state ts_new c)"
    by (rule started_executor[OF E ids new]) blast
  have "at_state ts_new c = c" using c(4) by (simp add: at_state_def flip: c(4))
  then have clean: "clean_system E me ws c" using c(5) by simp
  have "num_workers (sy_master c) = length ids"
    using c(1) by (auto simp: concurrent_new_def Let_def num_workers_def split: if_splits)
  moreover have "clean_system E me ws (at_state m c)" if "well_formed E m" "\<forall>k. ts_owner m k = None" for m
    using clean that by (auto simp: clean_system_def quiet_system_def)
  ultimately show thesis using that c(1-4) clean by blast
qed

lemma always_ends:
  assumes "quiet_system mid ws c" "distinct ws"
  shows "\<exists>t. ends E c t"
proof -
  obtain es t where "thread_run E (th_start (call_terminate c)) es t" "joined (th_sys t)"
    using shutdown_possible[OF closing_start(1)[OF assms]] by blast
  then show ?thesis unfolding ends_def by blast
qed

section \<open>The tests pass\<close>

definition always_passes :: "((unit, unit) rs \<Rightarrow> bool) \<Rightarrow> bool" where
  "always_passes run \<longleftrightarrow> run (Ok ()) \<and> (\<forall>r. run r \<longrightarrow> r = Ok ())"

lemma empty_authoring_passes:
  fixes E :: "('p, 'z) exec_env_scheme"
  assumes E: "staking_ok E" and ids: "length ids = 3" "distinct ids"
  shows "always_passes (empty_setup_works_authoring E me ids)"
proof -
  have "ids \<noteq> []" using ids(1) by auto
  then obtain c :: "'p system" and ws where c: "concurrent_new me ids None = Inr c" "ws \<noteq> []" "distinct ws"
    "num_workers (sy_master c) = length ids" "clean_system E me ws c"
    using new_executor[OF E _ ids(2)] by metis
  note S = startable_nothing[OF c(2), of E]
  obtain c1 L t st blk where run: "call_author E round_robin [] c = Some c1" "thread_run E (th_start c1) L t"
    "sy_result (th_sys t) = Some (Authored st blk)"
    by (rule startable_run[OF E c(5) S])
  obtain u where u: "ends E (th_sys t) u" using always_ends[OF authored_facts(1)[OF E c(5) S run] c(3)] by blast
  have "empty_setup_works_authoring E me ids (Ok ())"
    using empty_setup_works_authoring.authored[OF c(1) _ run u] c(4) ids(1) by simp
  moreover have "r = Ok ()" if "empty_setup_works_authoring E me ids r" for r
    using that
  proof (rule empty_authoringE)
    fix c' :: "'p system" assume "concurrent_new me ids None = Inr c'" "num_workers (sy_master c') \<noteq> 3"
    then show "r = Ok ()" using c(1,4) ids(1) by simp
  next
    fix msg assume "(concurrent_new me ids None :: 'p system panicking) = Inl msg"
    then show "r = Ok ()" using c(1) by simp
  qed
  ultimately show ?thesis unfolding always_passes_def by blast
qed

lemma initial_none: "author_and_validate_run E D txs None c = author_and_validate_run E D txs (Some ts_new) c"
proof -
  have "call_apply_initial None = (call_apply_initial (Some ts_new) :: 'a system \<Rightarrow> 'a system)"
    by (simp add: fun_eq_iff call_apply_initial_def call_apply_state_def ce_apply_state_def ts_new_def sorted_list_of_fmap_def
        sorted_list_of_fset.rep_eq)
  then show ?thesis
    unfolding fun_eq_iff author_and_validate_run.simps by simp
qed

lemma empty_validation_passes:
  fixes E :: "('p, 'z) exec_env_scheme"
  assumes E: "staking_ok E" and ids: "length ids = 3" "distinct ids"
  shows "always_passes (empty_setup_validation_authoring E me ids)"
proof -
  have "ids \<noteq> []" using ids(1) by auto
  then obtain c :: "'p system" and ws where c: "concurrent_new me ids None = Inr c" "ws \<noteq> []" "distinct ws"
    "num_workers (sy_master c) = length ids" "clean_system E me ws c" "wo_state (sy_world c) = ts_new"
    using new_executor[OF E _ ids(2)] by metis
  have new: "well_formed E ts_new" "\<forall>k. ts_owner ts_new k = None" "fmdom' (wo_state (sy_world c)) \<subseteq> fmdom' ts_new"
    using well_formed_empty[OF E] c(6) by (simp_all add: ts_new_def ts_owner_def)
  have none: "\<forall>tx\<in>set []. asks_within (fmdom' ts_new) (outer_dispatch E HR (tx_function tx) (fst (tx_signature tx)))"
    by simp
  note agree = author_and_validate_agrees[OF E c(5) startable_nothing[OF c(2)] new none, folded initial_none]
  obtain c1 where c1: "author_and_validate_run E round_robin [] None c True c1" using agree(2) by blast
  have "quiet_system me ws c1" using agree(1)[OF c1] by (simp add: clean_system_def)
  then obtain u where u: "ends E c1 u" using always_ends c(3) by blast
  have "empty_setup_validation_authoring E me ids (Ok ())"
    by (rule empty_setup_validation_authoring.validated[OF c(1) _ c1 u]) (simp only: c(4) ids(1))
  moreover have "r = Ok ()" if "empty_setup_validation_authoring E me ids r" for r
    using that
  proof (rule empty_validationE)
    fix c' c1 :: "'p system"
    assume "concurrent_new me ids None = Inr c'" and run: "author_and_validate_run E round_robin [] None c' False c1"
    then have "c' = c" using c(1) by simp
    with agree(1) run show "r = Ok ()" by blast
  next
    fix c' :: "'p system" assume "concurrent_new me ids None = Inr c'" "num_workers (sy_master c') \<noteq> 3"
    then show "r = Ok ()" using c(1,4) ids(1) by simp
  next
    fix msg assume "(concurrent_new me ids None :: 'p system panicking) = Inl msg"
    then show "r = Ok ()" using c(1) by simp
  qed
  ultimately show ?thesis unfolding always_passes_def by blast
qed

text \<open>A setup with a bank succeeds, and the executors can start its transactions from its state.\<close>

lemma bank_ready:
  assumes E: "staking_ok E" and keys: "keys_ok E" and random: "\<forall>i. matching_pair E (random i)"
    and sizes: "0 < members" "0 < transfers" "transfers \<le> 2 ^ 32" "members * unat endowment < 2 ^ 128"
  obtains txs accounts where "bank E random choices members transfers amount = Inr (txs, accounts)"
    "accounts = map (\<lambda>i. pair_public E (random i)) [0..<members]" "length txs = transfers"
    "transfers_between E (map random [0..<members]) amount txs" "submittable E txs"
    "well_formed E (endowed E (map (\<lambda>acc. (acc, endowment)) accounts) ts_new)"
    "\<forall>k. ts_owner (endowed E (map (\<lambda>acc. (acc, endowment)) accounts) ts_new) k = None"
    "fmdom' (endowed E (map (\<lambda>acc. (acc, endowment)) accounts) ts_new) = key_for (BalanceOf E) ` set accounts"
    "\<forall>tx\<in>set txs. asks_within (key_for (BalanceOf E) ` set accounts)
       (outer_dispatch E HR (tx_function tx) (fst (tx_signature tx)))"
proof -
  let ?accounts = "map (\<lambda>i. pair_public E (random i)) [0..<members]"
  let ?xs = "map (\<lambda>acc. (acc, endowment)) ?accounts"
  obtain txs where txs: "bank E random choices members transfers amount = Inr (txs, ?accounts)"
    "map tx_id txs = map of_nat [0..<transfers]" "transfers_between E (map random [0..<members]) amount txs"
    using bank_run[OF sizes(1), of E random choices transfers amount] by (auto simp: comp_def)
  have len: "length txs = transfers" using arg_cong[OF txs(2), of length] by simp
  have sum: "(\<Sum>x\<leftarrow>?xs. unat (snd x)) < 2 ^ 128" using sizes(4) by (simp add: comp_def sum_list_triv)
  have "bank_data E (bindC (endow_all E ?accounts endowment) (\<lambda>_. ret txs)) (map random [0..<members]) ?xs txs"
    using txs(3) random sum len sizes(2) numbered_ids[OF sizes(3)]
    by (auto simp: bank_data_def txs(2) comp_simps endow_all_SR sr_new_def image_image)
  note sub = bank_data_submittable[OF keys this]
  note m = endowed_well_formed[OF E sum]
  have fst: "fst ` set ?xs = set ?accounts" by (simp add: image_image)
  show thesis
    by (rule that[OF txs(1) refl len txs(3) sub(1) m(1,2)]) (use m(3) sub(3) in \<open>simp_all only: fst\<close>, blast)
qed

lemma bank_setup_agrees:
  fixes E :: "('p, 'k, 'z) key_env_scheme"
  assumes E: "staking_ok E" and keys: "keys_ok E" and random: "\<forall>i. matching_pair E (random i)"
    and sizes: "0 < members" "0 < transfers" "transfers \<le> 2 ^ 32" "members * unat endowment < 2 ^ 128"
    and D: "distributer_laws D" and ids: "ids \<noteq> []" "distinct ids"
  obtains c txs initial where "bank_setup E random choices members transfers endowment me ids = Inr (c, txs, initial)"
    "num_workers (sy_master c) = length ids"
    "\<And>valid c1. author_and_validate_run E D txs (Some initial) c valid c1 \<Longrightarrow> valid \<and> (\<exists>u. ends E c1 u)"
    "\<exists>c1. author_and_validate_run E D txs (Some initial) c True c1"
proof -
  obtain txs accounts where b: "bank E random choices members transfers 100 = Inr (txs, accounts)"
    "accounts = map (\<lambda>i. pair_public E (random i)) [0..<members]" "length txs = transfers"
    "transfers_between E (map random [0..<members]) 100 txs" "submittable E txs" and
    m: "well_formed E (endowed E (map (\<lambda>acc. (acc, endowment)) accounts) ts_new)"
      "\<forall>k. ts_owner (endowed E (map (\<lambda>acc. (acc, endowment)) accounts) ts_new) k = None"
      "fmdom' (endowed E (map (\<lambda>acc. (acc, endowment)) accounts) ts_new) = key_for (BalanceOf E) ` set accounts" and
    ask: "\<forall>tx\<in>set txs. asks_within (key_for (BalanceOf E) ` set accounts)
       (outer_dispatch E HR (tx_function tx) (fst (tx_signature tx)))"
    by (rule bank_ready[OF E keys random sizes])
  obtain c :: "'p system" and ws where c: "concurrent_new me ids None = Inr c" "distinct ws"
    "num_workers (sy_master c) = length ids" "clean_system E me ws c" "wo_state (sy_world c) = ts_new"
    using new_executor[OF E ids] by metis
  let ?m = "endowed E (map (\<lambda>acc. (acc, endowment)) accounts) ts_new"
  have "fmdom' (wo_state (sy_world c)) \<subseteq> fmdom' ?m" by (simp add: c(5) ts_new_def)
  note agree = author_and_validate_agrees[OF E c(4) startableI[OF c(4) D b(5)] m(1,2) this ask[folded m(3)]]
  show thesis
  proof (rule that)
    show "bank_setup E random choices members transfers endowment me ids = Inr (c, txs, ?m)"
      by (simp add: bank_setup_def c(1) b(1) built_endowed)
    show "\<exists>c1. author_and_validate_run E D txs (Some ?m) c True c1" by (rule agree(2))
    show "valid \<and> (\<exists>u. ends E c1 u)" if "author_and_validate_run E D txs (Some ?m) c valid c1" for valid c1
      using agree(1)[OF that] always_ends[OF _ c(2), of me c1 E] by (simp add: clean_system_def)
  qed (rule c(3))
qed

lemma bank_validation_passes:
  fixes E :: "('p, 'k, 'z) key_env_scheme"
  assumes E: "staking_ok E" and keys: "keys_ok E" and random: "\<forall>i. matching_pair E (random i)"
    and ids: "length ids = 3" "distinct ids"
  shows "always_passes (validation_authoring_works_bank E random choices me ids)"
proof -
  have sizes: "(0::nat) < 50" "(0::nat) < 100" "(100::nat) \<le> 2 ^ 32" "50 * unat (100000 :: balance) < 2 ^ 128" by simp_all
  have "ids \<noteq> []" using ids(1) by auto
  obtain c txs initial where s: "bank_setup E random choices 50 100 100000 me ids = Inr (c, txs, initial)"
    "num_workers (sy_master c) = length ids"
    "\<And>valid c1. author_and_validate_run E round_robin txs (Some initial) c valid c1 \<Longrightarrow> valid \<and> (\<exists>u. ends E c1 u)"
    "\<exists>c1. author_and_validate_run E round_robin txs (Some initial) c True c1"
    by (rule bank_setup_agrees[OF E keys random sizes rr.distributer_laws_axioms \<open>ids \<noteq> []\<close> ids(2)]) blast
  from s(4) obtain c1 where "author_and_validate_run E round_robin txs (Some initial) c True c1" by blast
  from validation_authoring_works_bank.validated[OF s(1) this]
  have "validation_authoring_works_bank E random choices me ids (Ok ())" by (simp add: checked_def)
  moreover have "r = Ok ()" if "validation_authoring_works_bank E random choices me ids r" for r
    using that
  proof (rule bank_validationE)
    fix msg assume "bank_setup E random choices 50 100 100000 me ids = Inl msg"
    then show "r = Ok ()" using s(1) by simp
  next
    fix c' txs' initial' valid c1
    assume r: "r = checked valid" and "bank_setup E random choices 50 100 100000 me ids = Inr (c', txs', initial')"
      and run: "author_and_validate_run E round_robin txs' (Some initial') c' valid c1"
    then have "c' = c" "txs' = txs" "initial' = initial" using s(1) by simp_all
    with run have "author_and_validate_run E round_robin txs (Some initial) c valid c1" by (simp only:)
    from s(3)[OF this] have valid by (rule conjunct1)
    then show "r = Ok ()" by (simp add: r checked_def)
  qed
  ultimately show ?thesis unfolding always_passes_def by blast
qed

lemma bank_test_passes:
  fixes E :: "('p, 'k, 'z) key_env_scheme"
  assumes E: "staking_ok E" and keys: "keys_ok E" and random: "\<forall>i. matching_pair E (random i)"
    and D: "distributer_laws D" and ids: "length ids = 4" "distinct ids"
  shows "always_passes (bank_test_with_distribution E D random choices me ids)"
proof -
  have sizes: "(0::nat) < 10" "(0::nat) < 250" "(250::nat) \<le> 2 ^ 32" "10 * unat (1000000 :: balance) < 2 ^ 128" by simp_all
  have "ids \<noteq> []" using ids(1) by auto
  obtain c txs initial where s: "bank_setup E random choices 10 250 1000000 me ids = Inr (c, txs, initial)"
    "num_workers (sy_master c) = length ids"
    "\<And>valid c1. author_and_validate_run E D txs (Some initial) c valid c1 \<Longrightarrow> valid \<and> (\<exists>u. ends E c1 u)"
    "\<exists>c1. author_and_validate_run E D txs (Some initial) c True c1"
    by (rule bank_setup_agrees[OF E keys random sizes D \<open>ids \<noteq> []\<close> ids(2)]) blast
  then have n: "num_workers (sy_master c) = 4" using ids(1) by (simp only:)
  from s(4) obtain c1 where run: "author_and_validate_run E D txs (Some initial) c True c1" by blast
  with s(3) obtain u where "ends E c1 u" by blast
  note bank_test_with_distribution.ended[OF s(1) n run this]
  moreover have "r = Ok ()" if "bank_test_with_distribution E D random choices me ids r" for r
    using that
  proof (rule bank_testE)
    fix msg assume "bank_setup E random choices 10 250 1000000 me ids = Inl msg"
    then show "r = Ok ()" using s(1) by simp
  next
    fix c' :: "'p system" assume new: "concurrent_new me ids None = Inr c'" "num_workers (sy_master c') \<noteq> 4"
    then have "c' = c" using s(1) by (auto simp: bank_setup_def built_endowed split: sum.splits)
    with new(2) n show "r = Ok ()" by simp
  qed
  ultimately show ?thesis unfolding always_passes_def by blast
qed

text \<open>Endowed accounts hold what they were given.\<close>

lemma endowed_holds:
  "holds E (set accounts) (values_of m) (\<lambda>_. amount) (values_of (endowed E (map (\<lambda>acc. (acc, amount)) accounts) m))"
proof -
  let ?v = "StateValue (sm_enc (BalanceOf E) (ab_new_free amount))"
  have "values_of (endowed E (map (\<lambda>acc. (acc, amount)) accounts) m) k
      = (if k \<in> key_for (BalanceOf E) ` set accounts then ?v else values_of m k)" for k
  proof (induction accounts arbitrary: m)
    case (Cons acc accounts)
    have "values_of (unsafe_insert_genesis_value (key_for (BalanceOf E) acc) ?v m)
        = (values_of m)(key_for (BalanceOf E) acc := ?v)"
      by (simp add: unsafe_insert_genesis_value_def ts_view_def fun_eq_iff)
    with Cons.IH[of "unsafe_insert_genesis_value (key_for (BalanceOf E) acc) ?v m"] show ?case
      by (simp add: endowed_def)
  qed (simp add: endowed_def)
  then show ?thesis by (simp add: holds_def)
qed

lemma constant_ample:
  assumes moves: "\<forall>(origin, dest, v)\<in>set ms. origin \<in> A \<and> dest \<in> A \<and> v \<le> u" and A: "finite A"
    and amount: "length ms * unat u \<le> unat amount" "card A * unat amount < 2 ^ 128"
  shows "ample A (\<lambda>_. amount) ms"
proof -
  have "spent ms p \<le> (\<Sum>_\<leftarrow>ms. unat u)" for p
    unfolding spent_def using moves by (intro sum_list_mono) (auto simp: word_le_nat_alt)
  also have "(\<Sum>_\<leftarrow>ms. unat u) = length ms * unat u" by (simp add: sum_list_triv)
  finally have "spent ms p \<le> unat amount" for p using amount(1) order_trans by blast
  with moves A amount(2) show ?thesis by (auto simp: ample_def)
qed

lemma bank_moves:
  assumes "keys_ok E" "\<forall>i. matching_pair E (random i)" "transfers_between E (map random [0..<members]) amount txs"
    "accounts = map (\<lambda>i. pair_public E (random i)) [0..<members]" "tx \<in> set txs"
  shows "is_transfer tx" "fst (move_of tx) \<in> set accounts" "fst (snd (move_of tx)) \<in> set accounts"
    "snd (snd (move_of tx)) = amount"
proof -
  have "\<forall>p\<in>set (map random [0..<members]). matching_pair E p" using assms(2) by simp
  from transfers_between_valid(5)[OF assms(1) this assms(3,5)] obtain origin to where
    "to \<in> set (map random [0..<members])" "origin \<in> set (map random [0..<members])"
    "tx_function tx = BalancesCall (Transfer (pair_public E to) amount)" "fst (tx_signature tx) = pair_public E origin" by blast
  then show "is_transfer tx" "fst (move_of tx) \<in> set accounts" "fst (snd (move_of tx)) \<in> set accounts"
    "snd (snd (move_of tx)) = amount"
    by (auto simp: is_transfer_def move_of_def assms(4))
qed

text \<open>Authoring the transfers of a bank once, and again after \<open>clean\<close> and endowing the accounts again.\<close>

lemma emptied_clean: "emptied (call_clean c)"
  by (simp add: emptied_def call_clean_def ce_clean_def vp_len_def vp_clear_def unsafe_len_def unsafe_clean_def)

lemma cleaned_endowed:
  assumes c: "quiet_system mid ws c" "ws \<noteq> []" "distinct ws"
    and m: "well_formed E (endowed E xs ts_new)" "\<forall>k. ts_owner (endowed E xs ts_new) k = None"
  shows "clean_system E mid ws (at_state (endowed E xs (wo_state (sy_world (call_clean c)))) (call_clean c))"
    "wo_state (sy_world (at_state (endowed E xs (wo_state (sy_world (call_clean c)))) (call_clean c))) = endowed E xs ts_new"
proof -
  have new: "wo_state (sy_world (call_clean c)) = ts_new"
    by (simp add: call_clean_def ce_clean_def unsafe_clean_def ts_new_def)
  have "call_apply_state (endowed E xs ts_new) (call_clean c) = at_state (endowed E xs ts_new) (call_clean c)"
    by (simp add: call_apply_state_def call_clean_def ce_clean_def ce_apply_state_def unsafe_clean_def apply_to_empty
        at_state_def ts_new_def)
  with clean_again[OF c m] show "clean_system E mid ws (at_state (endowed E xs (wo_state (sy_world (call_clean c)))) (call_clean c))"
    "wo_state (sy_world (at_state (endowed E xs (wo_state (sy_world (call_clean c)))) (call_clean c))) = endowed E xs ts_new"
    unfolding new by simp_all
qed

lemma endowed_twice:
  fixes c :: "'p system"
  assumes E: "staking_ok E" and txs: "submittable E txs" "\<forall>tx\<in>set txs. is_transfer tx"
      "ample (set accounts) (\<lambda>_. amount) (map move_of txs)"
    and xs: "xs = map (\<lambda>acc. (acc, amount)) accounts"
    and m: "well_formed E (endowed E xs ts_new)" "\<forall>k. ts_owner (endowed E xs ts_new) k = None"
      "fmdom' (endowed E xs ts_new) = key_for (BalanceOf E) ` set accounts"
    and c: "clean_system E me ws c" "wo_state (sy_world c) = endowed E xs ts_new"
    and r1: "call_author E round_robin txs c = Some c2" "thread_run E (th_start c2) L t"
      "sy_result (th_sys t) = Some (Authored st blk)"
    and c3: "c3 = at_state (endowed E xs (wo_state (sy_world (call_clean (th_sys t))))) (call_clean (th_sys t))"
  shows "\<exists>c4 K u st2 blk2. call_author E round_robin txs c3 = Some c4 \<and> thread_run E (th_start c4) K u
      \<and> sy_result (th_sys u) = Some (Authored st2 blk2)"
    and "call_author E round_robin txs c3 = Some c4 \<Longrightarrow> thread_run E (th_start c4) K u \<Longrightarrow>
      sy_result (th_sys u) = Some (Authored st2 blk2) \<Longrightarrow>
      state_eq st st2 \<and> length (transactions blk) = length txs \<and> length (transactions blk2) = length txs"
proof -
  note rr = rr.distributer_laws_axioms
  note first = authored_facts[OF E c(1) startableI[OF c(1) rr txs(1)] r1]
  have ws: "ws \<noteq> []" "distinct ws" using c(1) by (simp_all add: clean_system_def)
  note again = cleaned_endowed[OF first(1) ws m(1,2), folded c3]
  note S = startableI[OF again(1) rr txs(1)]
  show "\<exists>c4 K u st2 blk2. call_author E round_robin txs c3 = Some c4 \<and> thread_run E (th_start c4) K u
      \<and> sy_result (th_sys u) = Some (Authored st2 blk2)"
    by (rule startable_run[OF E again(1) S]) blast
  assume r2: "call_author E round_robin txs c3 = Some c4" "thread_run E (th_start c4) K u"
    "sy_result (th_sys u) = Some (Authored st2 blk2)"
  have dom: "key_for (BalanceOf E) ` set accounts \<subseteq> fmdom' (endowed E xs ts_new)" using m(3) by blast
  from authored_state_unique[OF E txs endowed_holds[of E accounts ts_new amount, folded xs] dom c rr r1 again rr r2]
  show "state_eq st st2 \<and> length (transactions blk) = length txs \<and> length (transactions blk2) = length txs"
    using first(3) authored_facts(3)[OF E again(1) S r2] by simp
qed

lemma tasks_ready:
  fixes E :: "('p, 'k, 'z) key_env_scheme" and me :: thread_id
  assumes E: "staking_ok E" and keys: "keys_ok E" and random: "\<forall>i. matching_pair E (random i)"
    and ids: "length ids = 3" "distinct ids"
  obtains txs accounts xs ws and c :: "'p system"
  where "bank E random choices 5 20 100 = Inr (txs, accounts)" "length txs = 20"
    "submittable E txs" "\<forall>tx\<in>set txs. is_transfer tx" "ample (set accounts) (\<lambda>_. 1000000000000) (map move_of txs)"
    "xs = map (\<lambda>acc. (acc, 1000000000000)) accounts"
    "well_formed E (endowed E xs ts_new)" "\<forall>k. ts_owner (endowed E xs ts_new) k = None"
    "fmdom' (endowed E xs ts_new) = key_for (BalanceOf E) ` set accounts"
    "concurrent_new me ids None = Inr c" "num_workers (sy_master c) = 3" "wo_state (sy_world c) = ts_new"
    "clean_system E me ws (at_state (endowed E xs ts_new) c)"
proof -
  let ?u = "1000000000000 :: balance"
  have sizes: "(0::nat) < 5" "(0::nat) < 20" "(20::nat) \<le> 2 ^ 32" "5 * unat ?u < 2 ^ 128" by simp_all
  obtain txs accounts where b: "bank E random choices 5 20 100 = Inr (txs, accounts)"
    "accounts = map (\<lambda>i. pair_public E (random i)) [0..<5]" "length txs = 20"
    "transfers_between E (map random [0..<5]) 100 txs" "submittable E txs" and
    m: "well_formed E (endowed E (map (\<lambda>acc. (acc, ?u)) accounts) ts_new)"
      "\<forall>k. ts_owner (endowed E (map (\<lambda>acc. (acc, ?u)) accounts) ts_new) k = None"
      "fmdom' (endowed E (map (\<lambda>acc. (acc, ?u)) accounts) ts_new) = key_for (BalanceOf E) ` set accounts"
    by (rule bank_ready[OF E keys random sizes])
  note moves = bank_moves[OF keys random b(4,2)]
  have A: "ample (set accounts) (\<lambda>_. ?u) (map move_of txs)"
  proof (rule constant_ample[where u = 100])
    show "\<forall>(origin, dest, v)\<in>set (map move_of txs). origin \<in> set accounts \<and> dest \<in> set accounts \<and> v \<le> 100"
    proof
      fix mv assume "mv \<in> set (map move_of txs)"
      then obtain tx where "mv = move_of tx" "tx \<in> set txs" by auto
      with moves(2-4) show "case mv of (origin, dest, v) \<Rightarrow> origin \<in> set accounts \<and> dest \<in> set accounts \<and> v \<le> 100"
        by (simp add: split_beta)
    qed
    have "card (set accounts) \<le> 5" using card_length[of accounts] by (simp add: b(2))
    then show "card (set accounts) * unat ?u < 2 ^ 128" by simp
  qed (simp_all add: b(3))
  have "ids \<noteq> []" using ids(1) by auto
  then obtain c :: "'p system" and ws where c: "concurrent_new me ids None = Inr c" "num_workers (sy_master c) = length ids"
    "wo_state (sy_world c) = ts_new"
    "\<And>m. well_formed E m \<Longrightarrow> \<forall>k. ts_owner m k = None \<Longrightarrow> clean_system E me ws (at_state m c)"
    using new_executor[OF E _ ids(2)] by metis
  have "num_workers (sy_master c) = 3" using c(2) ids(1) by simp
  moreover have "\<forall>tx\<in>set txs. is_transfer tx" using moves(1) by blast
  ultimately show thesis
    by (intro that[OF b(1,3,5) _ A refl m c(1) _ c(3) c(4)[OF m(1,2)]])
qed

lemma multiple_tasks_passes:
  fixes E :: "('p, 'k, 'z) key_env_scheme"
  assumes E: "staking_ok E" and keys: "keys_ok E" and random: "\<forall>i. matching_pair E (random i)"
    and ids: "length ids = 3" "distinct ids"
  shows "always_passes (multiple_tasks_works E random choices me ids)"
proof -
  let ?u = "1000000000000 :: balance"
  obtain txs accounts xs ws and c :: "'p system"
  where b: "bank E random choices 5 20 100 = Inr (txs, accounts)" "length txs = 20"
    and txs: "submittable E txs" "\<forall>tx\<in>set txs. is_transfer tx" "ample (set accounts) (\<lambda>_. ?u) (map move_of txs)"
    and xs: "xs = map (\<lambda>acc. (acc, ?u)) accounts"
    and m: "well_formed E (endowed E xs ts_new)" "\<forall>k. ts_owner (endowed E xs ts_new) k = None"
      "fmdom' (endowed E xs ts_new) = key_for (BalanceOf E) ` set accounts"
    and c: "concurrent_new me ids None = Inr c" "num_workers (sy_master c) = 3" "wo_state (sy_world c) = ts_new"
    and clean: "clean_system E me ws (at_state (endowed E xs ts_new) c)"
    by (rule tasks_ready[OF E keys random ids])
  let ?c1 = "at_state (endowed E xs ts_new) c"
  let ?c3 = "\<lambda>t. at_state (endowed E xs (wo_state (sy_world (call_clean (th_sys t))))) (call_clean (th_sys t))"
  have endow: "on_master (endow_all E accounts ?u) c = (Ok (), ?c1)" and three: "num_workers (sy_master ?c1) = 3"
    and again: "on_master (endow_all E accounts ?u) (call_clean (th_sys t)) = (Ok (), ?c3 t)" for t :: "'p threads"
    using c(2,3) by (simp_all add: on_master_endow xs)
  have state: "wo_state (sy_world ?c1) = endowed E xs ts_new" by simp
  note twice = endowed_twice[OF E txs xs m clean state _ _ _ refl, unfolded b(2)]
  obtain c2 L t st blk where r1: "call_author E round_robin txs ?c1 = Some c2" "thread_run E (th_start c2) L t"
    "sy_result (th_sys t) = Some (Authored st blk)"
    by (rule startable_run[OF E clean startableI[OF clean rr.distributer_laws_axioms txs(1)]])
  from twice(1)[OF r1] obtain c4 K u st2 blk2 where r2: "call_author E round_robin txs (?c3 t) = Some c4"
    "thread_run E (th_start c4) K u" "sy_result (th_sys u) = Some (Authored st2 blk2)" by blast
  have "Ok () = checked (emptied (call_clean (th_sys u)) \<and> state_eq st st2
      \<and> length (transactions blk) = 20 \<and> length (transactions blk2) = 20)"
    using twice(2)[OF r1 r2] by (simp only: checked_def simp_thms if_True emptied_clean)
  note multiple_tasks_works.both[OF c(1) b(1) endow three r1 emptied_clean again r2 this]
  moreover have "r = Ok ()" if "multiple_tasks_works E random choices me ids r" for r
    using that
  proof (rule multiple_tasksE)
    fix c' c1' c2 c3' c4 :: "'p system" and txs' accounts' L t K u state1 state2 block1 block2
    assume r: "r = checked (emptied (call_clean (th_sys u)) \<and> state_eq state1 state2
        \<and> length (transactions block1) = 20 \<and> length (transactions block2) = 20)"
      and new: "concurrent_new me ids None = Inr c'" "bank E random choices 5 20 100 = Inr (txs', accounts')"
        "on_master (endow_all E accounts' ?u) c' = (Ok (), c1')"
      and r1: "call_author E round_robin txs' c1' = Some c2" "thread_run E (th_start c2) L t"
        "sy_result (th_sys t) = Some (Authored state1 block1)"
      and c3': "on_master (endow_all E accounts' ?u) (call_clean (th_sys t)) = (Ok (), c3')"
      and r2: "call_author E round_robin txs' c3' = Some c4" "thread_run E (th_start c4) K u"
        "sy_result (th_sys u) = Some (Authored state2 block2)"
    have eqs: "c' = c" "txs' = txs" "accounts' = accounts" using new(1,2) c(1) b(1) by simp_all
    then have eqs': "c1' = ?c1" "c3' = ?c3 t" using new(3) c3' endow again by simp_all
    from twice(2)[OF r1[unfolded eqs eqs'] r2[unfolded eqs eqs']] show "r = Ok ()"
      by (simp only: r checked_def simp_thms if_True emptied_clean)
  qed (use c b in \<open>simp_all add: on_master_endow emptied_clean\<close>)
  ultimately show ?thesis unfolding always_passes_def by blast
qed

text \<open>Reading balances, and starting from a pool that the caller has filled.\<close>

lemma read_held:
  assumes E: "staking_ok E" and w: "holds E A w0 f (values_of (wo_state (sy_world c)))" and acc: "acc \<in> A"
  shows "read_free E acc c = Some (f acc)"
proof -
  have dec: "sm_dec (BalanceOf E) (sm_enc (BalanceOf E) b) = Ok b" for b
    using BalanceOf_ok[of E] E by (simp add: staking_ok_def sm_ok_def)
  have "values_of (wo_state (sy_world c)) (key_for (BalanceOf E) acc) = StateValue (sm_enc (BalanceOf E) (ab_new_free (f acc)))"
    using w acc by (simp add: holds_def)
  then show ?thesis
    by (simp add: read_free_def on_master_def map_read_def or_forward_def expectC_def comp_simps sr_read_eq sr_view_def
        sr_new_def dec ab_new_free_def)
qed

lemma call_author_pushed:
  assumes "pushed E txs c = Inr c2"
  shows "call_author E D [] c2 = call_author E D txs c"
  using assms
  by (auto simp: pushed_def call_author_def author_block_start_def Let_def broadcast_def split: sum.splits
      cong: option.case_cong prod.case_cong)

lemma orphan_moves:
  assumes E: "staking_ok E" and keys: "keys_ok E" and ps: "orphan_accounts E = Inr ps"
  obtains a b d e where "map (pair_public E) ps = [a, b, d, e]" "distinct [a, b, d, e]"
    "map move_of (orphan_txs E ps) = [(a, b, 10), (e, d, 10), (b, d, 10)]"
    "\<forall>tx\<in>set (orphan_txs E ps). is_transfer tx" "submittable E (orphan_txs E ps)"
proof -
  obtain a b d e where p: "Crypto.alice E = Inr a" "matching_pair E a" "Crypto.bob E = Inr b" "matching_pair E b"
    "Crypto.dave E = Inr d" "matching_pair E d" "eve E = Inr e" "matching_pair E e"
    by (rule test_accounts[OF keys])
  have "edc_ok E" using E by (simp add: staking_ok_def balances_ok_def)
  from test_accounts_distinct[OF keys this p(1,3,5,7)]
  have dist: "distinct [pair_public E a, pair_public E b, pair_public E d, pair_public E e]" by simp
  have ps: "ps = [a, b, d, e]" using ps p by (simp add: orphan_accounts_def)
  show thesis
  proof (rule that)
    show "map (pair_public E) ps = [pair_public E a, pair_public E b, pair_public E d, pair_public E e]" by (simp add: ps)
    show "distinct [pair_public E a, pair_public E b, pair_public E d, pair_public E e]" by (rule dist)
    show "map move_of (orphan_txs E ps) = [(pair_public E a, pair_public E b, 10), (pair_public E e, pair_public E d, 10),
        (pair_public E b, pair_public E d, 10)]"
      by (simp add: ps orphan_txs_def move_of_def build_transfer_def numeral_2_eq_2 numeral_3_eq_3)
    show "\<forall>tx\<in>set (orphan_txs E ps). is_transfer tx"
      by (simp add: orphan_txs_def is_transfer_def build_transfer_def)
    show "submittable E (orphan_txs E ps)"
      using p(2,4,8) by (simp add: ps orphan_txs_def submittable_def sane_def build_transfer_def signed_tx_verifies[OF keys]
          numeral_2_eq_2 numeral_3_eq_3)
  qed
qed

lemma orphan_ready:
  fixes E :: "('p, 'k, 'z) key_env_scheme" and me :: thread_id
  assumes E: "staking_ok E" and keys: "keys_ok E" and ids: "length ids = 3" "distinct ids"
  obtains ps ws and c c2 :: "'p system"
  where "orphan_accounts E = Inr ps" "concurrent_new me ids None = Inr c" "num_workers (sy_master c) = 3"
    "on_master (endow_all E (map (pair_public E) ps) 1000) c
       = (Ok (), at_state (endowed E (map (\<lambda>acc. (acc, 1000)) (map (pair_public E) ps)) ts_new) c)"
    "clean_system E me ws (at_state (endowed E (map (\<lambda>acc. (acc, 1000)) (map (pair_public E) ps)) ts_new) c)"
    "pushed E (orphan_txs E ps) (at_state (endowed E (map (\<lambda>acc. (acc, 1000)) (map (pair_public E) ps)) ts_new) c) = Inr c2"
proof -
  obtain pa pb pd pe where pairs: "Crypto.alice E = Inr pa" "matching_pair E pa" "Crypto.bob E = Inr pb" "matching_pair E pb"
    "Crypto.dave E = Inr pd" "matching_pair E pd" "eve E = Inr pe" "matching_pair E pe"
    by (rule test_accounts[OF keys])
  define ps where "ps = [pa, pb, pd, pe]"
  have ps: "orphan_accounts E = Inr ps" by (simp add: orphan_accounts_def pairs ps_def)
  let ?xs = "map (\<lambda>acc. (acc, 1000 :: balance)) (map (pair_public E) ps)"
  have "(\<Sum>x\<leftarrow>?xs. unat (snd x)) < 2 ^ 128" by (simp add: ps_def)
  note m = endowed_well_formed[OF E this]
  have "ids \<noteq> []" using ids(1) by auto
  then obtain c :: "'p system" and ws where c: "concurrent_new me ids None = Inr c" "num_workers (sy_master c) = length ids"
    "wo_state (sy_world c) = ts_new"
    "\<And>m. well_formed E m \<Longrightarrow> \<forall>k. ts_owner m k = None \<Longrightarrow> clean_system E me ws (at_state m c)"
    using new_executor[OF E _ ids(2)] by metis
  obtain a b d e where "submittable E (orphan_txs E ps)" by (rule orphan_moves[OF E keys ps])
  then have "\<forall>tx\<in>set (orphan_txs E ps). tx_verify E tx" by (simp add: submittable_def)
  then obtain c2 where c2: "pushed E (orphan_txs E ps) (at_state (endowed E ?xs ts_new) c) = Inr c2"
    by (simp add: pushed_def push_batch_valid)
  show thesis
  proof (rule that[OF ps c(1) _ _ c(4)[OF m(1,2)] c2])
    show "num_workers (sy_master c) = 3" using c(2) ids(1) by simp
    show "on_master (endow_all E (map (pair_public E) ps) 1000) c = (Ok (), at_state (endowed E ?xs ts_new) c)"
      by (simp only: on_master_endow c(3))
  qed
qed

text \<open>Authoring leaves the balances that the test reads, and ending the executor keeps them.\<close>

lemma orphan_balances:
  fixes c :: "'p system"
  assumes E: "staking_ok E" and keys: "keys_ok E" and ps: "orphan_accounts E = Inr ps"
    and c: "clean_system E me ws c"
      "wo_state (sy_world c) = endowed E (map (\<lambda>acc. (acc, 1000)) (map (pair_public E) ps)) ts_new"
    and run: "call_author E round_robin (orphan_txs E ps) c = Some c3" "thread_run E (th_start c3) L t"
      "sy_result (th_sys t) = Some (Authored st blk)"
  shows "closing me ws st (th_start (call_terminate (th_sys t)))"
    and "thread_run E (th_start (call_terminate (th_sys t))) es u \<Longrightarrow>
      map (\<lambda>p. read_free E (pair_public E p) (th_sys u)) ps = [Some 990, Some 1000, Some 1020, Some 990]"
proof -
  obtain a b d e where p: "map (pair_public E) ps = [a, b, d, e]" "distinct [a, b, d, e]"
    "map move_of (orphan_txs E ps) = [(a, b, 10), (e, d, 10), (b, d, 10)]"
    "\<forall>tx\<in>set (orphan_txs E ps). is_transfer tx" "submittable E (orphan_txs E ps)"
    by (rule orphan_moves[OF E keys ps])
  note rr = rr.distributer_laws_axioms
  have "distinct ws" using c(1) by (simp add: clean_system_def)
  with authored_facts(1,2)[OF E c(1) startableI[OF c(1) rr p(5)] run] closing_start(1)[of me ws "th_sys t"]
  show closes: "closing me ws st (th_start (call_terminate (th_sys t)))" by simp
  assume u: "thread_run E (th_start (call_terminate (th_sys t))) es u"
  have A: "ample {a, b, d, e} (\<lambda>_. 1000) (map move_of (orphan_txs E ps))"
    by (rule constant_ample[where u = 10]) (use p(2) in \<open>simp_all add: p(3)\<close>)
  have start: "holds E {a, b, d, e} (values_of ts_new) (\<lambda>_. 1000) (values_of (wo_state (sy_world c)))"
    using endowed_holds[of E "[a, b, d, e]" ts_new 1000] by (simp add: c(2) p(1))
  let ?f = "fold pay (map move_of (orphan_txs E ps)) (\<lambda>_. 1000)"
  have "holds E {a, b, d, e} (values_of ts_new) ?f (values_of st)"
    by (rule authored_balances[OF E c(1) rr p(5,4) start A run])
  moreover have "wo_state (sy_world (th_sys u)) = st"
    using closing_thread_run[OF u closes] by (simp add: closing_def)
  ultimately have reads: "read_free E acc (th_sys u) = Some (?f acc)" if "acc \<in> {a, b, d, e}" for acc
    using read_held[OF E, of "{a, b, d, e}" "values_of ts_new" ?f "th_sys u" acc] that by simp
  have f: "?f a = 990" "?f b = 1000" "?f d = 1020" "?f e = 990"
    using p(2) by (auto simp: p(3) pay_def)
  have "map (\<lambda>q. read_free E (pair_public E q) (th_sys u)) ps
      = map (\<lambda>acc. read_free E acc (th_sys u)) (map (pair_public E) ps)" by simp
  also have "\<dots> = [Some (?f a), Some (?f b), Some (?f d), Some (?f e)]"
    unfolding p(1) using reads by simp
  finally show "map (\<lambda>p. read_free E (pair_public E p) (th_sys u)) ps = [Some 990, Some 1000, Some 1020, Some 990]"
    by (simp only: f)
qed

lemma orphan_example_passes:
  fixes E :: "('p, 'k, 'z) key_env_scheme"
  assumes E: "staking_ok E" and keys: "keys_ok E" and ids: "length ids = 3" "distinct ids"
  shows "always_passes (orphan_example E me ids)"
proof -
  obtain ps ws and c c2 :: "'p system" where ps: "orphan_accounts E = Inr ps" and c: "concurrent_new me ids None = Inr c"
      "num_workers (sy_master c) = 3"
    and endow: "on_master (endow_all E (map (pair_public E) ps) 1000) c
       = (Ok (), at_state (endowed E (map (\<lambda>acc. (acc, 1000)) (map (pair_public E) ps)) ts_new) c)"
    and clean: "clean_system E me ws (at_state (endowed E (map (\<lambda>acc. (acc, 1000)) (map (pair_public E) ps)) ts_new) c)"
    and c2: "pushed E (orphan_txs E ps) (at_state (endowed E (map (\<lambda>acc. (acc, 1000)) (map (pair_public E) ps)) ts_new) c) = Inr c2"
    by (rule orphan_ready[OF E keys ids])
  let ?c1 = "at_state (endowed E (map (\<lambda>acc. (acc, 1000)) (map (pair_public E) ps)) ts_new) c"
  note author = call_author_pushed[OF c2, of round_robin]
  have "wo_state (sy_world ?c1) = endowed E (map (\<lambda>acc. (acc, 1000)) (map (pair_public E) ps)) ts_new" by simp
  note facts = orphan_balances[OF E keys ps clean this, folded author]
  have sub: "submittable E (orphan_txs E ps)" by (rule orphan_moves[OF E keys ps])
  obtain c3 L t st blk where run: "call_author E round_robin (orphan_txs E ps) ?c1 = Some c3" "thread_run E (th_start c3) L t"
    "sy_result (th_sys t) = Some (Authored st blk)"
    by (rule startable_run[OF E clean startableI[OF clean rr.distributer_laws_axioms sub]])
  note run = run[folded author]
  obtain es u where u: "thread_run E (th_start (call_terminate (th_sys t))) es u" "joined (th_sys u)"
    using shutdown_possible[OF facts(1)[OF run]] by blast
  have none: "thread_run E u [] u" by (rule thread_run.intros)
  note orphan_example.ended[OF ps c endow c2 run u(1) facts(2)[OF run u(1)] none u(2)]
  moreover have "r = Ok ()" if "orphan_example E me ids r" for r
    using that
  proof (rule orphan_exampleE)
    fix ps' c' c1' c2' c3 L t st blk es u
    assume eqs: "orphan_accounts E = Inr ps'" "concurrent_new me ids None = Inr c'"
      "on_master (endow_all E (map (pair_public E) ps') 1000) c' = (Ok (), c1')" "pushed E (orphan_txs E ps') c1' = Inr c2'"
      and run: "call_author E round_robin [] c2' = Some c3" "thread_run E (th_start c3) L t"
        "sy_result (th_sys t) = Some (Authored st blk)" "thread_run E (th_start (call_terminate (th_sys t))) es u"
      and wrong: "map (\<lambda>p. read_free E (pair_public E p) (th_sys u)) ps' \<noteq> [Some 990, Some 1000, Some 1020, Some 990]"
    have same: "ps' = ps" "c2' = c2" using eqs ps c(1) endow c2 by simp_all
    from wrong facts(2)[OF run[unfolded same]] show "r = Ok ()" unfolding same by (rule notE)
  next
    fix ps' msg and c' c1' :: "'p system"
    assume "orphan_accounts E = Inr ps'" "concurrent_new me ids None = Inr c'"
      "on_master (endow_all E (map (pair_public E) ps') 1000) c' = (Ok (), c1')" "pushed E (orphan_txs E ps') c1' = Inl msg"
    then show "r = Ok ()" using ps c(1) endow c2 by simp
  qed (use ps c in \<open>simp_all add: on_master_endow\<close>)
  ultimately show ?thesis unfolding always_passes_def by blast
qed

section \<open>Property\<close>

text \<open>C9. The unit tests of the concurrent executor pass under every interleaving, whatever accounts and
  choices the banks draw: no finished run of any of them ends in a panic, and each of them has
  a finished run. Two of them read balances or
  compare two runs exactly; they are safe only because their transfers are funded and so commute.\<close>

theorem concurrent_tests_pass:
  fixes E :: "('p, 'k, 'z) key_env_scheme"
  assumes "staking_ok E" "keys_ok E" "\<forall>i. matching_pair E (random i)"
    and "length ids = 3" "distinct ids" "length ids4 = 4" "distinct ids4"
  shows "list_all always_passes
    [empty_setup_works_authoring E me ids, empty_setup_validation_authoring E me ids,
     validation_authoring_works_bank E random choices me ids, multiple_tasks_works E random choices me ids,
     orphan_example E me ids, bank_round_robin E random choices me ids4, bank_connected_components E random choices me ids4]"
  using empty_authoring_passes[OF assms(1,4,5)] empty_validation_passes[OF assms(1,4,5)]
    bank_validation_passes[OF assms(1-5)] multiple_tasks_passes[OF assms(1-5)] orphan_example_passes[OF assms(1,2,4,5)]
    bank_test_passes[OF assms(1-3) rr.distributer_laws_axioms assms(6,7)]
    bank_test_passes[OF assms(1-3) cc.distributer_laws_axioms assms(6,7)]
  by (simp only: list.pred_inject bank_round_robin_def bank_connected_components_def simp_thms)

end
