(* ===== verification/Example_Tests.thy ===== *)
theory Example_Tests
  imports Example_Benchmarks Master_Tests Concurrent_Tests
begin

text \<open>
  The theorems on the unit tests and on funded transfers, applied to the instance of the key
  parameters and to a concrete executor.
\<close>

section \<open>Codecs of the tests of the macros\<close>

text \<open>Numbers in unary, each closed by a one.\<close>

fun unary :: "bytes \<Rightarrow> nat \<Rightarrow> u32 list" where
  "unary [] n = []"
| "unary (b # bs) n = (if b = 0 then unary bs (Suc n) else of_nat n # unary bs 0)"

definition unary_of :: "u32 list \<Rightarrow> bytes" where
  "unary_of xs = concat (map (\<lambda>x. replicate (unat x) 0 @ [1]) xs)"

lemma unary_zeros: "unary (replicate k 0 @ bs) n = unary bs (n + k)"
  by (induction k arbitrary: n) simp_all

lemma unary_unary_of [simp]: "unary (unary_of xs) 0 = xs"
  by (induction xs) (simp_all add: unary_of_def unary_zeros)

definition ex_macros :: "(key32, bytes \<times> key32) macro_env" where
  "ex_macros = key_env.extend ex_keys (macro_env.fields (\<lambda>b. [b])
     (\<lambda>x. case x of Something n \<Rightarrow> unary_of [n])
     (\<lambda>bs. case unary bs 0 of n # _ \<Rightarrow> Ok (Something n) | [] \<Rightarrow> Err ''Not enough data to fill buffer'')
     (\<lambda>xs. 1 # unary_of xs)
     (\<lambda>bs. case bs of [] \<Rightarrow> Err ''Not enough data to fill buffer'' | _ # ns \<Rightarrow> Ok (unary ns 0)))"

lemma ex_macros_ok: "staking_ok ex_macros" "macro_ok ex_macros"
proof -
  note defs = ex_macros_def key_env.extend_def macro_env.fields_def
  show "staking_ok ex_macros"
    using ex_keys_ok(1) by (simp add: staking_ok_def balances_ok_def edc_ok_def defs)
  have "keys_ok ex_macros"
    using ex_keys_ok(2) by (simp add: keys_ok_def defs)
  then show "macro_ok ex_macros"
    by (auto simp: macro_ok_def defs inj_def split: something.split)
qed

section \<open>The unit tests on them\<close>

theorem runtime_crate_tests_pass_witness:
  "list_all (\<lambda>t. passes t (sr_new ts_new 0)) (staking_tests ex_macros SR)
     \<and> list_all (\<lambda>t. passes t (cr_new ts_new 0)) (macro_tests ex_macros CR)"
  using runtime_crate_tests_pass[OF ex_macros_ok, of True] by simp

theorem executor_unit_tests_pass_witness:
  "list_all (\<lambda>t. passes t (se_new 7)) (sequential_tests ex_keys)"
  using executor_unit_tests_pass[OF ex_keys_ok] by blast

theorem thread_tests_depend_on_thread_id_witness:
  "map (\<lambda>t. passes t world_new) (worker_tests ex_keys 69) = [True, True, False, False, False]
     \<and> map (\<lambda>t. passes t (master_with worker_ids)) (multi_worker_tests ex_keys key_nr 11) = [True, True, True, False]"
  using thread_tests_depend_on_thread_id[OF ex_keys_ok, of key_nr 69]
    thread_tests_depend_on_thread_id[OF ex_keys_ok, of key_nr 11] key_nr_matches by simp

theorem concurrent_tests_pass_witness:
  "list_all always_passes
     [multiple_tasks_works ex_keys key_nr (\<lambda>i. (i, Suc i)) 0 [3, 1, 2], orphan_example ex_keys 0 [3, 1, 2],
      bank_connected_components ex_keys key_nr (\<lambda>i. (i, Suc i)) 0 [1, 2, 3, 4]]"
  using concurrent_tests_pass[OF ex_keys_ok, of key_nr "[3, 1, 2]" "[1, 2, 3, 4]" 0 "\<lambda>i. (i, Suc i)"] key_nr_matches
  by simp

section \<open>Funded transfers\<close>

definition ex_funded :: runtime_state where
  "ex_funded = endowed ex_exec [(1, 1000), (2, 1000)] ts_new"

definition ex_transfers :: "u8 transaction list" where
  "ex_transfers = [tx_new 1 (BalancesCall (Transfer 2 300)) 1 [1], tx_new 2 (BalancesCall (Transfer 1 200)) 2 [2]]"

lemma ex_funded_system: "clean_system ex_exec 0 [1, 2] (at_state ex_funded ex_system)"
  "key_for (BalanceOf ex_exec) ` {1, 2} \<subseteq> fmdom' ex_funded"
  "holds ex_exec {1, 2} (values_of ts_new) (\<lambda>_. 1000) (values_of ex_funded)"
proof -
  have "(\<Sum>x\<leftarrow>[(1 :: u8, 1000 :: balance), (2, 1000)]. unat (snd x)) < 2 ^ 128" by simp
  note m = endowed_well_formed[OF ex_exec_ok this, folded ex_funded_def]
  show "clean_system ex_exec 0 [1, 2] (at_state ex_funded ex_system)"
    using ex_clean(1) m(1,2) by (auto simp: clean_system_def quiet_system_def)
  show "key_for (BalanceOf ex_exec) ` {1, 2} \<subseteq> fmdom' ex_funded" by (simp add: m(3))
  show "holds ex_exec {1, 2} (values_of ts_new) (\<lambda>_. 1000) (values_of ex_funded)"
    using endowed_holds[of ex_exec "[1, 2]" ts_new 1000] by (simp add: ex_funded_def)
qed

lemma ex_transfers_ready: "submittable ex_exec ex_transfers" "\<forall>tx\<in>set ex_transfers. is_transfer tx"
  "ample {1, 2} (\<lambda>_. 1000) (map move_of ex_transfers)"
proof -
  show "submittable ex_exec ex_transfers"
    by (simp add: submittable_def ex_transfers_def tx_new_def sane_def tx_verify_def ex_exec_def
        staking_env.extend_def ex_env_def exec_env.fields_def)
  show "\<forall>tx\<in>set ex_transfers. is_transfer tx" by (simp add: ex_transfers_def is_transfer_def tx_new_def)
  show "ample {1, 2} (\<lambda>_. 1000) (map move_of ex_transfers)"
    by (rule constant_ample[where u = 300]) (simp_all add: ex_transfers_def move_of_def tx_new_def)
qed

theorem funded_transfers_are_deterministic_witness:
  "\<exists>c L t st blk c2 L2 t2 st2 blk2.
     call_author ex_exec round_robin ex_transfers (at_state ex_funded ex_system) = Some c
     \<and> thread_run ex_exec (th_start c) L t \<and> sy_result (th_sys t) = Some (Authored st blk)
     \<and> call_author ex_exec (connected_components True (tx_hints False ex_exec)) ex_transfers (at_state ex_funded ex_system) = Some c2
     \<and> thread_run ex_exec (th_start c2) L2 t2 \<and> sy_result (th_sys t2) = Some (Authored st2 blk2)
     \<and> holds ex_exec {1, 2} (values_of ts_new) (fold pay (map move_of ex_transfers) (\<lambda>_. 1000)) (values_of st)
     \<and> state_eq st st2"
proof -
  note sys = ex_funded_system(1)
  note S = startableI[OF sys rr.distributer_laws_axioms ex_transfers_ready(1)]
    startableI[OF sys cc.distributer_laws_axioms ex_transfers_ready(1), of True "tx_hints False ex_exec"]
  obtain c L t st blk where one: "call_author ex_exec round_robin ex_transfers (at_state ex_funded ex_system) = Some c"
    "thread_run ex_exec (th_start c) L t" "sy_result (th_sys t) = Some (Authored st blk)"
    by (rule startable_run[OF ex_exec_ok sys S(1)])
  obtain c2 L2 t2 st2 blk2 where two:
    "call_author ex_exec (connected_components True (tx_hints False ex_exec)) ex_transfers (at_state ex_funded ex_system) = Some c2"
    "thread_run ex_exec (th_start c2) L2 t2" "sy_result (th_sys t2) = Some (Authored st2 blk2)"
    by (rule startable_run[OF ex_exec_ok sys S(2)])
  have m: "wo_state (sy_world (at_state ex_funded ex_system)) = ex_funded" by simp
  from funded_transfers_are_deterministic[OF ex_exec_ok ex_transfers_ready ex_funded_system(3,2) sys m
      rr.distributer_laws_axioms one sys m cc.distributer_laws_axioms two] one two
  show ?thesis by blast
qed

end
