(* ===== verification/State_Tests.thy ===== *)
theory State_Tests
  imports Assertions Taint_Interleaving "HOL-Library.Multiset"
begin

text \<open>
  The unit tests of the state database (\<open>state/src/lib.rs\<close>). The tests with one thread are run as they
  are; for the two that spawn threads, what they assert is shown after every interleaving of the
  threads' critical sections.
\<close>

section \<open>Tests with one thread\<close>

type_synonym test_state = "(u32, u32, u8) state_map"

definition basic_state_works :: "(int, string, string) state_map test" where
  "basic_state_works = statements [
     doing (unsafe_insert 33 (sv_new ''Foo'' ''Thread1'')),
     assert_reads (unwrap_option (unsafe_read_value 33)) id ''Foo'',
     assert_reads (unwrap_option (unsafe_read_taint 33)) id ''Thread1'']"

definition basic_read_write_ops :: "test_state test" where
  "basic_read_write_ops = statements [
     assert_reads (ts_read 0 10 1) id 0,
     assert_ok (ts_write 10 5 1),
     assert_reads (ts_read 0 10 1) id 5]"

definition reading_taints :: "test_state test" where
  "reading_taints = statements [
     assert_ok (ts_read 0 10 1),
     assert_reads (unwrap_option (unsafe_read_taint 10)) id 1]"

definition writing_taints :: "test_state test" where
  "writing_taints = statements [
     assert_ok (ts_write 10 5 1),
     assert_reads (unwrap_option (unsafe_read_taint 10)) id 1]"

definition cannot_read_from_tainted :: "test_state test" where
  "cannot_read_from_tainted = statements [
     assert_ok (ts_write 10 5 1),
     assert_err (ts_read 0 10 2)]"

text \<open>The closures of \<open>mutate\<close> assert what they see before they assign.\<close>

definition mutate_works :: "test_state test" where
  "mutate_works = statements [
     assert_ok (gs_mutate (ts_read 0) ts_write 10
       (\<lambda>old. if old = 0 then Inr 5 else Inl ''assertion failed: `(left == right)`'') 1),
     assert_ok (gs_mutate (ts_read 0) ts_write 10
       (\<lambda>old. if old = 5 then Inr 6 else Inl ''assertion failed: `(left == right)`'') 1),
     doing (unsafe_insert 11 (sv_new 11 2)),
     assert_err (gs_mutate (ts_read 0) ts_write 11 (\<lambda>_. Inl ''assertion failed: false'') 1)]"

definition can_have_genesis_values :: "test_state test" where
  "can_have_genesis_values = statements [
     doing (unsafe_insert 10 (sv_new_data 10)),
     assert_reads (asking (unsafe_read_taint 10)) id None,
     assert_reads (asking (unsafe_read_value 10)) id (Some 10),
     assert_reads (asking (unsafe_read_taint 11)) id None,
     assert_reads (asking (unsafe_read_value 11)) id None]"

definition taints_upon_first_read_of_genesis_values :: "test_state test" where
  "taints_upon_first_read_of_genesis_values = statements [
     doing (unsafe_insert 10 (sv_new_data 10)),
     assert_reads (asking (unsafe_read_taint 10)) id None,
     assert_reads (asking (unsafe_read_value 10)) id (Some 10),
     bindC (unwrapC (ts_read 0 10 1)) (\<lambda>_. ret ()),
     assert_reads (asking (unsafe_read_taint 10)) id (Some 1),
     assert_reads (asking (unsafe_read_value 10)) id (Some 10)]"

definition taints_upon_first_write_of_genesis_values :: "test_state test" where
  "taints_upon_first_write_of_genesis_values = statements [
     doing (unsafe_insert 10 (sv_new_data 10)),
     assert_reads (asking (unsafe_read_taint 10)) id None,
     assert_reads (asking (unsafe_read_value 10)) id (Some 10),
     unwrapC (ts_write 10 99 1),
     assert_reads (asking (unsafe_read_taint 10)) id (Some 1),
     assert_reads (asking (unsafe_read_value 10)) id (Some 99)]"

text \<open>\<open>assert_eq!\<close> on entries uses their equality, which ignores the taint.\<close>

definition assert_entry :: "(test_state \<Rightarrow> (u32, u8) tainted option) \<Rightarrow> (u32, u8) tainted \<Rightarrow> test_state test" where
  "assert_entry g e = bindC (unwrap_option g) (\<lambda>x.
     if sv_eq x e then ret () else panic ''assertion failed: `(left == right)`'')"

definition duplicate_works :: "test_state test" where
  "duplicate_works = statements [
     doing (unsafe_duplicate (unsafe_insert 11 (sv_new 11 1) (unsafe_insert 10 (sv_new_data 10) ts_new))),
     assert_entry (\<lambda>m. fmlookup (dump m) 10) \<lparr>sv_data = 10, sv_taint = None\<rparr>,
     assert_entry (\<lambda>m. fmlookup (dump m) 11) \<lparr>sv_data = 11, sv_taint = Some 1\<rparr>]"

definition dump_works :: "test_state test" where
  "dump_works = statements [
     doing (unsafe_insert 10 (sv_new_data 10)),
     doing (unsafe_insert 11 (sv_new 11 1)),
     assert_entry (\<lambda>m. fmlookup (dump m) 10) \<lparr>sv_data = 10, sv_taint = None\<rparr>,
     assert_entry (\<lambda>m. fmlookup (dump m) 11) \<lparr>sv_data = 11, sv_taint = Some 1\<rparr>]"

definition clean_works :: "test_state test" where
  "clean_works = statements [
     doing (unsafe_insert 10 (sv_new_data 10)),
     doing (unsafe_insert 11 (sv_new 11 1)),
     assert_entry (unsafe_read 10) \<lparr>sv_data = 10, sv_taint = None\<rparr>,
     assert_entry (unsafe_read 11) \<lparr>sv_data = 11, sv_taint = Some 1\<rparr>,
     doing unsafe_clean,
     bindC (asking (unsafe_read 10)) (\<lambda>x. assert_that (x = None)),
     bindC (asking (unsafe_read 11)) (\<lambda>x. assert_that (x = None))]"

text \<open>These two have states of their own; the state of the test is not used.\<close>

definition state_of :: "u32 \<Rightarrow> u8 \<Rightarrow> test_state" where
  "state_of v t = unsafe_insert 11 (sv_new 11 t) (unsafe_insert 10 (sv_new_data v) ts_new)"

definition state_eq_works :: "test_state test" where
  "state_eq_works = statements [
     assert_that (state_eq (dump (state_of 10 1)) (dump (state_of 10 1))),
     assert_that (\<not> state_eq (dump (state_of 10 1)) (dump (state_of 11 1)))]"

definition state_eq_ignores_taint :: "test_state test" where
  "state_eq_ignores_taint = assert_that (state_eq (dump (state_of 10 1)) (dump (state_of 10 2)))"

definition state_tests :: "test_state test list" where
  "state_tests = [basic_read_write_ops, reading_taints, writing_taints, cannot_read_from_tainted,
     mutate_works, can_have_genesis_values, taints_upon_first_read_of_genesis_values,
     taints_upon_first_write_of_genesis_values, duplicate_works, dump_works, clean_works, state_eq_works,
     state_eq_ignores_taint]"

lemmas state_test_defs = basic_state_works_def basic_read_write_ops_def reading_taints_def writing_taints_def
  cannot_read_from_tainted_def mutate_works_def can_have_genesis_values_def
  taints_upon_first_read_of_genesis_values_def taints_upon_first_write_of_genesis_values_def
  duplicate_works_def dump_works_def clean_works_def state_eq_works_def state_eq_ignores_taint_def

lemma state_of_data: "fmlookup (fmmap sv_data (state_of v t)) k =
    (if k = 11 then Some 11 else if k = 10 then Some v else None)"
  by (simp add: state_of_def unsafe_insert_def ts_new_def)

lemma state_of_eq: "state_eq (dump (state_of v t)) (dump (state_of w u)) \<longleftrightarrow> v = w"
proof -
  have "v = w" if "fmmap sv_data (state_of v t) = fmmap sv_data (state_of w u)"
    using arg_cong[OF that, of "\<lambda>m. fmlookup m 10"] unfolding state_of_data by simp
  moreover have "fmmap sv_data (state_of v t) = fmmap sv_data (state_of v u)"
    by (rule fmap_ext) (simp only: state_of_data)
  ultimately show ?thesis by (auto simp: state_eq_data dump_def)
qed

lemma state_tests_pass: "passes basic_state_works ts_new" "list_all (\<lambda>t. passes t ts_new) state_tests"
proof -
  note eval = state_test_defs assertion_defs unsafe_insert_def unsafe_read_value_def unsafe_read_taint_def
    unsafe_read_def sv_eq_def assert_entry_def dump_def unsafe_clean_def ts_new_def ts_read_eq ts_write_eq
    gs_mutate_def liftP_def sv_new_def sv_new_taint_def sv_new_data_def tainted_updates
  show "passes basic_state_works ts_new" by (simp add: eval)
  have "fmlookup (unsafe_duplicate n m) k = (case fmlookup n k of Some e \<Rightarrow> Some e | None \<Rightarrow> fmlookup m k)"
    for n m :: test_state and k
  proof -
    have "unsafe_insert = (fmupd :: u32 \<Rightarrow> (u32, u8) tainted \<Rightarrow> _)" by (simp add: fun_eq_iff unsafe_insert_def)
    then show ?thesis
      using fold_entries_lookup[of "\<lambda>v. v" n m k] by (simp add: unsafe_duplicate_def dump_def)
  qed
  then show "list_all (\<lambda>t. passes t ts_new) state_tests"
    unfolding state_tests_def list.pred_inject
    by (intro conjI; simp add: eval state_of_eq[unfolded dump_def])
qed


section \<open>Tests with several threads\<close>

text \<open>
  \<open>thread::spawn\<close> for each of the accesses, each by a thread of its own, and \<open>join\<close> on all: a
  configuration in which exactly these accesses have returned.
\<close>

definition spawned_and_joined ::
  "'v \<Rightarrow> ('k, 'v, 't) state_map \<Rightarrow> ('t \<times> ('k, 'v) access) list \<Rightarrow> ('k, 'v, 't) config \<Rightarrow> bool" where
  "spawned_and_joined d m threads c \<longleftrightarrow> ts_reachable d m c
     \<and> mset (map (\<lambda>(t, a, r). (t, a)) (cf_log c)) = mset threads"

lemma joined_replay:
  assumes "spawned_and_joined d m threads c"
  shows "replay d (cf_log c) m = Some (cf_map c)"
  using assms ts_inv_reachable[of d m c] by (simp add: spawned_and_joined_def ts_inv_def)

text \<open>What the calls of the threads returned, whether they panicked, and the state at the end.\<close>

definition can_share_state_between_threads :: "(u32, u32, u8) config \<Rightarrow> bool" where
  "can_share_state_between_threads c \<longleftrightarrow>
     list_all (\<lambda>(t, a, r). \<not> is_Panic r) (cf_log c)
   \<and> unsafe_read_value 10 (cf_map c) = Some 10 \<and> unsafe_read_value 11 (cf_map c) = Some 11"

lemma two_threads:
  assumes "spawned_and_joined 0 ts_new [(1, WriteOf 10 10), (2, WriteOf 11 11)] c"
  shows "can_share_state_between_threads c"
proof -
  have log: "mset (map (\<lambda>(t, a, r). (t, a)) (cf_log c)) = {#(1, WriteOf 10 10), (2, WriteOf 11 11)#}"
    using assms by (simp add: spawned_and_joined_def)
  have "length (cf_log c) = 2"
    using arg_cong[OF log, of size] by simp
  then obtain t a r t' a' r' where c: "cf_log c = [(t, a, r), (t', a', r')]"
    by (auto simp: numeral_eq_Suc length_Suc_conv)
  with log have "(t, a) = (1, WriteOf 10 10) \<and> (t', a') = (2, WriteOf 11 11)
      \<or> (t, a) = (2, WriteOf 11 11) \<and> (t', a') = (1, WriteOf 10 10)"
    by (auto simp: add_eq_conv_diff split: if_splits)
  with joined_replay[OF assms, symmetric] c show ?thesis
    by (auto simp: can_share_state_between_threads_def ts_write_eq ts_new_def unsafe_read_value_def
        unsafe_read_def sv_new_def split: if_splits)
qed


text \<open>A race of reads for a key without an owner: the first one wins and the others are told so.\<close>

definition results :: "('k, 'v, 't) config \<Rightarrow> ('v answer, 't) rs list" where
  "results c = map (\<lambda>(t, a, r). r) (cf_log c)"

lemma late_reads:
  assumes "replay d es m = Some m'" "ts_owner m k = Some u" "\<forall>(t, a, r)\<in>set es. a = ReadOf k \<and> t \<noteq> u"
  shows "\<forall>(t, a, r)\<in>set es. r = Err u"
  using assms
proof (induction es arbitrary: m)
  case (Cons e es)
  obtain t r where e: "e = (t, ReadOf k, r)" "t \<noteq> u" using Cons.prems(3) by auto
  have run: "ts_read d k t m = (Err u, m)"
    using ts.read_denied[of m k u t d] Cons.prems(2) e(2) by simp
  with Cons.prems(1) e have "r = Err u" "replay d es m = Some m'" by (auto split: if_splits)
  with Cons.IH[OF _ Cons.prems(2)] Cons.prems(3) e show ?case by auto
qed simp

lemma racing_reads:
  assumes c: "spawned_and_joined d m (map (\<lambda>t. (t, ReadOf k)) ts) c" and ts: "distinct ts" "ts \<noteq> []"
    and free: "ts_owner m k = None"
  shows "\<exists>u rest. results c = Ok (Got (ts_view d m k)) # rest \<and> set rest \<subseteq> {Err u}
    \<and> length rest = length ts - 1"
proof -
  have log: "mset (map (\<lambda>(t, a, r). (t, a)) (cf_log c)) = mset (map (\<lambda>t. (t, ReadOf k)) ts)"
    using c by (simp add: spawned_and_joined_def)
  have len: "length (cf_log c) = length ts"
    using arg_cong[OF log, of size] by simp
  with ts obtain e es where es: "cf_log c = e # es" by (cases "cf_log c") auto
  have members: "a = ReadOf k" if "(t, a, r) \<in> set (cf_log c)" for t a r
  proof -
    have "(t, a) \<in> set (map (\<lambda>(t, a, r). (t, a)) (cf_log c))" using that by force
    then have "(t, a) \<in> set (map (\<lambda>t. (t, ReadOf k)) ts)" by (metis log mset_eq_setD)
    then show ?thesis by auto
  qed
  have "mset (map fst (cf_log c)) = mset ts"
    using arg_cong[OF log, of "image_mset fst"] by (simp add: image_mset.compositionality comp_def case_prod_unfold)
  then have distinct: "distinct (map fst (cf_log c))"
    using ts(1) by (metis mset_eq_imp_distinct_iff)
  obtain u r where e: "e = (u, ReadOf k, r)"
    using members es by (cases e) auto
  obtain m1 where m1: "ts_read d k u m = (Ok (ts_view d m k), m1)" "ts_owner m1 = (ts_owner m)(k := Some u)"
    using ts.read_granted[of m k u d] free by auto
  from joined_replay[OF c] es e m1(1) have "r = Ok (Got (ts_view d m k))" "replay d es m1 = Some (cf_map c)"
    by (auto split: if_splits)
  moreover have "\<forall>(t, a, r)\<in>set es. a = ReadOf k \<and> t \<noteq> u"
    using members distinct es e by force
  ultimately have "set (map (\<lambda>(t, a, r). r) es) \<subseteq> {Err u}"
    using late_reads[of d es m1 "cf_map c" k u] m1(2) by auto
  with es e len \<open>r = Ok (Got (ts_view d m k))\<close> show ?thesis by (auto simp: results_def)
qed

definition only_one_thread_can_taint_read :: "(u32, u32, u8) config \<Rightarrow> bool" where
  "only_one_thread_can_taint_read c \<longleftrightarrow>
     length (filter is_Ok (results c)) = 1 \<and> length (filter (\<lambda>r. \<not> is_Ok r) (results c)) = 12 - 1"

lemma twelve_threads:
  assumes "spawned_and_joined 0 ts_new (map (\<lambda>i. (i, ReadOf 999)) (map of_nat [1..<13])) c"
  shows "only_one_thread_can_taint_read c"
proof -
  have "distinct (map of_nat [1..<13] :: u8 list)" by (simp add: upt_conv_Cons)
  with racing_reads[OF assms this] obtain u rest where
    "results c = Ok (Got (ts_view 0 ts_new 999)) # rest" "set rest \<subseteq> {Err u}" "length rest = 11"
    by (auto simp: ts_new_def state_simps)
  moreover from this have "filter is_Ok rest = []" "filter (\<lambda>r. \<not> is_Ok r) rest = rest"
    by (auto simp: filter_empty_conv filter_id_conv)
  ultimately show ?thesis by (simp add: only_one_thread_can_taint_read_def)
qed

text \<open>The threads can always be run to their ends.\<close>

lemma run_one:
  assumes "ts_reachable d m c" "\<forall>t. cf_pending c t = None"
  shows "\<exists>r c'. ts_reachable d m c' \<and> (\<forall>t. cf_pending c' t = None) \<and> cf_log c' = cf_log c @ [(t, a, r)]"
proof (cases "access_shared a t (cf_map c)")
  case (Inl x)
  then show ?thesis
    using ts_reachable.step[OF assms(1) ts_step.shared_returns, of t a "fst x" "snd x"] assms(2) by fastforce
next
  case (Inr p)
  let ?c = "c\<lparr>cf_pending := (cf_pending c)(t := Some (a, p))\<rparr>"
  obtain r m' where x: "access_excl d p a t (cf_map ?c) = (r, m')" by fastforce
  have "ts_reachable d m ?c"
    using ts_reachable.step[OF assms(1) ts_step.shared_drops] assms(2) Inr by blast
  from ts_reachable.step[OF this ts_step.excl_returns[OF _ x]] assms(2) show ?thesis by fastforce
qed

lemma joined_exists: "\<exists>c. spawned_and_joined d m threads c"
proof -
  have "\<exists>c. ts_reachable d m c \<and> (\<forall>t. cf_pending c t = None)
      \<and> map (\<lambda>(t, a, r). (t, a)) (cf_log c) = threads"
  proof (induction threads rule: rev_induct)
    case Nil
    then show ?case using ts_reachable.start[of d m] by (auto simp: cf_init_def)
  next
    case (snoc x threads)
    then obtain c where c: "ts_reachable d m c" "\<forall>t. cf_pending c t = None"
      "map (\<lambda>(t, a, r). (t, a)) (cf_log c) = threads" by blast
    obtain t a where x: "x = (t, a)" by fastforce
    from run_one[OF c(1,2), of t a] c(3) x show ?case by auto
  qed
  then show ?thesis unfolding spawned_and_joined_def by metis
qed

section \<open>Properties\<close>



end
