(* ===== verification/Test_Run.thy ===== *)
theory Test_Run
  imports System
begin

text \<open>
  The test mode of the executor: \<open>Worker::test_run\<close> (\<open>executor/src/concurrent/worker.rs\<close>) and
  \<open>Master::run_test\<close> with \<open>join_all\<close> (\<open>concurrent/master.rs\<close>), as the test
  \<open>concurrent_executor_new_works\<close> runs them. Here the end of a channel matters: a worker that returns
  or panics drops the receivers of its channels, and sending to it fails from then on. A worker
  blocks on an empty channel of the other workers for ever if nobody sends any more, since it holds
  a sender of that channel itself.
\<close>

section \<open>The workers\<close>

datatype test_phase =
    TSetup
  | TStart
  | TAwait
  | TSending "thread_id list"
  | TReceiving nat
  | TReturned
  | TPanicked string

record test_worker =
  tw_id :: thread_id
  tw_others :: "thread_id list"
  tw_phase :: test_phase

fun over :: "test_phase \<Rightarrow> bool" where
  "over TReturned = True"
| "over (TPanicked _) = True"
| "over _ = False"

definition unwrap_send :: string where
  "unwrap_send = ''called `Result::unwrap()` on an `Err` value: SendError(..)''"

definition unwrap_recv :: string where
  "unwrap_recv = ''called `Result::unwrap()` on an `Err` value: RecvError''"

definition tpanic :: "string \<Rightarrow> test_worker \<Rightarrow> test_worker" where
  "tpanic msg tw = tw\<lparr>tw_phase := TPanicked msg\<rparr>"

text \<open>\<open>b"FromWorker"\<close> and \<open>b"FromMaster"\<close>, and \<open>vec![id as u8]\<close>.\<close>

definition from_worker :: bytes where
  "from_worker = str_bytes ''FromWorker''"

definition from_master :: bytes where
  "from_master = str_bytes ''FromMaster''"

definition id_byte :: "thread_id \<Rightarrow> bytes" where
  "id_byte i = [ucast i]"

text \<open>
  One step of a worker; \<open>None\<close> if it blocks or is over. \<open>gone\<close> says whose receivers are dropped, and
  \<open>master_gone\<close> that the master has panicked. The others of a worker include the worker itself.
\<close>

definition test_run ::
  "(thread_id \<Rightarrow> bool) \<Rightarrow> bool \<Rightarrow> test_worker \<Rightarrow> 'p world \<Rightarrow> (test_worker \<times> 'p world) option" where
  "test_run gone master_gone tw wo = (case tw_phase tw of
     TSetup \<Rightarrow> (case to_worker wo (tw_id tw) of
         [] \<Rightarrow> if master_gone then Some (tpanic unwrap_recv tw, wo) else None
       | msg # rest \<Rightarrow> Some
           (case payload msg of
              FinalizeSetup others \<Rightarrow> tw\<lparr>tw_others := others, tw_phase := TStart\<rparr>
            | _ \<Rightarrow> tpanic ''Received unexpected message'' tw,
            wo\<lparr>to_worker := (to_worker wo)(tw_id tw := rest)\<rparr>))
   | TStart \<Rightarrow>
       if master_gone then Some (tpanic unwrap_send tw, wo)
       else Some (tw\<lparr>tw_phase := TAwait\<rparr>, send_master (tw_id tw) (TestMsg from_worker) wo)
   | TAwait \<Rightarrow> (case to_worker wo (tw_id tw) of
         [] \<Rightarrow> if master_gone then Some (tpanic unwrap_recv tw, wo) else None
       | msg # rest \<Rightarrow> Some
           (if payload msg = TestMsg from_master then tw\<lparr>tw_phase := TSending (tw_others tw)\<rparr>
            else tpanic ''assertion failed: matches!(data, MessagePayload::Test(x) if ..)'' tw,
            wo\<lparr>to_worker := (to_worker wo)(tw_id tw := rest)\<rparr>))
   | TSending [] \<Rightarrow> Some (tw\<lparr>tw_phase := TReceiving 0\<rparr>, wo)
   | TSending (other # others) \<Rightarrow>
       if gone other then Some (tpanic unwrap_send tw, wo)
       else Some (tw\<lparr>tw_phase := TSending others\<rparr>,
                  send_peer (tw_id tw) other (TestMsg (id_byte (tw_id tw))) wo)
   | TReceiving num_received \<Rightarrow>
       if tw_others tw = [] then Some (tpanic ''attempt to subtract with overflow'' tw, wo)
       else if num_received = length (tw_others tw) - 1 then Some (tw\<lparr>tw_phase := TReturned\<rparr>, wo)
       else (case to_peer wo (tw_id tw) of
         [] \<Rightarrow> None
       | msg # rest \<Rightarrow> Some
           (if payload msg = TestMsg (id_byte (msg_from msg))
            then tw\<lparr>tw_phase := TReceiving (num_received + 1)\<rparr>
            else tpanic ''assertion failed: matches!(payload, MessagePayload::Test(x) if ..)'' tw,
            wo\<lparr>to_peer := (to_peer wo)(tw_id tw := rest)\<rparr>))
   | TReturned \<Rightarrow> None
   | TPanicked _ \<Rightarrow> None)"

section \<open>The master\<close>

text \<open>Waiting for the workers, joining them, and what \<open>join_all().is_ok()\<close> says.\<close>

datatype test_master =
    MTReceiving nat
  | MTJoining "thread_id list"
  | MTJoined bool
  | MTPanicked string

record 'p test_system =
  te_world :: "'p world"
  te_workers :: "thread_id \<Rightarrow> test_worker"
  te_ids :: "thread_id list"
  te_me :: thread_id
  te_master :: test_master

definition is_gone :: "'p test_system \<Rightarrow> thread_id \<Rightarrow> bool" where
  "is_gone c w \<longleftrightarrow> over (tw_phase (te_workers c w))"

fun master_panicked :: "test_master \<Rightarrow> bool" where
  "master_panicked (MTPanicked _) = True"
| "master_panicked _ = False"

text \<open>\<open>broadcast\<close> stops at the first worker that cannot receive.\<close>

fun test_broadcast ::
  "(thread_id \<Rightarrow> bool) \<Rightarrow> thread_id \<Rightarrow> 'p message_payload \<Rightarrow> thread_id list \<Rightarrow> 'p world \<Rightarrow> bool \<times> 'p world"
  where
  "test_broadcast gone me p [] wo = (True, wo)"
| "test_broadcast gone me p (w # ws) wo =
     (if gone w then (False, wo) else test_broadcast gone me p ws (send_worker me w p wo))"

definition run_test :: "'p test_system \<Rightarrow> nat \<Rightarrow> 'p test_system option" where
  "run_test c num_received =
     (if num_received \<noteq> length (te_ids c)
      then (case to_master (te_world c) of
          [] \<Rightarrow> None
        | msg # rest \<Rightarrow> Some (c\<lparr>
            te_master := (if payload msg = TestMsg from_worker then MTReceiving (num_received + 1)
               else MTPanicked ''assertion failed: matches!(payload, MessagePayload::Test(x) if ..)''),
            te_world := (te_world c)\<lparr>to_master := rest\<rparr>\<rparr>))
      else (case test_broadcast (is_gone c) (te_me c) (TestMsg from_master) (te_ids c) (te_world c) of
          (sent, wo) \<Rightarrow> Some (c\<lparr>te_world := wo,
             te_master := (if sent then MTJoining (te_ids c) else MTPanicked unwrap_send)\<rparr>)))"

text \<open>\<open>join_all\<close> joins the threads in order and stops at the first that has panicked.\<close>

definition join_next :: "'p test_system \<Rightarrow> thread_id list \<Rightarrow> 'p test_system option" where
  "join_next c ws = (case ws of
     [] \<Rightarrow> Some (c\<lparr>te_master := MTJoined True\<rparr>)
   | w # rest \<Rightarrow> (case tw_phase (te_workers c w) of
        TReturned \<Rightarrow> Some (c\<lparr>te_master := MTJoining rest\<rparr>)
      | TPanicked _ \<Rightarrow> Some (c\<lparr>te_master := MTJoined False\<rparr>)
      | _ \<Rightarrow> None))"

definition test_master_step :: "'p test_system \<Rightarrow> 'p test_system option" where
  "test_master_step c = (case te_master c of
     MTReceiving num_received \<Rightarrow> run_test c num_received
   | MTJoining ws \<Rightarrow> join_next c ws
   | MTJoined _ \<Rightarrow> None
   | MTPanicked _ \<Rightarrow> None)"

section \<open>Runs\<close>

text \<open>A step of the worker with the given id, or of the master.\<close>

definition test_step :: "thread_id option \<Rightarrow> 'p test_system \<Rightarrow> 'p test_system option" where
  "test_step who c = (case who of
     None \<Rightarrow> test_master_step c
   | Some w \<Rightarrow>
       if w \<in> set (te_ids c)
       then (case test_run (is_gone c) (master_panicked (te_master c)) (te_workers c w) (te_world c) of
               None \<Rightarrow> None
             | Some (tw, wo) \<Rightarrow> Some (c\<lparr>te_workers := (te_workers c)(w := tw), te_world := wo\<rparr>))
       else None)"

fun scheduled :: "thread_id option list \<Rightarrow> 'p test_system \<Rightarrow> 'p test_system option" where
  "scheduled [] c = Some c"
| "scheduled (who # s) c = (case test_step who c of None \<Rightarrow> None | Some c' \<Rightarrow> scheduled s c')"

text \<open>The executor as \<open>ConcurrentExecutor::new(_, true, None)\<close> leaves it.\<close>

definition test_start :: "'p system \<Rightarrow> 'p test_system" where
  "test_start c = \<lparr>te_world = sy_world c,
     te_workers = (\<lambda>w. \<lparr>tw_id = w, tw_others = [], tw_phase = TSetup\<rparr>),
     te_ids = ms_workers (sy_master c), te_me = ms_id (sy_master c), te_master = MTReceiving 0\<rparr>"

section \<open>Three schedules of the test\<close>

text \<open>Up to the point where all workers start to send to each other.\<close>

definition to_exchange :: "thread_id list \<Rightarrow> thread_id option list" where
  "to_exchange ws = concat (map (\<lambda>w. [Some w, Some w]) ws) @ replicate (length ws + 1) None @ map Some ws"

definition exchanging :: "thread_id list \<Rightarrow> 'p test_system \<Rightarrow> bool" where
  "exchanging ws c \<longleftrightarrow> te_ids c = ws \<and> te_master c = MTJoining ws
     \<and> (\<forall>w\<in>set ws. te_workers c w = \<lparr>tw_id = w, tw_others = ws, tw_phase = TSending ws\<rparr>
          \<and> to_peer (te_world c) w = [])"

definition passing :: "thread_id list \<Rightarrow> thread_id option list" where
  "passing ws = concat (map (\<lambda>w. replicate 5 (Some w)) ws) @ concat (map (\<lambda>w. replicate 4 (Some w)) ws)
     @ replicate 5 None"

definition failing :: "thread_id \<Rightarrow> thread_id \<Rightarrow> thread_id \<Rightarrow> thread_id \<Rightarrow> thread_id option list" where
  "failing a b c d = replicate 5 (Some a) @ replicate 5 (Some c) @ replicate 1 (Some d)
     @ replicate 4 (Some a) @ [Some b, Some d] @ replicate 2 (Some c) @ [None, None]"

lemma scheduled_append: "scheduled (s @ t) c = Option.bind (scheduled s c) (scheduled t)"
  by (induction s arbitrary: c) (auto split: option.split)

lemmas test_defs = test_step_def test_run_def test_master_step_def run_test_def join_next_def is_gone_def
  tpanic_def send_defs id_byte_def

lemma to_exchange:
  assumes c: "concurrent_new me ids m = Inr c" and ws: "ms_workers (sy_master c) = [w1, w2, w3, w4]"
  shows "\<exists>t. scheduled (to_exchange [w1, w2, w3, w4]) (test_start c) = Some t \<and> exchanging [w1, w2, w3, w4] t"
proof -
  have d: "distinct [w1, w2, w3, w4]"
  proof -
    have "ms_workers (sy_master c) = sorted_list_of_set (set ids)"
      using c by (auto simp: concurrent_new_def Let_def split: if_splits)
    then show ?thesis using ws by (metis distinct_sorted_list_of_set)
  qed
  have queue: "to_worker (sy_world c) w = [new_from_thread me (FinalizeSetup [w1, w2, w3, w4])]"
    if "w \<in> set [w1, w2, w3, w4]" for w
    using c ws that d by (auto simp: concurrent_new_def Let_def broadcast_to_worker master_new_def split: if_splits)
  have rest: "to_master (sy_world c) = []" "to_peer (sy_world c) = (\<lambda>_. [])" "ms_id (sy_master c) = me"
    using c by (auto simp: concurrent_new_def Let_def broadcast_world master_new_def split: if_splits)
  show ?thesis
    using d d[THEN distinct_rev[THEN iffD2]] queue
    by (simp add: to_exchange_def test_defs exchanging_def numeral_eq_Suc test_start_def rest ws)
qed

lemma passes:
  assumes "exchanging [a, b, c, d] t" "distinct [a, b, c, d]"
  shows "\<exists>t'. scheduled (passing [a, b, c, d]) t = Some t' \<and> te_master t' = MTJoined True"
  using assms assms(2)[THEN distinct_rev[THEN iffD2]]
    by (simp add: passing_def test_defs exchanging_def numeral_eq_Suc)

lemma fails:
  assumes "exchanging [a, b, c, d] t" "distinct [a, b, c, d]"
  shows "\<exists>t'. scheduled (failing a b c d) t = Some t' \<and> te_master t' = MTJoined False
    \<and> tw_phase (te_workers t' c) = TReceiving 2 \<and> (\<forall>who. test_step who t' = None)"
  using assms assms(2)[THEN distinct_rev[THEN iffD2]]
    by (auto simp: failing_def test_defs exchanging_def numeral_eq_Suc split: option.split)

section \<open>Properties\<close>

text \<open>C23. The test of the channels can fail although nothing is wrong with them. Every worker sends to
  all workers, itself included, but waits for one message less than it gets. With four workers there
  is a schedule in which the test passes; and there is one in which a worker returns before all have
  sent to it, so that sending to it panics, \<open>join_all\<close> reports an error, and another worker waits for
  ever for messages that the panicked ones did not send.\<close>

theorem run_test_is_racy:
  assumes "distinct ids" "length ids = 4"
  shows "\<exists>c :: 'p system. concurrent_new me ids m = Inr c
    \<and> (\<exists>s t. scheduled s (test_start c) = Some t \<and> te_master t = MTJoined True)
    \<and> (\<exists>s t. scheduled s (test_start c) = Some t \<and> te_master t = MTJoined False
         \<and> (\<forall>who. test_step who t = None)
         \<and> (\<exists>w\<in>set ids. tw_phase (te_workers t w) = TReceiving 2))"
proof -
  have len: "length (sorted_list_of_set (set ids)) = length ids"
    using assms(1) by (simp add: distinct_card)
  then obtain c :: "'p system" where c: "concurrent_new me ids m = Inr c" "ms_workers (sy_master c) = sorted_list_of_set (set ids)"
    by (simp add: concurrent_new_def Let_def)
  have four: "\<exists>w1 w2 w3 w4. xs = [w1, w2, w3, w4]" if "length xs = 4" for xs :: "thread_id list"
    using that by (auto simp: numeral_eq_Suc length_Suc_conv)
  then obtain w1 w2 w3 w4 where ws: "sorted_list_of_set (set ids) = [w1, w2, w3, w4]"
    using len assms(2) by metis
  have d: "distinct [w1, w2, w3, w4]" "set ids = {w1, w2, w3, w4}"
    using ws by (metis distinct_sorted_list_of_set, metis set_sorted_list_of_set List.finite_set list.set(1) list.set(2))
  from to_exchange[OF c(1)] c(2) ws obtain t where
    t: "scheduled (to_exchange [w1, w2, w3, w4]) (test_start c) = Some t" "exchanging [w1, w2, w3, w4] t"
    by auto
  obtain p f where p: "scheduled (passing [w1, w2, w3, w4]) t = Some p" "te_master p = MTJoined True"
    and f: "scheduled (failing w1 w2 w3 w4) t = Some f" "te_master f = MTJoined False"
      "tw_phase (te_workers f w3) = TReceiving 2" "\<forall>who. test_step who f = None"
    using passes[OF t(2) d(1)] fails[OF t(2) d(1)] by blast
  have "scheduled (to_exchange [w1, w2, w3, w4] @ passing [w1, w2, w3, w4]) (test_start c) = Some p"
    "scheduled (to_exchange [w1, w2, w3, w4] @ failing w1 w2 w3 w4) (test_start c) = Some f"
    using t(1) p(1) f(1) by (simp_all add: scheduled_append)
  moreover have "w3 \<in> set ids" using d(2) by simp
  ultimately show ?thesis using c(1) p(2) f(2-4) by blast
qed

theorem run_test_is_racy_witness:
  "\<exists>c :: u8 system. concurrent_new 1 [3, 2, 5, 4] None = Inr c
    \<and> (\<exists>s t. scheduled s (test_start c) = Some t \<and> te_master t = MTJoined True)
    \<and> (\<exists>s t. scheduled s (test_start c) = Some t \<and> te_master t = MTJoined False
         \<and> (\<forall>who. test_step who t = None)
         \<and> (\<exists>w\<in>set [3, 2, 5, 4]. tw_phase (te_workers t w) = TReceiving 2))"
  by (rule run_test_is_racy) simp_all

end
