(* ===== verification/Well_Typed.thy ===== *)
theory Well_Typed
  imports Executor
begin

text \<open>
  The storage as typed memory: a declared map gives back what was written to it, on both runtimes
  and through the cache and the commit of a worker, and no call, whatever its outcome, leaves bytes
  under a key that do not decode as the type of the map the key belongs to. The machine integers
  of balances are shown to stay in their bounds.
\<close>

section \<open>Reading what was written\<close>

context module_runtime_laws
begin

lemma map_read_back:
  assumes M: "sm_ok M" and s: "inv s" and w: "map_write R M k v s = (Ok (), s')"
  shows "map_read R M k s' = (Ok v, s')" "inv s'"
    "view s' = (view s)(key_for M k := StateValue (sm_enc M v))" "mine s' = (mine s)(key_for M k := True)"
proof -
  note eff = write_Ok[OF s w[unfolded map_write_def]]
  then show eff': "inv s'" "view s' = (view s)(key_for M k := StateValue (sm_enc M v))"
    "mine s' = (mine s)(key_for M k := True)" by simp_all
  from read_mine[OF eff'(1), of "key_for M k"] eff'
  show "map_read R M k s' = (Ok v, s')"
    using M by (simp add: map_read_def comp_simps sm_ok_def)
qed

lemma map_read_other:
  assumes M: "sm_ok M" "sm_ok N" and s: "inv s" and w: "map_write R M k v s = (Ok (), s')"
    and k': "mine s (key_for N k')" "storage_name N \<noteq> storage_name M \<or> sm_enc_key N k' \<noteq> sm_enc_key M k"
  shows "map_read R N k' s' = (fst (map_read R N k' s), s')"
proof -
  note eff = map_read_back[OF M(1) s w]
  have "key_for N k' \<noteq> key_for M k"
    using k'(2) key_for_eq_iff[of N k' M k] M by (auto simp: sm_ok_def)
  then have "view s' (key_for N k') = view s (key_for N k')" "mine s' (key_for N k')"
    using eff(3,4) k'(1) by simp_all
  then show ?thesis
    using read_mine[OF eff(2)] read_mine[OF s k'(1)] by (simp add: map_read_def comp_simps liftP_def split: sum.split)
qed

end

text \<open>C16. Storage maps give back what was written. If a write to a map is granted on the concurrent
  runtime, reading the key returns the value at once from the cache; the commit puts it into the
  shared state, where both the worker and any sequential runtime on a dump of it read the value.\<close>

theorem storage_round_trip:
  assumes "sm_ok M" "cr_inv s" "map_write CR M k v s = (Ok (), s1)"
  shows "map_read CR M k s1 = (Ok v, s1)
    \<and> (\<exists>m. commit_cache dbg s1 = (Ok (), s1\<lparr>cr_state := m\<rparr>)
         \<and> fst (map_read CR M k (s1\<lparr>cr_state := m, cr_cache := fmempty\<rparr>)) = Ok v
         \<and> fst (map_read SR M k (sr_new (dump m) me)) = Ok v)"
proof -
  note w = conc.map_read_back[OF assms]
  obtain m where m: "commit_cache dbg s1 = (Ok (), s1\<lparr>cr_state := m\<rparr>)"
    "ts_view default_value m = cr_view s1" "ts_owner m = ts_owner (cr_state s1)"
    by (rule commit_cache_Ok[OF w(2)])
  let ?s = "s1\<lparr>cr_state := m, cr_cache := fmempty\<rparr>"
  have "cr_inv ?s" "cr_view ?s = cr_view s1" "cr_mine ?s = cr_mine s1"
    using m(2,3) by (simp_all add: cr_inv_iff cr_view_def cr_mine_def fun_eq_iff)
  with conc.read_mine[of ?s "key_for M k"] w(3,4) assms(1)
  have "fst (map_read CR M k ?s) = Ok v" by (simp add: map_read_def comp_simps sm_ok_def)
  moreover have "fst (map_read SR M k (sr_new (dump m) me)) = Ok v"
    using m(2) w(3) assms(1)
    by (simp add: map_read_def comp_simps sr_read_eq sr_view_def sr_new_def dump_def sm_ok_def)
  ultimately show ?thesis using w(1) m(1) by blast
qed

section \<open>The storage stays typed\<close>

lemma sequential_typed:
  assumes "staking_ok E" "chain_readable E (sr_view s)" "SequentialRuntime_dispatch E call origin s = (r, s')"
  shows "chain_readable E (sr_view s')"
  using SequentialRuntime_dispatch_cases[OF assms(3)] sequential_call_spec[OF assms(1,2)] by metis

lemma concurrent_typed:
  assumes E: "staking_ok E" and fresh: "cr_cache s = fmempty"
    and typed: "chain_readable E (ts_view default_value (cr_state s))"
    and run: "ConcurrentRuntime_dispatch E call origin s = (r, s')"
  shows "chain_readable E (ts_view default_value (cr_state s'))"
proof (cases "r = Ok RtOk")
  case False
  have "ts_view default_value (cr_state s') = ts_view default_value (cr_state s)"
    using fresh run
  proof (cases rule: cr_dispatch_cases)
    case (logic s1 why)
    with keepsD[OF conc_frame.keeps_outer_dispatch logic(1)] fresh_cache[OF fresh] show ?thesis
      by (simp add: cr_frame_def)
  next
    case (panicked p)
    with keepsD[OF conc_frame.keeps_outer_dispatch panicked(1)] fresh_cache[OF fresh] show ?thesis
      by (simp add: cr_frame_def)
  next
    case (tainted s1 whom orphan)
    with keepsD[OF conc_frame.keeps_outer_dispatch tainted(1)] fresh_cache[OF fresh] show ?thesis
      by (simp add: cr_frame_def)
  qed (use False in simp)
  with typed show ?thesis by simp
next
  case True
  from fresh run show ?thesis
  proof (cases rule: cr_dispatch_cases)
    case (committed s1 m)
    have "outer_dispatch E AR call origin (cr_view s) = (Ok (), cr_view s1)"
      by (rule conc.sim_runs[OF conc.sim_outer fresh_cache(1)[OF fresh] committed(1)]) simp
    with implementsD[OF outer_implements[OF E] _ this] typed fresh_cache[OF fresh] committed(3,4)
    show ?thesis by simp
  qed (use True in simp_all)
qed


section \<open>Balances stay in their bounds\<close>

text \<open>The two build profiles; only the checks of the machine arithmetic depend on them.\<close>

lemma u128_add_unchecked: "u128_add True a b = Inr c \<Longrightarrow> u128_add False a b = Inr c"
  by (auto simp: u128_add_def split: if_splits)

lemma unchecked_calls:
  "\<not> is_Panic (reserve True x b) \<Longrightarrow> reserve False x b = reserve True x b"
  "\<not> is_Panic (unreserve True x b) \<Longrightarrow> unreserve False x b = unreserve True x b"
  "\<not> is_Panic (fst (transfer_spec True origin dest x bal)) \<Longrightarrow>
     transfer_spec False origin dest x bal = transfer_spec True origin dest x bal"
  by (auto simp: reserve_def unreserve_def transfer_spec_def Let_def u128_add_def split: if_splits)

lemma profile_codec [simp]:
  "public_encode (E\<lparr>debug_build := d\<rparr>) = public_encode E" "dec_account (E\<lparr>debug_build := d\<rparr>) = dec_account E"
proof -
  have "public_decode (E\<lparr>debug_build := d\<rparr>) bs = public_decode E bs" for bs
    by (simp add: public_decode_def split: option.split)
  then show "dec_account (E\<lparr>debug_build := d\<rparr>) = dec_account E"
    by (simp add: fun_eq_iff dec_account_def)
qed (simp add: fun_eq_iff public_encode_def)

lemma profile_maps [simp]:
  "BalanceOf (E\<lparr>debug_build := d\<rparr>) = BalanceOf E" "Ledger (E\<lparr>debug_build := d\<rparr>) = Ledger E"
  "Bonded (E\<lparr>debug_build := d\<rparr>) = Bonded E" "Nominations (E\<lparr>debug_build := d\<rparr>) = Nominations E"
  "ledger_default (E\<lparr>debug_build := d\<rparr>) = ledger_default E"
  by (simp_all add: BalanceOf_def Ledger_def Bonded_def Nominations_def ledger_default_def)

lemma profile_chain [simp]:
  "chain_of (E\<lparr>debug_build := d\<rparr>) = chain_of E" "chain_readable (E\<lparr>debug_build := d\<rparr>) = chain_readable E"
  "chain_inv (E\<lparr>debug_build := d\<rparr>) = chain_inv E"
  "names_default_controller (E\<lparr>debug_build := d\<rparr>) call = names_default_controller E call"
proof -
  show "names_default_controller (E\<lparr>debug_build := d\<rparr>) call = names_default_controller E call"
  proof (cases call)
    case (StakingCall inner)
    then show ?thesis by (cases inner) simp_all
  qed simp
qed (simp_all add: fun_eq_iff chain_of_def chain_readable_def chain_inv_def linked_def)

lemma profile_ok: "staking_ok E \<Longrightarrow> staking_ok (E\<lparr>debug_build := d\<rparr>)"
  by (simp add: staking_ok_def balances_ok_def edc_ok_def)

lemma profile_spec:
  assumes inv: "chain_inv E ch" and call: "\<not> names_default_controller E call"
  shows "chain_spec (E\<lparr>debug_build := d\<rparr>) call origin ch = chain_spec (E\<lparr>debug_build := True\<rparr>) call origin ch"
proof -
  let ?T = "E\<lparr>debug_build := True\<rparr>"
  have safe: "\<not> is_Panic (fst (chain_spec ?T call origin ch))"
    using chain_spec_keeps(1)[of ?T ch call origin] inv call by (metis prod.collapse profile_chain(3,4))
  show ?thesis
  proof (cases d)
    case False
    show ?thesis
    proof (cases call)
      case (BalancesCall inner)
      with safe False show ?thesis
        by (cases inner) (auto simp: unchecked_calls split: prod.splits)
    next
      case (StakingCall inner)
      with safe False show ?thesis
        by (cases inner) (auto simp: bond_spec_def bond_extra_spec_def unbond_spec_def set_controller_spec_def
            as_controller_def Let_def unchecked_calls u128_add_unchecked split: rs.splits sum.splits if_splits)
    qed
  qed simp
qed

lemma total_fits:
  assumes "chain_inv E ch"
  shows "\<exists>t. ab_total d (ch_balances ch who) = Inr t \<and> unat t = worth (ch_balances ch who)"
proof -
  have "worth (ch_balances ch who) < 2 ^ 128"
    using assms solvent_worth by (auto simp: chain_inv_def)
  then show ?thesis
    by (simp add: ab_total_def worth_def u128_add_fits unat_add_no_overflow)
qed

text \<open>C14. No balance overflows. On a well-formed chain the checks of the debug profile never fire: a
  call returns the same and leaves the same chain in the debug and the release build of the program,
  it does not panic, and afterwards \<open>total()\<close> of every account is its exact worth in both builds.\<close>

theorem overflow_checks_never_fire:
  assumes "staking_ok E" "chain_readable E (sr_view s)" "chain_inv E (chain_of E (sr_view s))"
    and "\<not> names_default_controller E call"
    and "SequentialRuntime_dispatch (E\<lparr>debug_build := True\<rparr>) call origin s = (r, s1)"
    and "SequentialRuntime_dispatch (E\<lparr>debug_build := False\<rparr>) call origin s = (r', s2)"
  shows "r' = r \<and> \<not> is_Panic r \<and> chain_of E (sr_view s2) = chain_of E (sr_view s1)
    \<and> (\<forall>d who. \<exists>t. ab_total d (ch_balances (chain_of E (sr_view s1)) who) = Inr t
         \<and> unat t = worth (ch_balances (chain_of E (sr_view s1)) who))"
proof -
  obtain out where out: "outer_dispatch (E\<lparr>debug_build := True\<rparr>) SR call origin s = (out, s1)"
    "r = to_runtime_dispatch_result out"
    by (rule SequentialRuntime_dispatch_cases[OF assms(5)])
  obtain out' where out': "outer_dispatch (E\<lparr>debug_build := False\<rparr>) SR call origin s = (out', s2)"
    "r' = to_runtime_dispatch_result out'"
    by (rule SequentialRuntime_dispatch_cases[OF assms(6)])
  have spec: "chain_spec (E\<lparr>debug_build := True\<rparr>) call origin (chain_of E (sr_view s)) = (out, chain_of E (sr_view s1))"
    "chain_spec (E\<lparr>debug_build := False\<rparr>) call origin (chain_of E (sr_view s)) = (out', chain_of E (sr_view s2))"
    using sequential_call_spec[OF profile_ok[OF assms(1)] _ out(1)] sequential_call_spec[OF profile_ok[OF assms(1)] _ out'(1)]
      assms(2) by simp_all
  have same: "out' = out" "chain_of E (sr_view s2) = chain_of E (sr_view s1)"
    using profile_spec[OF assms(3,4), of False origin] spec by simp_all
  have keeps: "\<not> is_Panic out" "chain_inv E (chain_of E (sr_view s1))"
    using chain_spec_keeps(1,2)[OF _ _ spec(1)] assms(3,4) by simp_all
  have "\<not> is_Panic r"
    using keeps(1) by (cases out rule: to_runtime_dispatch_result.cases) (simp_all add: out(2))
  with same total_fits[OF keeps(2)] out(2) out'(2) show ?thesis
    by (simp del: chain_of_sel)
qed

section \<open>The theorems at a concrete chain\<close>

theorem storage_round_trip_witness:
  "let s1 = snd (map_write CR (BalanceOf ex_env) 3 (ab_new_free 5) (cr_new ts_new 7))
   in map_read CR (BalanceOf ex_env) 3 s1 = (Ok (ab_new_free 5), s1)"
proof -
  have s: "cr_inv (cr_new ts_new 7)" by (simp add: cr_inv_iff cr_new_def)
  obtain s1 where w: "map_write CR (BalanceOf ex_env) 3 (ab_new_free 5) (cr_new ts_new 7) = (Ok (), s1)"
    using conc.write_cases[OF s, of "key_for (BalanceOf ex_env) 3" "StateValue (sm_enc (BalanceOf ex_env) (ab_new_free 5))"]
    by (auto simp: map_write_def cr_new_def ts_new_def cr_read_def ts_read_eq split: prod.splits)
  from storage_round_trip[OF BalanceOf_ok[OF ex_balances_ok] s w] show ?thesis
    by (simp add: w)
qed


theorem overflow_checks_never_fire_witness:
  "let run = (\<lambda>d. SequentialRuntime_dispatch (ex_env\<lparr>debug_build := d\<rparr>) (BalancesCall (Transfer 2 300)) 1
      (sr_new (funded ex_env 1 (- 1)) 7))
   in fst (run False) = fst (run True) \<and> \<not> is_Panic (fst (run True))"
  using overflow_checks_never_fire[OF ex_staking_ok, of "sr_new (funded ex_env 1 (- 1)) 7"
      "BalancesCall (Transfer 2 300)" 1, OF _ _ _ surjective_pairing surjective_pairing]
    chain_funded(2)[OF ex_staking_ok, of 1 "- 1"] chain_inv_funded[OF ex_staking_ok, of 1 "- 1"]
  by (simp add: view_of_new Let_def del: chain_of_sel)

end
