(* ===== verification/Spec2Isabelle.thy ===== *)
theory Spec2Isabelle
  imports Example_Tests State_Tests Test_Run Block_Semantics Well_Typed
begin

text \<open>
  SonicChain: a verification development of the transaction executors of the repository.

  \<^bold>\<open>The program.\<close> It executes the transactions of a block on several worker threads that share one
  state. Every key of the state is tainted with the first thread that accesses it and from then on
  belongs to that thread. A transaction that meets a key of another thread is forwarded to that
  thread or, if that does not help, becomes an orphan which the master executes at the end. The
  block records who executed what, so that validators can execute it again concurrently without
  conflicts.

  \<^bold>\<open>The theories\<close>, bottom up.

    \<^item> \<open>Prelude\<close>: results with errors and panics, state passing, overflow-checked \<open>u128\<close>.
    \<^item> \<open>Primitives\<close>: keys, values, printers and the codec of accounts (\<open>primitives/src/lib.rs\<close>,
      \<open>crypto.rs\<close>).
    \<^item> \<open>Taint_State\<close>, \<open>Taint_Interleaving\<close>: the tainted state (\<open>state/src/lib.rs\<close>). An access is
      two critical sections, one under the read lock and one under the write lock; the second
      theory interleaves those of all threads and shows that accesses are linearizable.
    \<^item> \<open>Runtime\<close>: the two runtimes (\<open>runtime/src/lib.rs\<close>) and the locale \<open>module_runtime_laws\<close>, the
      interface the modules of the chain rely on, interpreted on both.
    \<^item> \<open>Storage\<close>: what \<open>decl_storage_map\<close> and \<open>decl_storage_value\<close> generate
      (\<open>runtime/src/macros.rs\<close>).
    \<^item> \<open>Simulation\<close>: a reference runtime on plain functions and the rules by which a program run on
      a runtime of the interface follows the same program on the reference.
    \<^item> \<open>Balances\<close>, \<open>Staking\<close>: the modules of the chain (\<open>runtime/src/balances.rs\<close>, \<open>staking.rs\<close>) with
      their specifications on decoded storage and the invariant \<open>chain_inv\<close>.
    \<^item> \<open>Example_Env\<close>: concrete codecs that meet the assumptions, for the witnesses.
    \<^item> \<open>Dispatch\<close>: the outer call and \<open>dispatch\<close> of both runtimes.
    \<^item> \<open>Types\<close>, \<open>Pool\<close>: transactions, blocks, messages, and the transaction pool
      (\<open>executor/src/types.rs\<close>, \<open>pool.rs\<close>).
    \<^item> \<open>Crypto\<close>: key pairs, signatures and the test accounts (\<open>primitives/src/crypto.rs\<close>), and signed
      transactions.
    \<^item> \<open>Executor\<close>: the trait, its \<open>author_and_validate\<close>, and the sequential executor
      (\<open>executor/src/lib.rs\<close>, \<open>sequential/mod.rs\<close>).
    \<^item> \<open>Well_Typed\<close>: round trips through the storage maps, typing of the storage, and the bounds of the
      machine integers.
    \<^item> \<open>Distribution\<close>: round robin and connected components (\<open>concurrent/tx_distribution.rs\<close>), and
      exactly when the latter panics.
    \<^item> \<open>Resumption\<close>: how far an interrupted call has got, as the history of its accesses; every call
      has a history on every runtime, and the history determines how it goes on.
    \<^item> \<open>Serializability\<close>: runs of many dispatches by many workers, and what each worker did with its
      own keys.
    \<^item> \<open>Refusal\<close>: a refused dispatch names a worker that owns a key, and only a worker of the run.
    \<^item> \<open>Interference\<close>: what the accesses of other threads leave of an interrupted dispatch.
    \<^item> \<open>Worker\<close>, \<open>Master\<close>: the threads (\<open>concurrent/worker.rs\<close>, \<open>concurrent/master.rs\<close>), a function
      per iteration of each loop; the phase of a thread says in which loop it is.
    \<^item> \<open>System\<close>: the concurrent executor (\<open>concurrent/mod.rs\<close>): all threads and what they share, the
      methods that start a task, and the abstract steps, in which a dispatch is indivisible.
    \<^item> \<open>Threads\<close>: the steps of the program, one critical section at a time; \<open>thread_run\<close> has its runs.
    \<^item> \<open>Log\<close>: the abstract history of a block, a list of dispatches with their outcomes, and
      what it says of the pool and the orphans.
    \<^item> \<open>Block_Authoring\<close>, \<open>Block_Validation\<close>: the invariants of the two tasks for the abstract steps,
      by which every reachable configuration is determined by its log.
    \<^item> \<open>Author_Threads\<close>, \<open>Valid_Threads\<close>: the simulations of \<open>Threads\<close> by the abstract steps.
    \<^item> \<open>Concurrent_Executor\<close>: the properties of the executor as its callers see it.
    \<^item> \<open>Progress\<close>, \<open>Termination\<close>: a weight that every step but an idle poll decreases, and
      termination of both tasks; \<open>always_returns\<close> says that under every schedule a task makes a bounded
      number of steps, is never stuck before it returns, and returns what is expected.
    \<^item> \<open>Example_System\<close>: setting up and cleaning the executor, and a concrete executor.
    \<^item> \<open>Shutdown\<close>: ending the executor: \<open>run_terminate\<close> and \<open>join_all\<close>.
    \<^item> \<open>Block_Semantics\<close>: a block means the sequential execution of its transactions.
    \<^item> \<open>Accesses\<close>, \<open>Confinement\<close>: which keys a call can access, checked on its code, and that no thread
      touches others in any run of either task.
    \<^item> \<open>Conflict_Free\<close>: blocks of calls that announce all their accesses are executed without conflicts.
    \<^item> \<open>Author_And_Validate\<close>: the trait's \<open>author_and_validate\<close> on the concurrent executor, with
      total correctness: both tasks always return.
    \<^item> \<open>Generators\<close>, \<open>Datasets\<close>, \<open>Benchmarks\<close>: the generators of transactions (\<open>executor/src/types.rs\<close>),
      the data sets and the drivers of the benchmarks (\<open>benchmarks/src\<close>).
    \<^item> \<open>Example_Benchmarks\<close>: concrete key pairs, and the theorems on whole runs applied to them.
    \<^item> \<open>Commuting_Transfers\<close>: funded transfers commute, so authoring them is deterministic.
    \<^item> \<open>Test_Run\<close>: the test mode of the executor (\<open>test_run\<close>, \<open>run_test\<close>), in which threads can panic
      and channels close, and the race in it.
    \<^item> \<open>Assertions\<close>, \<open>Testing\<close>: unit tests as computations on the state they work on, which pass if they
      end without a panic; \<open>exact\<close> carries a test from a concrete runtime to the reference one, by the
      locale \<open>exclusive_runtime\<close> of runtimes that nobody else uses.
    \<^item> \<open>State_Tests\<close>, \<open>Runtime_Tests\<close>, \<open>Module_Tests\<close>, \<open>Executor_Tests\<close>, \<open>Worker_Tests\<close>, \<open>Master_Tests\<close>,
      \<open>Concurrent_Tests\<close>: the unit tests of the repository, statement by statement. Those that start threads
      are relations to their results, so what holds of them holds for every schedule that ends. That the tasks they
      start end without a panic under every schedule is shown in \<open>Concurrent_Executor\<close> and \<open>Termination\<close>.
    \<^item> \<open>Example_Tests\<close>: the theorems on tests and on funded transfers applied to concrete codecs.

  \<^bold>\<open>Granularity.\<close> The theorems on the concurrent executor are about \<open>thread_run\<close>. There, a step of a
  worker is: an access to the state under its read lock; an access under the write lock, for a key
  that had no owner under the read lock; the commit of one entry of the cache; an access of the
  sequential runtime; the work on a message before and after a dispatch. Between two steps any
  thread may be scheduled. The work around a dispatch touches only what the worker owns and the ends
  of channels, so it is one step. A channel is a list of messages, oldest first; sending never
  blocks and a message only reaches the thread that owns the receiving end, so the sends between
  two loops of the master are one step. The master uses the state only when no worker does, which
  the simulations show. The debug assertion of a commit and the insertion are one step: the taint it
  reads is the worker's own. \<open>Taint_Interleaving\<close> treats the accesses of arbitrary threads to the
  database by themselves. A dispatch under way is its history so far together with the code of the
  call, which is run again on the history by \<open>resume\<close>; no part of a call is translated twice.

  \<^bold>\<open>Assumptions.\<close> Code outside the repository is a parameter: the codec of the stored types and of
  calls, hashing of keys, and the verification of signatures are fields of the environments
  (\<open>balances_env\<close>, \<open>staking_env\<close>, \<open>exec_env\<close>, \<open>key_env\<close>); what is relied on is \<open>keys_ok\<close> (what a key
  pair signs verifies with its public key), \<open>balances_ok\<close> and \<open>staking_ok\<close>
  (a value decodes to what was encoded, distinct items have distinct keys, nothing decodes from the
  empty value). The theorems on the concurrent executor are about transactions with different ids
  that verify and are new (\<open>submittable\<close>), a state whose values are a well-formed chain
  (\<open>well_formed\<close>), and a distribution that gives every transaction to a worker and changes nothing
  else (\<open>distributer_laws\<close>, which holds of both distributions of the code). Calls that bond under
  the default account are excluded (\<open>names_default_controller\<close>), since they lead to the panic of
  \<open>default_controller_panics\<close>. What the random generators of the benchmarks return is an argument, so
  the theorems on them hold for all draws. \<open>state_eq\<close> compares which keys have an entry as well as
  their values; the theorems that conclude it (\<open>author_and_validate\<close>, the benchmarks) ask for an initial
  state with an entry for every key a transaction can access, without which it can fail
  (\<open>state_eq_rejects_correct_runs\<close>).

  \<^bold>\<open>Bounds.\<close> The search loop of \<open>Distribution\<close> is a \<open>partial_function\<close> and is proved to end; no definition
  takes fuel. A call makes at most \<open>max_accesses\<close> accesses. In \<open>Termination\<close>, \<open>57 n + 246 k + 19\<close> steps suffice to
  author \<open>n\<close> transactions on \<open>k\<close> workers, and \<open>57 n + 189 k + 19\<close> to validate them; ending the
  executor takes at most \<open>2 k\<close>. Transaction ids are \<open>u32\<close>, so the playgrounds are limited to
  \<open>2 ^ 32\<close> transfers, and to as many members as a \<open>u128\<close> can endow.

  \<^bold>\<open>Not modelled.\<close> Measured durations, log lines and the simulated latency of the disk, which
  have no effect on data; parking of threads (the master unparks every worker before it sends a
  task, and a spurious token only makes a worker look at its queue earlier); the tables of measured
  times that the benchmarks write. Two unit tests: \<open>can_share_runtime_state_between_threads\<close>, which never
  joins its threads and so checks nothing, and \<open>pool_must_reorder_when_forward\<close>, which authors on a
  state where a key is tainted from the start, which the theorems on whole runs exclude.
\<close>

end
